(* ===== verification/Davix_Prelude.thy ===== *)
theory Davix_Prelude
  imports Main "HOL-Library.Word" "HOL-Library.Monad_Syntax"
begin

unbundle bit_operations_syntax

text \<open>
  Shared vocabulary of the development: the machine integer types of the kernel, pointers,
  the option monad in which undefined behaviour (a null or dangling dereference) and
  non-termination are the value \<^const>\<open>None\<close>, and the generic lemmas on words and maps
  that the component theories use.
\<close>

section \<open>Types\<close>

type_synonym u8 = "8 word"
type_synonym u32 = "32 word"
type_synonym u64 = "64 word"

text \<open>An object address; a pointer is an address or \<open>nullptr\<close> (\<^const>\<open>None\<close>).\<close>

type_synonym addr = nat
type_synonym ptr = "addr option"

abbreviation nullptr :: "'a option" where
  "nullptr \<equiv> None"

section \<open>Lemma collections\<close>

named_theorems heap_simps \<open>reading and writing fields of heap objects\<close>

section \<open>The option monad\<close>

lemma bind_Some_iff [simp]:
  "(Option.bind m f = Some y) = (\<exists>x. m = Some x \<and> f x = Some y)"
  by (cases m) auto

lemma bind_None_iff:
  "(Option.bind m f = None) = (m = None \<or> (\<exists>x. m = Some x \<and> f x = None))"
  by (cases m) auto

section \<open>Words\<close>

lemma unat_lt_64: "unat (x :: u64) < 18446744073709551616"
  using unsigned_less[of x] by simp

lemma unat_add_64:
  "unat (x + y :: u64) =
     (if unat x + unat y < 18446744073709551616 then unat x + unat y
      else unat x + unat y - 18446744073709551616)"
proof -
  have eq: "unat (x + y) = (unat x + unat y) mod 18446744073709551616"
    by (simp add: unat_word_ariths)
  have "unat x + unat y - 18446744073709551616 < 18446744073709551616"
    using unat_lt_64[of x] unat_lt_64[of y] by linarith
  then show ?thesis
    unfolding eq by (simp add: le_mod_geq not_less)
qed

lemma unat_sub_64:
  "unat (x - y :: u64) =
     (if unat y \<le> unat x then unat x - unat y
      else unat x + 18446744073709551616 - unat y)"
proof (cases "y \<le> x")
  case True
  then show ?thesis by (simp add: word_le_nat_alt unat_sub)
next
  case False
  have "unat x = unat ((x - y) + y)" by simp
  also have "\<dots> = (if unat (x - y) + unat y < 18446744073709551616 then unat (x - y) + unat y
      else unat (x - y) + unat y - 18446744073709551616)"
    by (rule unat_add_64)
  finally have "unat x = (if unat (x - y) + unat y < 18446744073709551616
      then unat (x - y) + unat y else unat (x - y) + unat y - 18446744073709551616)" .
  with False show ?thesis by (auto simp: word_le_nat_alt split: if_splits)
qed

lemmas unat_arith_64 = unat_add_64 unat_sub_64 word_le_nat_alt word_less_nat_alt

end
