(* ===== verification/Dsl_Align.thy ===== *)
theory Dsl_Align
  imports Davix_Prelude
begin

text \<open>
  The integer utilities of \<^verbatim>\<open>include/dsl\<close>: \<^verbatim>\<open>minmax.h\<close>, \<^verbatim>\<open>align.h\<close> and \<^verbatim>\<open>interval.h\<close>.
  Integers are words of the width the template is instantiated with. Alignments are
  powers of two; \<open>align_up\<close> wraps to 0 exactly when no aligned address is left, which is
  what its callers test for.
\<close>

section \<open>Minimum, maximum, clamp (minmax.h)\<close>

text \<open>The kernel uses both with two operands of one unsigned type, which is then the result type.\<close>

definition dsl_min :: "'a::len word \<Rightarrow> 'a word \<Rightarrow> 'a word" where
  "dsl_min a b = (if a < b then a else b)"

definition dsl_max :: "'a::len word \<Rightarrow> 'a word \<Rightarrow> 'a word" where
  "dsl_max a b = (if a > b then a else b)"

definition dsl_clamp :: "'a::len word \<Rightarrow> 'a word \<Rightarrow> 'a word \<Rightarrow> 'a word" where
  "dsl_clamp floor value ceiling = dsl_max floor (dsl_min value ceiling)"

lemma unat_dsl_min: "unat (dsl_min a b) = min (unat a) (unat b)"
  by (simp add: dsl_min_def min_def word_less_nat_alt)

lemma unat_dsl_max: "unat (dsl_max a b) = max (unat a) (unat b)"
  by (simp add: dsl_max_def max_def word_less_nat_alt)

section \<open>Alignment (align.h)\<close>

definition align_mask :: "'b::len word \<Rightarrow> 'b word" where
  "align_mask alignment = (if alignment \<noteq> 0 then alignment - 1 else alignment)"

definition align_up :: "'a::len word \<Rightarrow> 'b::len word \<Rightarrow> 'a word" where
  "align_up value alignment =
     (let a = ucast (align_mask alignment) in (value + a) AND NOT a)"

definition align_down :: "'a::len word \<Rightarrow> 'b::len word \<Rightarrow> 'a word" where
  "align_down value alignment =
     (let a = ucast (align_mask alignment) in value AND NOT a)"

subsection \<open>Arithmetic meaning\<close>

lemma and_not_mask_plus_take_bit: "(v AND NOT (mask k)) + take_bit k v = (v :: 'a::len word)"
proof -
  have "(v AND NOT (mask k)) + take_bit k v = ((v AND NOT (mask k)) OR take_bit k v)"
    by (rule disjunctive_add) (auto simp: bit_simps)
  also have "\<dots> = v"
    by (rule bit_eqI) (auto simp: bit_simps)
  finally show ?thesis .
qed

lemma unat_take_bit: "unat (take_bit k v :: 'a::len word) = unat v mod 2 ^ k"
  by (metis take_bit_eq_mod unsigned_take_bit_eq)

lemma unat_and_not_mask: "unat (v AND NOT (mask k) :: 'a::len word) = unat v div 2 ^ k * 2 ^ k"
proof -
  have eq: "v AND NOT (mask k) = v - take_bit k v"
    using and_not_mask_plus_take_bit[of v k] by (simp add: eq_diff_eq)
  have le: "take_bit k v \<le> v"
    by (simp add: word_le_nat_alt unat_take_bit)
  show ?thesis
    unfolding eq unat_sub[OF le] unat_take_bit by (simp add: minus_mod_eq_div_mult)
qed

lemma pow2_lt_64: "k < 64 \<Longrightarrow> (2::nat) ^ k < 18446744073709551616"
  using power_strict_increasing[of k 64 "2::nat"] by simp

lemma unat_pow2: "k < 64 \<Longrightarrow> unat (2 ^ k :: u64) = 2 ^ k"
proof -
  assume k: "k < 64"
  have "unat (2 ^ k :: u64) = unat (of_nat (2 ^ k) :: u64)" by simp
  also have "\<dots> = 2 ^ k"
    using pow2_lt_64[OF k] by (simp only: unsigned_of_nat take_bit_eq_mod) simp
  finally show ?thesis .
qed

lemma align_mask_pow2: "k < 64 \<Longrightarrow> align_mask (2 ^ k :: u64) = mask k"
  by (auto simp: align_mask_def mask_eq_exp_minus_1)

lemma unat_mask_64: "k < 64 \<Longrightarrow> unat (mask k :: u64) = 2 ^ k - 1"
  by (simp add: mask_eq_exp_minus_1 unat_sub_64 unat_pow2)

lemma unat_align_down:
  "k < 64 \<Longrightarrow> unat (align_down v (2 ^ k :: u64) :: u64) = unat v div 2 ^ k * 2 ^ k"
  by (simp add: align_down_def Let_def align_mask_pow2 unat_and_not_mask)

lemma align_up_eq: "k < 64 \<Longrightarrow> align_up v (2 ^ k :: u64) = (v + mask k) AND NOT (mask k :: u64)"
  by (simp add: align_up_def Let_def align_mask_pow2)

lemma unat_align_up:
  assumes "k < 64" and "unat v + 2 ^ k \<le> 18446744073709551616"
  shows "unat (align_up v (2 ^ k :: u64) :: u64) = (unat v + 2 ^ k - Suc 0) div 2 ^ k * 2 ^ k"
  using assms by (auto simp: align_up_eq unat_and_not_mask unat_add_64 unat_mask_64)

lemma align_up_wraps:
  assumes "k < 64" and "\<not> unat v + 2 ^ k \<le> 18446744073709551616"
  shows "align_up v (2 ^ k :: u64) = (0 :: u64)"
proof -
  have "unat v + 2 ^ k - Suc 0 - 18446744073709551616 < 2 ^ k"
    using unat_lt_64[of v] zero_less_power[of "2::nat" k] by linarith
  then have "unat (align_up v (2 ^ k :: u64) :: u64) = 0"
    using assms by (simp add: align_up_eq unat_and_not_mask unat_add_64 unat_mask_64)
  then show ?thesis by (simp add: unat_eq_zero)
qed

subsection \<open>Rounding\<close>

lemma round_up_ge: "0 < m \<Longrightarrow> n \<le> (n + m - Suc 0) div m * (m::nat)"
  using div_mult_mod_eq[of "n + m - Suc 0" m] mod_less_divisor[of m "n + m - Suc 0"] by linarith

lemma round_up_least:
  assumes "0 < (m::nat)" "m dvd w" "n \<le> w"
  shows "(n + m - Suc 0) div m * m \<le> w"
proof -
  from assms(2) obtain q where w: "w = q * m" by (metis dvd_def mult.commute)
  have "n + m - Suc 0 < (q + 1) * m"
    using assms(1,3) w by (simp add: algebra_simps)
  then have "(n + m - Suc 0) div m < q + 1"
    using assms(1) by (simp add: less_mult_imp_div_less)
  then show ?thesis
    unfolding w using mult_le_mono1[of "(n + m - Suc 0) div m" q m] by linarith
qed

lemma round_down_greatest:
  assumes "0 < (m::nat)" "m dvd w" "w \<le> n"
  shows "w \<le> n div m * m"
proof -
  from assms(2) obtain q where w: "w = q * m" by (metis dvd_def mult.commute)
  from assms(1,3) have "q \<le> n div m"
    unfolding w by (simp add: less_eq_div_iff_mult_less_eq)
  then show ?thesis unfolding w by simp
qed

lemma no_multiple_near_top:
  assumes k: "k < 64" and ov: "\<not> unat (v :: u64) + 2 ^ k \<le> 18446744073709551616"
    and "v \<le> w"
  shows "\<not> 2 ^ k dvd unat w"
proof
  assume d: "2 ^ k dvd unat w"
  have p: "(2::nat) ^ 64 = 2 ^ (64 - k) * 2 ^ k"
    using k by (simp flip: power_add)
  from d obtain q where q: "unat w = q * 2 ^ k" by (metis dvd_def mult.commute)
  have "q * 2 ^ k < (2::nat) ^ (64 - k) * 2 ^ k"
    using unat_lt_64[of w] by (simp only: p[symmetric] q[symmetric]) simp
  then have "q + 1 \<le> 2 ^ (64 - k)" by simp
  then have "(q + 1) * 2 ^ k \<le> (2::nat) ^ 64"
    unfolding p by (rule mult_le_mono1)
  moreover have "unat v \<le> unat w" using assms(3) by (simp add: word_le_nat_alt)
  ultimately show False using ov q zero_less_power[of "2::nat" k] by (simp add: algebra_simps)
qed

lemma dvd_align_up: "k < 64 \<Longrightarrow> 2 ^ k dvd unat (align_up v (2 ^ k :: u64) :: u64)"
  by (cases "unat v + 2 ^ k \<le> 18446744073709551616")
    (simp_all add: unat_align_up align_up_wraps)

lemma dvd_align_down: "k < 64 \<Longrightarrow> 2 ^ k dvd unat (align_down v (2 ^ k :: u64) :: u64)"
  by (simp add: unat_align_down)

lemma align_down_le: "k < 64 \<Longrightarrow> align_down v (2 ^ k :: u64) \<le> (v :: u64)"
  by (simp add: word_le_nat_alt unat_align_down)

lemma align_up_ge_iff:
  assumes "k < 64"
  shows "(v :: u64) \<le> align_up v (2 ^ k :: u64) \<longleftrightarrow> v = 0 \<or> unat v + 2 ^ k \<le> 18446744073709551616"
  using assms round_up_ge[of "2 ^ k" "unat v"]
  by (cases "unat v + 2 ^ k \<le> 18446744073709551616")
    (auto simp: word_le_nat_alt unat_align_up align_up_wraps unat_eq_zero)

text \<open>
  For every power-of-two alignment, \<open>align_up\<close> yields the least multiple of the alignment
  that is not below the address; when no such multiple fits in 64 bits it yields 0.
\<close>

theorem align_up_least:
  assumes k: "k < 64"
  shows "if \<exists>w. v \<le> w \<and> 2 ^ k dvd unat w
         then v \<le> align_up v (2 ^ k :: u64) \<and> 2 ^ k dvd unat (align_up v (2 ^ k :: u64) :: u64)
              \<and> (\<forall>w. v \<le> w \<and> 2 ^ k dvd unat w \<longrightarrow> align_up v (2 ^ k :: u64) \<le> (w :: u64))
         else align_up v (2 ^ k :: u64) = 0"
proof (cases "unat v + 2 ^ k \<le> 18446744073709551616")
  case True
  have ge: "v \<le> align_up v (2 ^ k :: u64)" using True k by (simp add: align_up_ge_iff)
  moreover have "\<forall>w. v \<le> w \<and> 2 ^ k dvd unat w \<longrightarrow> align_up v (2 ^ k :: u64) \<le> (w :: u64)"
    using True k by (auto simp: word_le_nat_alt unat_align_up intro: round_up_least)
  ultimately show ?thesis using dvd_align_up[OF k, of v] by auto
next
  case False
  then show ?thesis using no_multiple_near_top[OF k False] k by (auto simp: align_up_wraps)
qed

theorem align_up_least_witness:
  "(12::nat) < 64 \<and> align_up (0x1234 :: u64) (2 ^ 12 :: u64) = 0x2000
   \<and> \<not> (\<exists>w :: u64. 0x1234 \<le> w \<and> 2 ^ 12 dvd unat w \<and> w < 0x2000)"
proof -
  have k: "(12::nat) < 64" by simp
  have v: "align_up (0x1234 :: u64) (2 ^ 12 :: u64) = (0x2000 :: u64)"
    by (simp add: align_up_def align_mask_def)
  have "\<exists>w. (0x1234 :: u64) \<le> w \<and> 2 ^ 12 dvd unat w"
    by (rule exI[of _ "0x2000"]) simp
  then have "\<forall>w. 0x1234 \<le> w \<and> 2 ^ 12 dvd unat w \<longrightarrow> (0x2000 :: u64) \<le> w"
    using align_up_least[OF k, of "0x1234"] v by simp
  with v show ?thesis by (auto simp: not_less[symmetric])
qed

section \<open>Intervals (interval.h)\<close>

text \<open>The templates are instantiated with \<^verbatim>\<open>uintptr_t\<close> only.\<close>

record first_last =
  m_first :: "u64"
  m_last :: "u64"

record start_end =
  m_start :: "u64"
  m_end :: "u64"

definition first_last_start :: "first_last \<Rightarrow> u64" where
  "first_last_start i = m_first i"

definition first_last_end :: "first_last \<Rightarrow> u64" where
  "first_last_end i = m_last i + 1"

definition first_last_to_start_end :: "first_last \<Rightarrow> start_end" where
  "first_last_to_start_end i = \<lparr>m_start = m_first i, m_end = m_last i + 1\<rparr>"

definition start_end_first :: "start_end \<Rightarrow> u64" where
  "start_end_first i = m_start i"

definition start_end_last :: "start_end \<Rightarrow> u64" where
  "start_end_last i = m_end i - 1"

definition start_end_to_first_last :: "start_end \<Rightarrow> first_last" where
  "start_end_to_first_last i = \<lparr>m_first = m_start i, m_last = m_end i - 1\<rparr>"

lemma interval_roundtrip [simp]:
  "start_end_to_first_last (first_last_to_start_end i) = i"
  "first_last_to_start_end (start_end_to_first_last j) = j"
  by (simp_all add: start_end_to_first_last_def first_last_to_start_end_def)

lemma interval_conversion_keeps_bounds:
  "start_end_first (first_last_to_start_end i) = m_first i"
  "start_end_last (first_last_to_start_end i) = m_last i"
  "first_last_start (start_end_to_first_last j) = m_start j"
  "first_last_end (start_end_to_first_last j) = m_end j"
  by (simp_all add: start_end_first_def start_end_last_def first_last_start_def
      first_last_end_def start_end_to_first_last_def first_last_to_start_end_def)

end
