(* ===== verification/Dsl_List.thy ===== *)
theory Dsl_List
  imports Davix_Prelude
begin

text \<open>
  The intrusive doubly linked list of \<^verbatim>\<open>include/dsl/list.h\<close>. A heap maps addresses to
  \<^verbatim>\<open>ListHead\<close> objects; every assignment through a pointer is one heap write, and a write or
  read through a dangling pointer is \<^const>\<open>None\<close>. \<open>container_of\<close> is the identity: an object
  and its embedded \<^verbatim>\<open>ListHead\<close> share their address in the model. The abstraction
  \<open>ring\<close> says that a list anchored at \<open>this\<close> holds a given sequence of elements, and the
  lemmas show each operation to implement the operation on sequences.
\<close>

section \<open>Heap of list nodes\<close>

record list_head =
  l_next :: addr
  l_prev :: addr

type_synonym list_heap = "addr \<rightharpoonup> list_head"

definition get_next :: "list_heap \<Rightarrow> addr \<Rightarrow> addr option" where
  "get_next h a = map_option l_next (h a)"

definition get_prev :: "list_heap \<Rightarrow> addr \<Rightarrow> addr option" where
  "get_prev h a = map_option l_prev (h a)"

definition set_next :: "list_heap \<Rightarrow> addr \<Rightarrow> addr \<Rightarrow> list_heap option" where
  "set_next h a v = map_option (\<lambda>n. h(a \<mapsto> n\<lparr>l_next := v\<rparr>)) (h a)"

definition set_prev :: "list_heap \<Rightarrow> addr \<Rightarrow> addr \<Rightarrow> list_heap option" where
  "set_prev h a v = map_option (\<lambda>n. h(a \<mapsto> n\<lparr>l_prev := v\<rparr>)) (h a)"

section \<open>ListHead operations\<close>

definition ListHead_init :: "list_heap \<Rightarrow> addr \<Rightarrow> list_heap option" where
  "ListHead_init h this = do {
     h \<leftarrow> set_next h this this;
     set_prev h this this
   }"

definition push_front :: "list_heap \<Rightarrow> addr \<Rightarrow> addr \<Rightarrow> list_heap option" where
  "push_front h this node = do {
     h \<leftarrow> set_prev h node this;
     nx \<leftarrow> get_next h this;
     h \<leftarrow> set_next h node nx;
     nx \<leftarrow> get_next h this;
     h \<leftarrow> set_prev h nx node;
     set_next h this node
   }"

definition push_back :: "list_heap \<Rightarrow> addr \<Rightarrow> addr \<Rightarrow> list_heap option" where
  "push_back h this node = do {
     pv \<leftarrow> get_prev h this;
     h \<leftarrow> set_prev h node pv;
     h \<leftarrow> set_next h node this;
     pv \<leftarrow> get_prev h this;
     h \<leftarrow> set_next h pv node;
     set_prev h this node
   }"

definition ListHead_remove :: "list_heap \<Rightarrow> addr \<Rightarrow> list_heap option" where
  "ListHead_remove h this = do {
     nx \<leftarrow> get_next h this;
     pv \<leftarrow> get_prev h this;
     h \<leftarrow> set_prev h nx pv;
     pv \<leftarrow> get_prev h this;
     nx \<leftarrow> get_next h this;
     h \<leftarrow> set_next h pv nx;
     h \<leftarrow> set_prev h this 0xdeadbeef;
     set_next h this 0xcafebabe
   }"

definition ListHead_adopt :: "list_heap \<Rightarrow> addr \<Rightarrow> addr \<Rightarrow> list_heap option" where
  "ListHead_adopt h this other = do {
     first \<leftarrow> get_next h other;
     last \<leftarrow> get_prev h other;
     if first = other then do {
       h \<leftarrow> set_next h this this;
       set_prev h this this
     } else do {
       h \<leftarrow> set_next h other other;
       h \<leftarrow> set_prev h other other;
       h \<leftarrow> set_prev h first this;
       h \<leftarrow> set_next h last this;
       h \<leftarrow> set_next h this first;
       set_prev h this last
     }
   }"

definition ListHead_empty :: "list_heap \<Rightarrow> addr \<Rightarrow> bool option" where
  "ListHead_empty h this = do {
     nx \<leftarrow> get_next h this;
     Some (nx = this)
   }"

section \<open>TypedList operations\<close>

definition pop_front :: "list_heap \<Rightarrow> addr \<Rightarrow> (addr \<times> list_heap) option" where
  "pop_front h this = do {
     it \<leftarrow> get_next h this;
     h \<leftarrow> ListHead_remove h it;
     Some (it, h)
   }"

definition pop_back :: "list_heap \<Rightarrow> addr \<Rightarrow> (addr \<times> list_heap) option" where
  "pop_back h this = do {
     it \<leftarrow> get_prev h this;
     h \<leftarrow> ListHead_remove h it;
     Some (it, h)
   }"

text \<open>The range-based \<^verbatim>\<open>for\<close> loop from \<^verbatim>\<open>begin()\<close> to \<^verbatim>\<open>end()\<close>, collecting what it visits.\<close>

partial_function (option) list_iterate :: "list_heap \<Rightarrow> addr \<Rightarrow> addr \<Rightarrow> addr list option" where
  "list_iterate h this cur =
     (if cur = this then Some []
      else do {
        nx \<leftarrow> get_next h cur;
        rest \<leftarrow> list_iterate h this nx;
        Some (cur # rest)
      })"

definition list_elements :: "list_heap \<Rightarrow> addr \<Rightarrow> addr list option" where
  "list_elements h this = do {
     b \<leftarrow> get_next h this;
     list_iterate h this b
   }"

section \<open>Field reads after field writes\<close>

lemma set_next_Some [heap_simps]: "(set_next h a v = Some h') = (\<exists>n. h a = Some n \<and> h' = h(a \<mapsto> n\<lparr>l_next := v\<rparr>))"
  by (auto simp: set_next_def)

lemma set_prev_Some [heap_simps]: "(set_prev h a v = Some h') = (\<exists>n. h a = Some n \<and> h' = h(a \<mapsto> n\<lparr>l_prev := v\<rparr>))"
  by (auto simp: set_prev_def)

section \<open>Abstraction\<close>

definition link :: "list_heap \<Rightarrow> addr \<Rightarrow> addr \<Rightarrow> bool" where
  "link h a b \<longleftrightarrow> get_next h a = Some b \<and> get_prev h b = Some a"

fun chain :: "list_heap \<Rightarrow> addr list \<Rightarrow> bool" where
  "chain h (a # b # xs) = (link h a b \<and> chain h (b # xs))"
| "chain h _ = True"

definition ring :: "list_heap \<Rightarrow> addr \<Rightarrow> addr list \<Rightarrow> bool" where
  "ring h this xs \<longleftrightarrow> distinct (this # xs) \<and> chain h (this # xs @ [this])"

lemma chain_append: "chain h (xs @ a # ys) = (chain h (xs @ [a]) \<and> chain h (a # ys))"
proof (induction xs)
  case Nil
  then show ?case by simp
next
  case (Cons x xs)
  then show ?case by (cases xs) auto
qed

lemma chain_cong:
  assumes "\<And>a. a \<in> set (butlast xs) \<Longrightarrow> get_next h' a = get_next h a"
    and "\<And>b. b \<in> set (tl xs) \<Longrightarrow> get_prev h' b = get_prev h b"
  shows "chain h' xs = chain h xs"
  using assms by (induction h xs rule: chain.induct) (auto simp: link_def)

lemma ring_rotate: "ring h this (xs @ a # ys) = ring h a (ys @ this # xs)"
proof -
  have "chain h (this # (xs @ a # ys) @ [this]) = (chain h (this # xs @ [a]) \<and> chain h (a # ys @ [this]))"
    using chain_append[of h "this # xs" a "ys @ [this]"] by simp
  moreover have "chain h (a # (ys @ this # xs) @ [a]) = (chain h (a # ys @ [this]) \<and> chain h (this # xs @ [a]))"
    using chain_append[of h "a # ys" this "xs @ [a]"] by simp
  ultimately show ?thesis unfolding ring_def by auto
qed

lemma ring_allocated: "ring h this xs \<Longrightarrow> x \<in> set (this # xs) \<Longrightarrow> x \<in> dom h"
proof -
  have *: "chain h ys \<Longrightarrow> x \<in> set (butlast ys) \<Longrightarrow> x \<in> dom h" for ys
    by (induction h ys rule: chain.induct) (auto simp: link_def get_next_def split: if_splits)
  assume "ring h this xs" "x \<in> set (this # xs)"
  then show ?thesis using *[of "this # xs @ [this]"] by (auto simp: ring_def butlast_append)
qed

section \<open>Operations on rings\<close>

text \<open>
  Both insertions write \<open>node\<close> between two linked neighbours \<open>a\<close> and \<open>b\<close>, which may be the
  same address when the list is empty.
\<close>

definition spliced :: "list_heap \<Rightarrow> addr \<Rightarrow> addr \<Rightarrow> addr \<Rightarrow> list_heap \<Rightarrow> bool" where
  "spliced h a b node h' \<longleftrightarrow>
     (\<forall>x. get_next h' x = (if x = a then Some node else if x = node then Some b else get_next h x)) \<and>
     (\<forall>x. get_prev h' x = (if x = b then Some node else if x = node then Some a else get_prev h x)) \<and>
     dom h' = dom h \<and> (\<forall>x. x \<notin> {a, b, node} \<longrightarrow> h' x = h x)"

lemma push_front_spliced:
  assumes "link h this b" and "node \<in> dom h" and "node \<noteq> this" and "node \<noteq> b"
  shows "\<exists>h'. push_front h this node = Some h' \<and> spliced h this b node h'"
  using assms
  by (auto simp: push_front_def spliced_def link_def get_next_def get_prev_def set_next_def set_prev_def)

lemma push_back_spliced:
  assumes "link h a this" and "node \<in> dom h" and "node \<noteq> this" and "node \<noteq> a"
  shows "\<exists>h'. push_back h this node = Some h' \<and> spliced h a this node h'"
  using assms
  by (auto simp: push_back_def spliced_def link_def get_next_def get_prev_def set_next_def set_prev_def)

lemma spliced_ring:
  assumes r: "ring h a xs" and xs: "xs @ [a] = b # rest"
    and n: "node \<notin> set (a # xs)" and s: "spliced h a b node h'"
  shows "ring h' a (node # xs)"
proof -
  have d: "distinct (a # xs)" and c: "chain h (b # rest)"
    using r xs by (cases rest; simp add: ring_def)+
  have bl: "butlast (b # rest) = xs" using xs by (metis butlast_snoc)
  have tl: "b \<notin> set (tl (b # rest))" "node \<notin> set (b # rest)" "a \<notin> set (butlast (b # rest))"
    using d xs n bl by (cases xs; auto)+
  have "chain h' (b # rest) = chain h (b # rest)"
    by (rule chain_cong) (use s tl n bl in \<open>auto simp: spliced_def\<close>)
  then have "chain h' (a # node # b # rest)"
    using c s n tl by (auto simp: link_def spliced_def)
  then show ?thesis using d n unfolding ring_def xs[symmetric] by simp
qed

lemma push_front_ring:
  assumes r: "ring h this xs" and n: "node \<in> dom h" "node \<notin> set (this # xs)"
  shows "\<exists>h'. push_front h this node = Some h' \<and> ring h' this (node # xs) \<and> dom h' = dom h
           \<and> (\<forall>x. x \<notin> set (this # node # xs) \<longrightarrow> h' x = h x)"
proof -
  obtain b rest where xs: "xs @ [this] = b # rest" by (cases xs) auto
  have l: "link h this b" using r xs by (simp add: ring_def)
  have b: "b \<in> set (this # xs)" using xs by (cases xs) auto
  obtain h' where h': "push_front h this node = Some h'" "spliced h this b node h'"
    using push_front_spliced[OF l n(1)] n(2) b by auto
  have "ring h' this (node # xs)" by (rule spliced_ring[OF r xs n(2) h'(2)])
  with h' b show ?thesis by (auto simp: spliced_def)
qed

lemma push_back_ring:
  assumes r: "ring h this xs" and n: "node \<in> dom h" "node \<notin> set (this # xs)"
  shows "\<exists>h'. push_back h this node = Some h' \<and> ring h' this (xs @ [node]) \<and> dom h' = dom h
           \<and> (\<forall>x. x \<notin> set (this # node # xs) \<longrightarrow> h' x = h x)"
proof (cases xs rule: rev_cases)
  case Nil
  then have l: "link h this this" using r by (simp add: ring_def)
  obtain h' where h': "push_back h this node = Some h'" "spliced h this this node h'"
    using push_back_spliced[OF l n(1)] n(2) by auto
  have "ring h' this [node]"
    using spliced_ring[OF r, of this "[]" node h'] Nil n(2) h'(2) by simp
  with h' Nil show ?thesis by (auto simp: spliced_def)
next
  case (snoc zs a)
  then have ra: "ring h a (this # zs)" using r ring_rotate[of h this zs a "[]"] by simp
  then have l: "link h a this" by (simp add: ring_def)
  obtain h' where h': "push_back h this node = Some h'" "spliced h a this node h'"
    using push_back_spliced[OF l n(1)] n(2) snoc by auto
  have "ring h' a (node # this # zs)"
    using spliced_ring[OF ra, of this "zs @ [a]" node h'] n(2) snoc h'(2) by auto
  then have "ring h' this (xs @ [node])"
    using ring_rotate[of h' a "[node]" this zs] snoc by simp
  with h' snoc show ?thesis by (auto simp: spliced_def)
qed

text \<open>Insertion after an element in the middle of a list, as the VMA tree does it.\<close>

lemma push_front_middle:
  assumes r: "ring h this (xs @ a # ys)" and n: "node \<in> dom h" "node \<notin> set (this # xs @ a # ys)"
  shows "\<exists>h'. push_front h a node = Some h' \<and> ring h' this (xs @ a # node # ys) \<and> dom h' = dom h
           \<and> (\<forall>x. x \<notin> set (this # node # xs @ a # ys) \<longrightarrow> h' x = h x)"
proof -
  have "ring h a (ys @ this # xs)" using r by (simp add: ring_rotate)
  from push_front_ring[OF this n(1)] n(2)
  obtain h' where "push_front h a node = Some h'" "ring h' a ((node # ys) @ this # xs)" "dom h' = dom h"
    "\<forall>x. x \<notin> set (this # node # xs @ a # ys) \<longrightarrow> h' x = h x"
    by auto
  then show ?thesis by (auto simp: ring_rotate)
qed

definition unspliced :: "list_heap \<Rightarrow> addr \<Rightarrow> addr \<Rightarrow> addr \<Rightarrow> list_heap \<Rightarrow> bool" where
  "unspliced h p n a h' \<longleftrightarrow>
     (\<forall>x. x \<noteq> a \<longrightarrow> get_next h' x = (if x = p then Some n else get_next h x)) \<and>
     (\<forall>x. x \<noteq> a \<longrightarrow> get_prev h' x = (if x = n then Some p else get_prev h x)) \<and>
     dom h' = dom h \<and> (\<forall>x. x \<notin> {a, p, n} \<longrightarrow> h' x = h x)"

lemma ListHead_remove_unspliced:
  assumes "link h p a" and "link h a n" and "p \<noteq> a" and "n \<noteq> a"
  shows "\<exists>h'. ListHead_remove h a = Some h' \<and> unspliced h p n a h'"
  using assms
  by (auto simp: ListHead_remove_def unspliced_def link_def get_next_def get_prev_def set_next_def set_prev_def)

lemma ListHead_remove_ring:
  assumes r: "ring h this (xs @ a # ys)"
  shows "\<exists>h'. ListHead_remove h a = Some h' \<and> ring h' this (xs @ ys) \<and> dom h' = dom h
           \<and> (\<forall>x. x \<notin> set (this # xs @ a # ys) \<longrightarrow> h' x = h x)"
proof -
  obtain us p where us: "this # xs = us @ [p]" by (metis append_butlast_last_id list.distinct(1))
  obtain n vs where vs: "ys @ [this] = n # vs" by (cases ys) auto
  have d: "distinct (this # xs @ a # ys)" using r by (simp add: ring_def)
  have "this # (xs @ a # ys) @ [this] = us @ p # a # n # vs"
    using us vs by (metis append.assoc append_Cons append_Nil)
  then have ch: "chain h (us @ [p])" "link h p a" "link h a n" "chain h (n # vs)"
    using r chain_append[of h us p "a # n # vs"] by (simp_all add: ring_def)
  have mem: "set (this # xs) = set (us @ [p])" "set (ys @ [this]) = set (n # vs)"
    by (simp_all only: us vs)
  have dist: "distinct (us @ [p])" "distinct (n # vs)" "a \<notin> set (us @ [p])" "a \<notin> set (n # vs)"
    using d mem by (auto simp flip: us vs)
  obtain h' where h': "ListHead_remove h a = Some h'" "unspliced h p n a h'"
    using ListHead_remove_unspliced[OF ch(2,3)] dist by auto
  have n: "n \<notin> set (tl (us @ [p]))" and p: "p \<notin> set (butlast (n # vs))"
    using d us vs by (cases ys; cases us; auto)+
  have sub: "set (tl (us @ [p])) \<subseteq> set (us @ [p])" "set (butlast (n # vs)) \<subseteq> set (n # vs)"
    by (cases us; auto dest: in_set_butlastD)+
  have fn: "x \<noteq> a \<Longrightarrow> x \<noteq> p \<Longrightarrow> get_next h' x = get_next h x"
    and fp: "x \<noteq> a \<Longrightarrow> x \<noteq> n \<Longrightarrow> get_prev h' x = get_prev h x" for x
    using h'(2) by (simp_all add: unspliced_def)
  have "x \<in> set us \<Longrightarrow> x \<noteq> a \<and> x \<noteq> p" "x \<in> set (tl (us @ [p])) \<Longrightarrow> x \<noteq> a \<and> x \<noteq> n"
    "x \<in> set (butlast (n # vs)) \<Longrightarrow> x \<noteq> a \<and> x \<noteq> p" "x \<in> set vs \<Longrightarrow> x \<noteq> a \<and> x \<noteq> n" for x
    using dist n p sub by auto
  then have "chain h' (us @ [p]) = chain h (us @ [p])" "chain h' (n # vs) = chain h (n # vs)"
    by (intro chain_cong; simp add: fn fp)+
  moreover have "link h' p n" using h'(2) dist by (auto simp: link_def unspliced_def)
  ultimately have "chain h' (us @ p # n # vs)"
    using ch chain_append[of h' us p "n # vs"] by simp
  moreover have "this # (xs @ ys) @ [this] = us @ p # n # vs"
    using us vs by (metis append.assoc append_Cons append_Nil)
  ultimately have "ring h' this (xs @ ys)" using d unfolding ring_def by auto
  moreover have "{a, p, n} \<subseteq> set (this # xs @ a # ys)" using mem by auto
  ultimately show ?thesis using h' by (auto simp: unspliced_def)
qed

lemma ListHead_init_ring:
  assumes "this \<in> dom h"
  shows "\<exists>h'. ListHead_init h this = Some h' \<and> ring h' this [] \<and> dom h' = dom h
           \<and> (\<forall>x. x \<noteq> this \<longrightarrow> h' x = h x)"
  using assms
  by (auto simp: ListHead_init_def ring_def link_def get_next_def get_prev_def set_next_def set_prev_def)

lemma ListHead_empty_ring: "ring h this xs \<Longrightarrow> ListHead_empty h this = Some (xs = [])"
  by (cases xs) (auto simp: ListHead_empty_def ring_def link_def)

lemma pop_front_ring:
  assumes r: "ring h this (x # xs)"
  shows "\<exists>h'. pop_front h this = Some (x, h') \<and> ring h' this xs \<and> dom h' = dom h
           \<and> (\<forall>y. y \<notin> set (this # x # xs) \<longrightarrow> h' y = h y)"
proof -
  have "get_next h this = Some x" using r by (simp add: ring_def link_def)
  moreover have "ring h this ([] @ x # xs)" using r by simp
  ultimately show ?thesis
    using ListHead_remove_ring[of h this "[]" x xs] by (auto simp: pop_front_def)
qed

lemma pop_back_ring:
  assumes r: "ring h this (xs @ [x])"
  shows "\<exists>h'. pop_back h this = Some (x, h') \<and> ring h' this xs \<and> dom h' = dom h
           \<and> (\<forall>y. y \<notin> set (this # x # xs) \<longrightarrow> h' y = h y)"
proof -
  have "ring h x (this # xs)" using r ring_rotate[of h this xs x "[]"] by simp
  then have "get_prev h this = Some x" by (simp add: ring_def link_def)
  then show ?thesis
    using ListHead_remove_ring[of h this xs x "[]"] r by (auto simp: pop_back_def)
qed

lemma list_iterate_chain:
  "chain h (c # ys @ [this]) \<Longrightarrow> this \<notin> set (c # ys) \<Longrightarrow> list_iterate h this c = Some (c # ys)"
proof (induction ys arbitrary: c)
  case Nil
  then show ?case by (simp add: list_iterate.simps[of h this c] list_iterate.simps[of h this this] link_def)
next
  case (Cons y ys)
  then show ?case by (simp add: list_iterate.simps[of h this c] link_def)
qed

lemma list_elements_ring: "ring h this xs \<Longrightarrow> list_elements h this = Some xs"
proof (cases xs)
  case Nil
  moreover assume "ring h this xs"
  ultimately show ?thesis
    by (simp add: list_elements_def ring_def link_def list_iterate.simps[of h this this])
next
  case (Cons c ys)
  moreover assume "ring h this xs"
  ultimately show ?thesis
    using list_iterate_chain[of h c ys this] by (simp add: list_elements_def ring_def link_def)
qed

definition adopted :: "list_heap \<Rightarrow> addr \<Rightarrow> addr \<Rightarrow> addr \<Rightarrow> addr \<Rightarrow> list_heap \<Rightarrow> bool" where
  "adopted h this other first lst h' \<longleftrightarrow>
     (\<forall>x. get_next h' x = (if x = this then Some first else if x = lst then Some this
        else if x = other then Some other else get_next h x)) \<and>
     (\<forall>x. get_prev h' x = (if x = this then Some lst else if x = first then Some this
        else if x = other then Some other else get_prev h x)) \<and>
     dom h' = dom h \<and> (\<forall>x. x \<notin> {this, other, first, lst} \<longrightarrow> h' x = h x)"

lemma ListHead_adopt_adopted:
  assumes "link h other first" "link h lst other" "first \<noteq> other" "lst \<noteq> other"
    "first \<noteq> this" "lst \<noteq> this" "this \<noteq> other" "this \<in> dom h"
  shows "\<exists>h'. ListHead_adopt h this other = Some h' \<and> adopted h this other first lst h'"
  using assms
  by (auto simp: ListHead_adopt_def adopted_def link_def get_next_def get_prev_def set_next_def set_prev_def)

lemma ListHead_adopt_ring:
  assumes r: "ring h other xs" and t: "this \<in> dom h" "this \<notin> set (other # xs)"
  shows "\<exists>h'. ListHead_adopt h this other = Some h' \<and> ring h' this xs \<and> ring h' other [] \<and> dom h' = dom h
           \<and> (\<forall>x. x \<notin> set (this # other # xs) \<longrightarrow> h' x = h x)"
proof (cases xs)
  case Nil
  then have "get_next h other = Some other" "get_prev h other = Some other"
    using r by (simp_all add: ring_def link_def)
  with Nil t r show ?thesis
    by (auto simp: ListHead_adopt_def ring_def link_def get_next_def get_prev_def set_next_def set_prev_def)
next
  case (Cons first ys)
  then obtain us lst where us: "xs = us @ [lst]" by (metis list.distinct(1) rev_exhaust)
  have d: "distinct (other # xs)" and l1: "link h other first" and c0: "chain h (xs @ [other])"
    using r Cons by (simp_all add: ring_def)
  from c0 have c: "chain h xs" and l2: "link h lst other"
    unfolding us using chain_append[of h us lst "[other]"] by simp_all
  have m: "first \<in> set xs" using Cons by simp
  have m': "lst \<in> set xs" using us by simp
  obtain h' where h': "ListHead_adopt h this other = Some h'" "adopted h this other first lst h'"
    using ListHead_adopt_adopted[OF l1 l2, of this] d t m m' by auto
  have bt: "butlast xs = us" by (simp add: us)
  have bt': "tl xs = ys" by (simp add: Cons)
  have "x \<in> set us \<Longrightarrow> x \<noteq> this \<and> x \<noteq> other \<and> x \<noteq> lst" for x using d t us by auto
  moreover have "x \<in> set ys \<Longrightarrow> x \<noteq> this \<and> x \<noteq> other \<and> x \<noteq> first" for x using d t Cons by auto
  ultimately have "chain h' xs = chain h xs"
    using h'(2) by (intro chain_cong) (simp_all add: adopted_def bt bt')
  moreover have "link h' this first" "link h' lst this" "link h' other other"
    using h'(2) d t m m' by (auto simp: adopted_def link_def)
  moreover have "chain h' (us @ [lst, this]) \<longleftrightarrow> chain h' xs \<and> link h' lst this"
    using chain_append[of h' us lst "[this]"] us by simp
  ultimately have "chain h' (xs @ [this])" "link h' this first" "ring h' other []"
    using c us by (simp_all add: ring_def)
  then have "chain h' (this # xs @ [this])" "ring h' other []" by (simp_all add: Cons)
  then have "ring h' this xs" using d t by (simp add: ring_def)
  with h' \<open>ring h' other []\<close> m m' show ?thesis by (auto simp: adopted_def)
qed

lemma ring_frame:
  assumes "\<And>x. x \<in> set (this # xs) \<Longrightarrow> h' x = h x"
  shows "ring h' this xs = ring h this xs"
proof -
  have "chain h' (this # xs @ [this]) = chain h (this # xs @ [this])"
    by (rule chain_cong) (use assms in \<open>auto simp: get_next_def get_prev_def butlast_append\<close>)
  then show ?thesis by (simp add: ring_def)
qed

lemmas ring_ops = push_front_ring push_back_ring pop_front_ring pop_back_ring

section \<open>The queue and stack contracts\<close>

text \<open>
  Run queues, DPC lists and SMP call lists use the list as a queue (\<open>push_back\<close>,
  \<open>pop_front\<close>); the free lists of the allocators use it as a stack (\<open>push_front\<close>,
  \<open>pop_front\<close>). The two interfaces say what those clients rely on.
\<close>

fun enq_all :: "('h \<Rightarrow> addr \<Rightarrow> addr \<Rightarrow> 'h option) \<Rightarrow> 'h \<Rightarrow> addr \<Rightarrow> addr list \<Rightarrow> 'h option" where
  "enq_all enq h q [] = Some h"
| "enq_all enq h q (n # ns) = do { h \<leftarrow> enq h q n; enq_all enq h q ns }"

fun deq_all :: "('h \<Rightarrow> addr \<Rightarrow> (addr \<times> 'h) option) \<Rightarrow> 'h \<Rightarrow> addr \<Rightarrow> nat \<Rightarrow> (addr list \<times> 'h) option" where
  "deq_all deq h q 0 = Some ([], h)"
| "deq_all deq h q (Suc k) = do {
     (x, h) \<leftarrow> deq h q;
     (xs, h) \<leftarrow> deq_all deq h q k;
     Some (x # xs, h)
   }"

locale linked_sequence =
  fixes holds :: "'h \<Rightarrow> addr \<Rightarrow> addr list \<Rightarrow> bool"
    and live :: "'h \<Rightarrow> addr set"
    and deq :: "'h \<Rightarrow> addr \<Rightarrow> (addr \<times> 'h) option"
  assumes deq: "holds h q (x # xs) \<Longrightarrow> \<exists>h'. deq h q = Some (x, h') \<and> holds h' q xs \<and> live h' = live h"
begin

lemma deq_all_holds:
  "holds h q (xs @ ys) \<Longrightarrow> \<exists>h'. deq_all deq h q (length xs) = Some (xs, h') \<and> holds h' q ys \<and> live h' = live h"
proof (induction xs arbitrary: h)
  case Nil
  then show ?case by simp
next
  case (Cons x xs)
  then obtain h1 where h1: "deq h q = Some (x, h1)" "holds h1 q (xs @ ys)" "live h1 = live h"
    using deq[of h q x "xs @ ys"] by auto
  with Cons.IH[OF h1(2)] show ?case by auto
qed

end

locale linked_queue = linked_sequence holds live deq
  for holds :: "'h \<Rightarrow> addr \<Rightarrow> addr list \<Rightarrow> bool" and live and deq +
  fixes enq :: "'h \<Rightarrow> addr \<Rightarrow> addr \<Rightarrow> 'h option"
  assumes enq: "holds h q xs \<Longrightarrow> n \<in> live h \<Longrightarrow> n \<notin> set (q # xs) \<Longrightarrow>
      \<exists>h'. enq h q n = Some h' \<and> holds h' q (xs @ [n]) \<and> live h' = live h"
begin

lemma enq_all_holds:
  "holds h q xs \<Longrightarrow> set ns \<subseteq> live h \<Longrightarrow> distinct ns \<Longrightarrow> set ns \<inter> set (q # xs) = {} \<Longrightarrow>
   \<exists>h'. enq_all enq h q ns = Some h' \<and> holds h' q (xs @ ns) \<and> live h' = live h"
proof (induction ns arbitrary: h xs)
  case Nil
  then show ?case by simp
next
  case (Cons n ns)
  then obtain h1 where h1: "enq h q n = Some h1" "holds h1 q (xs @ [n])" "live h1 = live h"
    using enq[of h q xs n] by auto
  have "\<exists>h'. enq_all enq h1 q ns = Some h' \<and> holds h' q ((xs @ [n]) @ ns) \<and> live h' = live h1"
    by (rule Cons.IH[OF h1(2)]) (use Cons.prems h1(3) in auto)
  with h1 show ?case by auto
qed

lemma fifo:
  assumes "holds h q []" "set ns \<subseteq> live h" "distinct (q # ns)"
  shows "\<exists>h' h''. enq_all enq h q ns = Some h' \<and> deq_all deq h' q (length ns) = Some (ns, h'') \<and> holds h'' q []"
proof -
  obtain h' where h': "enq_all enq h q ns = Some h'" "holds h' q (ns @ [])"
    using enq_all_holds[of h q "[]" ns] assms by auto
  then show ?thesis using deq_all_holds[OF h'(2)] by auto
qed

end

locale linked_stack = linked_sequence holds live deq
  for holds :: "'h \<Rightarrow> addr \<Rightarrow> addr list \<Rightarrow> bool" and live and deq +
  fixes push :: "'h \<Rightarrow> addr \<Rightarrow> addr \<Rightarrow> 'h option"
  assumes push: "holds h q xs \<Longrightarrow> n \<in> live h \<Longrightarrow> n \<notin> set (q # xs) \<Longrightarrow>
      \<exists>h'. push h q n = Some h' \<and> holds h' q (n # xs) \<and> live h' = live h"
begin

lemma push_all_holds:
  "holds h q xs \<Longrightarrow> set ns \<subseteq> live h \<Longrightarrow> distinct ns \<Longrightarrow> set ns \<inter> set (q # xs) = {} \<Longrightarrow>
   \<exists>h'. enq_all push h q ns = Some h' \<and> holds h' q (rev ns @ xs) \<and> live h' = live h"
proof (induction ns arbitrary: h xs)
  case Nil
  then show ?case by simp
next
  case (Cons n ns)
  then obtain h1 where h1: "push h q n = Some h1" "holds h1 q (n # xs)" "live h1 = live h"
    using push[of h q xs n] by auto
  have "\<exists>h'. enq_all push h1 q ns = Some h' \<and> holds h' q (rev ns @ n # xs) \<and> live h' = live h1"
    by (rule Cons.IH[OF h1(2)]) (use Cons.prems h1(3) in auto)
  with h1 show ?case by auto
qed

lemma lifo:
  assumes "holds h q []" "set ns \<subseteq> live h" "distinct (q # ns)"
  shows "\<exists>h' h''. enq_all push h q ns = Some h' \<and> deq_all deq h' q (length ns) = Some (rev ns, h'') \<and> holds h'' q []"
proof -
  obtain h' where h': "enq_all push h q ns = Some h'" "holds h' q (rev ns @ [])"
    using push_all_holds[of h q "[]" ns] assms by auto
  then show ?thesis using deq_all_holds[OF h'(2)] by auto
qed

end

interpretation list_queue: linked_queue ring dom pop_front push_back
proof unfold_locales
  fix h this x xs
  assume "ring h this (x # xs)"
  then show "\<exists>h'. pop_front h this = Some (x, h') \<and> ring h' this xs \<and> dom h' = dom h"
    using pop_front_ring by blast
next
  fix h this xs n
  assume "ring h this xs" "n \<in> dom h" "n \<notin> set (this # xs)"
  then show "\<exists>h'. push_back h this n = Some h' \<and> ring h' this (xs @ [n]) \<and> dom h' = dom h"
    using push_back_ring by blast
qed

interpretation list_stack: linked_stack ring dom pop_front push_front
proof unfold_locales
  fix h this xs n
  assume "ring h this xs" "n \<in> dom h" "n \<notin> set (this # xs)"
  then show "\<exists>h'. push_front h this n = Some h' \<and> ring h' this (n # xs) \<and> dom h' = dom h"
    using push_front_ring by blast
qed

section \<open>Properties\<close>

text \<open>
  A list used with \<open>push_back\<close> and \<open>pop_front\<close> is a first-in first-out queue: pushing any
  distinct live nodes onto an empty list and popping as many times returns exactly those nodes
  in the order they were pushed, through valid pointers only, and leaves the list empty.
\<close>

theorem list_fifo:
  assumes "ring h this []" and "set ns \<subseteq> dom h" and "distinct (this # ns)"
  shows "\<exists>h' h''. enq_all push_back h this ns = Some h' \<and>
           deq_all pop_front h' this (length ns) = Some (ns, h'') \<and> list_elements h'' this = Some []"
  using list_queue.fifo[OF assms] list_elements_ring by blast

definition sample_list_heap :: list_heap where
  "sample_list_heap =
     [0 \<mapsto> \<lparr>l_next = 0, l_prev = 0\<rparr>, 1 \<mapsto> \<lparr>l_next = 7, l_prev = 7\<rparr>, 2 \<mapsto> \<lparr>l_next = 7, l_prev = 7\<rparr>]"

theorem list_fifo_witness:
  "ring sample_list_heap 0 [] \<and>
   (\<exists>h' h''. enq_all push_back sample_list_heap 0 [1, 2] = Some h' \<and>
      deq_all pop_front h' 0 2 = Some ([1, 2], h'') \<and> list_elements h'' 0 = Some [])"
proof -
  have r: "ring sample_list_heap 0 []"
    by (simp add: sample_list_heap_def ring_def link_def get_next_def get_prev_def)
  have s: "set [1, 2] \<subseteq> dom sample_list_heap" "distinct [0, 1, 2 :: addr]"
    by (simp_all add: sample_list_heap_def)
  show ?thesis using r list_fifo[OF r s(1)] s(2) by (simp add: numeral_2_eq_2)
qed

text \<open>
  Unlinking an element through its own node, wherever it is, removes exactly that element
  from its list and leaves every other list of the heap as it was.
\<close>

theorem list_remove_exact:
  assumes "ring h this (xs @ a # ys)" and "ring h other zs"
    and "set (other # zs) \<inter> set (this # xs @ a # ys) = {}"
  shows "\<exists>h'. ListHead_remove h a = Some h' \<and> list_elements h' this = Some (xs @ ys)
           \<and> list_elements h' other = Some zs"
proof -
  obtain h' where h': "ListHead_remove h a = Some h'" "ring h' this (xs @ ys)"
    "\<forall>x. x \<notin> set (this # xs @ a # ys) \<longrightarrow> h' x = h x"
    using ListHead_remove_ring[OF assms(1)] by blast
  have "ring h' other zs = ring h other zs"
    by (rule ring_frame) (use h'(3) assms(3) in auto)
  with h' assms(2) show ?thesis using list_elements_ring by blast
qed

definition sample_two_lists :: list_heap where
  "sample_two_lists =
     [0 \<mapsto> \<lparr>l_next = 1, l_prev = 2\<rparr>, 1 \<mapsto> \<lparr>l_next = 2, l_prev = 0\<rparr>, 2 \<mapsto> \<lparr>l_next = 0, l_prev = 1\<rparr>,
      5 \<mapsto> \<lparr>l_next = 6, l_prev = 6\<rparr>, 6 \<mapsto> \<lparr>l_next = 5, l_prev = 5\<rparr>]"

theorem list_remove_exact_witness:
  "ring sample_two_lists 0 ([1] @ 2 # []) \<and> ring sample_two_lists 5 [6] \<and>
   (\<exists>h'. ListHead_remove sample_two_lists 2 = Some h' \<and> list_elements h' 0 = Some [1]
      \<and> list_elements h' 5 = Some [6])"
proof -
  have r: "ring sample_two_lists 0 ([1] @ 2 # [])" "ring sample_two_lists 5 [6]"
    by (simp_all add: sample_two_lists_def ring_def link_def get_next_def get_prev_def)
  have "set [5, 6] \<inter> set (0 # [1] @ 2 # []) = ({} :: addr set)" by simp
  from list_remove_exact[OF r this] r show ?thesis by simp
qed

end
