(* ===== verification/Dsl_HList.thy ===== *)
theory Dsl_HList
  imports Davix_Prelude
begin

text \<open>
  The list with a single-word head of \<^verbatim>\<open>include/dsl/hlist.h\<close>, over an explicit heap. An entry points back to the cell
  that points to it, which is the head of the list or the \<open>next\<close> field of another entry. A read or write
  through a dangling pointer is \<^const>\<open>None\<close>.
\<close>

section \<open>Operations\<close>

datatype hcell = List_head addr | Next_of addr

record hlist_head =
  h_next :: ptr
  h_link :: hcell

record hheap =
  h_heads :: "addr \<Rightarrow> ptr"
  h_nodes :: "addr \<rightharpoonup> hlist_head"

fun read_cell :: "hheap \<Rightarrow> hcell \<Rightarrow> ptr option" where
  "read_cell h (List_head l) = Some (h_heads h l)"
| "read_cell h (Next_of a) = map_option h_next (h_nodes h a)"

fun write_cell :: "hheap \<Rightarrow> hcell \<Rightarrow> ptr \<Rightarrow> hheap option" where
  "write_cell h (List_head l) p = Some (h\<lparr>h_heads := (h_heads h)(l := p)\<rparr>)"
| "write_cell h (Next_of a) p = map_option (\<lambda>n. h\<lparr>h_nodes := (h_nodes h)(a \<mapsto> n\<lparr>h_next := p\<rparr>)\<rparr>) (h_nodes h a)"

definition write_link :: "hheap \<Rightarrow> addr \<Rightarrow> hcell \<Rightarrow> hheap option" where
  "write_link h a c = map_option (\<lambda>n. h\<lparr>h_nodes := (h_nodes h)(a \<mapsto> n\<lparr>h_link := c\<rparr>)\<rparr>) (h_nodes h a)"

text \<open>\<open>HListHead::remove\<close>, whose last two writes poison the removed entry.\<close>

definition HListHead_remove :: "hheap \<Rightarrow> addr \<Rightarrow> hheap option" where
  "HListHead_remove h this = do {
     n \<leftarrow> h_nodes h this;
     h \<leftarrow> (case h_next n of Some x \<Rightarrow> write_link h x (h_link n) | None \<Rightarrow> Some h);
     n \<leftarrow> h_nodes h this;
     h \<leftarrow> write_cell h (h_link n) (h_next n);
     h \<leftarrow> write_cell h (Next_of this) (Some 0xdeadbeef);
     write_link h this (Next_of 0xcafebabe)
   }"

definition HList_init :: "hheap \<Rightarrow> addr \<Rightarrow> hheap" where
  "HList_init h l = h\<lparr>h_heads := (h_heads h)(l := nullptr)\<rparr>"

definition HList_push :: "hheap \<Rightarrow> addr \<Rightarrow> addr \<Rightarrow> hheap option" where
  "HList_push h l entry = do {
     h \<leftarrow> write_cell h (Next_of entry) (h_heads h l);
     h \<leftarrow> write_link h entry (List_head l);
     h \<leftarrow> (case h_heads h l of Some x \<Rightarrow> write_link h x (Next_of entry) | None \<Rightarrow> Some h);
     write_cell h (List_head l) (Some entry)
   }"

definition HList_empty :: "hheap \<Rightarrow> addr \<Rightarrow> bool" where
  "HList_empty h l = (h_heads h l = nullptr)"

definition TypedHList_pop :: "hheap \<Rightarrow> addr \<Rightarrow> (addr \<times> hheap) option" where
  "TypedHList_pop h l = do {
     entry \<leftarrow> h_heads h l;
     h \<leftarrow> HListHead_remove h entry;
     Some (entry, h)
   }"

partial_function (option) hlist_iterate :: "hheap \<Rightarrow> ptr \<Rightarrow> addr list option" where
  "hlist_iterate h p = (case p of
     None \<Rightarrow> Some []
   | Some a \<Rightarrow> do { n \<leftarrow> h_nodes h a; as \<leftarrow> hlist_iterate h (h_next n); Some (a # as) })"

section \<open>Abstraction\<close>

text \<open>
  The entries \<open>xs\<close> hang one after the other on the cell \<open>c\<close>, each pointing back to the cell before it (\<open>hpre\<close>); in a list the
  last cell is null.
\<close>

fun hpre :: "hheap \<Rightarrow> hcell \<Rightarrow> addr list \<Rightarrow> bool" where
  "hpre h c [] \<longleftrightarrow> True"
| "hpre h c (x # xs) \<longleftrightarrow> read_cell h c = Some (Some x) \<and> map_option h_link (h_nodes h x) = Some c \<and> hpre h (Next_of x) xs"

definition last_cell :: "hcell \<Rightarrow> addr list \<Rightarrow> hcell" where
  "last_cell c xs = (if xs = [] then c else Next_of (last xs))"

definition hseg :: "hheap \<Rightarrow> hcell \<Rightarrow> addr list \<Rightarrow> bool" where
  "hseg h c xs \<longleftrightarrow> hpre h c xs \<and> read_cell h (last_cell c xs) = Some nullptr"

definition hlist :: "hheap \<Rightarrow> addr \<Rightarrow> addr list \<Rightarrow> bool" where
  "hlist h l xs \<longleftrightarrow> hseg h (List_head l) xs \<and> distinct xs"

lemma last_cell_Cons [simp]: "last_cell c (x # xs) = last_cell (Next_of x) xs"
  by (simp add: last_cell_def)

lemma last_cell_Nil [simp]: "last_cell c [] = c"
  by (simp add: last_cell_def)

lemma hpre_append: "hpre h c (xs @ ys) \<longleftrightarrow> hpre h c xs \<and> hpre h (last_cell c xs) ys"
  by (induction xs arbitrary: c) auto

lemma last_cell_append: "last_cell c (xs @ ys) = last_cell (last_cell c xs) ys"
  by (simp add: last_cell_def)

lemma hseg_append: "hseg h c (xs @ ys) \<longleftrightarrow> hpre h c xs \<and> hseg h (last_cell c xs) ys"
  by (auto simp: hseg_def hpre_append last_cell_append)

lemma hseg_Cons: "hseg h c (x # xs) \<longleftrightarrow> read_cell h c = Some (Some x) \<and> map_option h_link (h_nodes h x) = Some c \<and> hseg h (Next_of x) xs"
  by (auto simp: hseg_def)

lemma hseg_Nil: "hseg h c [] \<longleftrightarrow> read_cell h c = Some nullptr"
  by (simp add: hseg_def)

text \<open>A segment depends on its first cell and its entries alone, a prefix not on the cell at its end.\<close>

lemma hseg_cong:
  "hseg h c xs \<Longrightarrow> read_cell h' c = read_cell h c \<Longrightarrow> \<forall>x \<in> set xs. h_nodes h' x = h_nodes h x \<Longrightarrow> hseg h' c xs"
proof (induction xs arbitrary: c)
  case (Cons x xs)
  then show ?case by (simp add: hseg_Cons)
qed (simp add: hseg_Nil)

lemma hpre_cong:
  "hpre h c xs \<Longrightarrow> xs = [] \<or> read_cell h' c = read_cell h c \<Longrightarrow> \<forall>x \<in> set xs. map_option h_link (h_nodes h' x) = map_option h_link (h_nodes h x) \<Longrightarrow>
   \<forall>x \<in> set (butlast xs). h_nodes h' x = h_nodes h x \<Longrightarrow> hpre h' c xs"
proof (induction xs arbitrary: c)
  case (Cons x xs)
  then show ?case by (cases xs) auto
qed simp

lemma hpre_nodes: "hpre h c xs \<Longrightarrow> x \<in> set xs \<Longrightarrow> h_nodes h x \<noteq> None"
  by (induction xs arbitrary: c) auto

text \<open>What \<open>remove\<close> leaves of the heap: the entry behind points back to \<open>c\<close>, the cell \<open>c\<close> points to it.\<close>

lemma remove_writes:
  assumes "hseg h c (x # ys)" "c = List_head l \<or> (c = Next_of z \<and> h_nodes h z \<noteq> None \<and> z \<noteq> x \<and> z \<notin> set ys)" "distinct (x # ys)"
  shows "\<exists>h'. HListHead_remove h x = Some h' \<and> hseg h' c ys \<and>
    (\<forall>k. c \<noteq> List_head k \<longrightarrow> h_heads h' k = h_heads h k) \<and>
    (\<forall>a. a \<notin> set (x # ys) \<longrightarrow> (c = Next_of a \<longrightarrow> map_option h_link (h_nodes h' a) = map_option h_link (h_nodes h a)) \<and> (c \<noteq> Next_of a \<longrightarrow> h_nodes h' a = h_nodes h a))"
proof -
  obtain n where n: "h_nodes h x = Some n" "h_link n = c" using assms(1) by (auto simp: hseg_Cons)
  show ?thesis
  proof (cases ys)
    case Nil
    then have "h_next n = None" using assms(1) n by (simp add: hseg_Cons hseg_Nil)
    then show ?thesis using assms(2) n Nil by (auto simp: HListHead_remove_def write_link_def hseg_Nil)
  next
    case (Cons y zs)
    then have y: "h_next n = Some y" "y \<noteq> x" and tail: "hseg h (Next_of y) zs" using assms(1,3) n by (auto simp: hseg_Cons)
    obtain k where k: "h_nodes h y = Some k" using assms(1) Cons by (auto simp: hseg_Cons)
    have keep: "hseg h' (Next_of y) zs" if "map_option h_next (h_nodes h' y) = Some (h_next k)" "\<And>a. a \<in> set zs \<Longrightarrow> h_nodes h' a = h_nodes h a" for h'
      using tail that k by (intro hseg_cong[OF tail]) simp_all
    show ?thesis using assms(2,3) n y k Cons
      by (auto simp: HListHead_remove_def write_link_def hseg_Cons intro!: keep)
  qed
qed

text \<open>An operation on the list \<open>l\<close> with entries among \<open>A\<close> leaves every other list alone.\<close>

definition others_kept :: "hheap \<Rightarrow> hheap \<Rightarrow> addr \<Rightarrow> addr set \<Rightarrow> bool" where
  "others_kept h h' l A \<longleftrightarrow> (\<forall>k. k \<noteq> l \<longrightarrow> h_heads h' k = h_heads h k) \<and> (\<forall>a. a \<notin> A \<longrightarrow> h_nodes h' a = h_nodes h a)"

lemma others_kept_hlist:
  "others_kept h h' l A \<Longrightarrow> hlist h k ys \<Longrightarrow> k \<noteq> l \<Longrightarrow> set ys \<inter> A = {} \<Longrightarrow> hlist h' k ys"
  using hseg_cong[of h "List_head k" ys h'] by (simp add: others_kept_def hlist_def disjoint_iff)

lemma butlast_not_last: "distinct xs \<Longrightarrow> a \<in> set (butlast xs) \<Longrightarrow> a \<noteq> last xs"
  by (induction xs) (auto split: if_splits)

lemma hlist_remove:
  assumes "hlist h l (xs @ x # ys)"
  shows "\<exists>h'. HListHead_remove h x = Some h' \<and> hlist h' l (xs @ ys) \<and> others_kept h h' l (set (xs @ x # ys))"
proof -
  let ?c = "last_cell (List_head l) xs"
  have pre: "hpre h (List_head l) xs" and seg: "hseg h ?c (x # ys)" and dist: "distinct (xs @ x # ys)"
    using assms by (simp_all add: hlist_def hseg_append)
  have "?c = List_head l \<or> (?c = Next_of (last xs) \<and> h_nodes h (last xs) \<noteq> None \<and> last xs \<noteq> x \<and> last xs \<notin> set ys)"
  proof (cases "xs = []")
    case False
    then have "last xs \<in> set xs" by simp
    then show ?thesis using hpre_nodes[OF pre] dist by (auto simp: last_cell_def)
  qed simp
  then obtain h' where h': "HListHead_remove h x = Some h'" "hseg h' ?c ys"
    and heads: "\<And>k. ?c \<noteq> List_head k \<Longrightarrow> h_heads h' k = h_heads h k"
    and nodes: "\<And>a. a \<notin> set (x # ys) \<Longrightarrow> (?c = Next_of a \<longrightarrow> map_option h_link (h_nodes h' a) = map_option h_link (h_nodes h a)) \<and> (?c \<noteq> Next_of a \<longrightarrow> h_nodes h' a = h_nodes h a)"
    using remove_writes[OF seg] dist by (metis distinct_append)
  have "hpre h' (List_head l) xs"
  proof (rule hpre_cong[OF pre])
    show "xs = [] \<or> read_cell h' (List_head l) = read_cell h (List_head l)" using heads[of l] by (cases "xs = []") (simp_all add: last_cell_def)
    show "\<forall>a \<in> set xs. map_option h_link (h_nodes h' a) = map_option h_link (h_nodes h a)" using nodes dist by fastforce
    show "\<forall>a \<in> set (butlast xs). h_nodes h' a = h_nodes h a"
    proof
      fix a assume a: "a \<in> set (butlast xs)"
      then have "a \<in> set xs" "a \<noteq> last xs" using butlast_not_last[of xs a] dist by (auto dest: in_set_butlastD)
      moreover from this have "a \<notin> set (x # ys)" "?c \<noteq> Next_of a" using dist by (auto simp: last_cell_def)
      ultimately show "h_nodes h' a = h_nodes h a" using nodes[of a] by blast
    qed
  qed
  moreover have "others_kept h h' l (set (xs @ x # ys))"
    unfolding others_kept_def
  proof (intro conjI allI impI)
    show "h_heads h' k = h_heads h k" if "k \<noteq> l" for k using heads[of k] that by (cases "xs = []") (simp_all add: last_cell_def)
    show "h_nodes h' a = h_nodes h a" if a: "a \<notin> set (xs @ x # ys)" for a
    proof -
      have "?c \<noteq> Next_of a" using a by (cases "xs = []") (auto simp: last_cell_def)
      then show ?thesis using nodes[of a] a by simp
    qed
  qed
  ultimately show ?thesis using h' dist by (auto simp: hlist_def hseg_append)
qed

lemma hlist_push:
  assumes "hlist h l xs" "e \<notin> set xs" "h_nodes h e \<noteq> None"
  shows "\<exists>h'. HList_push h l e = Some h' \<and> hlist h' l (e # xs) \<and> others_kept h h' l (set (e # xs))"
proof -
  obtain n where n: "h_nodes h e = Some n" using assms(3) by auto
  show ?thesis
  proof (cases xs)
    case Nil
    then have "h_heads h l = None" using assms(1) by (simp add: hlist_def hseg_Nil)
    then show ?thesis using n Nil by (auto simp: HList_push_def write_link_def hlist_def hseg_Cons hseg_Nil others_kept_def)
  next
    case (Cons y zs)
    have y: "h_heads h l = Some y" "y \<noteq> e" and tail: "hseg h (Next_of y) zs" using assms(1,2) Cons by (auto simp: hlist_def hseg_Cons)
    obtain k where k: "h_nodes h y = Some k" using assms(1) Cons by (auto simp: hlist_def hseg_Cons)
    have keep: "hseg h' (Next_of y) zs" if "map_option h_next (h_nodes h' y) = Some (h_next k)" "\<And>a. a \<in> set zs \<Longrightarrow> h_nodes h' a = h_nodes h a" for h'
      using that k by (intro hseg_cong[OF tail]) simp_all
    show ?thesis using assms(1,2) n y k Cons
      by (auto simp: HList_push_def write_link_def hlist_def hseg_Cons others_kept_def intro!: keep)
  qed
qed

lemma hlist_iterate_hseg: "hseg h c xs \<Longrightarrow> read_cell h c = Some p \<Longrightarrow> hlist_iterate h p = Some xs"
proof (induction xs arbitrary: c p)
  case (Cons x xs)
  then obtain n where n: "h_nodes h x = Some n" "p = Some x" "hseg h (Next_of x) xs" by (auto simp: hseg_Cons)
  then show ?case using Cons.IH[OF n(3), of "h_next n"] by (subst hlist_iterate.simps) simp
qed (subst hlist_iterate.simps, simp add: hseg_Nil)

lemma hlist_head: "hlist h l xs \<Longrightarrow> h_heads h l = (case xs of [] \<Rightarrow> None | x # _ \<Rightarrow> Some x)"
  by (cases xs) (simp_all add: hlist_def hseg_Cons hseg_Nil)

section \<open>Properties\<close>

text \<open>
  (C30) Every operation of the list does to the sequence of its entries what it should, and nothing to any other list:
  \<open>push\<close> puts an entry in front, \<open>remove\<close> takes the given entry out without being told the list, \<open>pop\<close> takes the first,
  and an iteration visits the entries in order.
\<close>

theorem hlist_refines_sequence:
  assumes "hlist h l xs"
  shows "HList_empty h l = (xs = []) \<and> hlist_iterate h (h_heads h l) = Some xs \<and> hlist (HList_init h l) l [] \<and>
    (\<forall>e. e \<notin> set xs \<and> h_nodes h e \<noteq> None \<longrightarrow>
       (\<exists>h'. HList_push h l e = Some h' \<and> hlist h' l (e # xs) \<and> (\<forall>k ys. k \<noteq> l \<and> hlist h k ys \<and> set ys \<inter> set (e # xs) = {} \<longrightarrow> hlist h' k ys))) \<and>
    (\<forall>x \<in> set xs.
       (\<exists>h'. HListHead_remove h x = Some h' \<and> hlist h' l (remove1 x xs) \<and> (\<forall>k ys. k \<noteq> l \<and> hlist h k ys \<and> set ys \<inter> set xs = {} \<longrightarrow> hlist h' k ys))) \<and>
    (case xs of [] \<Rightarrow> TypedHList_pop h l = None | x # zs \<Rightarrow> \<exists>h'. TypedHList_pop h l = Some (x, h') \<and> hlist h' l zs \<and> (\<forall>k ys. k \<noteq> l \<and> hlist h k ys \<and> set ys \<inter> set xs = {} \<longrightarrow> hlist h' k ys))"
proof (intro conjI ballI allI impI)
  show "HList_empty h l = (xs = [])" using hlist_head[OF assms] by (simp add: HList_empty_def split: list.splits)
  show "hlist_iterate h (h_heads h l) = Some xs" using assms by (intro hlist_iterate_hseg[of h "List_head l"]) (simp_all add: hlist_def)
  show "hlist (HList_init h l) l []" by (simp add: hlist_def hseg_Nil HList_init_def)
  show "\<exists>h'. HList_push h l e = Some h' \<and> hlist h' l (e # xs) \<and> (\<forall>k ys. k \<noteq> l \<and> hlist h k ys \<and> set ys \<inter> set (e # xs) = {} \<longrightarrow> hlist h' k ys)"
    if "e \<notin> set xs \<and> h_nodes h e \<noteq> None" for e
    using hlist_push[OF assms] that others_kept_hlist by blast
  show "\<exists>h'. HListHead_remove h x = Some h' \<and> hlist h' l (remove1 x xs) \<and> (\<forall>k ys. k \<noteq> l \<and> hlist h k ys \<and> set ys \<inter> set xs = {} \<longrightarrow> hlist h' k ys)"
    if x: "x \<in> set xs" for x
  proof -
    obtain as bs where xs: "xs = as @ x # bs" "x \<notin> set as" using split_list_first[OF x] by blast
    then have "remove1 x xs = as @ bs" by (simp add: remove1_append)
    then show ?thesis using hlist_remove[of h l as x bs] assms xs(1) others_kept_hlist[of h _ l "set xs"] by metis
  qed
  show "case xs of [] \<Rightarrow> TypedHList_pop h l = None
    | x # zs \<Rightarrow> \<exists>h'. TypedHList_pop h l = Some (x, h') \<and> hlist h' l zs \<and> (\<forall>k ys. k \<noteq> l \<and> hlist h k ys \<and> set ys \<inter> set xs = {} \<longrightarrow> hlist h' k ys)"
  proof (cases xs)
    case Nil
    then show ?thesis using hlist_head[OF assms] by (simp add: TypedHList_pop_def)
  next
    case (Cons x zs)
    obtain h' where h': "HListHead_remove h x = Some h'" "hlist h' l zs" "others_kept h h' l (set xs)"
      using hlist_remove[of h l "[]" x zs] assms Cons by auto
    moreover have "TypedHList_pop h l = Some (x, h')" using hlist_head[OF assms] h'(1) Cons by (simp add: TypedHList_pop_def)
    ultimately show ?thesis using others_kept_hlist[OF h'(3)] unfolding Cons by auto
  qed
qed

definition sample_hheap :: hheap where
  "sample_hheap = \<lparr>h_heads = (\<lambda>_. None)(0 := Some 10, 1 := Some 40),
     h_nodes = [10 \<mapsto> \<lparr>h_next = Some 20, h_link = List_head 0\<rparr>, 20 \<mapsto> \<lparr>h_next = None, h_link = Next_of 10\<rparr>, 30 \<mapsto> \<lparr>h_next = None, h_link = Next_of 30\<rparr>,
       40 \<mapsto> \<lparr>h_next = None, h_link = List_head 1\<rparr>]\<rparr>"

lemma sample_hheap: "hlist sample_hheap 0 [10, 20]" "hlist sample_hheap 1 [40]"
  by (simp_all add: hlist_def hseg_Cons hseg_Nil sample_hheap_def)

theorem hlist_refines_sequence_witness:
  "(\<exists>h'. HList_push sample_hheap 0 30 = Some h' \<and> hlist h' 0 [30, 10, 20] \<and> hlist h' 1 [40]) \<and>
   (\<exists>h'. HListHead_remove sample_hheap 20 = Some h' \<and> hlist h' 0 [10] \<and> hlist h' 1 [40]) \<and>
   (\<exists>h'. TypedHList_pop sample_hheap 0 = Some (10, h') \<and> hlist h' 0 [20] \<and> hlist h' 1 [40])"
proof -
  have e: "30 \<notin> set [10, 20 :: addr] \<and> h_nodes sample_hheap 30 \<noteq> None" by (simp add: sample_hheap_def)
  note ops = hlist_refines_sequence[OF sample_hheap(1), THEN conjunct2, THEN conjunct2, THEN conjunct2]
  have other: "1 \<noteq> (0 :: addr) \<and> hlist sample_hheap 1 [40] \<and> set [40 :: addr] \<inter> set [30, 10, 20] = {}"
    "1 \<noteq> (0 :: addr) \<and> hlist sample_hheap 1 [40] \<and> set [40 :: addr] \<inter> set [10, 20] = {}" using sample_hheap(2) by simp_all
  have "\<exists>h'. HList_push sample_hheap 0 30 = Some h' \<and> hlist h' 0 [30, 10, 20] \<and> hlist h' 1 [40]"
    using ops[THEN conjunct1, rule_format, OF e] other(1) by blast
  moreover have "\<exists>h'. HListHead_remove sample_hheap 20 = Some h' \<and> hlist h' 0 (remove1 20 [10, 20]) \<and> hlist h' 1 [40]"
    using ops[THEN conjunct2, THEN conjunct1, rule_format, of 20] other(2) by (metis list.set_intros)
  moreover have "\<exists>h'. TypedHList_pop sample_hheap 0 = Some (10, h') \<and> hlist h' 0 [20] \<and> hlist h' 1 [40]"
    using ops[THEN conjunct2, THEN conjunct2, unfolded list.case] other(2) by blast
  ultimately show ?thesis by simp
qed

end
