(* ===== verification/Dsl_Tree.thy ===== *)
theory Dsl_Tree
  imports Davix_Prelude "HOL-Library.Tree"
begin

text \<open>
  What \<^verbatim>\<open>dsl/avlfixup.cc\<close> and \<^verbatim>\<open>dsl/vmamodify.cc\<close> share: nodes with two children and a
  parent pointer on a heap, and the rebalancing step of \<^verbatim>\<open>fixup\<close>. The VMA node is a record
  extension of the AVL node, so one set of accessors serves both trees. The second half
  abstracts a heap to a functional tree that carries addresses, stored heights and payloads,
  with a zipper for the path from a node to the root, and shows once, in the locale
  \<open>tree_rotation\<close>, that a rebalancing step on the heap is one on the functional tree.
\<close>

section \<open>Nodes on the heap\<close>

datatype dir = LEFT | RIGHT

definition opp :: "dir \<Rightarrow> dir" where
  "opp d = (if d \<noteq> LEFT then LEFT else RIGHT)"

record avl_node =
  child :: "dir \<Rightarrow> ptr"
  parent :: ptr
  avl_height :: int

type_synonym 'a avl_heap = "addr \<rightharpoonup> 'a avl_node_scheme"

record 'a avl_tree =
  m_root :: ptr
  nodes :: "'a avl_heap"

definition get_child :: "'a avl_heap \<Rightarrow> addr \<Rightarrow> dir \<Rightarrow> ptr option" where
  "get_child h a d = map_option (\<lambda>n. child n d) (h a)"

definition get_parent :: "'a avl_heap \<Rightarrow> addr \<Rightarrow> ptr option" where
  "get_parent h a = map_option parent (h a)"

definition get_height :: "'a avl_heap \<Rightarrow> addr \<Rightarrow> int option" where
  "get_height h a = map_option avl_height (h a)"

definition set_child :: "'a avl_heap \<Rightarrow> addr \<Rightarrow> dir \<Rightarrow> ptr \<Rightarrow> 'a avl_heap option" where
  "set_child h a d v = map_option (\<lambda>n. h(a \<mapsto> n\<lparr>child := (child n)(d := v)\<rparr>)) (h a)"

definition set_parent :: "'a avl_heap \<Rightarrow> addr \<Rightarrow> ptr \<Rightarrow> 'a avl_heap option" where
  "set_parent h a v = map_option (\<lambda>n. h(a \<mapsto> n\<lparr>parent := v\<rparr>)) (h a)"

definition set_height :: "'a avl_heap \<Rightarrow> addr \<Rightarrow> int \<Rightarrow> 'a avl_heap option" where
  "set_height h a v = map_option (\<lambda>n. h(a \<mapsto> n\<lparr>avl_height := v\<rparr>)) (h a)"

text \<open>The object that embeds the node: the record extension.\<close>

definition get_object :: "'a avl_heap \<Rightarrow> addr \<Rightarrow> 'a option" where
  "get_object h a = map_option avl_node.more (h a)"

definition set_object :: "'a avl_heap \<Rightarrow> addr \<Rightarrow> 'a \<Rightarrow> 'a avl_heap option" where
  "set_object h a v = map_option (\<lambda>n. h(a \<mapsto> n\<lparr>avl_node.more := v\<rparr>)) (h a)"

text \<open>The guarded assignment \<open>if (p) p->parent = v;\<close>.\<close>

definition set_parent_if :: "'a avl_heap \<Rightarrow> ptr \<Rightarrow> ptr \<Rightarrow> 'a avl_heap option" where
  "set_parent_if h p v = (case p of None \<Rightarrow> Some h | Some a \<Rightarrow> set_parent h a v)"

definition node_height :: "'a avl_heap \<Rightarrow> ptr \<Rightarrow> int option" where
  "node_height h node = (case node of None \<Rightarrow> Some 0 | Some a \<Rightarrow> get_height h a)"

definition node_balance :: "'a avl_heap \<Rightarrow> addr \<Rightarrow> int option" where
  "node_balance h node = do {
     r \<leftarrow> get_child h node RIGHT;
     rh \<leftarrow> node_height h r;
     l \<leftarrow> get_child h node LEFT;
     lh \<leftarrow> node_height h l;
     Some (rh - lh)
   }"

text \<open>Which child of its parent a node is: \<^const>\<open>LEFT\<close> also when there is no parent.\<close>

definition child_dir :: "'a avl_heap \<Rightarrow> ptr \<Rightarrow> addr \<Rightarrow> dir option" where
  "child_dir h par node = (case par of
     None \<Rightarrow> Some LEFT
   | Some p \<Rightarrow> do {
       l \<leftarrow> get_child h p LEFT;
       Some (if l \<noteq> Some node then RIGHT else LEFT)
     })"

text \<open>The code's \<open>if (parent) parent->child[me] = v; else root = v;\<close>.\<close>

definition replace_child :: "'a avl_tree \<Rightarrow> ptr \<Rightarrow> dir \<Rightarrow> ptr \<Rightarrow> 'a avl_tree option" where
  "replace_child s par me v = (case par of
     None \<Rightarrow> Some (s\<lparr>m_root := v\<rparr>)
   | Some p \<Rightarrow> do {
       h \<leftarrow> set_child (nodes s) p me v;
       Some (s\<lparr>nodes := h\<rparr>)
     })"

type_synonym 'a rotation = "'a avl_heap \<Rightarrow> addr \<Rightarrow> dir \<Rightarrow> (addr \<times> 'a avl_heap) option"

text \<open>
  The part of \<^verbatim>\<open>fixup\<close> that handles an unbalanced node, the same text in both trees up to the
  \<^verbatim>\<open>rotate\<close> it calls. It returns the node at which the loop goes on.
\<close>

definition rebalance :: "'a rotation \<Rightarrow> 'a avl_tree \<Rightarrow> addr \<Rightarrow> int \<Rightarrow> ('a avl_tree \<times> ptr) option" where
  "rebalance rot s node balance = do {
     parent \<leftarrow> get_parent (nodes s) node;
     me \<leftarrow> child_dir (nodes s) parent node;
     let (dir, oth) = (if balance \<ge> 0 then (RIGHT, LEFT) else (LEFT, RIGHT));
     let h = nodes s;
     z \<leftarrow> get_child h node dir;
     Z \<leftarrow> z;
     b \<leftarrow> node_balance h Z;
     h \<leftarrow> (if dir = LEFT \<and> b > 0 then do {
            (Z, h) \<leftarrow> rot h Z LEFT;
            h \<leftarrow> set_parent h Z (Some node);
            set_child h node LEFT (Some Z)
          } else if dir = RIGHT \<and> b < 0 then do {
            (Z, h) \<leftarrow> rot h Z RIGHT;
            h \<leftarrow> set_parent h Z (Some node);
            set_child h node RIGHT (Some Z)
          } else Some h);
     (node, h) \<leftarrow> rot h node oth;
     h \<leftarrow> set_parent h node parent;
     s \<leftarrow> replace_child (s\<lparr>nodes := h\<rparr>) parent me (Some node);
     Some (s, parent)
   }"

section \<open>Abstraction to functional trees\<close>

type_synonym 'm anode = "addr \<times> int \<times> 'm"
type_synonym 'm atree = "'m anode tree"

fun rootp :: "'m atree \<Rightarrow> ptr" where
  "rootp \<langle>\<rangle> = None"
| "rootp \<langle>l, (a, hh, m), r\<rangle> = Some a"

fun ht :: "'m atree \<Rightarrow> int" where
  "ht \<langle>\<rangle> = 0"
| "ht \<langle>l, (a, hh, m), r\<rangle> = hh"

definition addrs :: "'m atree \<Rightarrow> addr list" where
  "addrs t = map fst (inorder t)"

fun tree_at :: "'m avl_heap \<Rightarrow> ptr \<Rightarrow> 'm atree \<Rightarrow> bool" where
  "tree_at h par \<langle>\<rangle> = True"
| "tree_at h par \<langle>l, (a, hh, m), r\<rangle> =
     (h a = Some \<lparr>child = case_dir (rootp l) (rootp r), parent = par, avl_height = hh, \<dots> = m\<rparr>
      \<and> tree_at h (Some a) l \<and> tree_at h (Some a) r)"

text \<open>A frame is a node whose child in the given direction is the hole; a path is innermost first.\<close>

type_synonym 'm frame = "dir \<times> 'm anode \<times> 'm atree"
type_synonym 'm path = "'m frame list"

fun fill :: "'m frame \<Rightarrow> 'm atree \<Rightarrow> 'm atree" where
  "fill (LEFT, x, s) t = \<langle>t, x, s\<rangle>"
| "fill (RIGHT, x, s) t = \<langle>s, x, t\<rangle>"

fun plug :: "'m atree \<Rightarrow> 'm path \<Rightarrow> 'm atree" where
  "plug t [] = t"
| "plug t (f # c) = plug (fill f t) c"

text \<open>The path may end below a node \<open>up\<close> that is not part of it; usually it ends at the root.\<close>

fun path_parent_in :: "ptr \<Rightarrow> 'm path \<Rightarrow> ptr" where
  "path_parent_in up [] = up"
| "path_parent_in up ((d, (a, hh, m), s) # c) = Some a"

fun path_at_in :: "'m avl_heap \<Rightarrow> ptr \<Rightarrow> ptr \<Rightarrow> 'm path \<Rightarrow> bool" where
  "path_at_in h up hole [] = True"
| "path_at_in h up hole ((d, (a, hh, m), s) # c) =
     (h a = Some \<lparr>child = (case d of LEFT \<Rightarrow> case_dir hole (rootp s) | RIGHT \<Rightarrow> case_dir (rootp s) hole),
                  parent = path_parent_in up c, avl_height = hh, \<dots> = m\<rparr>
      \<and> tree_at h (Some a) s \<and> path_at_in h up (Some a) c)"

abbreviation path_parent :: "'m path \<Rightarrow> ptr" where
  "path_parent \<equiv> path_parent_in nullptr"

abbreviation path_at :: "'m avl_heap \<Rightarrow> ptr \<Rightarrow> 'm path \<Rightarrow> bool" where
  "path_at h \<equiv> path_at_in h nullptr"

fun path_addrs :: "'m path \<Rightarrow> addr set" where
  "path_addrs [] = {}"
| "path_addrs ((d, (a, hh, m), s) # c) = insert a (set (addrs s) \<union> path_addrs c)"

fun path_distinct :: "'m path \<Rightarrow> bool" where
  "path_distinct [] = True"
| "path_distinct ((d, (a, hh, m), s) # c) =
     (distinct (addrs s) \<and> a \<notin> set (addrs s) \<and> a \<notin> path_addrs c \<and> set (addrs s) \<inter> path_addrs c = {}
      \<and> path_distinct c)"

fun path_dir :: "'m path \<Rightarrow> dir" where
  "path_dir [] = LEFT"
| "path_dir ((d, x, s) # c) = d"

text \<open>All stored heights are non-negative: what the code needs to stay away from null pointers.\<close>

fun hpos :: "'m atree \<Rightarrow> bool" where
  "hpos \<langle>\<rangle> = True"
| "hpos \<langle>l, (a, hh, m), r\<rangle> = (0 \<le> hh \<and> hpos l \<and> hpos r)"

text \<open>
  The functional counterpart: \<open>mk\<close> recomputes the stored height and, through \<open>upd\<close>, the
  augmented payload of a node; \<open>fixz\<close> walks a path to the root, stopping early if \<open>e\<close> is set
  and a node keeps its height.
\<close>

type_synonym 'm augment = "'m \<Rightarrow> 'm atree \<Rightarrow> 'm atree \<Rightarrow> 'm"

fun mk :: "'m augment \<Rightarrow> 'm atree \<Rightarrow> 'm anode \<Rightarrow> 'm atree \<Rightarrow> 'm atree" where
  "mk upd l (a, hh, m) r = \<langle>l, (a, 1 + max (ht l) (ht r), upd m l r), r\<rangle>"

fun frotate :: "'m augment \<Rightarrow> dir \<Rightarrow> 'm atree \<Rightarrow> 'm atree" where
  "frotate upd LEFT \<langle>l, x, \<langle>b, z, c\<rangle>\<rangle> = mk upd (mk upd l x b) z c"
| "frotate upd RIGHT \<langle>\<langle>b, z, c\<rangle>, x, r\<rangle> = mk upd b z (mk upd c x r)"
| "frotate upd d t = t"

fun can_rotate :: "dir \<Rightarrow> 'm atree \<Rightarrow> bool" where
  "can_rotate LEFT \<langle>l, x, r\<rangle> = (r \<noteq> \<langle>\<rangle>)"
| "can_rotate RIGHT \<langle>l, x, r\<rangle> = (l \<noteq> \<langle>\<rangle>)"
| "can_rotate d \<langle>\<rangle> = False"

fun bal :: "'m atree \<Rightarrow> int" where
  "bal \<langle>\<rangle> = 0"
| "bal \<langle>l, x, r\<rangle> = ht r - ht l"

fun frebal :: "'m augment \<Rightarrow> 'm atree \<Rightarrow> 'm atree" where
  "frebal upd \<langle>\<rangle> = \<langle>\<rangle>"
| "frebal upd \<langle>l, x, r\<rangle> =
     (if ht r - ht l \<ge> 0
      then frotate upd LEFT \<langle>l, x, if bal r < 0 then frotate upd RIGHT r else r\<rangle>
      else frotate upd RIGHT \<langle>if bal l > 0 then frotate upd LEFT l else l, x, r\<rangle>)"

fun fstep :: "'m augment \<Rightarrow> 'm atree \<Rightarrow> 'm atree" where
  "fstep upd \<langle>\<rangle> = \<langle>\<rangle>"
| "fstep upd \<langle>l, x, r\<rangle> =
     (if -1 \<le> ht r - ht l \<and> ht r - ht l \<le> 1 then mk upd l x r else frebal upd \<langle>l, x, r\<rangle>)"

fun fstop :: "bool \<Rightarrow> 'm atree \<Rightarrow> bool" where
  "fstop e \<langle>\<rangle> = True"
| "fstop e \<langle>l, (a, hh, m), r\<rangle> =
     (e \<and> -1 \<le> ht r - ht l \<and> ht r - ht l \<le> 1 \<and> 1 + max (ht l) (ht r) = hh)"

fun fixz :: "bool \<Rightarrow> 'm augment \<Rightarrow> 'm atree \<Rightarrow> 'm path \<Rightarrow> 'm atree" where
  "fixz e upd t [] = (if fstop e t then t else fstep upd t)"
| "fixz e upd t (f # c) = (if fstop e t then plug t (f # c) else fixz e upd (fill f (fstep upd t)) c)"

definition represents :: "'m avl_tree \<Rightarrow> 'm atree \<Rightarrow> bool" where
  "represents s t \<longleftrightarrow> m_root s = rootp t \<and> tree_at (nodes s) None t \<and> distinct (addrs t)"

lemma addrs_simps [simp]:
  "addrs \<langle>\<rangle> = []"
  "addrs \<langle>l, x, r\<rangle> = addrs l @ fst x # addrs r"
  by (simp_all add: addrs_def)

lemma tree_at_cong:
  "(\<And>x. x \<in> set (addrs t) \<Longrightarrow> h' x = h x) \<Longrightarrow> tree_at h' par t = tree_at h par t"
  by (induction h par t rule: tree_at.induct) auto

lemma path_at_cong:
  "(\<And>x. x \<in> path_addrs c \<Longrightarrow> h' x = h x) \<Longrightarrow> path_at_in h' up hole c = path_at_in h up hole c"
  by (induction h up hole c rule: path_at_in.induct) (auto cong: tree_at_cong)

lemma tree_at_plug:
  "tree_at h up (plug t c) \<longleftrightarrow> tree_at h (path_parent_in up c) t \<and> path_at_in h up (rootp t) c"
proof (induction c arbitrary: t)
  case (Cons f c)
  obtain d a hh m s where f: "f = (d, (a, hh, m), s)" by (cases f) auto
  show ?case by (cases d) (auto simp: Cons f)
qed simp

lemma plug_append: "plug t (c @ c') = plug (plug t c) c'"
  by (induction c arbitrary: t) auto

lemma set_addrs_fill: "set (addrs (fill (d, x, s) t)) = insert (fst x) (set (addrs s) \<union> set (addrs t))"
  by (cases d) auto

lemma set_addrs_plug: "set (addrs (plug t c)) = set (addrs t) \<union> path_addrs c"
proof (induction c arbitrary: t)
  case (Cons f c)
  obtain d a hh m s where f: "f = (d, (a, hh, m), s)" by (cases f) auto
  show ?case by (cases d) (auto simp: Cons f)
qed simp

lemma plug_leaf: "plug t c = \<langle>\<rangle> \<longleftrightarrow> t = \<langle>\<rangle> \<and> c = []"
proof (induction c arbitrary: t)
  case (Cons f c)
  obtain d x s where "f = (d, x, s)" by (cases f)
  then show ?case by (cases d) (simp_all add: Cons)
qed simp

lemma distinct_addrs_plug:
  "distinct (addrs (plug t c)) \<longleftrightarrow>
     distinct (addrs t) \<and> set (addrs t) \<inter> path_addrs c = {} \<and> path_distinct c"
proof (induction c arbitrary: t)
  case (Cons f c)
  obtain d a hh m s where f: "f = (d, (a, hh, m), s)" by (cases f) auto
  show ?case by (cases d) (auto simp: Cons f)
qed simp

lemmas node_access = get_child_def get_parent_def get_height_def set_child_def set_parent_def set_height_def

lemma fun_upd_case_dir [simp]: "f(LEFT := x, RIGHT := y) = case_dir x y"
  by (auto simp: fun_eq_iff split: dir.split)

lemma case_dir_upd [simp]:
  "(case_dir x y)(LEFT := v) = case_dir v y"
  "(case_dir x y)(RIGHT := v) = case_dir x v"
  by (auto simp: fun_eq_iff split: dir.split)

lemma rootp_in_addrs: "rootp t = Some a \<Longrightarrow> a \<in> set (addrs t)"
  by (cases t rule: rootp.cases) auto

lemma tree_at_node_height: "tree_at h par t \<Longrightarrow> node_height h (rootp t) = Some (ht t)"
  by (cases t rule: ht.cases) (auto simp: node_height_def get_height_def)

lemma tree_at_node_balance:
  "tree_at h par \<langle>l, (a, hh, m), r\<rangle> \<Longrightarrow> node_balance h a = Some (ht r - ht l)"
  by (auto simp: node_balance_def get_child_def dest!: tree_at_node_height)

lemma set_parent_tree_at:
  assumes "tree_at h par t" "rootp t = Some a" "distinct (addrs t)"
  shows "\<exists>h'. set_parent h a q = Some h' \<and> tree_at h' q t \<and> (\<forall>x. x \<noteq> a \<longrightarrow> h' x = h x)"
proof -
  obtain l hh m r where t: "t = \<langle>l, (a, hh, m), r\<rangle>" using assms(2) by (cases t rule: rootp.cases) auto
  define h' where "h' = h(a \<mapsto> \<lparr>child = case_dir (rootp l) (rootp r), parent = q, avl_height = hh, \<dots> = m\<rparr>)"
  have "tree_at h' (Some a) l = tree_at h (Some a) l" "tree_at h' (Some a) r = tree_at h (Some a) r"
    by (rule tree_at_cong; use assms(3) in \<open>auto simp: t h'_def\<close>)+
  then show ?thesis using assms(1) by (auto simp: t set_parent_def h'_def)
qed

lemma set_parent_if_tree_at:
  assumes "tree_at h par t" "distinct (addrs t)"
  shows "\<exists>h'. set_parent_if h (rootp t) q = Some h' \<and> tree_at h' q t \<and> (\<forall>x. x \<notin> set (addrs t) \<longrightarrow> h' x = h x)"
proof (cases "rootp t")
  case None
  then show ?thesis using assms by (cases t rule: rootp.cases) (auto simp: set_parent_if_def)
next
  case (Some a)
  then show ?thesis
    using set_parent_tree_at[OF assms(1) Some assms(2), of q] rootp_in_addrs[OF Some]
    by (auto simp: set_parent_if_def)
qed

lemma tree_at_upd [heap_simps]: "a \<notin> set (addrs t) \<Longrightarrow> tree_at (h(a := n)) par t = tree_at h par t"
  by (rule tree_at_cong) auto

lemma path_at_upd [heap_simps]: "a \<notin> path_addrs c \<Longrightarrow> path_at_in (h(a := n)) up hole c = path_at_in h up hole c"
  by (rule path_at_cong) auto

lemma node_height_Some [heap_simps]: "node_height h (Some a) = get_height h a"
  by (simp add: node_height_def)

lemma node_height_upd [heap_simps]:
  "a \<notin> set (addrs t) \<Longrightarrow> node_height (h(a := n)) (rootp t) = node_height h (rootp t)"
  by (cases t rule: rootp.cases) (auto simp: node_height_def get_height_def)

lemma child_dir_path:
  "path_at h (Some a) c \<Longrightarrow> a \<notin> path_addrs c \<Longrightarrow> child_dir h (path_parent c) a = Some (path_dir c)"
  by (cases "(h, None :: ptr, Some a, c)" rule: path_at_in.cases)
    (auto simp: child_dir_def get_child_def dest: rootp_in_addrs split: dir.splits)

lemma replace_child_path:
  assumes "path_at (nodes s) hole c" "path_distinct c"
  shows "\<exists>s'. replace_child s (path_parent c) (path_dir c) v = Some s' \<and> path_at (nodes s') v c
           \<and> m_root s' = (if c = [] then v else m_root s) \<and> (\<forall>x. x \<notin> path_addrs c \<longrightarrow> nodes s' x = nodes s x)"
proof (cases c)
  case Nil
  then show ?thesis by (simp add: replace_child_def)
next
  case (Cons f c')
  obtain d a hh m sb where f: "f = (d, (a, hh, m), sb)" by (cases f) auto
  let ?n = "\<lparr>child = (case d of LEFT \<Rightarrow> case_dir v (rootp sb) | RIGHT \<Rightarrow> case_dir (rootp sb) v),
                  parent = path_parent c', avl_height = hh, \<dots> = m\<rparr>"
  let ?h = "(nodes s)(a \<mapsto> ?n)"
  have "tree_at ?h (Some a) sb = tree_at (nodes s) (Some a) sb"
    by (rule tree_at_cong) (use assms(2) in \<open>auto simp: Cons f\<close>)
  moreover have "path_at ?h (Some a) c' = path_at (nodes s) (Some a) c'"
    by (rule path_at_cong) (use assms(2) in \<open>auto simp: Cons f\<close>)
  moreover have "set_child (nodes s) a d v = Some ?h"
    using assms(1) by (cases d) (auto simp: Cons f set_child_def)
  ultimately show ?thesis using assms(1) by (auto simp: Cons f replace_child_def)
qed

lemma rootp_frotate: "can_rotate d t \<Longrightarrow> rootp (frotate upd d t) \<noteq> None"
  by (cases "(upd, d, t)" rule: frotate.cases) auto

lemma mk_addrs [simp]: "addrs (mk upd l x r) = addrs l @ fst x # addrs r"
  by (cases x) auto

lemma mk_rootp [simp]: "rootp (mk upd l x r) = Some (fst x)"
  by (cases x) auto

lemma addrs_frotate [simp]: "addrs (frotate upd d t) = addrs t"
  by (cases "(upd, d, t)" rule: frotate.cases) auto

lemma addrs_frebal [simp]: "addrs (frebal upd t) = addrs t"
  by (cases t) auto

lemma addrs_fstep [simp]: "addrs (fstep upd t) = addrs t"
  by (cases t) auto

lemma ht_nonneg: "hpos t \<Longrightarrow> 0 \<le> ht t"
  by (cases t rule: ht.cases) auto

lemma heavy_side:
  assumes "hpos l" "hpos r" "\<not> (-1 \<le> ht r - ht l \<and> ht r - ht l \<le> 1)"
  shows "\<exists>sl Z zh zm sr. (if ht r - ht l \<ge> 0 then r else l) = \<langle>sl, (Z, zh, zm), sr\<rangle>"
  using assms ht_nonneg[of l] ht_nonneg[of r]
  by (cases l rule: rootp.cases; cases r rule: rootp.cases) auto

lemma can_rotate_heavy:
  "hpos t \<Longrightarrow> (if d = LEFT then bal t > 0 else bal t < 0) \<Longrightarrow> can_rotate d t"
  by (cases t rule: hpos.cases; cases d) (auto dest!: ht_nonneg)

lemma rootp_fill [simp]: "rootp (fill (d, x, s) t) = Some (fst x)"
  by (cases d; cases x) auto

lemma rootp_plug_cong: "c \<noteq> [] \<Longrightarrow> rootp (plug t c) = rootp (plug t' c)"
proof (induction c arbitrary: t t')
  case (Cons f c)
  then show ?case by (cases c; cases f) auto
qed simp

lemma rootp_plug: "rootp t = rootp t' \<Longrightarrow> rootp (plug t c) = rootp (plug t' c)"
  using rootp_plug_cong by (cases "c = []") auto

lemma represents_plug:
  "represents s (plug t c) \<longleftrightarrow> m_root s = rootp (plug t c) \<and> tree_at (nodes s) (path_parent c) t
     \<and> path_at (nodes s) (rootp t) c \<and> distinct (addrs t) \<and> set (addrs t) \<inter> path_addrs c = {} \<and> path_distinct c"
  by (auto simp: represents_def tree_at_plug distinct_addrs_plug)

lemma represents_node:
  assumes "represents s (plug \<langle>l, (a, hh, m), r\<rangle> c)"
  shows "nodes s a = Some \<lparr>child = case_dir (rootp l) (rootp r), parent = path_parent c, avl_height = hh, \<dots> = m\<rparr>"
    "tree_at (nodes s) (Some a) l" "tree_at (nodes s) (Some a) r"
    "node_balance (nodes s) a = Some (ht r - ht l)"
  using assms tree_at_node_balance[of "nodes s" "path_parent c" l a hh m r] by (auto simp: represents_plug)

lemma represents_update:
  assumes "represents s (plug \<langle>l, (a, hh, m), r\<rangle> c)"
  shows "represents (s\<lparr>nodes := (nodes s)(a \<mapsto> \<lparr>child = case_dir (rootp l) (rootp r), parent = path_parent c,
           avl_height = hh', \<dots> = m'\<rparr>)\<rparr>) (plug \<langle>l, (a, hh', m'), r\<rangle> c)"
  using assms rootp_plug[of "\<langle>l, (a, hh, m), r\<rangle>" "\<langle>l, (a, hh', m'), r\<rangle>" c]
  by (auto simp: represents_plug heap_simps)

lemma rootp_None [simp]: "rootp t = None \<longleftrightarrow> t = \<langle>\<rangle>"
  by (cases t rule: rootp.cases) auto

text \<open>Hanging a subtree into the hole of a path.\<close>

lemma relink:
  assumes "tree_at (nodes s) (path_parent c) t" "path_at (nodes s) hole c"
    and "distinct (addrs (plug t c))" "c \<noteq> [] \<Longrightarrow> m_root s = rootp (plug t0 c)"
  shows "\<exists>s'. replace_child s (path_parent c) (path_dir c) (rootp t) = Some s' \<and> represents s' (plug t c)
     \<and> (\<forall>x. x \<notin> path_addrs c \<longrightarrow> nodes s' x = nodes s x)"
proof -
  note d = assms(3)[unfolded distinct_addrs_plug]
  obtain s' where s': "replace_child s (path_parent c) (path_dir c) (rootp t) = Some s'"
    "path_at (nodes s') (rootp t) c" "m_root s' = (if c = [] then rootp t else m_root s)"
    "\<forall>x. x \<notin> path_addrs c \<longrightarrow> nodes s' x = nodes s x"
    using replace_child_path[OF assms(2), of "rootp t"] d by blast
  have "tree_at (nodes s') (path_parent c) t = tree_at (nodes s) (path_parent c) t"
    by (rule tree_at_cong) (use d s'(4) in auto)
  moreover have "m_root s' = rootp (plug t c)"
    using s'(3) assms(4) rootp_plug_cong[of c t t0] by (cases "c = []") auto
  ultimately show ?thesis using s' assms(1) d by (auto simp: represents_plug)
qed

section \<open>The rebalancing step, for any rotation\<close>

locale tree_rotation =
  fixes rot :: "'m rotation" and upd :: "'m augment"
  assumes rot: "tree_at h par t \<Longrightarrow> distinct (addrs t) \<Longrightarrow> can_rotate d t \<Longrightarrow>
    \<exists>h'. rot h (the (rootp t)) d = Some (the (rootp (frotate upd d t)), h')
       \<and> tree_at h' (rootp t) (frotate upd d t) \<and> (\<forall>x. x \<notin> set (addrs t) \<longrightarrow> h' x = h x)"
begin

lemma rotate_child:
  assumes "tree_at h par \<langle>l, (a, hh, m), r\<rangle>" "distinct (addrs \<langle>l, (a, hh, m), r\<rangle>)"
    and t: "t = (if d = LEFT then l else r)" "can_rotate e t"
  shows "\<exists>Z h1 h2 h3. rot h (the (rootp t)) e = Some (Z, h1) \<and> set_parent h1 Z (Some a) = Some h2
    \<and> set_child h2 a d (Some Z) = Some h3
    \<and> tree_at h3 par (if d = LEFT then \<langle>frotate upd e l, (a, hh, m), r\<rangle> else \<langle>l, (a, hh, m), frotate upd e r\<rangle>)
    \<and> (\<forall>x. x \<notin> set (addrs \<langle>l, (a, hh, m), r\<rangle>) \<longrightarrow> h3 x = h x)"
proof -
  have dt: "distinct (addrs t)" "tree_at h (Some a) t" using assms by auto
  let ?t = "frotate upd e t"
  obtain h1 where h1: "rot h (the (rootp t)) e = Some (the (rootp ?t), h1)" "tree_at h1 (rootp t) ?t"
    "\<forall>x. x \<notin> set (addrs t) \<longrightarrow> h1 x = h x" using rot[OF dt(2) dt(1) t(2)] by auto
  obtain Z where Z: "rootp ?t = Some Z" using rootp_frotate[OF t(2)] by blast
  obtain h2 where h2: "set_parent h1 Z (Some a) = Some h2" "tree_at h2 (Some a) ?t"
    "\<forall>x. x \<noteq> Z \<longrightarrow> h2 x = h1 x"
    using set_parent_tree_at[OF h1(2) Z] dt(1) by auto
  have Zt: "Z \<in> set (addrs t)" using rootp_in_addrs[OF Z] by simp
  have at: "a \<notin> set (addrs t)" using assms by auto
  have fr: "h2 x = h x" if "x \<notin> set (addrs t)" for x using that h1(3) h2(3) Zt by auto
  let ?ch = "if d = LEFT then case_dir (Some Z) (rootp r) else case_dir (rootp l) (Some Z)"
  let ?h3 = "h2(a \<mapsto> \<lparr>child = ?ch, parent = par, avl_height = hh, \<dots> = m\<rparr>)"
  have sc: "set_child h2 a d (Some Z) = Some ?h3"
    using assms(1) fr[OF at] by (cases d) (auto simp: set_child_def)
  have sub: "tree_at ?h3 (Some a) ?t"
    using h2(2) by (subst tree_at_cong[of _ _ h2]) (use at in auto)
  have oth: "tree_at ?h3 (Some a) (if d = LEFT then r else l)"
  proof -
    have "x \<notin> set (addrs t) \<and> x \<noteq> a" if "x \<in> set (addrs (if d = LEFT then r else l))" for x
      using that assms(2) t(1) by (auto split: if_splits)
    then have "tree_at ?h3 (Some a) (if d = LEFT then r else l) = tree_at h (Some a) (if d = LEFT then r else l)"
      using fr by (intro tree_at_cong) auto
    then show ?thesis using assms(1) by auto
  qed
  have "tree_at ?h3 par (if d = LEFT then \<langle>frotate upd e l, (a, hh, m), r\<rangle> else \<langle>l, (a, hh, m), frotate upd e r\<rangle>)"
    using sub oth Z t(1) by auto
  moreover have "\<forall>x. x \<notin> set (addrs \<langle>l, (a, hh, m), r\<rangle>) \<longrightarrow> ?h3 x = h x"
    using fr t(1) by auto
  ultimately show ?thesis using h1(1) h2(1) sc Z by auto
qed

lemma rotate_top:
  assumes "tree_at (nodes s) (path_parent c) t" "path_at (nodes s) (Some a) c" "distinct (addrs (plug t c))"
    and "can_rotate e t" "rootp t = Some a" "c \<noteq> [] \<longrightarrow> m_root s = rootp (plug t c)"
  shows "\<exists>Z h1 h2 s'. rot (nodes s) a e = Some (Z, h1) \<and> set_parent h1 Z (path_parent c) = Some h2
    \<and> replace_child (s\<lparr>nodes := h2\<rparr>) (path_parent c) (path_dir c) (Some Z) = Some s'
    \<and> represents s' (plug (frotate upd e t) c)
    \<and> (\<forall>x. x \<notin> set (addrs (plug t c)) \<longrightarrow> nodes s' x = nodes s x)"
proof -
  note d = assms(3)[unfolded distinct_addrs_plug]
  let ?t = "frotate upd e t"
  obtain h1 where h1: "rot (nodes s) a e = Some (the (rootp ?t), h1)" "tree_at h1 (Some a) ?t"
    "\<forall>x. x \<notin> set (addrs t) \<longrightarrow> h1 x = nodes s x"
    using rot[OF assms(1) _ assms(4)] d assms(5) by auto
  obtain Z where Z: "rootp ?t = Some Z" using rootp_frotate[OF assms(4)] by blast
  have Zt: "Z \<in> set (addrs t)" using rootp_in_addrs[OF Z] by simp
  obtain h2 where h2: "set_parent h1 Z (path_parent c) = Some h2" "tree_at h2 (path_parent c) ?t"
    "\<forall>x. x \<noteq> Z \<longrightarrow> h2 x = h1 x"
    using set_parent_tree_at[OF h1(2) Z, of "path_parent c"] d by auto
  have fr: "h2 x = nodes s x" if "x \<notin> set (addrs t)" for x using that h1(3) h2(3) Zt by auto
  have "path_at h2 (Some a) c = path_at (nodes s) (Some a) c"
    by (rule path_at_cong) (use d fr in auto)
  then have "path_at (nodes (s\<lparr>nodes := h2\<rparr>)) (Some a) c" using assms(2) by simp
  moreover have "distinct (addrs (plug ?t c))" using d by (simp add: distinct_addrs_plug)
  ultimately obtain s' where s': "replace_child (s\<lparr>nodes := h2\<rparr>) (path_parent c) (path_dir c) (Some Z) = Some s'"
    "represents s' (plug ?t c)" "\<forall>x. x \<notin> path_addrs c \<longrightarrow> nodes s' x = h2 x"
    using relink[of "s\<lparr>nodes := h2\<rparr>" c ?t "Some a" t] h2(2) assms(6) Z by auto
  moreover have "nodes s' x = nodes s x" if "x \<notin> set (addrs (plug t c))" for x
    using that s'(3) fr by (simp add: set_addrs_plug)
  ultimately show ?thesis using h1(1) h2(1) Z by auto
qed

lemma inner_rotation:
  assumes "tree_at h par \<langle>l, (a, hh, m), r\<rangle>" "distinct (addrs \<langle>l, (a, hh, m), r\<rangle>)"
    and "t = (if d = LEFT then l else r)" "need \<Longrightarrow> can_rotate e t" "rootp t = Some Z"
    and t': "t' = (if need then frotate upd e t else t)"
  shows "\<exists>h'. (if need then do {
       (Z, h) \<leftarrow> rot h Z e;
       h \<leftarrow> set_parent h Z (Some a);
       set_child h a d (Some Z)
     } else Some h) = Some h'
     \<and> tree_at h' par (if d = LEFT then \<langle>t', (a, hh, m), r\<rangle> else \<langle>l, (a, hh, m), t'\<rangle>)
     \<and> (\<forall>x. x \<notin> set (addrs \<langle>l, (a, hh, m), r\<rangle>) \<longrightarrow> h' x = h x)"
proof (cases need)
  case True
  show ?thesis
    using rotate_child[OF assms(1,2,3) assms(4)[OF True]] assms(3,5) True t' by auto
qed (use assms in auto)

lemma rebalance:
  assumes rep: "represents s (plug t c)" and t: "t = \<langle>l, (a, hh, m), r\<rangle>"
    and pos: "hpos l" "hpos r" and unbal: "\<not> (-1 \<le> ht r - ht l \<and> ht r - ht l \<le> 1)"
  shows "\<exists>s'. rebalance rot s a (ht r - ht l) = Some (s', path_parent c)
     \<and> represents s' (plug (frebal upd t) c)
     \<and> (\<forall>x. x \<notin> set (addrs (plug t c)) \<longrightarrow> nodes s' x = nodes s x)"
proof -
  let ?h = "nodes s" and ?b = "ht r - ht l"
  define d where "d = (if ?b \<ge> 0 then RIGHT else LEFT)"
  define sub where "sub = (if d = LEFT then l else r)"
  define need where "need = (if d = LEFT then bal sub > 0 else bal sub < 0)"
  define sub' where "sub' = (if need then frotate upd d sub else sub)"
  define t1 where "t1 = (if d = LEFT then \<langle>sub', (a, hh, m), r\<rangle> else \<langle>l, (a, hh, m), sub'\<rangle>)"
  have base: "tree_at ?h (path_parent c) t" "path_at ?h (Some a) c" and dist: "distinct (addrs (plug t c))"
    and root: "m_root s = rootp (plug t c)"
    using rep by (auto simp: represents_def tree_at_plug t)
  note dc = dist[unfolded distinct_addrs_plug]
  obtain sl Z zh zm sr where sub: "sub = \<langle>sl, (Z, zh, zm), sr\<rangle>"
    using heavy_side[OF pos unbal] by (auto simp: sub_def d_def split: if_splits)
  have can: "need \<Longrightarrow> can_rotate d sub"
    using pos can_rotate_heavy[of sub d] by (auto simp: need_def sub_def)
  have Zb: "node_balance ?h Z = Some (bal sub)" "get_child ?h a d = Some (Some Z)"
    using base(1) tree_at_node_balance[of ?h "Some a" sl Z zh zm sr] sub
    by (auto simp: t sub_def get_child_def split: if_splits dir.splits)
  have "\<exists>h'. (if need then do { (Z, h) \<leftarrow> rot ?h Z d; h \<leftarrow> set_parent h Z (Some a); set_child h a d (Some Z) }
     else Some ?h) = Some h' \<and> tree_at h' (path_parent c) t1 \<and> (\<forall>x. x \<notin> set (addrs t) \<longrightarrow> h' x = ?h x)"
    unfolding t1_def t
    by (rule inner_rotation[of _ _ _ _ _ _ _ sub]) (use base dc can sub sub_def sub'_def t in auto)
  then obtain h1 where h1: "(if need then do { (Z, h) \<leftarrow> rot ?h Z d; h \<leftarrow> set_parent h Z (Some a);
      set_child h a d (Some Z) } else Some ?h) = Some h1"
    "tree_at h1 (path_parent c) t1" "\<forall>x. x \<notin> set (addrs t) \<longrightarrow> h1 x = ?h x" by blast
  have ad: "addrs t1 = addrs t" by (auto simp: t1_def t sub'_def sub_def)
  have "path_at h1 (Some a) c = path_at ?h (Some a) c"
    by (rule path_at_cong) (use dc h1(3) in auto)
  then have "path_at h1 (Some a) c" using base by simp
  moreover have "distinct (addrs (plug t1 c))" using dc ad by (simp add: distinct_addrs_plug)
  moreover have "can_rotate (opp d) t1" "rootp t1 = Some a"
    using rootp_frotate[of d sub upd] can sub by (auto simp: t1_def opp_def sub'_def d_def split: if_splits)
  moreover have "c \<noteq> [] \<longrightarrow> m_root s = rootp (plug t1 c)" using root rootp_plug_cong by metis
  ultimately obtain Y h2 h3 s' where fin: "rot h1 a (opp d) = Some (Y, h2)"
    "set_parent h2 Y (path_parent c) = Some h3"
    "replace_child (s\<lparr>nodes := h3\<rparr>) (path_parent c) (path_dir c) (Some Y) = Some s'"
    "represents s' (plug (frotate upd (opp d) t1) c)"
    "\<forall>x. x \<notin> set (addrs (plug t1 c)) \<longrightarrow> nodes s' x = h1 x"
    using rotate_top[of "s\<lparr>nodes := h1\<rparr>" c t1 a "opp d"] h1(2) by auto
  have eq: "frotate upd (opp d) t1 = frebal upd t"
    by (auto simp: t t1_def sub'_def need_def sub_def d_def opp_def)
  have "get_parent ?h a = Some (path_parent c)" using base(1) by (simp add: t get_parent_def)
  moreover have "child_dir ?h (path_parent c) a = Some (path_dir c)"
    by (rule child_dir_path[OF base(2)]) (use dc t in auto)
  ultimately have "rebalance rot s a ?b = Some (s', path_parent c)"
    using Zb h1(1) fin(1-3) unfolding rebalance_def
    by (cases "?b \<ge> 0") (simp_all add: d_def need_def opp_def cong: if_cong)
  moreover have "nodes s' x = ?h x" if "x \<notin> set (addrs (plug t c))" for x
    using that fin(5) h1(3) ad by (auto simp: set_addrs_plug)
  ultimately show ?thesis using fin(4) eq by auto
qed

end

section \<open>The loop\<close>

lemma hpos_mk: "hpos l \<Longrightarrow> hpos r \<Longrightarrow> hpos (mk upd l x r)"
  using ht_nonneg[of l] by (cases x) auto

lemma hpos_frotate: "hpos t \<Longrightarrow> hpos (frotate upd d t)"
  by (cases "(upd, d, t)" rule: frotate.cases) (auto intro!: hpos_mk simp del: mk.simps)

lemma hpos_fstep: "hpos t \<Longrightarrow> hpos (fstep upd t)"
  by (cases t rule: hpos.cases) (auto intro!: hpos_mk hpos_frotate simp del: mk.simps frotate.simps)

fun path_hpos :: "'m path \<Rightarrow> bool" where
  "path_hpos [] = True"
| "path_hpos ((d, (a, hh, m), s) # c) = (0 \<le> hh \<and> hpos s \<and> path_hpos c)"

lemma hpos_plug: "hpos (plug t c) \<longleftrightarrow> hpos t \<and> path_hpos c"
proof (induction c arbitrary: t)
  case (Cons f c)
  obtain d a hh m s where f: "f = (d, (a, hh, m), s)" by (cases f) auto
  show ?case by (cases d) (auto simp: Cons f)
qed simp

lemma hpos_fixz: "hpos (plug t c) \<Longrightarrow> hpos (fixz e upd t c)"
proof (induction c arbitrary: t)
  case (Cons f c)
  show ?case
  proof (cases "fstop e t")
    case False
    have "hpos (plug (fstep upd t) (f # c))"
      using Cons.prems hpos_fstep[of t upd] by (simp add: hpos_plug del: plug.simps)
    then show ?thesis using False Cons.IH by simp
  qed (use Cons.prems in simp)
qed (simp add: hpos_fstep)

locale tree_fixup = tree_rotation rot upd for rot :: "'m rotation" and upd +
  fixes fixup :: "'m avl_tree \<Rightarrow> ptr \<Rightarrow> 'm avl_tree option" and e :: bool
  assumes fixup_null: "fixup s None = Some s"
    and fixup_stop: "represents s (plug t c) \<Longrightarrow> t \<noteq> \<langle>\<rangle> \<Longrightarrow> fstop e t \<Longrightarrow> fixup s (rootp t) = Some s"
    and fixup_step: "represents s (plug t c) \<Longrightarrow> t \<noteq> \<langle>\<rangle> \<Longrightarrow> hpos t \<Longrightarrow> \<not> fstop e t \<Longrightarrow>
      \<exists>s'. fixup s (rootp t) = fixup s' (path_parent c) \<and> represents s' (plug (fstep upd t) c)
         \<and> (\<forall>x. x \<notin> set (addrs (plug t c)) \<longrightarrow> nodes s' x = nodes s x)"
begin

lemma fixup:
  "represents s (plug t c) \<Longrightarrow> t \<noteq> \<langle>\<rangle> \<Longrightarrow> hpos (plug t c) \<Longrightarrow>
   \<exists>s'. fixup s (rootp t) = Some s' \<and> represents s' (fixz e upd t c)
      \<and> (\<forall>x. x \<notin> set (addrs (plug t c)) \<longrightarrow> nodes s' x = nodes s x)"
proof (induction c arbitrary: s t)
  case Nil
  show ?case
  proof (cases "fstop e t")
    case True
    then show ?thesis using fixup_stop[OF Nil(1,2)] Nil(1) by simp
  next
    case False
    then show ?thesis using fixup_step[OF Nil(1,2)] Nil fixup_null by (simp add: hpos_plug)
  qed
next
  case (Cons f c)
  obtain d a hh m sb where f: "f = (d, (a, hh, m), sb)" by (cases f) auto
  show ?case
  proof (cases "fstop e t")
    case True
    then show ?thesis using fixup_stop[OF Cons(2,3)] Cons(2) by simp
  next
    case False
    let ?t = "fill f (fstep upd t)"
    obtain s1 where s1: "fixup s (rootp t) = fixup s1 (path_parent (f # c))" "represents s1 (plug ?t c)"
      "\<forall>x. x \<notin> set (addrs (plug t (f # c))) \<longrightarrow> nodes s1 x = nodes s x"
      using fixup_step[OF Cons(2,3) _ False] hpos_plug[of t "f # c"] Cons(4) by auto
    have "?t \<noteq> \<langle>\<rangle>" "rootp ?t = Some a" by (cases d; simp add: f)+
    moreover have "hpos (plug ?t c)"
      using Cons(4) hpos_fstep[of t upd] hpos_plug[of t "f # c"] by (cases d) (auto simp: f hpos_plug)
    moreover have "set (addrs (plug ?t c)) = set (addrs (plug t (f # c)))"
      by (cases d) (auto simp: f set_addrs_plug)
    ultimately show ?thesis
      using Cons(1)[OF s1(2)] s1 False by (auto simp: f)
  qed
qed

end

section \<open>Balance\<close>

fun avl :: "'m atree \<Rightarrow> bool" where
  "avl \<langle>\<rangle> = True"
| "avl \<langle>l, (a, hh, m), r\<rangle> =
     (hh = 1 + max (ht l) (ht r) \<and> -1 \<le> ht r - ht l \<and> ht r - ht l \<le> 1 \<and> avl l \<and> avl r)"

text \<open>A path whose frames are balanced and store right heights for a hole of height \<open>k\<close>.\<close>

fun path_avl :: "int \<Rightarrow> 'm path \<Rightarrow> bool" where
  "path_avl k [] = True"
| "path_avl k ((d, (a, hh, m), s) # c) =
     (avl s \<and> -1 \<le> ht s - k \<and> ht s - k \<le> 1 \<and> hh = 1 + max k (ht s) \<and> path_avl hh c)"

text \<open>A node that had height \<open>k\<close> before one of its subtrees changed its height by at most one.\<close>

fun near :: "int \<Rightarrow> 'm atree \<Rightarrow> bool" where
  "near k \<langle>\<rangle> = False"
| "near k \<langle>l, x, r\<rangle> = (avl l \<and> avl r \<and>
     (\<exists>lo ro. \<bar>lo - ro\<bar> \<le> 1 \<and> k = 1 + max lo ro \<and>
        (ht l = lo \<and> \<bar>ht r - ro\<bar> \<le> 1 \<or> ht r = ro \<and> \<bar>ht l - lo\<bar> \<le> 1)))"

lemma avl_hpos: "avl t \<Longrightarrow> hpos t"
proof (induction t rule: avl.induct)
  case (2 l a hh m r)
  then show ?case using ht_nonneg[of l] by auto
qed simp

lemma avl_ht: "avl t \<Longrightarrow> 0 \<le> ht t \<and> (t \<noteq> \<langle>\<rangle> \<longrightarrow> 1 \<le> ht t)"
proof (induction t rule: avl.induct)
  case (2 l a hh m r)
  then show ?case by auto
qed simp

lemma avl_plug: "avl (plug t c) \<longleftrightarrow> avl t \<and> path_avl (ht t) c"
proof (induction c arbitrary: t)
  case (Cons f c)
  obtain d a hh m s where f: "f = (d, (a, hh, m), s)" by (cases f) auto
  show ?case by (cases d) (auto simp: Cons f max.commute)
qed simp

lemma frebal_right_heavy:
  assumes "avl l" "avl r" "ht r = ht l + 2"
  shows "avl (frebal upd \<langle>l, x, r\<rangle>) \<and> ht (frebal upd \<langle>l, x, r\<rangle>) \<in> {ht r, ht r + 1}"
proof -
  obtain b z hz mz c where r: "r = \<langle>b, (z, hz, mz), c\<rangle>"
    using assms avl_ht[of l] by (cases r rule: rootp.cases) auto
  show ?thesis
  proof (cases "bal r < 0")
    case True
    then obtain ba y hy my bc where "b = \<langle>ba, (y, hy, my), bc\<rangle>"
      using assms r avl_ht[of c] by (cases b rule: rootp.cases) auto
    then show ?thesis using assms r True by (cases x) auto
  qed (use assms r in \<open>cases x; auto\<close>)
qed

lemma frebal_left_heavy:
  assumes "avl l" "avl r" "ht l = ht r + 2"
  shows "avl (frebal upd \<langle>l, x, r\<rangle>) \<and> ht (frebal upd \<langle>l, x, r\<rangle>) \<in> {ht l, ht l + 1}"
proof -
  obtain b z hz mz c where l: "l = \<langle>b, (z, hz, mz), c\<rangle>"
    using assms avl_ht[of r] by (cases l rule: rootp.cases) auto
  show ?thesis
  proof (cases "bal l > 0")
    case True
    then obtain ca y hy my cc where "c = \<langle>ca, (y, hy, my), cc\<rangle>"
      using assms l avl_ht[of b] by (cases c rule: rootp.cases) auto
    then show ?thesis using assms l True by (cases x) auto
  qed (use assms l in \<open>cases x; auto\<close>)
qed

lemma fstep_near:
  assumes "near k t"
  shows "avl (fstep upd t) \<and> \<bar>ht (fstep upd t) - k\<bar> \<le> 1"
proof -
  obtain l a hh m r where t: "t = \<langle>l, (a, hh, m), r\<rangle>" using assms by (cases t rule: rootp.cases) auto
  consider "-1 \<le> ht r - ht l" "ht r - ht l \<le> 1" | "ht r = ht l + 2" | "ht l = ht r + 2"
    using assms by (fastforce simp: t)
  then show ?thesis
  proof cases
    case 1
    then show ?thesis using assms by (auto simp: t)
  next
    case 2
    then show ?thesis using assms frebal_right_heavy[of l r upd "(a, hh, m)"]
      by (auto simp: t simp del: frebal.simps)
  next
    case 3
    then show ?thesis using assms frebal_left_heavy[of l r upd "(a, hh, m)"]
      by (auto simp: t simp del: frebal.simps)
  qed
qed

lemma near_fill:
  assumes "avl t" "\<bar>ht t - k\<bar> \<le> 1" "path_avl k ((d, (a, hh, m), s) # c)"
  shows "near hh (fill (d, (a, hh, m), s) t)"
proof (cases d)
  case LEFT
  then show ?thesis using assms by (simp, intro exI[of _ k] exI[of _ "ht s"]) auto
next
  case RIGHT
  then show ?thesis using assms by (simp, intro exI[of _ "ht s"] exI[of _ k]) auto
qed

lemma fixz_avl:
  "near k t \<Longrightarrow> path_avl k c \<Longrightarrow> (e \<longrightarrow> ht t = k) \<Longrightarrow> avl (fixz e upd t c)"
proof (induction c arbitrary: k t)
  case Nil
  then show ?case using fstep_near[OF Nil(1)] by (cases t rule: avl.cases) auto
next
  case (Cons f c)
  obtain d a hh m s where f: "f = (d, (a, hh, m), s)" by (cases f) auto
  note st = fstep_near[OF Cons(2), of upd]
  show ?case
  proof (cases "fstop e t")
    case True
    then have "avl t \<and> ht t = k" using Cons(2,4) by (cases t rule: avl.cases) auto
    then show ?thesis using True Cons(3) by (simp add: avl_plug del: plug.simps)
  next
    case False
    have "near hh (fill f (fstep upd t))"
      unfolding f by (rule near_fill[of _ k _ _ _ _ _ c]) (use st Cons(3) in \<open>auto simp: f\<close>)
    then have "avl (fixz e upd (fill f (fstep upd t)) c)"
      by (rule Cons(1)) (use Cons(3) in \<open>cases d; auto simp: f\<close>)+
    then show ?thesis using False by simp
  qed
qed

section \<open>Contents\<close>

text \<open>The in-order contents, seen through a projection \<open>g\<close> of the payload that \<open>upd\<close> does not touch.\<close>

definition contents :: "('m \<Rightarrow> 'b) \<Rightarrow> 'm atree \<Rightarrow> (addr \<times> 'b) list" where
  "contents g t = map (\<lambda>(a, hh, m). (a, g m)) (inorder t)"

fun before :: "('m \<Rightarrow> 'b) \<Rightarrow> 'm path \<Rightarrow> (addr \<times> 'b) list" where
  "before g [] = []"
| "before g ((LEFT, x, s) # c) = before g c"
| "before g ((RIGHT, (a, hh, m), s) # c) = before g c @ contents g s @ [(a, g m)]"

fun after :: "('m \<Rightarrow> 'b) \<Rightarrow> 'm path \<Rightarrow> (addr \<times> 'b) list" where
  "after g [] = []"
| "after g ((LEFT, (a, hh, m), s) # c) = (a, g m) # contents g s @ after g c"
| "after g ((RIGHT, x, s) # c) = after g c"

lemma contents_simps [simp]:
  "contents g \<langle>\<rangle> = []"
  "contents g \<langle>l, (a, hh, m), r\<rangle> = contents g l @ (a, g m) # contents g r"
  by (simp_all add: contents_def)

lemma addrs_contents: "addrs t = map fst (contents g t)"
  by (induction t) (auto simp: contents_def)

lemma contents_plug: "contents g (plug t c) = before g c @ contents g t @ after g c"
  by (induction g c arbitrary: t rule: before.induct) (auto split: prod.splits)

lemma contents_mk:
  "(\<And>m l r. g (upd m l r) = g m) \<Longrightarrow> contents g (mk upd l x r) = contents g \<langle>l, x, r\<rangle>"
  by (cases x) auto

lemma contents_frotate:
  "(\<And>m l r. g (upd m l r) = g m) \<Longrightarrow> contents g (frotate upd d t) = contents g t"
  by (cases "(upd, d, t)" rule: frotate.cases) (auto simp: contents_mk simp del: mk.simps)

lemma contents_fstep:
  assumes "\<And>m l r. g (upd m l r) = g m"
  shows "contents g (fstep upd t) = contents g t"
proof (cases t)
  case (Node l x r)
  have inner: "contents g \<langle>if p then frotate upd d l else l, x, r\<rangle> = contents g \<langle>l, x, r\<rangle>"
    "contents g \<langle>l, x, if p then frotate upd d r else r\<rangle> = contents g \<langle>l, x, r\<rangle>" for p d
    using contents_frotate[of g upd, OF assms] by (cases x; simp)+
  show ?thesis
    by (simp add: Node contents_mk contents_frotate assms inner del: contents_simps frotate.simps mk.simps)
qed simp

lemma contents_fixz:
  assumes "\<And>m l r. g (upd m l r) = g m"
  shows "contents g (fixz e upd t c) = contents g (plug t c)"
proof (induction c arbitrary: t)
  case (Cons f c)
  show ?case
  proof (cases "fstop e t")
    case False
    have "contents g (plug (fstep upd t) (f # c)) = contents g (plug t (f # c))"
      by (simp add: contents_plug contents_fstep assms del: plug.simps)
    then show ?thesis using False by (simp add: Cons)
  qed simp
qed (simp add: contents_fstep assms)

lemma distinct_contents: "distinct (addrs t) \<longleftrightarrow> distinct (map fst (contents g t))"
  by (simp add: addrs_contents[of t g])

text \<open>Splitting a tree at one of its nodes.\<close>

lemma split_at_addr:
  "a \<in> set (addrs t) \<Longrightarrow> \<exists>l hh m r c. t = plug \<langle>l, (a, hh, m), r\<rangle> c"
proof (induction t)
  case (Node l x r)
  obtain b hh m where x: "x = (b, hh, m)" by (cases x)
  consider "a \<in> set (addrs l)" | "a = b" | "a \<in> set (addrs r)" using Node.prems x by auto
  then show ?case
  proof cases
    case 1
    then obtain l' hh' m' r' c where "l = plug \<langle>l', (a, hh', m'), r'\<rangle> c" using Node.IH(1) by blast
    then have "\<langle>l, x, r\<rangle> = plug \<langle>l', (a, hh', m'), r'\<rangle> (c @ [(LEFT, x, r)])" by (simp add: plug_append)
    then show ?thesis by blast
  next
    case 2
    then have "\<langle>l, x, r\<rangle> = plug \<langle>l, (a, hh, m), r\<rangle> []" using x by simp
    then show ?thesis by blast
  next
    case 3
    then obtain l' hh' m' r' c where "r = plug \<langle>l', (a, hh', m'), r'\<rangle> c" using Node.IH(2) by blast
    then have "\<langle>l, x, r\<rangle> = plug \<langle>l', (a, hh', m'), r'\<rangle> (c @ [(RIGHT, x, l)])" by (simp add: plug_append)
    then show ?thesis by blast
  qed
qed simp

lemma split_unique:
  "xs @ (a, m) # ys = xs' @ (a, k) # ys' \<Longrightarrow> a \<notin> fst ` set xs \<Longrightarrow> a \<notin> fst ` set xs' \<Longrightarrow> xs = xs' \<and> ys = ys'"
proof (induction xs arbitrary: xs')
  case Nil
  then show ?case by (cases xs') auto
next
  case (Cons x xs)
  then show ?case by (cases xs') auto
qed

section \<open>The leftmost node\<close>

fun min_path :: "'m atree \<Rightarrow> 'm path \<Rightarrow> 'm anode \<times> 'm atree \<times> 'm path" where
  "min_path \<langle>\<rangle> c = undefined"
| "min_path \<langle>l, x, r\<rangle> c = (if l = \<langle>\<rangle> then (x, r, c) else min_path l ((LEFT, x, r) # c))"

lemma min_path_plug:
  "t \<noteq> \<langle>\<rangle> \<Longrightarrow> min_path t c = (z, zr, p) \<Longrightarrow> plug t c = plug \<langle>\<langle>\<rangle>, z, zr\<rangle> p"
  by (induction t c rule: min_path.induct) (auto split: if_splits)

lemma min_path_append:
  "t \<noteq> \<langle>\<rangle> \<Longrightarrow> min_path t (c @ c') = (case min_path t c of (z, zr, p) \<Rightarrow> (z, zr, p @ c'))"
proof (induction t c rule: min_path.induct)
  case (2 l x r c)
  then show ?case by (auto simp flip: append_Cons)
qed simp

lemma min_path_head_left:
  "t \<noteq> \<langle>\<rangle> \<Longrightarrow> min_path t ((LEFT, x, r) # c) = (z, zr, p) \<Longrightarrow>
   \<exists>y hy my yr p'. p = (LEFT, (y, hy, my), yr) # p'"
proof (induction t arbitrary: x r c)
  case (Node t1 x2 t2)
  then show ?case by (cases x) (auto split: if_splits)
qed simp

lemma min_path_before: "t \<noteq> \<langle>\<rangle> \<Longrightarrow> min_path t c = (z, zr, p) \<Longrightarrow> before g p = before g c"
  by (induction t c rule: min_path.induct) (auto split: if_splits)

text \<open>Replacing the leftmost node of a subtree by its right child.\<close>

lemma unlink_min:
  assumes at: "path_at_in h up hole q" "tree_at h w zr" and q: "q = (LEFT, (y, hy, my), yr) # q'"
    and d: "path_distinct q" "distinct (addrs zr)" "set (addrs zr) \<inter> path_addrs q = {}"
  shows "\<exists>h1 h2. set_child h y LEFT (rootp zr) = Some h1 \<and> set_parent_if h1 (rootp zr) (Some y) = Some h2
     \<and> tree_at h2 up (plug zr q) \<and> (\<forall>x. x \<notin> path_addrs q \<union> set (addrs zr) \<longrightarrow> h2 x = h x)"
proof -
  let ?h1 = "h(y \<mapsto> \<lparr>child = case_dir (rootp zr) (rootp yr), parent = path_parent_in up q', avl_height = hy, \<dots> = my\<rparr>)"
  have h1: "set_child h y LEFT (rootp zr) = Some ?h1" using at(1) by (auto simp: q set_child_def)
  have at1: "path_at_in ?h1 up (rootp zr) q" "tree_at ?h1 w zr" using at d by (auto simp: q heap_simps)
  obtain h2 where h2: "set_parent_if ?h1 (rootp zr) (Some y) = Some h2" "tree_at h2 (Some y) zr"
    "\<forall>x. x \<notin> set (addrs zr) \<longrightarrow> h2 x = ?h1 x"
    using set_parent_if_tree_at[OF at1(2) d(2), of "Some y"] by blast
  have "path_at_in h2 up (rootp zr) q = path_at_in ?h1 up (rootp zr) q"
    by (rule path_at_cong) (use d(3) h2(3) in auto)
  then have "tree_at h2 up (plug zr q)" using h2(2) at1(1) by (simp add: tree_at_plug q)
  moreover have "\<forall>x. x \<notin> path_addrs q \<union> set (addrs zr) \<longrightarrow> h2 x = h x" using h2(3) by (auto simp: q)
  ultimately show ?thesis using h1 h2(1) by auto
qed

section \<open>A heap for a given tree\<close>

fun heap_of :: "ptr \<Rightarrow> 'm atree \<Rightarrow> 'm avl_heap" where
  "heap_of par \<langle>\<rangle> = Map.empty"
| "heap_of par \<langle>l, (a, hh, m), r\<rangle> = (heap_of (Some a) l ++ heap_of (Some a) r)
     (a \<mapsto> \<lparr>child = case_dir (rootp l) (rootp r), parent = par, avl_height = hh, \<dots> = m\<rparr>)"

lemma dom_heap_of: "dom (heap_of par t) = set (addrs t)"
  by (induction par t rule: heap_of.induct) (auto simp: dom_if)

lemma tree_at_heap_of: "distinct (addrs t) \<Longrightarrow> tree_at (heap_of par t) par t"
proof (induction par t rule: heap_of.induct)
  case (2 par l a hh m r)
  define h where "h = heap_of par \<langle>l, (a, hh, m), r\<rangle>"
  have "h x = heap_of (Some a) l x" if "x \<in> set (addrs l)" for x
  proof -
    have "x \<noteq> a" "x \<notin> dom (heap_of (Some a) r)" using that 2(3) by (auto simp: dom_heap_of)
    then show ?thesis by (simp add: h_def map_add_dom_app_simps(3))
  qed
  then have "tree_at h (Some a) l" using 2 by (subst tree_at_cong) auto
  moreover have "h x = heap_of (Some a) r x" if "x \<in> set (addrs r)" for x
  proof -
    have "x \<noteq> a" "x \<in> dom (heap_of (Some a) r)" using that 2(3) by (auto simp: dom_heap_of)
    then show ?thesis by (simp add: h_def map_add_dom_app_simps(1))
  qed
  then have "tree_at h (Some a) r" using 2 by (subst tree_at_cong) auto
  moreover have "h a = Some \<lparr>child = case_dir (rootp l) (rootp r), parent = par, avl_height = hh, \<dots> = m\<rparr>"
    by (simp add: h_def)
  ultimately show ?case by (simp flip: h_def del: heap_of.simps)
qed simp

lemma tree_at_unique: "tree_at h par t \<Longrightarrow> tree_at h par t' \<Longrightarrow> rootp t = rootp t' \<Longrightarrow> t = t'"
proof (induction t arbitrary: par t')
  case Leaf
  then show ?case by (metis rootp.simps(1) rootp_None)
next
  case (Node l x r)
  obtain a hh m where x: "x = (a, hh, m)" by (cases x)
  obtain l' hh' m' r' where t': "t' = \<langle>l', (a, hh', m'), r'\<rangle>"
    using Node.prems(3) by (cases t' rule: rootp.cases) (auto simp: x)
  have "rootp l = rootp l'" "rootp r = rootp r'"
    using Node.prems by (auto simp: x t' dest: fun_cong[of _ _ LEFT] fun_cong[of _ _ RIGHT])
  then show ?case using Node.IH[of "Some a"] Node.prems by (auto simp: x t')
qed

section \<open>Walking all the way up\<close>

text \<open>
  A walk that does not stop early recomputes every node on the path, so neither the stored heights
  nor the augmented data of the path matter: \<open>path_bal\<close> asks for balanced siblings only.
\<close>

fun path_bal :: "int \<Rightarrow> 'm path \<Rightarrow> bool" where
  "path_bal k [] = True"
| "path_bal k ((d, x, s) # c) = (avl s \<and> -1 \<le> ht s - k \<and> ht s - k \<le> 1 \<and> path_bal (1 + max k (ht s)) c)"

fun path_top :: "int \<Rightarrow> 'm path \<Rightarrow> int" where
  "path_top k [] = k"
| "path_top k ((d, x, s) # c) = path_top (1 + max k (ht s)) c"

fun augmented :: "'m augment \<Rightarrow> 'm atree \<Rightarrow> bool" where
  "augmented upd \<langle>\<rangle> = True"
| "augmented upd \<langle>l, (a, hh, m), r\<rangle> = (upd m l r = m \<and> augmented upd l \<and> augmented upd r)"

fun sub_augmented :: "'m augment \<Rightarrow> 'm atree \<Rightarrow> bool" where
  "sub_augmented upd \<langle>\<rangle> = True"
| "sub_augmented upd \<langle>l, x, r\<rangle> = (augmented upd l \<and> augmented upd r)"

fun path_augmented :: "'m augment \<Rightarrow> 'm path \<Rightarrow> bool" where
  "path_augmented upd [] = True"
| "path_augmented upd ((d, x, s) # c) = (augmented upd s \<and> path_augmented upd c)"

lemma path_avl_bal: "path_avl k c \<Longrightarrow> path_bal k c"
  by (induction k c rule: path_avl.induct) auto

lemma path_avl_top: "path_avl (ht t) c \<Longrightarrow> path_top (ht t) c = ht (plug t c)"
proof (induction c arbitrary: t)
  case (Cons f c)
  obtain d a hh m s where f: "f = (d, (a, hh, m), s)" by (cases f) auto
  show ?case using Cons.IH[of "fill f t"] Cons.prems by (cases d) (auto simp: f)
qed simp

lemma path_bal_append: "path_bal k (p @ c) \<longleftrightarrow> path_bal k p \<and> path_bal (path_top k p) c"
  by (induction k p rule: path_bal.induct) auto

lemma near_fill_bal:
  assumes "avl t" "\<bar>ht t - k\<bar> \<le> 1" "path_bal k ((d, x, s) # c)"
  shows "near (1 + max k (ht s)) (fill (d, x, s) t)"
proof (cases d)
  case LEFT
  then show ?thesis using assms by (simp, intro exI[of _ k] exI[of _ "ht s"]) auto
next
  case RIGHT
  then show ?thesis using assms by (simp, intro exI[of _ "ht s"] exI[of _ k]) auto
qed

lemma fixz_start_avl:
  "avl (fstep upd t) \<Longrightarrow> \<bar>ht (fstep upd t) - k\<bar> \<le> 1 \<Longrightarrow> path_bal k c \<Longrightarrow> t \<noteq> \<langle>\<rangle> \<Longrightarrow> avl (fixz False upd t c)"
proof (induction c arbitrary: k t)
  case Nil
  then show ?case by (cases t) auto
next
  case (Cons f c)
  obtain d x s where f: "f = (d, x, s)" by (cases f)
  let ?t = "fill f (fstep upd t)"
  have "near (1 + max k (ht s)) ?t" using near_fill_bal Cons.prems f by blast
  then have "avl (fstep upd ?t) \<and> \<bar>ht (fstep upd ?t) - (1 + max k (ht s))\<bar> \<le> 1" by (rule fstep_near)
  moreover have "?t \<noteq> \<langle>\<rangle>" by (cases d) (auto simp: f)
  moreover have "\<not> fstop False t" using Cons.prems(4) by (cases t rule: ht.cases) auto
  ultimately show ?case using Cons.IH[of ?t "1 + max k (ht s)"] Cons.prems(3) by (simp add: f)
qed

lemma fixz_avl_bal: "near k t \<Longrightarrow> path_bal k c \<Longrightarrow> avl (fixz False upd t c)"
  using fstep_near[of k t upd] fixz_start_avl[of upd t k c] by (cases t) auto

locale augmentation =
  fixes upd :: "'m augment"
  assumes idem: "upd (upd m l r) l r = upd m l r"
begin

lemma mk_augmented: "augmented upd l \<Longrightarrow> augmented upd r \<Longrightarrow> augmented upd (mk upd l x r)"
  by (cases x) (simp add: idem)

lemma sub_augmented: "augmented upd t \<Longrightarrow> sub_augmented upd t"
  by (cases t rule: ht.cases) auto

lemma frotate_augmented: "can_rotate d t \<Longrightarrow> sub_augmented upd t \<Longrightarrow> augmented upd (frotate upd d t)"
  by (cases "(upd, d, t)" rule: frotate.cases; cases d)
    (auto intro!: mk_augmented dest: sub_augmented simp del: mk.simps split: prod.splits)

lemma fstep_augmented:
  assumes "hpos t" "sub_augmented upd t"
  shows "augmented upd (fstep upd t)"
proof (cases t)
  case (Node l x r)
  show ?thesis
  proof (cases "-1 \<le> ht r - ht l \<and> ht r - ht l \<le> 1")
    case True
    then show ?thesis using assms by (simp add: Node mk_augmented)
  next
    case False
    have pos: "hpos l" "hpos r" using assms(1) by (cases x; simp add: Node)+
    note ne = heavy_side[OF pos False]
    let ?l = "if bal l > 0 then frotate upd LEFT l else l" and ?r = "if bal r < 0 then frotate upd RIGHT r else r"
    have "augmented upd ?l" "augmented upd ?r"
      using assms(2) can_rotate_heavy[of l LEFT] can_rotate_heavy[of r RIGHT] pos
      by (auto simp: Node intro!: frotate_augmented sub_augmented)
    moreover have "ht r - ht l \<ge> 0 \<Longrightarrow> can_rotate LEFT \<langle>l, x, ?r\<rangle>" "\<not> ht r - ht l \<ge> 0 \<Longrightarrow> can_rotate RIGHT \<langle>?l, x, r\<rangle>"
      using ne rootp_frotate[of LEFT l upd] rootp_frotate[of RIGHT r upd] can_rotate_heavy[of l LEFT] can_rotate_heavy[of r RIGHT] pos
      by (auto split: if_splits)
    ultimately show ?thesis
      using False assms(2) frotate_augmented[of LEFT "\<langle>l, x, ?r\<rangle>"] frotate_augmented[of RIGHT "\<langle>?l, x, r\<rangle>"]
      by (auto simp: Node simp del: frotate.simps)
  qed
qed simp

lemma fixz_augmented:
  "t \<noteq> \<langle>\<rangle> \<Longrightarrow> hpos (plug t c) \<Longrightarrow> sub_augmented upd t \<Longrightarrow> path_augmented upd c \<Longrightarrow> augmented upd (fixz False upd t c)"
proof (induction c arbitrary: t)
  case Nil
  then show ?case using fstep_augmented[of t] by (cases t rule: ht.cases) auto
next
  case (Cons f c)
  obtain d x s where f: "f = (d, x, s)" by (cases f)
  have pos: "hpos t" using Cons.prems(2) hpos_plug[of t "f # c"] by simp
  have st: "augmented upd (fstep upd t)" using fstep_augmented[OF pos Cons.prems(3)] .
  have "augmented upd (fixz False upd (fill f (fstep upd t)) c)"
  proof (rule Cons.IH)
    show "fill f (fstep upd t) \<noteq> \<langle>\<rangle>" by (cases d) (auto simp: f)
    show "hpos (plug (fill f (fstep upd t)) c)"
      using Cons.prems(2) hpos_plug[of t "f # c"] hpos_plug[of "fstep upd t" "f # c"] hpos_fstep[OF pos] by simp
    show "sub_augmented upd (fill f (fstep upd t))" "path_augmented upd c"
      using st Cons.prems(4) by (cases d; auto simp: f)+
  qed
  moreover have "\<not> fstop False t" using Cons.prems(1) by (cases t rule: ht.cases) auto
  ultimately show ?case by simp
qed

end

end
