(* ===== verification/Dsl_AVL.thy ===== *)
theory Dsl_AVL
  imports Dsl_Tree
begin

text \<open>
  The AVL tree of \<^verbatim>\<open>include/dsl/avltree.h\<close> and \<^verbatim>\<open>dsl/avlfixup.cc\<close>. The object that embeds an
  \<^verbatim>\<open>AVLNode\<close> is the record extension of the node, so \<^verbatim>\<open>container_of\<close> is the identity on
  addresses and the comparator of \<^verbatim>\<open>TypedAVLTree\<close> is a relation on the extensions.
\<close>

section \<open>avlfixup.cc\<close>

definition new_height :: "'a avl_heap \<Rightarrow> addr \<Rightarrow> int option" where
  "new_height h node = do {
     l \<leftarrow> get_child h node LEFT;
     lh \<leftarrow> node_height h l;
     r \<leftarrow> get_child h node RIGHT;
     rh \<leftarrow> node_height h r;
     Some (1 + (if lh > rh then lh else rh))
   }"

definition avl_rotate :: "'a avl_heap \<Rightarrow> addr \<Rightarrow> dir \<Rightarrow> (addr \<times> 'a avl_heap) option" where
  "avl_rotate h node dir = do {
     let oth = opp dir;
     z \<leftarrow> get_child h node oth;
     Z \<leftarrow> z;
     tmp \<leftarrow> get_child h Z dir;
     h \<leftarrow> set_parent_if h tmp (Some node);
     h \<leftarrow> set_child h node oth tmp;
     nh \<leftarrow> new_height h node;
     h \<leftarrow> set_height h node nh;
     h \<leftarrow> set_parent h node (Some Z);
     h \<leftarrow> set_child h Z dir (Some node);
     nh \<leftarrow> new_height h Z;
     h \<leftarrow> set_height h Z nh;
     Some (Z, h)
   }"

partial_function (option) AVLTree_fixup :: "'a avl_tree \<Rightarrow> ptr \<Rightarrow> 'a avl_tree option" where
  "AVLTree_fixup s p = (case p of
     None \<Rightarrow> Some s
   | Some node \<Rightarrow> do {
       balance \<leftarrow> node_balance (nodes s) node;
       if -1 \<le> balance \<and> balance \<le> 1 then do {
         h \<leftarrow> new_height (nodes s) node;
         old \<leftarrow> get_height (nodes s) node;
         if h = old then Some s
         else do {
           hp \<leftarrow> set_height (nodes s) node h;
           par \<leftarrow> get_parent hp node;
           AVLTree_fixup (s\<lparr>nodes := hp\<rparr>) par
         }
       } else do {
         (s, par) \<leftarrow> rebalance avl_rotate s node balance;
         AVLTree_fixup s par
       }
     })"

section \<open>AVLTree\<close>

definition AVLTree_init :: "'a avl_tree \<Rightarrow> 'a avl_tree" where
  "AVLTree_init s = s\<lparr>m_root := nullptr\<rparr>"

definition AVLTree_empty :: "'a avl_tree \<Rightarrow> bool" where
  "AVLTree_empty s = (m_root s = nullptr)"

definition insert_at :: "'a avl_tree \<Rightarrow> ptr \<Rightarrow> dir \<Rightarrow> addr \<Rightarrow> 'a avl_tree option" where
  "insert_at s par dir node = do {
     h \<leftarrow> set_child (nodes s) node LEFT nullptr;
     h \<leftarrow> set_child h node RIGHT nullptr;
     h \<leftarrow> set_parent h node par;
     h \<leftarrow> set_height h node 1;
     case par of
       None \<Rightarrow> Some (s\<lparr>m_root := Some node, nodes := h\<rparr>)
     | Some p \<Rightarrow> do {
         h \<leftarrow> set_child h p dir (Some node);
         AVLTree_fixup (s\<lparr>nodes := h\<rparr>) par
       }
   }"

text \<open>The loop \<open>while (x->child[dir]) x = x->child[dir];\<close>.\<close>

partial_function (option) walk :: "'a avl_heap \<Rightarrow> dir \<Rightarrow> addr \<Rightarrow> addr option" where
  "walk h dir x = do {
     nx \<leftarrow> get_child h x dir;
     (case nx of None \<Rightarrow> Some x | Some y \<Rightarrow> walk h dir y)
   }"

text \<open>Node \<open>Z\<close> takes over the children of \<open>node\<close>: the last writes of the general case.\<close>

definition adopt_children :: "'a avl_heap \<Rightarrow> addr \<Rightarrow> addr \<Rightarrow> 'a avl_heap option" where
  "adopt_children h Z node = do {
     l \<leftarrow> get_child h node LEFT;
     h \<leftarrow> set_child h Z LEFT l;
     L \<leftarrow> l;
     h \<leftarrow> set_parent h L (Some Z);
     r \<leftarrow> get_child h node RIGHT;
     h \<leftarrow> set_child h Z RIGHT r;
     R \<leftarrow> r;
     set_parent h R (Some Z)
   }"

definition AVLTree_remove :: "'a avl_tree \<Rightarrow> addr \<Rightarrow> 'a avl_tree option" where
  "AVLTree_remove s node = do {
     let h = nodes s;
     par \<leftarrow> get_parent h node;
     me \<leftarrow> child_dir h par node;
     l \<leftarrow> get_child h node LEFT;
     r \<leftarrow> get_child h node RIGHT;
     if l = nullptr \<or> r = nullptr then do {
       let Z = (if l = nullptr then r else l);
       h \<leftarrow> set_parent_if h Z par;
       s \<leftarrow> replace_child (s\<lparr>nodes := h\<rparr>) par me Z;
       AVLTree_fixup s par
     } else do {
       Z \<leftarrow> r;
       zl \<leftarrow> get_child h Z LEFT;
       case zl of
         None \<Rightarrow> do {
           h \<leftarrow> set_parent h Z par;
           l \<leftarrow> get_child h node LEFT;
           h \<leftarrow> set_child h Z LEFT l;
           L \<leftarrow> l;
           h \<leftarrow> set_parent h L (Some Z);
           s \<leftarrow> replace_child (s\<lparr>nodes := h\<rparr>) par me (Some Z);
           AVLTree_fixup s (Some Z)
         }
       | Some z \<Rightarrow> do {
           Z \<leftarrow> walk h LEFT z;
           y \<leftarrow> get_parent h Z;
           Y \<leftarrow> y;
           zr \<leftarrow> get_child h Z RIGHT;
           h \<leftarrow> set_child h Y LEFT zr;
           h \<leftarrow> set_parent_if h zr (Some Y);
           h \<leftarrow> set_parent h Z par;
           s \<leftarrow> replace_child (s\<lparr>nodes := h\<rparr>) par me (Some Z);
           h \<leftarrow> adopt_children (nodes s) Z node;
           AVLTree_fixup (s\<lparr>nodes := h\<rparr>) (Some Y)
         }
     }
   }"

section \<open>TypedAVLTree\<close>

partial_function (option) avl_descend ::
  "('a \<Rightarrow> 'a \<Rightarrow> bool) \<Rightarrow> 'a avl_heap \<Rightarrow> addr \<Rightarrow> ptr \<Rightarrow> ptr \<Rightarrow> dir \<Rightarrow> (ptr \<times> dir) option" where
  "avl_descend cmp h node par p dir = (case p of
     None \<Rightarrow> Some (par, dir)
   | Some x \<Rightarrow> do {
       k \<leftarrow> get_object h node;
       kx \<leftarrow> get_object h x;
       let dir = (if cmp k kx then LEFT else RIGHT);
       nx \<leftarrow> get_child h x dir;
       avl_descend cmp h node (Some x) nx dir
     })"

definition TypedAVLTree_insert :: "('a \<Rightarrow> 'a \<Rightarrow> bool) \<Rightarrow> 'a avl_tree \<Rightarrow> addr \<Rightarrow> 'a avl_tree option" where
  "TypedAVLTree_insert cmp s node = do {
     (par, dir) \<leftarrow> avl_descend cmp (nodes s) node nullptr (m_root s) LEFT;
     insert_at s par dir node
   }"

definition TypedAVLTree_extreme :: "'a avl_tree \<Rightarrow> dir \<Rightarrow> ptr option" where
  "TypedAVLTree_extreme s dir = (case m_root s of
     None \<Rightarrow> Some nullptr
   | Some x \<Rightarrow> do { x \<leftarrow> walk (nodes s) dir x; Some (Some x) })"

definition TypedAVLTree_first :: "'a avl_tree \<Rightarrow> ptr option" where
  "TypedAVLTree_first s = TypedAVLTree_extreme s LEFT"

definition TypedAVLTree_last :: "'a avl_tree \<Rightarrow> ptr option" where
  "TypedAVLTree_last s = TypedAVLTree_extreme s RIGHT"

section \<open>Rotation and fixup refine the functional tree\<close>

text \<open>An AVL tree augments nothing but the height; its contents are the objects themselves.\<close>

abbreviation (input) self :: "'m \<Rightarrow> 'm" where
  "self \<equiv> (\<lambda>m. m)"

abbreviation (input) keep :: "'m augment" where
  "keep \<equiv> (\<lambda>m l r. m)"

lemma tree_at_new_height:
  assumes "h a = Some n" "child n = case_dir (rootp l) (rootp r)" "tree_at h p l" "tree_at h q r"
  shows "new_height h a = Some (1 + max (ht l) (ht r))"
  using assms tree_at_node_height[of h p l] tree_at_node_height[of h q r]
  by (auto simp: new_height_def get_child_def)

lemma avl_rotate_left:
  assumes t: "t = \<langle>l, (a, ha, ma), \<langle>b, (z, hz, mz), c\<rangle>\<rangle>" and at: "tree_at h par t" and d: "distinct (addrs t)"
  shows "\<exists>h'. avl_rotate h a LEFT = Some (z, h') \<and> tree_at h' (Some a) (frotate keep LEFT t)
     \<and> (\<forall>x. x \<notin> set (addrs t) \<longrightarrow> h' x = h x)"
proof -
  obtain h1 where h1: "set_parent_if h (rootp b) (Some a) = Some h1" "tree_at h1 (Some a) b"
    "\<forall>x. x \<notin> set (addrs b) \<longrightarrow> h1 x = h x"
    using set_parent_if_tree_at[of h "Some z" b "Some a"] at d by (auto simp: t)
  have same: "h1 a = h a" "h1 z = h z" "tree_at h1 p l = tree_at h p l" "tree_at h1 p c = tree_at h p c" for p
    using d h1(3) by (auto simp: t intro!: tree_at_cong)
  have nh: "node_height h1 (rootp l) = Some (ht l)" "node_height h1 (rootp b) = Some (ht b)"
    "node_height h1 (rootp c) = Some (ht c)"
    using at h1(2) same(3,4) by (auto simp: t intro: tree_at_node_height)
  define na where "na = \<lparr>child = case_dir (rootp l) (rootp b), parent = Some z,
    avl_height = 1 + max (ht l) (ht b), \<dots> = ma\<rparr>"
  define nz where "nz = \<lparr>child = case_dir (Some a) (rootp c), parent = Some a,
    avl_height = 1 + max (avl_height na) (ht c), \<dots> = mz\<rparr>"
  have "avl_rotate h a LEFT = Some (z, h1(a \<mapsto> na, z \<mapsto> nz))"
    using at d same(1,2) h1(1)
    by (simp add: t avl_rotate_def opp_def new_height_def node_access heap_simps nh na_def nz_def max_def
        del: bind_Some_iff)
  moreover have "tree_at (h1(a \<mapsto> na, z \<mapsto> nz)) (Some a) (frotate keep LEFT t)"
    using at d h1(2) same(3,4) by (auto simp: t heap_simps na_def nz_def)
  ultimately show ?thesis using h1(3) by (auto simp: t)
qed

lemma avl_rotate_right:
  assumes t: "t = \<langle>\<langle>c, (z, hz, mz), b\<rangle>, (a, ha, ma), l\<rangle>" and at: "tree_at h par t" and d: "distinct (addrs t)"
  shows "\<exists>h'. avl_rotate h a RIGHT = Some (z, h') \<and> tree_at h' (Some a) (frotate keep RIGHT t)
     \<and> (\<forall>x. x \<notin> set (addrs t) \<longrightarrow> h' x = h x)"
proof -
  obtain h1 where h1: "set_parent_if h (rootp b) (Some a) = Some h1" "tree_at h1 (Some a) b"
    "\<forall>x. x \<notin> set (addrs b) \<longrightarrow> h1 x = h x"
    using set_parent_if_tree_at[of h "Some z" b "Some a"] at d by (auto simp: t)
  have same: "h1 a = h a" "h1 z = h z" "tree_at h1 p l = tree_at h p l" "tree_at h1 p c = tree_at h p c" for p
    using d h1(3) by (auto simp: t intro!: tree_at_cong)
  have nh: "node_height h1 (rootp l) = Some (ht l)" "node_height h1 (rootp b) = Some (ht b)"
    "node_height h1 (rootp c) = Some (ht c)"
    using at h1(2) same(3,4) by (auto simp: t intro: tree_at_node_height)
  define na where "na = \<lparr>child = case_dir (rootp b) (rootp l), parent = Some z,
    avl_height = 1 + max (ht b) (ht l), \<dots> = ma\<rparr>"
  define nz where "nz = \<lparr>child = case_dir (rootp c) (Some a), parent = Some a,
    avl_height = 1 + max (ht c) (avl_height na), \<dots> = mz\<rparr>"
  have "avl_rotate h a RIGHT = Some (z, h1(a \<mapsto> na, z \<mapsto> nz))"
    using at d same(1,2) h1(1)
    by (simp add: t avl_rotate_def opp_def new_height_def node_access heap_simps nh na_def nz_def max_def
        del: bind_Some_iff)
  moreover have "tree_at (h1(a \<mapsto> na, z \<mapsto> nz)) (Some a) (frotate keep RIGHT t)"
    using at d h1(2) same(3,4) by (auto simp: t heap_simps na_def nz_def)
  ultimately show ?thesis using h1(3) by (auto simp: t)
qed

interpretation avl_rotation: tree_rotation avl_rotate keep
proof
  fix h :: "'a avl_heap" and par t d
  assume a: "tree_at h par t" "distinct (addrs t)" "can_rotate d t"
  show "\<exists>h'. avl_rotate h (the (rootp t)) d = Some (the (rootp (frotate keep d t)), h')
      \<and> tree_at h' (rootp t) (frotate keep d t) \<and> (\<forall>x. x \<notin> set (addrs t) \<longrightarrow> h' x = h x)"
  proof (cases d)
    case LEFT
    then obtain l x ha ma b z hz mz c where "t = \<langle>l, (x, ha, ma), \<langle>b, (z, hz, mz), c\<rangle>\<rangle>"
      using a(3) by (cases t rule: rootp.cases; cases "right t" rule: rootp.cases) auto
    then show ?thesis using avl_rotate_left[OF _ a(1,2)] LEFT by simp
  next
    case RIGHT
    then obtain l x ha ma b z hz mz c where "t = \<langle>\<langle>c, (z, hz, mz), b\<rangle>, (x, ha, ma), l\<rangle>"
      using a(3) by (cases t rule: rootp.cases; cases "left t" rule: rootp.cases) auto
    then show ?thesis using avl_rotate_right[OF _ a(1,2)] RIGHT by simp
  qed
qed

lemma represents_new_height:
  "represents s (plug \<langle>l, (a, hh, m), r\<rangle> c) \<Longrightarrow> new_height (nodes s) a = Some (1 + max (ht l) (ht r))"
  using tree_at_new_height represents_node by (metis avl_node.select_convs(1))

lemma AVLTree_fixup_null: "AVLTree_fixup s None = Some s"
  by (simp add: AVLTree_fixup.simps)

lemma AVLTree_fixup_step:
  assumes rep: "represents s (plug t c)" and ne: "t \<noteq> \<langle>\<rangle>" and pos: "hpos t" and go: "\<not> fstop True t"
  shows "\<exists>s'. AVLTree_fixup s (rootp t) = AVLTree_fixup s' (path_parent c) \<and> represents s' (plug (fstep keep t) c)
         \<and> (\<forall>x. x \<notin> set (addrs (plug t c)) \<longrightarrow> nodes s' x = nodes s x)"
proof -
  obtain l a hh m r where t: "t = \<langle>l, (a, hh, m), r\<rangle>" using ne by (cases t rule: rootp.cases) auto
  note n = represents_node[OF rep[unfolded t]]
  show ?thesis
  proof (cases "-1 \<le> ht r - ht l \<and> ht r - ht l \<le> 1")
    case True
    let ?s = "s\<lparr>nodes := (nodes s)(a \<mapsto> \<lparr>child = case_dir (rootp l) (rootp r), parent = path_parent c,
       avl_height = 1 + max (ht l) (ht r), \<dots> = m\<rparr>)\<rparr>"
    have "AVLTree_fixup s (Some a) = AVLTree_fixup ?s (path_parent c)"
      using True n go represents_new_height[OF rep[unfolded t]]
      by (subst AVLTree_fixup.simps) (simp add: t node_access)
    moreover have "represents ?s (plug (fstep keep t) c)"
      using True represents_update[OF rep[unfolded t]] by (simp add: t)
    ultimately show ?thesis by (intro exI[of _ ?s]) (auto simp: t set_addrs_plug)
  next
    case False
    obtain s' where s': "rebalance avl_rotate s a (ht r - ht l) = Some (s', path_parent c)"
      "represents s' (plug (frebal keep t) c)" "\<forall>x. x \<notin> set (addrs (plug t c)) \<longrightarrow> nodes s' x = nodes s x"
      using avl_rotation.rebalance[OF rep t _ _ False] pos by (auto simp: t)
    have "AVLTree_fixup s (Some a) = AVLTree_fixup s' (path_parent c)"
      using False n s'(1) by (subst AVLTree_fixup.simps) auto
    then show ?thesis using s' False by (auto simp: t)
  qed
qed

interpretation avl_fixup: tree_fixup avl_rotate keep AVLTree_fixup True
proof
  fix s :: "'a avl_tree" and t c
  show "AVLTree_fixup s None = Some s" by (simp add: AVLTree_fixup.simps)
  assume a: "represents s (plug t c)" "t \<noteq> \<langle>\<rangle>"
  { assume stop: "fstop True t"
    obtain l a hh m r where t: "t = \<langle>l, (a, hh, m), r\<rangle>" using a by (cases t rule: rootp.cases) auto
    show "AVLTree_fixup s (rootp t) = Some s"
      using represents_node[OF a(1)[unfolded t]] represents_new_height[OF a(1)[unfolded t]] stop
      by (subst AVLTree_fixup.simps) (auto simp: t node_access) }
  { assume "hpos t" "\<not> fstop True t"
    then show "\<exists>s'. AVLTree_fixup s (rootp t) = AVLTree_fixup s' (path_parent c) \<and> represents s' (plug (fstep keep t) c)
         \<and> (\<forall>x. x \<notin> set (addrs (plug t c)) \<longrightarrow> nodes s' x = nodes s x)"
      using AVLTree_fixup_step a by blast }
qed

section \<open>Insertion\<close>

fun inserted :: "addr \<Rightarrow> 'm \<Rightarrow> 'm path \<Rightarrow> 'm atree" where
  "inserted a m [] = \<langle>\<langle>\<rangle>, (a, 1, m), \<langle>\<rangle>\<rangle>"
| "inserted a m (f # c) = fixz True keep (fill f \<langle>\<langle>\<rangle>, (a, 1, m), \<langle>\<rangle>\<rangle>) c"

lemma insert_at_represents:
  assumes rep: "represents s (plug \<langle>\<rangle> c)" and pos: "hpos (plug \<langle>\<rangle> c)"
    and a: "a \<notin> path_addrs c" "nodes s a = Some n"
  shows "\<exists>s'. insert_at s (path_parent c) (path_dir c) a = Some s'
     \<and> represents s' (inserted a (avl_node.more n) c)
     \<and> (\<forall>x. x \<noteq> a \<and> x \<notin> path_addrs c \<longrightarrow> nodes s' x = nodes s x)"
proof -
  let ?n = "\<lparr>child = case_dir None None, parent = path_parent c, avl_height = 1, \<dots> = avl_node.more n\<rparr>"
  let ?h = "(nodes s)(a \<mapsto> ?n)" and ?new = "\<langle>\<langle>\<rangle>, (a, 1, avl_node.more n), \<langle>\<rangle>\<rangle>"
  have n: "n\<lparr>child := case_dir None None, parent := path_parent c, avl_height := 1\<rparr> = ?n" by (cases n) simp
  have init: "insert_at s (path_parent c) (path_dir c) a = (case path_parent c of
       None \<Rightarrow> Some (s\<lparr>m_root := Some a, nodes := ?h\<rparr>)
     | Some p \<Rightarrow> set_child ?h p (path_dir c) (Some a) \<bind> (\<lambda>h. AVLTree_fixup (s\<lparr>nodes := h\<rparr>) (path_parent c)))"
    using a(2) by (simp add: insert_at_def node_access n del: bind_Some_iff)
  show ?thesis
  proof (cases c)
    case Nil
    then show ?thesis using init by (auto simp: represents_def)
  next
    case (Cons f c')
    obtain d p hh m sb where f: "f = (d, (p, hh, m), sb)" by (cases f) auto
    have c: "path_at ?h None c" "path_distinct c"
      using rep a by (auto simp: represents_plug heap_simps)
    obtain s1 where s1: "replace_child (s\<lparr>nodes := ?h\<rparr>) (path_parent c) (path_dir c) (Some a) = Some s1"
      "path_at (nodes s1) (Some a) c" "m_root s1 = m_root s" "\<forall>x. x \<notin> path_addrs c \<longrightarrow> nodes s1 x = ?h x"
      using replace_child_path[of "s\<lparr>nodes := ?h\<rparr>" None c "Some a"] c Cons by auto
    have rep1: "represents s1 (plug (fill f ?new) c')"
      using s1 rep a c rootp_plug_cong[of c "\<langle>\<rangle>" ?new] represents_plug[of s1 ?new c] by (simp add: Cons represents_def)
    have "hpos (plug (fill f ?new) c')"
      using pos hpos_plug[of ?new c] hpos_plug[of "\<langle>\<rangle>" c] by (simp add: Cons)
    moreover have "fill f ?new \<noteq> \<langle>\<rangle>" "rootp (fill f ?new) = path_parent c" by (cases d; simp add: Cons f)+
    moreover have "set (addrs (plug (fill f ?new) c')) = insert a (path_addrs c)"
      using set_addrs_plug[of ?new c] by (simp add: Cons)
    ultimately obtain s' where s': "AVLTree_fixup s1 (path_parent c) = Some s'"
      "represents s' (fixz True keep (fill f ?new) c')"
      "\<forall>x. x \<noteq> a \<and> x \<notin> path_addrs c \<longrightarrow> nodes s' x = nodes s1 x"
      using avl_fixup.fixup[OF rep1] by auto
    then show ?thesis using init s1(1,4) by (auto simp: Cons f replace_child_def split: option.splits)
  qed
qed

lemma hpos_inserted: "hpos (plug \<langle>\<rangle> c) \<Longrightarrow> hpos (inserted a m c)"
proof (cases c)
  case (Cons f c')
  assume "hpos (plug \<langle>\<rangle> c)"
  then have "hpos (plug \<langle>\<langle>\<rangle>, (a, 1, m), \<langle>\<rangle>\<rangle> c)" by (simp add: hpos_plug)
  then show ?thesis by (simp add: Cons hpos_fixz)
qed simp

lemma contents_inserted: "contents self (inserted a m c) = before self c @ (a, m) # after self c"
proof (cases c)
  case (Cons f c')
  show ?thesis using contents_plug[of self "\<langle>\<langle>\<rangle>, (a, 1, m), \<langle>\<rangle>\<rangle>" c] by (simp add: Cons contents_fixz)
qed simp

lemma avl_inserted: "avl (plug \<langle>\<rangle> c) \<Longrightarrow> avl (inserted a m c)"
proof (cases c)
  case (Cons f c')
  obtain d p hh mm sb where f: "f = (d, (p, hh, mm), sb)" by (cases f) auto
  assume "avl (plug \<langle>\<rangle> c)"
  then have p: "path_avl 0 c" by (simp add: avl_plug)
  then have "near hh (fill f \<langle>\<langle>\<rangle>, (a, 1, m), \<langle>\<rangle>\<rangle>)"
    unfolding f by (intro near_fill[of _ 0 _ _ _ _ _ c']) (auto simp: Cons f)
  then have "avl (fixz True keep (fill f \<langle>\<langle>\<rangle>, (a, 1, m), \<langle>\<rangle>\<rangle>) c')"
    by (rule fixz_avl) (use p in \<open>cases d; auto simp: Cons f\<close>)+
  then show ?thesis by (simp add: Cons)
qed simp

section \<open>Removal\<close>

definition after_removal :: "'m atree \<Rightarrow> 'm atree \<Rightarrow> 'm path \<Rightarrow> 'm atree" where
  "after_removal l r c =
     (if l = \<langle>\<rangle> \<or> r = \<langle>\<rangle> then
        (let t = (if l = \<langle>\<rangle> then r else l) in
         case c of [] \<Rightarrow> t | f # c' \<Rightarrow> fixz True keep (fill f t) c')
      else case min_path r [] of
        (z, zr, []) \<Rightarrow> fixz True keep \<langle>l, z, zr\<rangle> c
      | (z, zr, f # p) \<Rightarrow> fixz True keep (fill f zr) (p @ (RIGHT, z, l) # c))"

lemma walk_min_path:
  "tree_at h par t \<Longrightarrow> rootp t = Some x \<Longrightarrow> min_path t c = (z, zr, p) \<Longrightarrow> walk h LEFT x = Some (fst z)"
proof (induction t arbitrary: x par c)
  case (Node l y r)
  obtain a hh m where y: "y = (a, hh, m)" by (cases y)
  show ?case
  proof (cases l)
    case Leaf
    then show ?thesis using Node.prems y by (subst walk.simps) (auto simp: get_child_def)
  next
    case (Node l1 y1 r1)
    then obtain x1 where x1: "rootp l = Some x1" by (cases y1) auto
    have "walk h LEFT x1 = Some (fst z)"
      by (rule Node.IH(1)[of "Some a" _ "(LEFT, y, r) # c"]) (use Node Node.prems x1 y in auto)
    then show ?thesis using Node.prems y x1 by (subst walk.simps) (auto simp: get_child_def)
  qed
qed simp

lemma adopt_children:
  assumes a: "h a = Some na" "child na = case_dir (rootp l) (rootp r)"
    and z: "h z = Some \<lparr>child = ch, parent = par, avl_height = hz, \<dots> = mz\<rparr>"
    and lr: "tree_at h (Some a) l" "tree_at h (Some a) r" "rootp l = Some L" "rootp r = Some R"
    and d: "distinct (addrs l @ addrs r)" "z \<noteq> a" "{a, z} \<inter> (set (addrs l) \<union> set (addrs r)) = {}"
  shows "\<exists>h'. adopt_children h z a = Some h' \<and> tree_at h' par \<langle>l, (z, hz, mz), r\<rangle>
     \<and> (\<forall>x. x \<notin> insert z (set (addrs l) \<union> set (addrs r)) \<longrightarrow> h' x = h x)"
proof -
  let ?n = "\<lambda>ch. \<lparr>child = ch, parent = par, avl_height = hz, \<dots> = mz\<rparr>"
  let ?h1 = "h(z \<mapsto> ?n (ch(LEFT := Some L)))"
  obtain h2 where h2: "set_parent ?h1 L (Some z) = Some h2" "tree_at h2 (Some z) l" "\<forall>x. x \<noteq> L \<longrightarrow> h2 x = ?h1 x"
    using set_parent_tree_at[of ?h1 "Some a" l L "Some z"] lr d by (auto simp: heap_simps)
  have L: "L \<in> set (addrs l)" "R \<in> set (addrs r)" using lr rootp_in_addrs by auto
  let ?h3 = "h2(z \<mapsto> ?n (case_dir (Some L) (Some R)))"
  have "tree_at h2 (Some a) r = tree_at ?h1 (Some a) r"
    by (rule tree_at_cong) (use h2(3) L d in auto)
  then have r3: "tree_at ?h3 (Some a) r" using lr d by (simp add: heap_simps)
  obtain h4 where h4: "set_parent ?h3 R (Some z) = Some h4" "tree_at h4 (Some z) r" "\<forall>x. x \<noteq> R \<longrightarrow> h4 x = ?h3 x"
    using set_parent_tree_at[OF r3 lr(4), of "Some z"] d by auto
  have "tree_at h4 (Some z) l = tree_at ?h3 (Some z) l"
    by (rule tree_at_cong) (use h4(3) L d in auto)
  then have "tree_at h4 (Some z) l" using h2(2) d by (simp add: heap_simps)
  moreover have "h4 z = Some (?n (case_dir (Some L) (Some R)))" "h2 a = h a" "h2 z = ?h1 z"
    using h4(3) h2(3) L d by auto
  moreover have "adopt_children h z a = Some h4"
    using a z lr h2(1) h4(1) calculation(3,4)
    by (simp add: adopt_children_def get_child_def set_child_def del: bind_Some_iff)
  moreover have "h4 x = h x" if "x \<notin> insert z (set (addrs l) \<union> set (addrs r))" for x
    using that h4(3) h2(3) L by (metis Un_iff fun_upd_other insert_iff)
  ultimately show ?thesis using h4(2) lr by auto
qed

lemma AVLTree_remove_deep:
  assumes "get_parent (nodes s) node = Some par" "child_dir (nodes s) par node = Some me"
    and "get_child (nodes s) node LEFT = Some (Some l)" "get_child (nodes s) node RIGHT = Some (Some r)"
    and "get_child (nodes s) r LEFT = Some (Some z)" "walk (nodes s) LEFT z = Some Z"
    and "get_parent (nodes s) Z = Some (Some Y)" "get_child (nodes s) Z RIGHT = Some zr"
  shows "AVLTree_remove s node = do {
     h \<leftarrow> set_child (nodes s) Y LEFT zr;
     h \<leftarrow> set_parent_if h zr (Some Y);
     h \<leftarrow> set_parent h Z par;
     s \<leftarrow> replace_child (s\<lparr>nodes := h\<rparr>) par me (Some Z);
     h \<leftarrow> adopt_children (nodes s) Z node;
     AVLTree_fixup (s\<lparr>nodes := h\<rparr>) (Some Y)
   }"
  using assms by (simp add: AVLTree_remove_def del: bind_Some_iff)

lemma AVLTree_remove_easy:
  assumes rep: "represents s (plug \<langle>l, (a, hh, m), r\<rangle> c)" and pos: "hpos (plug \<langle>l, (a, hh, m), r\<rangle> c)"
    and easy: "l = \<langle>\<rangle> \<or> r = \<langle>\<rangle>"
  shows "\<exists>s'. AVLTree_remove s a = Some s' \<and> represents s' (after_removal l r c)
     \<and> (\<forall>x. x = a \<or> x \<notin> set (addrs (plug \<langle>l, (a, hh, m), r\<rangle> c)) \<longrightarrow> nodes s' x = nodes s x)"
proof -
  define t where "t = (if l = \<langle>\<rangle> then r else l)"
  note rp = rep[unfolded represents_plug] and n = represents_node[OF rep]
  have at: "set (addrs t) \<subseteq> set (addrs l) \<union> set (addrs r)" by (auto simp: t_def)
  have tt: "tree_at (nodes s) (Some a) t" "distinct (addrs t)" using n rp by (auto simp: t_def)
  obtain h1 where h1: "set_parent_if (nodes s) (rootp t) (path_parent c) = Some h1" "tree_at h1 (path_parent c) t"
    "\<forall>x. x \<notin> set (addrs t) \<longrightarrow> h1 x = nodes s x"
    using set_parent_if_tree_at[OF tt, of "path_parent c"] by blast
  have "path_at h1 (Some a) c = path_at (nodes s) (Some a) c"
    by (rule path_at_cong) (use h1(3) rp at in auto)
  moreover have "distinct (addrs (plug t c))" using rp at by (auto simp: distinct_addrs_plug t_def)
  ultimately obtain s2 where s2:
    "replace_child (s\<lparr>nodes := h1\<rparr>) (path_parent c) (path_dir c) (rootp t) = Some s2"
    "represents s2 (plug t c)" "\<forall>x. x \<notin> path_addrs c \<longrightarrow> nodes s2 x = h1 x"
    using relink[of "s\<lparr>nodes := h1\<rparr>" c t "Some a" "\<langle>l, (a, hh, m), r\<rangle>"] rp h1(2) by auto
  have "child_dir (nodes s) (path_parent c) a = Some (path_dir c)"
    by (rule child_dir_path) (use rp in auto)
  then have eq: "AVLTree_remove s a = AVLTree_fixup s2 (path_parent c)"
    using n easy h1(1) s2(1)
    by (auto simp: AVLTree_remove_def node_access t_def simp del: bind_Some_iff)
  have fr: "nodes s2 x = nodes s x" if "x = a \<or> x \<notin> set (addrs (plug \<langle>l, (a, hh, m), r\<rangle> c))" for x
    using that s2(3) h1(3) rp at by (auto simp: set_addrs_plug)
  show ?thesis
  proof (cases c)
    case Nil
    then show ?thesis using eq s2(2) fr easy by (auto simp: after_removal_def t_def AVLTree_fixup_null)
  next
    case (Cons f c')
    have hp: "hpos (plug (fill f t) c')"
      using pos hpos_plug[of t c] hpos_plug[of "\<langle>l, (a, hh, m), r\<rangle>" c] by (auto simp: Cons t_def)
    have "fill f t \<noteq> \<langle>\<rangle>" "rootp (fill f t) = path_parent c" by (cases f; cases "fst f"; auto simp: Cons)+
    moreover have sub: "a \<notin> set (addrs (plug t c))" "set (addrs (plug t c)) \<subseteq> set (addrs (plug \<langle>l, (a, hh, m), r\<rangle> c))"
      using rp at by (auto simp: set_addrs_plug)
    ultimately obtain s' where s': "AVLTree_fixup s2 (path_parent c) = Some s'"
      "represents s' (fixz True keep (fill f t) c')" "\<forall>x. x \<notin> set (addrs (plug t c)) \<longrightarrow> nodes s' x = nodes s2 x"
      using avl_fixup.fixup[of s2 "fill f t" c'] s2(2) hp by (auto simp: Cons)
    moreover have "nodes s' x = nodes s x" if "x = a \<or> x \<notin> set (addrs (plug \<langle>l, (a, hh, m), r\<rangle> c))" for x
      using that s'(3) sub fr[OF that] by auto
    ultimately show ?thesis using eq easy by (auto simp: Cons after_removal_def t_def)
  qed
qed

lemma AVLTree_remove_direct:
  assumes rep: "represents s (plug \<langle>l, (a, hh, m), r\<rangle> c)" and pos: "hpos (plug \<langle>l, (a, hh, m), r\<rangle> c)"
    and l: "l \<noteq> \<langle>\<rangle>" and r: "r = \<langle>\<langle>\<rangle>, (z, hz, mz), zr\<rangle>"
  shows "\<exists>s'. AVLTree_remove s a = Some s' \<and> represents s' (after_removal l r c)
     \<and> (\<forall>x. x = a \<or> x \<notin> set (addrs (plug \<langle>l, (a, hh, m), r\<rangle> c)) \<longrightarrow> nodes s' x = nodes s x)"
proof -
  let ?t = "\<langle>l, (z, hz, mz), zr\<rangle>"
  note rp = rep[unfolded represents_plug] and n = represents_node[OF rep]
  obtain L where L: "rootp l = Some L" "L \<in> set (addrs l)" using l rootp_in_addrs by (metis rootp_None option.exhaust)
  let ?h0 = "(nodes s)(z \<mapsto> \<lparr>child = case_dir None (rootp zr), parent = path_parent c, avl_height = hz, \<dots> = mz\<rparr>)"
  let ?h1 = "(nodes s)(z \<mapsto> \<lparr>child = case_dir (rootp l) (rootp zr), parent = path_parent c, avl_height = hz, \<dots> = mz\<rparr>)"
  obtain h2 where h2: "set_parent ?h1 L (Some z) = Some h2" "tree_at h2 (Some z) l" "\<forall>x. x \<noteq> L \<longrightarrow> h2 x = ?h1 x"
    using set_parent_tree_at[of ?h1 "Some a" l L "Some z"] n rp L by (auto simp: heap_simps r)
  have zr: "tree_at h2 (Some z) zr = tree_at ?h1 (Some z) zr" "path_at h2 (Some a) c = path_at ?h1 (Some a) c"
    using L rp h2(3) by (auto simp: r intro!: tree_at_cong path_at_cong)
  have t2: "tree_at h2 (path_parent c) ?t" using zr(1) h2 rp L by (auto simp: r heap_simps)
  have p2: "path_at h2 (Some a) c" using zr(2) rp by (auto simp: r heap_simps)
  have "distinct (addrs (plug ?t c))" using rp by (auto simp: distinct_addrs_plug r)
  then obtain s3 where s3:
    "replace_child (s\<lparr>nodes := h2\<rparr>) (path_parent c) (path_dir c) (Some z) = Some s3"
    "represents s3 (plug ?t c)" "\<forall>x. x \<notin> path_addrs c \<longrightarrow> nodes s3 x = h2 x"
    using relink[of "s\<lparr>nodes := h2\<rparr>" c ?t "Some a" "\<langle>l, (a, hh, m), r\<rangle>"] rp t2 p2 by auto
  have "child_dir (nodes s) (path_parent c) a = Some (path_dir c)"
    by (rule child_dir_path) (use rp in auto)
  moreover have "get_parent (nodes s) a = Some (path_parent c)" "get_child (nodes s) a LEFT = Some (Some L)"
    "get_child (nodes s) a RIGHT = Some (Some z)" "get_child (nodes s) z LEFT = Some None"
    using n L by (simp_all add: r node_access)
  moreover have "set_parent (nodes s) z (path_parent c) = Some ?h0" "get_child ?h0 a LEFT = Some (Some L)"
    "set_child ?h0 z LEFT (Some L) = Some ?h1"
    using n L rp by (simp_all add: r node_access)
  ultimately have eq: "AVLTree_remove s a = AVLTree_fixup s3 (Some z)"
    using h2(1) s3(1) by (simp add: AVLTree_remove_def del: bind_Some_iff)
  have "hpos (plug ?t c)" using pos by (auto simp: hpos_plug r)
  then obtain s' where "AVLTree_fixup s3 (Some z) = Some s'" "represents s' (fixz True keep ?t c)"
    "\<forall>x. x \<notin> set (addrs (plug ?t c)) \<longrightarrow> nodes s' x = nodes s3 x"
    using avl_fixup.fixup[OF s3(2)] by auto
  moreover have "nodes s3 x = nodes s x" if "x = a \<or> x \<notin> set (addrs (plug \<langle>l, (a, hh, m), r\<rangle> c))" for x
    using that s3(3) h2(3) rp L(2) by (auto simp: set_addrs_plug r)
  moreover have "a \<notin> set (addrs (plug ?t c))" using rp by (auto simp: set_addrs_plug r)
  ultimately show ?thesis using eq l by (auto simp: after_removal_def r set_addrs_plug)
qed

text \<open>Unlinking the in-order successor \<open>z\<close> from its parent: the first writes of the general case.\<close>

lemma unlink_successor:
  assumes rep: "represents s (plug \<langle>\<langle>\<rangle>, (z, hz, mz), zr\<rangle> q)" and q: "q = (LEFT, (y, hy, my), yr) # q'"
  shows "\<exists>h1 h2. set_child (nodes s) y LEFT (rootp zr) = Some h1 \<and> set_parent_if h1 (rootp zr) (Some y) = Some h2
     \<and> represents (s\<lparr>nodes := h2\<rparr>) (plug zr q) \<and> h2 z = nodes s z
     \<and> (\<forall>x. x \<notin> set (addrs (plug \<langle>\<langle>\<rangle>, (z, hz, mz), zr\<rangle> q)) \<longrightarrow> h2 x = nodes s x)"
proof -
  note rp = rep[unfolded represents_plug]
  obtain h1 h2 where h: "set_child (nodes s) y LEFT (rootp zr) = Some h1" "set_parent_if h1 (rootp zr) (Some y) = Some h2"
    "tree_at h2 None (plug zr q)" "\<forall>x. x \<notin> path_addrs q \<union> set (addrs zr) \<longrightarrow> h2 x = nodes s x"
    using unlink_min[of "nodes s" None "Some z" q "Some z" zr y hy my yr q'] rp q by auto
  moreover have "rootp (plug zr q) = rootp (plug \<langle>\<langle>\<rangle>, (z, hz, mz), zr\<rangle> q)"
    by (rule rootp_plug_cong) (simp add: q)
  moreover have "h2 x = nodes s x" if "x = z \<or> x \<notin> set (addrs (plug \<langle>\<langle>\<rangle>, (z, hz, mz), zr\<rangle> q))" for x
    using that h(4) rp by (auto simp: set_addrs_plug)
  ultimately show ?thesis using rp by (auto simp: represents_def distinct_addrs_plug)
qed

text \<open>Putting \<open>z\<close> in the place of \<open>a\<close>: the writes in between and the last ones.\<close>

lemma replace_node:
  assumes rep: "represents s (plug \<langle>l, (a, hh, m), r\<rangle> c)" and lr: "l \<noteq> \<langle>\<rangle>" "r \<noteq> \<langle>\<rangle>"
    and z: "nodes s z = Some n" "avl_height n = hz" "avl_node.more n = mz" "z \<notin> set (addrs (plug \<langle>l, (a, hh, m), r\<rangle> c))"
  shows "\<exists>h1 s2 h3. set_parent (nodes s) z (path_parent c) = Some h1
     \<and> replace_child (s\<lparr>nodes := h1\<rparr>) (path_parent c) (path_dir c) (Some z) = Some s2
     \<and> adopt_children (nodes s2) z a = Some h3
     \<and> represents (s2\<lparr>nodes := h3\<rparr>) (plug \<langle>l, (z, hz, mz), r\<rangle> c)
     \<and> (\<forall>x. x = a \<or> x \<noteq> z \<and> x \<notin> set (addrs (plug \<langle>l, (a, hh, m), r\<rangle> c)) \<longrightarrow> h3 x = nodes s x)"
proof -
  note rp = rep[unfolded represents_plug] and nd = represents_node[OF rep]
  have zn: "z \<noteq> a" "z \<notin> set (addrs l)" "z \<notin> set (addrs r)" "z \<notin> path_addrs c"
    using z(4) by (auto simp: set_addrs_plug)
  let ?h1 = "(nodes s)(z \<mapsto> \<lparr>child = child n, parent = path_parent c, avl_height = hz, \<dots> = mz\<rparr>)"
  have h1: "set_parent (nodes s) z (path_parent c) = Some ?h1"
    using z by (cases n) (simp add: set_parent_def)
  have "path_at ?h1 (Some a) c" using rp zn by (simp add: heap_simps)
  then obtain s2 where s2: "replace_child (s\<lparr>nodes := ?h1\<rparr>) (path_parent c) (path_dir c) (Some z) = Some s2"
    "path_at (nodes s2) (Some z) c" "m_root s2 = (if c = [] then Some z else m_root s)"
    "\<forall>x. x \<notin> path_addrs c \<longrightarrow> nodes s2 x = ?h1 x"
    using replace_child_path[of "s\<lparr>nodes := ?h1\<rparr>" "Some a" c "Some z"] rp by auto
  have sub: "tree_at (nodes s2) (Some a) l = tree_at (nodes s) (Some a) l"
    "tree_at (nodes s2) (Some a) r = tree_at (nodes s) (Some a) r"
    by (rule tree_at_cong; use rp zn s2(4) in auto)+
  have at: "nodes s2 a = nodes s a"
    "nodes s2 z = Some \<lparr>child = child n, parent = path_parent c, avl_height = hz, \<dots> = mz\<rparr>"
    using rp zn s2(4) by auto
  obtain L R where LR: "rootp l = Some L" "rootp r = Some R"
    using lr by (meson rootp_None option.exhaust)
  obtain h3 where h3: "adopt_children (nodes s2) z a = Some h3" "tree_at h3 (path_parent c) \<langle>l, (z, hz, mz), r\<rangle>"
    "\<forall>x. x \<notin> insert z (set (addrs l) \<union> set (addrs r)) \<longrightarrow> h3 x = nodes s2 x"
    using adopt_children[of "nodes s2" a _ l r z "child n" "path_parent c" hz mz L R] nd sub at LR rp zn by auto
  have "path_at h3 (Some z) c = path_at (nodes s2) (Some z) c"
    by (rule path_at_cong) (use rp h3(3) zn in auto)
  moreover have "m_root s2 = rootp (plug \<langle>l, (z, hz, mz), r\<rangle> c)"
    using s2(3) rp rootp_plug_cong[of c "\<langle>l, (z, hz, mz), r\<rangle>" "\<langle>l, (a, hh, m), r\<rangle>"] by (cases "c = []") auto
  ultimately have "represents (s2\<lparr>nodes := h3\<rparr>) (plug \<langle>l, (z, hz, mz), r\<rangle> c)"
    using h3(2) s2(2) rp zn by (auto simp: represents_plug)
  moreover have "h3 x = nodes s x" if "x = a \<or> x \<noteq> z \<and> x \<notin> set (addrs (plug \<langle>l, (a, hh, m), r\<rangle> c))" for x
    using that h3(3) s2(4) rp zn(1) by (auto simp: set_addrs_plug)
  ultimately show ?thesis using h1 s2(1) h3(1) by blast
qed

lemma AVLTree_remove_general:
  assumes rep: "represents s (plug \<langle>l, (a, hh, m), r\<rangle> c)" and pos: "hpos (plug \<langle>l, (a, hh, m), r\<rangle> c)"
    and l: "l \<noteq> \<langle>\<rangle>" and r: "r = \<langle>rl, (w, hw, mw), rr\<rangle>" "rl \<noteq> \<langle>\<rangle>"
  shows "\<exists>s'. AVLTree_remove s a = Some s' \<and> represents s' (after_removal l r c)
     \<and> (\<forall>x. x = a \<or> x \<notin> set (addrs (plug \<langle>l, (a, hh, m), r\<rangle> c)) \<longrightarrow> nodes s' x = nodes s x)"
proof -
  let ?T = "plug \<langle>l, (a, hh, m), r\<rangle> c"
  obtain z hz mz zr p0 where mp: "min_path rl [(LEFT, (w, hw, mw), rr)] = ((z, hz, mz), zr, p0)"
    by (metis prod_cases3)
  obtain y hy my yr p where p0: "p0 = (LEFT, (y, hy, my), yr) # p"
    using min_path_head_left[OF r(2) mp] by blast
  let ?f = "(LEFT, (y, hy, my), yr)"
  have rmp: "min_path r [] = ((z, hz, mz), zr, ?f # p)" using mp r(2) by (simp add: r p0)
  define q where "q = ?f # p @ (RIGHT, (a, hh, m), l) # c"
  have rt: "r = plug \<langle>\<langle>\<rangle>, (z, hz, mz), zr\<rangle> (?f # p)" using min_path_plug[OF _ rmp] by (simp add: r)
  have T: "?T = plug \<langle>\<langle>\<rangle>, (z, hz, mz), zr\<rangle> q" by (simp add: q_def plug_append rt)
  note rp = rep[unfolded represents_plug] and nd = represents_node[OF rep]
  have zn: "nodes s z = Some \<lparr>child = case_dir None (rootp zr), parent = Some y, avl_height = hz, \<dots> = mz\<rparr>"
    using represents_node(1)[of s "\<langle>\<rangle>" z hz mz zr q] rep T by (simp add: q_def)
  obtain h1 h2 where h12: "set_child (nodes s) y LEFT (rootp zr) = Some h1"
    "set_parent_if h1 (rootp zr) (Some y) = Some h2" "represents (s\<lparr>nodes := h2\<rparr>) (plug zr q)" "h2 z = nodes s z"
    "\<forall>x. x \<notin> set (addrs ?T) \<longrightarrow> h2 x = nodes s x"
    using unlink_successor[OF rep[unfolded T] q_def, folded T] by blast
  let ?r1 = "plug zr (?f # p)"
  have T1: "plug zr q = plug \<langle>l, (a, hh, m), ?r1\<rangle> c" by (simp add: q_def plug_append)
  have zT1: "z \<notin> set (addrs (plug zr q))" "set (addrs ?T) = insert z (set (addrs (plug zr q)))"
    using rep T by (auto simp: represents_def distinct_addrs_plug set_addrs_plug)
  have r1: "?r1 \<noteq> \<langle>\<rangle>" by (simp add: plug_leaf)
  obtain h3 s4 h5 where s5: "set_parent h2 z (path_parent c) = Some h3"
    "replace_child (s\<lparr>nodes := h3\<rparr>) (path_parent c) (path_dir c) (Some z) = Some s4"
    "adopt_children (nodes s4) z a = Some h5" "represents (s4\<lparr>nodes := h5\<rparr>) (plug \<langle>l, (z, hz, mz), ?r1\<rangle> c)"
    "\<forall>x. x = a \<or> x \<noteq> z \<and> x \<notin> set (addrs (plug zr q)) \<longrightarrow> h5 x = h2 x"
    using replace_node[of "s\<lparr>nodes := h2\<rparr>" l a hh m ?r1 c z _ hz mz] h12(3,4) T1 zn zT1(1) l r1 by auto
  have fin: "plug \<langle>l, (z, hz, mz), ?r1\<rangle> c = plug (fill ?f zr) (p @ (RIGHT, (z, hz, mz), l) # c)"
    by (simp add: plug_append)
  have "hpos (plug \<langle>l, (z, hz, mz), ?r1\<rangle> c)"
    using pos hpos_plug[of "\<langle>\<langle>\<rangle>, (z, hz, mz), zr\<rangle>" "?f # p"] hpos_plug[of zr "?f # p"] rt by (simp add: hpos_plug)
  then obtain s' where s': "AVLTree_fixup (s4\<lparr>nodes := h5\<rparr>) (Some y) = Some s'"
    "represents s' (fixz True keep (fill ?f zr) (p @ (RIGHT, (z, hz, mz), l) # c))"
    "\<forall>x. x \<notin> set (addrs (plug \<langle>l, (z, hz, mz), ?r1\<rangle> c)) \<longrightarrow> nodes s' x = h5 x"
    using avl_fixup.fixup[of "s4\<lparr>nodes := h5\<rparr>" "fill ?f zr"] s5(4) fin by auto
  obtain v L where v: "rootp rl = Some v" "rootp l = Some L" using r(2) l by (meson rootp_None option.exhaust)
  have w: "walk (nodes s) LEFT v = Some z" using walk_min_path[of _ "Some w", OF _ v(1) mp] nd(3) by (simp add: r)
  have "child_dir (nodes s) (path_parent c) a = Some (path_dir c)"
    by (rule child_dir_path) (use rp in auto)
  then have "AVLTree_remove s a = Some s'"
    using AVLTree_remove_deep[of s a "path_parent c" "path_dir c" L w v z y "rootp zr"] nd v w zn h12(1,2) s5(1-3) s'(1)
    by (simp add: node_access(1,2) r)
  moreover have "nodes s' x = nodes s x" if "x = a \<or> x \<notin> set (addrs ?T)" for x
  proof -
    have "rootp ?r1 = rootp r" unfolding rt by (rule rootp_plug_cong) simp
    then have "h2 a = nodes s a" using represents_node(1)[OF h12(3)[unfolded T1]] nd(1) by simp
    moreover have "a \<noteq> z" using rp T zT1 by (auto simp: T1 set_addrs_plug)
    moreover have "set (addrs (plug \<langle>l, (z, hz, mz), ?r1\<rangle> c)) = set (addrs ?T) - {a}"
      using zT1 rp h12(3) by (auto simp: T1 set_addrs_plug represents_def distinct_addrs_plug)
    ultimately show ?thesis using that s'(3) s5(5) h12(5) zT1(2) by auto
  qed
  moreover have "after_removal l r c = fixz True keep (fill ?f zr) (p @ (RIGHT, (z, hz, mz), l) # c)"
    using l rmp by (simp add: after_removal_def r)
  ultimately show ?thesis using s'(2) by auto
qed

lemma AVLTree_remove_represents:
  assumes rep: "represents s (plug \<langle>l, (a, hh, m), r\<rangle> c)" and pos: "hpos (plug \<langle>l, (a, hh, m), r\<rangle> c)"
  shows "\<exists>s'. AVLTree_remove s a = Some s' \<and> represents s' (after_removal l r c)
     \<and> (\<forall>x. x = a \<or> x \<notin> set (addrs (plug \<langle>l, (a, hh, m), r\<rangle> c)) \<longrightarrow> nodes s' x = nodes s x)"
proof (cases "l = \<langle>\<rangle> \<or> r = \<langle>\<rangle>")
  case True
  then show ?thesis using AVLTree_remove_easy[OF assms] by blast
next
  case False
  then obtain rl z hz mz zr where r: "r = \<langle>rl, (z, hz, mz), zr\<rangle>" by (cases r rule: rootp.cases) auto
  then show ?thesis
    using False AVLTree_remove_direct[OF assms] AVLTree_remove_general[OF assms] by (cases "rl = \<langle>\<rangle>") blast+
qed

lemma contents_after_removal:
  "contents self (after_removal l r c) = before self c @ contents self l @ contents self r @ after self c"
proof (cases "l = \<langle>\<rangle> \<or> r = \<langle>\<rangle>")
  case True
  then show ?thesis
    using contents_plug[of self l c] contents_plug[of self r c]
    by (cases c) (auto simp: after_removal_def contents_fixz simp del: before.simps after.simps)
next
  case False
  obtain z zr p where mp: "min_path r [] = (z, zr, p)" by (metis prod_cases3)
  then have "r = plug \<langle>\<langle>\<rangle>, z, zr\<rangle> p" using min_path_plug[of r "[]"] False by simp
  then have r: "contents self r = before self p @ (fst z, snd (snd z)) # contents self zr @ after self p"
    using contents_plug[of self "\<langle>\<langle>\<rangle>, z, zr\<rangle>" p] by (cases z) simp
  show ?thesis
  proof (cases p)
    case Nil
    then show ?thesis using False mp r by (cases z) (simp add: after_removal_def contents_fixz contents_plug)
  next
    case (Cons f p')
    have "plug (fill f zr) (p' @ (RIGHT, z, l) # c) = plug \<langle>l, z, plug zr p\<rangle> c" by (simp add: Cons plug_append)
    then show ?thesis using False mp r min_path_before[OF _ mp, of self]
      by (cases z) (simp add: Cons after_removal_def contents_fixz contents_plug del: plug.simps)
  qed
qed

lemma hpos_after_removal:
  assumes "hpos (plug \<langle>l, (a, hh, m), r\<rangle> c)"
  shows "hpos (after_removal l r c)"
proof (cases "l = \<langle>\<rangle> \<or> r = \<langle>\<rangle>")
  case True
  then show ?thesis
    using assms hpos_plug[of l c] hpos_plug[of r c] hpos_plug[of "\<langle>l, (a, hh, m), r\<rangle>" c]
    by (cases c) (auto simp: after_removal_def intro!: hpos_fixz simp del: path_hpos.simps)
next
  case False
  obtain z zr p where mp: "min_path r [] = (z, zr, p)" by (metis prod_cases3)
  then have r: "r = plug \<langle>\<langle>\<rangle>, z, zr\<rangle> p" using min_path_plug[of r "[]"] False by simp
  then have hz: "hpos \<langle>l, z, plug zr p\<rangle>" using assms hpos_plug[of "\<langle>\<langle>\<rangle>, z, zr\<rangle>" p]
    by (cases z) (auto simp: hpos_plug)
  show ?thesis
  proof (cases p)
    case Nil
    then show ?thesis using False mp hz assms by (auto simp: after_removal_def hpos_plug intro!: hpos_fixz)
  next
    case (Cons f p')
    have "plug (fill f zr) (p' @ (RIGHT, z, l) # c) = plug \<langle>l, z, plug zr p\<rangle> c" by (simp add: Cons plug_append)
    then show ?thesis using False mp hz assms
      by (auto simp: Cons after_removal_def hpos_plug intro!: hpos_fixz simp del: plug.simps hpos.simps)
  qed
qed

lemma avl_after_removal_easy:
  assumes "avl (plug \<langle>l, (a, hh, m), r\<rangle> c)" and easy: "l = \<langle>\<rangle> \<or> r = \<langle>\<rangle>"
  shows "avl (after_removal l r c)"
proof -
  let ?t = "if l = \<langle>\<rangle> then r else l"
  have t: "avl ?t" "path_avl hh c" "\<bar>ht ?t - hh\<bar> \<le> 1"
    using assms avl_ht[of l] avl_ht[of r] by (auto simp: avl_plug)
  show ?thesis
  proof (cases c)
    case Nil
    then show ?thesis using t easy by (auto simp: after_removal_def)
  next
    case (Cons f c')
    obtain d p hp mp sb where f: "f = (d, (p, hp, mp), sb)" by (cases f) auto
    have "near hp (fill f ?t)"
      unfolding f by (rule near_fill[of _ hh _ _ _ _ _ c']) (use t in \<open>auto simp: Cons f\<close>)
    then have "avl (fixz True keep (fill f ?t) c')"
      by (rule fixz_avl) (use t in \<open>cases d; auto simp: Cons f\<close>)+
    then show ?thesis using easy by (simp add: Cons after_removal_def)
  qed
qed

section \<open>Ordered insertion and the extreme elements\<close>

fun ins_path :: "('m \<Rightarrow> 'm \<Rightarrow> bool) \<Rightarrow> 'm \<Rightarrow> 'm atree \<Rightarrow> 'm path \<Rightarrow> 'm path" where
  "ins_path cmp k \<langle>\<rangle> c = c"
| "ins_path cmp k \<langle>l, (a, hh, m), r\<rangle> c =
     (if cmp k m then ins_path cmp k l ((LEFT, (a, hh, m), r) # c)
      else ins_path cmp k r ((RIGHT, (a, hh, m), l) # c))"

lemma plug_ins_path: "plug \<langle>\<rangle> (ins_path cmp k t c) = plug t c"
  by (induction cmp k t c rule: ins_path.induct) auto

lemma avl_descend_path:
  "tree_at h (path_parent c) t \<Longrightarrow> get_object h node = Some k \<Longrightarrow>
   avl_descend cmp h node (path_parent c) (rootp t) (path_dir c)
     = Some (path_parent (ins_path cmp k t c), path_dir (ins_path cmp k t c))"
proof (induction cmp k t c rule: ins_path.induct)
  case (1 cmp k c)
  then show ?case by (subst avl_descend.simps) simp
next
  case (2 cmp k l a hh m r c)
  have "get_object h a = Some m" "get_child h a LEFT = Some (rootp l)" "get_child h a RIGHT = Some (rootp r)"
    using 2(3) by (auto simp: get_object_def get_child_def)
  then show ?case using 2 by (subst avl_descend.simps) auto
qed

text \<open>A strict weak order, as the comparator of a \<^verbatim>\<open>TypedAVLTree\<close> has to be.\<close>

locale strict_weak_order =
  fixes cmp :: "'k \<Rightarrow> 'k \<Rightarrow> bool"
  assumes asym: "cmp x y \<Longrightarrow> \<not> cmp y x"
    and negtrans: "cmp x z \<Longrightarrow> cmp x y \<or> cmp y z"
begin

lemma sorted_split:
  assumes "sorted_wrt (\<lambda>x y. \<not> cmp (snd y) (snd x)) (xs @ [x] @ ys)"
  shows "cmp k (snd x) \<Longrightarrow> y \<in> set ys \<Longrightarrow> cmp k (snd y)"
    and "\<not> cmp k (snd x) \<Longrightarrow> y \<in> set xs \<Longrightarrow> \<not> cmp k (snd y)"
  using assms negtrans[of k "snd x" "snd y"] negtrans[of k "snd y" "snd x"] by (auto simp: sorted_wrt_append)

lemma ins_path_split:
  "sorted_wrt (\<lambda>x y. \<not> cmp (snd y) (snd x)) (contents self t) \<Longrightarrow>
   \<exists>xs ys. contents self t = xs @ ys \<and> (\<forall>x \<in> set xs. \<not> cmp k (snd x)) \<and> (\<forall>y \<in> set ys. cmp k (snd y))
     \<and> before self (ins_path cmp k t c) = before self c @ xs \<and> after self (ins_path cmp k t c) = ys @ after self c"
proof (induction t arbitrary: c)
  case (Node l x r)
  obtain a hh m where x: "x = (a, hh, m)" by (cases x)
  have s: "sorted_wrt (\<lambda>x y. \<not> cmp (snd y) (snd x)) (contents self l @ [(a, m)] @ contents self r)"
    using Node.prems by (simp add: x)
  have sub: "sorted_wrt (\<lambda>x y. \<not> cmp (snd y) (snd x)) (contents self l)"
    "sorted_wrt (\<lambda>x y. \<not> cmp (snd y) (snd x)) (contents self r)"
    using s by (auto simp: sorted_wrt_append)
  show ?case
  proof (cases "cmp k m")
    case True
    obtain xs ys where "contents self l = xs @ ys" "\<forall>x \<in> set xs. \<not> cmp k (snd x)" "\<forall>y \<in> set ys. cmp k (snd y)"
      "before self (ins_path cmp k l ((LEFT, x, r) # c)) = before self c @ xs"
      "after self (ins_path cmp k l ((LEFT, x, r) # c)) = ys @ (a, m) # contents self r @ after self c"
      using Node.IH(1)[OF sub(1), of "(LEFT, x, r) # c"] by (auto simp: x)
    then show ?thesis using True sorted_split(1)[OF s]
      by (intro exI[of _ xs] exI[of _ "ys @ (a, m) # contents self r"]) (auto simp: x)
  next
    case False
    obtain xs ys where "contents self r = xs @ ys" "\<forall>x \<in> set xs. \<not> cmp k (snd x)" "\<forall>y \<in> set ys. cmp k (snd y)"
      "before self (ins_path cmp k r ((RIGHT, x, l) # c)) = before self c @ contents self l @ (a, m) # xs"
      "after self (ins_path cmp k r ((RIGHT, x, l) # c)) = ys @ after self c"
      using Node.IH(2)[OF sub(2), of "(RIGHT, x, l) # c"] by (auto simp: x)
    then show ?thesis using False sorted_split(2)[OF s]
      by (intro exI[of _ "contents self l @ (a, m) # xs"] exI[of _ ys]) (auto simp: x)
  qed
qed auto

end

text \<open>Where the comparator puts a new element: after all elements it does not precede.\<close>

definition insert_sorted :: "('k \<Rightarrow> 'k \<Rightarrow> bool) \<Rightarrow> addr \<times> 'k \<Rightarrow> (addr \<times> 'k) list \<Rightarrow> (addr \<times> 'k) list" where
  "insert_sorted cmp x xs = takeWhile (\<lambda>y. \<not> cmp (snd x) (snd y)) xs @ x # dropWhile (\<lambda>y. \<not> cmp (snd x) (snd y)) xs"

lemma insert_sorted_split:
  assumes "\<forall>x \<in> set xs. \<not> cmp k (snd x)" "\<forall>y \<in> set ys. cmp k (snd y)"
  shows "insert_sorted cmp (a, k) (xs @ ys) = xs @ (a, k) # ys"
proof -
  have "takeWhile (\<lambda>y. \<not> cmp k (snd y)) ys = [] \<and> dropWhile (\<lambda>y. \<not> cmp k (snd y)) ys = ys"
    using assms(2) by (cases ys) auto
  then show ?thesis using assms(1) by (simp add: insert_sorted_def takeWhile_append dropWhile_append)
qed

lemma walk_extreme:
  "tree_at h par t \<Longrightarrow> rootp t = Some x \<Longrightarrow>
   walk h LEFT x = Some (hd (addrs t)) \<and> walk h RIGHT x = Some (last (addrs t))"
proof (induction t arbitrary: x par)
  case (Node l y r)
  obtain a hh m where y: "y = (a, hh, m)" by (cases y)
  have x: "x = a" and c: "get_child h a LEFT = Some (rootp l)" "get_child h a RIGHT = Some (rootp r)"
    using Node.prems by (auto simp: y get_child_def)
  have ne: "t \<noteq> \<langle>\<rangle> \<Longrightarrow> addrs t \<noteq> [] \<and> rootp t \<noteq> None" for t :: "'a atree" by (cases t) auto
  have "walk h LEFT a = Some (hd (addrs l @ a # addrs r))"
    using c Node.IH(1)[of "Some a"] Node.prems ne[of l]
    by (subst walk.simps) (cases "l = \<langle>\<rangle>"; auto simp: y split: option.split)
  moreover have "walk h RIGHT a = Some (last (addrs l @ a # addrs r))"
    using c Node.IH(2)[of "Some a"] Node.prems ne[of r]
    by (subst walk.simps) (cases "r = \<langle>\<rangle>"; auto simp: y split: option.split)
  ultimately show ?case by (simp add: x y)
qed simp

text \<open>
  What a user of the tree sees: \<open>linked\<close> is a well-linked tree with the given objects in order,
  whatever its balance; \<open>balanced\<close> adds that all stored heights are right and the tree is an AVL tree.
\<close>

definition linked :: "'k avl_tree \<Rightarrow> (addr \<times> 'k) list \<Rightarrow> bool" where
  "linked s xs \<longleftrightarrow> (\<exists>t. represents s t \<and> hpos t \<and> contents self t = xs)"

definition balanced :: "'k avl_tree \<Rightarrow> (addr \<times> 'k) list \<Rightarrow> bool" where
  "balanced s xs \<longleftrightarrow> (\<exists>t. represents s t \<and> avl t \<and> contents self t = xs)"

lemma balanced_linked: "balanced s xs \<Longrightarrow> linked s xs"
  using avl_hpos by (auto simp: balanced_def linked_def)

lemma tree_at_object: "tree_at h par t \<Longrightarrow> (a, k) \<in> set (contents self t) \<Longrightarrow> get_object h a = Some k"
proof (induction t arbitrary: par)
  case (Node l x r)
  then show ?case by (cases x) (auto simp: get_object_def)
qed simp

lemma same_objects:
  assumes "represents s t" "represents s' t'" "set (contents self t') = D"
    and "D \<subseteq> insert (a, k) (set (contents self t))" "get_object (nodes s) a = Some k"
    and "\<And>x. x \<notin> fst ` D \<Longrightarrow> nodes s' x = nodes s x"
  shows "get_object (nodes s') x = get_object (nodes s) x"
proof (cases "x \<in> fst ` D")
  case True
  then obtain m where m: "(x, m) \<in> D" by auto
  have "get_object (nodes s') x = Some m" using tree_at_object[of "nodes s'" None t'] m assms by (auto simp: represents_def)
  moreover have "get_object (nodes s) x = Some m"
    using tree_at_object[of "nodes s" None t] m assms by (auto simp: represents_def)
  ultimately show ?thesis by simp
qed (use assms(6) in \<open>simp add: get_object_def\<close>)

context strict_weak_order
begin

lemma TypedAVLTree_insert_represents:
  assumes rep: "represents s t" "hpos t" and a: "a \<notin> set (addrs t)" "get_object (nodes s) a = Some k"
    and sorted: "sorted_wrt (\<lambda>x y. \<not> cmp (snd y) (snd x)) (contents self t)"
  shows "\<exists>s' t'. TypedAVLTree_insert cmp s a = Some s' \<and> represents s' t' \<and> hpos t' \<and> (avl t \<longrightarrow> avl t')
     \<and> contents self t' = insert_sorted cmp (a, k) (contents self t)
     \<and> (\<forall>x. get_object (nodes s') x = get_object (nodes s) x)"
proof -
  let ?c = "ins_path cmp k t []"
  have t: "plug \<langle>\<rangle> ?c = t" by (simp add: plug_ins_path)
  obtain n where n: "nodes s a = Some n" "avl_node.more n = k" using a(2) by (auto simp: get_object_def)
  have ad: "set (addrs t) = path_addrs ?c" using set_addrs_plug[of "\<langle>\<rangle>" ?c] t by simp
  obtain s' where s': "insert_at s (path_parent ?c) (path_dir ?c) a = Some s'" "represents s' (inserted a k ?c)"
    "\<forall>x. x \<noteq> a \<and> x \<notin> path_addrs ?c \<longrightarrow> nodes s' x = nodes s x"
    using insert_at_represents[of s ?c a n] rep a(1) t n ad by auto
  have "avl_descend cmp (nodes s) a nullptr (m_root s) LEFT = Some (path_parent ?c, path_dir ?c)"
    using avl_descend_path[of "nodes s" "[]" t a k cmp] rep a(2) by (auto simp: represents_def)
  then have ins: "TypedAVLTree_insert cmp s a = Some s'" using s'(1) by (simp add: TypedAVLTree_insert_def)
  obtain xs ys where xy: "contents self t = xs @ ys" "\<forall>x \<in> set xs. \<not> cmp k (snd x)" "\<forall>y \<in> set ys. cmp k (snd y)"
    "before self ?c = xs" "after self ?c = ys"
    using ins_path_split[OF sorted, of k "[]"] by auto
  have cont: "contents self (inserted a k ?c) = xs @ (a, k) # ys" by (simp add: contents_inserted xy)
  have "hpos (inserted a k ?c)" using hpos_inserted[of ?c] rep(2) t by simp
  moreover have "get_object (nodes s') x = get_object (nodes s) x" for x
    by (rule same_objects[OF rep(1) s'(2) refl _ a(2)]) (use xy cont s'(3) ad in \<open>auto simp: addrs_contents[of t self]\<close>)
  ultimately show ?thesis
    using ins s'(2) cont xy avl_inserted[of ?c a k] t by (auto simp: insert_sorted_split)
qed

end

lemma AVLTree_remove_contents:
  assumes t: "represents s t" "hpos t" "contents self t = xs @ (a, k) # ys"
  shows "\<exists>l hh m r c s'. t = plug \<langle>l, (a, hh, m), r\<rangle> c \<and> AVLTree_remove s a = Some s'
     \<and> represents s' (after_removal l r c) \<and> contents self (after_removal l r c) = xs @ ys
     \<and> (\<forall>x. get_object (nodes s') x = get_object (nodes s) x)"
proof -
  have "a \<in> set (addrs t)" by (simp add: addrs_contents[of t self] t(3))
  then obtain l hh m r c where p: "t = plug \<langle>l, (a, hh, m), r\<rangle> c" using split_at_addr by blast
  obtain s' where s': "AVLTree_remove s a = Some s'" "represents s' (after_removal l r c)"
    "\<forall>x. x = a \<or> x \<notin> set (addrs t) \<longrightarrow> nodes s' x = nodes s x"
    using AVLTree_remove_represents[OF t(1,2)[unfolded p]] p by blast
  let ?B = "before self c @ contents self l" and ?A = "contents self r @ after self c"
  have eq: "?B @ (a, m) # ?A = xs @ (a, k) # ys" using t(3) by (simp add: p contents_plug)
  have d: "distinct (map fst (xs @ (a, k) # ys))" using t(1) t(3) distinct_contents[of t self] by (simp add: represents_def)
  have "a \<notin> fst ` set ?B" "a \<notin> fst ` set xs" using d d[folded eq] by auto
  then have B: "?B = xs \<and> ?A = ys" using split_unique[OF eq] by simp
  have cont: "contents self (after_removal l r c) = xs @ ys" using B by (simp add: contents_after_removal)
  have ob: "get_object (nodes s) a = Some k" using tree_at_object[of "nodes s" None t a k] t by (auto simp: represents_def)
  have "get_object (nodes s') x = get_object (nodes s) x" for x
    by (rule same_objects[OF t(1) s'(2) refl _ ob]) (use cont t(3) s'(3) in \<open>auto simp: addrs_contents[of t self]\<close>)
  then show ?thesis using s'(1,2) cont p by blast
qed

lemma AVLTree_remove_linked:
  assumes "linked s (xs @ (a, k) # ys)"
  shows "\<exists>s'. AVLTree_remove s a = Some s' \<and> linked s' (xs @ ys)
     \<and> (\<forall>x. get_object (nodes s') x = get_object (nodes s) x)"
proof -
  obtain t where t: "represents s t" "hpos t" "contents self t = xs @ (a, k) # ys" using assms by (auto simp: linked_def)
  obtain l hh m r c s' where p: "t = plug \<langle>l, (a, hh, m), r\<rangle> c" "AVLTree_remove s a = Some s'"
    "represents s' (after_removal l r c)" "contents self (after_removal l r c) = xs @ ys"
    "\<forall>x. get_object (nodes s') x = get_object (nodes s) x"
    using AVLTree_remove_contents[OF t] by blast
  then show ?thesis using hpos_after_removal[OF t(2)[unfolded p(1)]] by (auto simp: linked_def)
qed

lemma TypedAVLTree_extreme_linked:
  assumes "linked s xs"
  shows "TypedAVLTree_first s = Some (case xs of [] \<Rightarrow> nullptr | x # _ \<Rightarrow> Some (fst x))"
    and "TypedAVLTree_last s = Some (if xs = [] then nullptr else Some (fst (last xs)))"
proof -
  obtain t where t: "represents s t" "contents self t = xs" using assms by (auto simp: linked_def)
  have ad: "addrs t = map fst xs" by (simp add: addrs_contents[of t self] t(2))
  have "TypedAVLTree_first s = Some (case xs of [] \<Rightarrow> nullptr | x # _ \<Rightarrow> Some (fst x))
      \<and> TypedAVLTree_last s = Some (if xs = [] then nullptr else Some (fst (last xs)))"
  proof (cases "rootp t")
    case None
    then show ?thesis using t by (auto simp: TypedAVLTree_first_def TypedAVLTree_last_def TypedAVLTree_extreme_def represents_def)
  next
    case (Some x)
    then have "xs \<noteq> []" using rootp_in_addrs[OF Some] ad by auto
    then show ?thesis using t Some walk_extreme[of "nodes s" None t x] ad
      by (auto simp: TypedAVLTree_first_def TypedAVLTree_last_def TypedAVLTree_extreme_def represents_def
          last_map neq_Nil_conv)
  qed
  then show "TypedAVLTree_first s = Some (case xs of [] \<Rightarrow> nullptr | x # _ \<Rightarrow> Some (fst x))"
    and "TypedAVLTree_last s = Some (if xs = [] then nullptr else Some (fst (last xs)))" by auto
qed

section \<open>The tree as a priority queue\<close>

text \<open>
  The timers and the sleep timeouts use a tree as a queue ordered by expiry time; the interface
  says what they rely on. \<open>live\<close> is the object at an address, in the queue or not.
\<close>

fun inserts :: "('s \<Rightarrow> addr \<Rightarrow> 's option) \<Rightarrow> 's \<Rightarrow> addr list \<Rightarrow> 's option" where
  "inserts ins s [] = Some s"
| "inserts ins s (a # as) = do { s \<leftarrow> ins s a; inserts ins s as }"

fun pops :: "('s \<Rightarrow> ptr option) \<Rightarrow> ('s \<Rightarrow> addr \<Rightarrow> 's option) \<Rightarrow> 's \<Rightarrow> nat \<Rightarrow> (addr list \<times> 's) option" where
  "pops first del s 0 = Some ([], s)"
| "pops first del s (Suc n) = do {
     p \<leftarrow> first s;
     a \<leftarrow> p;
     s \<leftarrow> del s a;
     (as, s) \<leftarrow> pops first del s n;
     Some (a # as, s)
   }"

context strict_weak_order
begin

lemma insert_sorted_sorted:
  assumes "sorted_wrt (\<lambda>x y. \<not> cmp (snd y) (snd x)) xs"
  shows "sorted_wrt (\<lambda>x y. \<not> cmp (snd y) (snd x)) (insert_sorted cmp x xs)"
proof -
  let ?P = "\<lambda>y. \<not> cmp (snd x) (snd y)" and ?R = "\<lambda>x y. \<not> cmp (snd y) (snd x)"
  have "sorted_wrt ?R (takeWhile ?P xs @ dropWhile ?P xs)" using assms by simp
  then have s: "sorted_wrt ?R (takeWhile ?P xs)" "sorted_wrt ?R (dropWhile ?P xs)"
    "\<forall>y \<in> set (takeWhile ?P xs). \<forall>z \<in> set (dropWhile ?P xs). ?R y z"
    unfolding sorted_wrt_append by auto
  have "\<not> cmp (snd y) (snd x)" if "y \<in> set (dropWhile ?P xs)" for y
  proof (cases "dropWhile ?P xs")
    case (Cons z zs)
    then have "cmp (snd x) (snd z)" using hd_dropWhile[of ?P xs] by simp
    moreover have "y = z \<or> \<not> cmp (snd y) (snd z)" using that s(2) by (auto simp: Cons)
    ultimately show ?thesis using asym negtrans by blast
  next
    case Nil
    then show ?thesis using that by (simp only: list.set empty_iff)
  qed
  then show ?thesis using s by (auto simp: insert_sorted_def sorted_wrt_append dest: set_takeWhileD)
qed

end

locale ordered_queue = strict_weak_order cmp for cmp :: "'k \<Rightarrow> 'k \<Rightarrow> bool" +
  fixes holds :: "'s \<Rightarrow> (addr \<times> 'k) list \<Rightarrow> bool"
    and live :: "'s \<Rightarrow> addr \<Rightarrow> 'k option"
    and ins del :: "'s \<Rightarrow> addr \<Rightarrow> 's option"
    and first :: "'s \<Rightarrow> ptr option"
  assumes ins: "holds s xs \<Longrightarrow> sorted_wrt (\<lambda>x y. \<not> cmp (snd y) (snd x)) xs \<Longrightarrow> live s a = Some k \<Longrightarrow>
      a \<notin> fst ` set xs \<Longrightarrow>
      \<exists>s'. ins s a = Some s' \<and> holds s' (insert_sorted cmp (a, k) xs) \<and> (\<forall>x. live s' x = live s x)"
    and del: "holds s (xs @ (a, k) # ys) \<Longrightarrow>
      \<exists>s'. del s a = Some s' \<and> holds s' (xs @ ys) \<and> (\<forall>x. live s' x = live s x)"
    and first: "holds s xs \<Longrightarrow> first s = Some (case xs of [] \<Rightarrow> nullptr | x # _ \<Rightarrow> Some (fst x))"
begin

lemma inserts_holds:
  "holds s xs \<Longrightarrow> sorted_wrt (\<lambda>x y. \<not> cmp (snd y) (snd x)) xs \<Longrightarrow> (\<forall>(a, k) \<in> set items. live s a = Some k) \<Longrightarrow>
   distinct (map fst items) \<Longrightarrow> fst ` set items \<inter> fst ` set xs = {} \<Longrightarrow>
   \<exists>s'. inserts ins s (map fst items) = Some s' \<and> holds s' (foldl (\<lambda>xs x. insert_sorted cmp x xs) xs items)
      \<and> sorted_wrt (\<lambda>x y. \<not> cmp (snd y) (snd x)) (foldl (\<lambda>xs x. insert_sorted cmp x xs) xs items)"
proof (induction items arbitrary: s xs)
  case (Cons i items)
  obtain a k where i: "i = (a, k)" by (cases i)
  obtain s1 where s1: "ins s a = Some s1" "holds s1 (insert_sorted cmp i xs)" "\<forall>x. live s1 x = live s x"
    using ins[OF Cons.prems(1,2), of a k] Cons.prems by (auto simp: i)
  have st: "set (insert_sorted cmp i xs) = insert i (set xs)"
    using takeWhile_dropWhile_id[of "\<lambda>y. \<not> cmp (snd i) (snd y)" xs] unfolding insert_sorted_def
    by (metis (no_types, lifting) set_append list.simps(15) Un_insert_right)
  show ?case
    using Cons.IH[OF s1(2) insert_sorted_sorted[OF Cons.prems(2)]] s1 Cons.prems st by (auto simp: i)
qed simp

lemma pops_holds:
  "holds s (xs @ ys) \<Longrightarrow> \<exists>s'. pops first del s (length xs) = Some (map fst xs, s') \<and> holds s' ys"
proof (induction xs arbitrary: s)
  case (Cons x xs)
  obtain s1 where "del s (fst x) = Some s1" "holds s1 (xs @ ys)"
    using del[of s "[]" "fst x" "snd x" "xs @ ys"] Cons.prems by auto
  then show ?case using first[OF Cons.prems] Cons.IH by auto
qed simp

end

sublocale strict_weak_order \<subseteq> avlq: ordered_queue cmp linked "\<lambda>s. get_object (nodes s)"
  "TypedAVLTree_insert cmp" AVLTree_remove TypedAVLTree_first
proof
  fix s xs a k
  assume l: "linked s xs" and st: "sorted_wrt (\<lambda>x y. \<not> cmp (snd y) (snd x)) xs"
    and a: "get_object (nodes s) a = Some k" "a \<notin> fst ` set xs"
  obtain t where t: "represents s t" "hpos t" "contents self t = xs" using l by (auto simp: linked_def)
  have "a \<notin> set (addrs t)" using a(2) t(3) by (simp add: addrs_contents[of t self])
  then show "\<exists>s'. TypedAVLTree_insert cmp s a = Some s' \<and> linked s' (insert_sorted cmp (a, k) xs)
      \<and> (\<forall>x. get_object (nodes s') x = get_object (nodes s) x)"
    using TypedAVLTree_insert_represents[of s t a k] t a st by (auto simp: linked_def)
next
  fix s xs a k ys
  assume "linked s (xs @ (a, k) # ys)"
  then show "\<exists>s'. AVLTree_remove s a = Some s' \<and> linked s' (xs @ ys)
      \<and> (\<forall>x. get_object (nodes s') x = get_object (nodes s) x)" by (rule AVLTree_remove_linked)
next
  fix s xs
  assume "linked s xs"
  then show "TypedAVLTree_first s = Some (case xs of [] \<Rightarrow> nullptr | x # _ \<Rightarrow> Some (fst x))"
    by (rule TypedAVLTree_extreme_linked)
qed

definition equiv_class :: "('k \<Rightarrow> 'k \<Rightarrow> bool) \<Rightarrow> 'k \<Rightarrow> 'k \<Rightarrow> bool" where
  "equiv_class cmp k x \<longleftrightarrow> \<not> cmp k x \<and> \<not> cmp x k"

lemma insert_sorted_set: "set (insert_sorted cmp x xs) = insert x (set xs)"
  and insert_sorted_length: "length (insert_sorted cmp x xs) = Suc (length xs)"
proof -
  let ?P = "\<lambda>y. \<not> cmp (snd x) (snd y)"
  have "set (takeWhile ?P xs) \<union> set (dropWhile ?P xs) = set xs"
    "length (takeWhile ?P xs) + length (dropWhile ?P xs) = length xs"
    by (simp_all flip: set_append length_append)
  then show "set (insert_sorted cmp x xs) = insert x (set xs)" "length (insert_sorted cmp x xs) = Suc (length xs)"
    by (auto simp: insert_sorted_def)
qed

lemma insert_sorted_distinct:
  assumes "distinct (map fst xs)" "fst x \<notin> fst ` set xs"
  shows "distinct (map fst (insert_sorted cmp x xs))"
proof -
  let ?P = "\<lambda>y. \<not> cmp (snd x) (snd y)"
  have "distinct (map fst (takeWhile ?P xs @ dropWhile ?P xs))" using assms(1) by simp
  then have "distinct (map fst (takeWhile ?P xs)) \<and> distinct (map fst (dropWhile ?P xs))
      \<and> fst ` set (takeWhile ?P xs) \<inter> fst ` set (dropWhile ?P xs) = {}"
    unfolding map_append distinct_append by simp
  then show ?thesis using assms(2) by (auto simp: insert_sorted_def dest: set_takeWhileD set_dropWhileD)
qed

context strict_weak_order
begin

lemma insert_sorted_stable:
  assumes "sorted_wrt (\<lambda>x y. \<not> cmp (snd y) (snd x)) xs"
  shows "filter (\<lambda>x. equiv_class cmp k (snd x)) (insert_sorted cmp x xs)
       = filter (\<lambda>x. equiv_class cmp k (snd x)) (xs @ [x])"
proof -
  let ?P = "\<lambda>y. \<not> cmp (snd x) (snd y)" and ?E = "\<lambda>x. equiv_class cmp k (snd x)"
  have "filter ?E (takeWhile ?P xs @ dropWhile ?P xs) = filter ?E xs" by simp
  moreover have "filter ?E (dropWhile ?P xs) = []" if "?E x"
  proof -
    have c: "cmp (snd x) (snd y)" if "y \<in> set (dropWhile ?P xs)" for y
      using assms that
    proof (induction xs)
      case (Cons z zs)
      then show ?case using negtrans[of "snd x" "snd z" "snd y"] by (auto split: if_splits)
    qed simp
    have "\<not> ?E y" if y: "y \<in> set (dropWhile ?P xs)" for y
      using c[OF y] negtrans[of "snd x" "snd y" k] \<open>?E x\<close> unfolding equiv_class_def by blast
    then show ?thesis by (simp add: filter_empty_conv)
  qed
  ultimately show ?thesis
    by (cases "?E x") (simp_all add: insert_sorted_def del: takeWhile_dropWhile_id)
qed

lemma inserted_all:
  fixes xs :: "(addr \<times> 'k) list"
  defines "out \<equiv> foldl (\<lambda>xs x. insert_sorted cmp x xs)"
  assumes "sorted_wrt (\<lambda>x y. \<not> cmp (snd y) (snd x)) xs" "distinct (map fst (xs @ items))"
  shows "set (out xs items) = set xs \<union> set items \<and> length (out xs items) = length xs + length items
    \<and> distinct (map fst (out xs items))
    \<and> filter (\<lambda>x. equiv_class cmp k (snd x)) (out xs items) = filter (\<lambda>x. equiv_class cmp k (snd x)) (xs @ items)"
  using assms(2,3) unfolding out_def
proof (induction items arbitrary: xs)
  case (Cons i items)
  let ?xs = "insert_sorted cmp i xs"
  have "distinct (map fst (?xs @ items))"
    using Cons.prems insert_sorted_distinct[of xs i cmp] by (auto simp: insert_sorted_set)
  from Cons.IH[OF insert_sorted_sorted[OF Cons.prems(1)] this] show ?case
    using insert_sorted_stable[OF Cons.prems(1), of k i] by (auto simp: insert_sorted_set insert_sorted_length)
qed simp

lemma avl_queue:
  assumes "m_root s = nullptr" "distinct (map fst items)"
    and "\<forall>(a, k) \<in> set items. get_object (nodes s) a = Some k"
  shows "\<exists>s' s'' out. inserts (TypedAVLTree_insert cmp) s (map fst items) = Some s'
     \<and> pops TypedAVLTree_first AVLTree_remove s' (length items) = Some (map fst out, s'')
     \<and> set out = set items \<and> distinct (map fst out) \<and> m_root s'' = nullptr
     \<and> sorted_wrt (\<lambda>x y. \<not> cmp (snd y) (snd x)) out
     \<and> (\<forall>k. filter (\<lambda>x. equiv_class cmp k (snd x)) out = filter (\<lambda>x. equiv_class cmp k (snd x)) items)"
proof -
  let ?out = "foldl (\<lambda>xs x. insert_sorted cmp x xs) [] items"
  have out: "set ?out = set items \<and> length ?out = length items \<and> distinct (map fst ?out)
    \<and> filter (\<lambda>x. equiv_class cmp k (snd x)) ?out = filter (\<lambda>x. equiv_class cmp k (snd x)) items" for k
    using inserted_all[of "[]" items k] assms(2) by simp
  have "linked s []" using assms(1) by (auto simp: linked_def represents_def intro!: exI[of _ "\<langle>\<rangle>"])
  then obtain s' where s': "inserts (TypedAVLTree_insert cmp) s (map fst items) = Some s'" "linked s' (?out @ [])"
    "sorted_wrt (\<lambda>x y. \<not> cmp (snd y) (snd x)) ?out"
    using avlq.inserts_holds[of s "[]" items] assms by auto
  obtain s'' where s'': "pops TypedAVLTree_first AVLTree_remove s' (length items) = Some (map fst ?out, s'')" "linked s'' []"
    using avlq.pops_holds[OF s'(2)] out by auto
  have "m_root s'' = nullptr"
    using s''(2) by (auto simp: linked_def represents_def contents_def)
  then show ?thesis
    using s'(1,3) s''(1) out by (intro exI[of _ s'] exI[of _ s''] exI[of _ ?out]) simp
qed

end

section \<open>Properties\<close>

text \<open>
  (C14) Inserting a node into an ordered, balanced tree returns, through valid pointers only, a balanced
  AVL tree with correct stored heights, whose in-order sequence is the old one with the node put
  after all the elements it does not precede; no other object changes.
\<close>

theorem avl_insert_balanced:
  assumes "strict_weak_order cmp" and "balanced s xs" and "sorted_wrt (\<lambda>x y. \<not> cmp (snd y) (snd x)) xs"
    and "get_object (nodes s) a = Some k" and "a \<notin> fst ` set xs"
  shows "\<exists>s'. TypedAVLTree_insert cmp s a = Some s' \<and> balanced s' (insert_sorted cmp (a, k) xs)
           \<and> (\<forall>x. get_object (nodes s') x = get_object (nodes s) x)"
proof -
  obtain t where t: "represents s t" "avl t" "contents self t = xs" using assms(2) by (auto simp: balanced_def)
  have "a \<notin> set (addrs t)" using assms(5) t(3) by (simp add: addrs_contents[of t self])
  then show ?thesis
    using strict_weak_order.TypedAVLTree_insert_represents[OF assms(1) t(1) avl_hpos[OF t(2)] _ assms(4)] t assms(3)
    by (auto simp: balanced_def)
qed

definition sample_avl :: "nat avl_tree" where
  "sample_avl = \<lparr>m_root = Some 2, nodes =
     [1 \<mapsto> \<lparr>child = case_dir None None, parent = Some 2, avl_height = 1, \<dots> = 10\<rparr>,
      2 \<mapsto> \<lparr>child = case_dir (Some 1) None, parent = None, avl_height = 2, \<dots> = 20\<rparr>,
      3 \<mapsto> \<lparr>child = case_dir None None, parent = None, avl_height = 0, \<dots> = 5\<rparr>]\<rparr>"

lemma strict_weak_order_less: "strict_weak_order ((<) :: nat \<Rightarrow> nat \<Rightarrow> bool)"
  by unfold_locales auto

lemma sample_avl_balanced: "balanced sample_avl [(1, 10), (2, 20)]"
  unfolding balanced_def
  by (rule exI[of _ "\<langle>\<langle>\<langle>\<rangle>, (1, 1, 10), \<langle>\<rangle>\<rangle>, (2, 2, 20), \<langle>\<rangle>\<rangle>"]) (simp add: sample_avl_def represents_def)

theorem avl_insert_balanced_witness:
  "balanced sample_avl [(1, 10), (2, 20)] \<and>
   (\<exists>s'. TypedAVLTree_insert (<) sample_avl 3 = Some s' \<and> balanced s' [(3, 5), (1, 10), (2, 20)])"
proof -
  have "get_object (nodes sample_avl) 3 = Some 5" by (simp add: sample_avl_def get_object_def)
  then show ?thesis
    using avl_insert_balanced[OF strict_weak_order_less sample_avl_balanced, of 3 5] sample_avl_balanced
    by (auto simp: insert_sorted_def)
qed

text \<open>
  (C18) Removing any node of a well-linked tree returns, through valid pointers only, a well-linked tree
  that holds exactly the other nodes in the same order, and no object changes.
\<close>

theorem avl_remove_exact:
  assumes "linked s (xs @ (a, k) # ys)"
  shows "\<exists>s'. AVLTree_remove s a = Some s' \<and> linked s' (xs @ ys)
     \<and> (\<forall>x. get_object (nodes s') x = get_object (nodes s) x)"
  by (rule AVLTree_remove_linked[OF assms])

theorem avl_remove_exact_witness:
  "linked sample_avl ([(1, 10)] @ (2, 20) # []) \<and>
   (\<exists>s'. AVLTree_remove sample_avl 2 = Some s' \<and> linked s' [(1, 10)])"
proof -
  have l: "linked sample_avl ([(1, 10)] @ (2, 20) # [])" using balanced_linked[OF sample_avl_balanced] by simp
  with avl_remove_exact[OF l] show ?thesis by auto
qed

text \<open>
  Removing a node that lacks a child keeps the AVL invariant: all stored heights stay right and
  every node stays balanced.
\<close>

theorem avl_remove_balanced:
  assumes "balanced s (xs @ (a, k) # ys)" and "get_child (nodes s) a d = Some nullptr"
  shows "\<exists>s'. AVLTree_remove s a = Some s' \<and> balanced s' (xs @ ys)"
proof -
  obtain t where t: "represents s t" "avl t" "contents self t = xs @ (a, k) # ys"
    using assms(1) by (auto simp: balanced_def)
  obtain l hh m r c s' where p: "t = plug \<langle>l, (a, hh, m), r\<rangle> c" "AVLTree_remove s a = Some s'"
    "represents s' (after_removal l r c)" "contents self (after_removal l r c) = xs @ ys"
    using AVLTree_remove_contents[OF t(1) avl_hpos[OF t(2)] t(3)] by blast
  have "l = \<langle>\<rangle> \<or> r = \<langle>\<rangle>"
    using represents_node(1)[OF t(1)[unfolded p(1)]] assms(2) by (cases d) (auto simp: get_child_def)
  then show ?thesis using p avl_after_removal_easy[OF t(2)[unfolded p(1)]] by (auto simp: balanced_def)
qed

theorem avl_remove_balanced_witness:
  "balanced sample_avl ([(1, 10)] @ (2, 20) # []) \<and> get_child (nodes sample_avl) 2 RIGHT = Some nullptr \<and>
   (\<exists>s'. AVLTree_remove sample_avl 2 = Some s' \<and> balanced s' [(1, 10)])"
proof -
  have b: "balanced sample_avl ([(1, 10)] @ (2, 20) # [])" using sample_avl_balanced by simp
  have c: "get_child (nodes sample_avl) 2 RIGHT = Some nullptr" by (simp add: sample_avl_def get_child_def)
  show ?thesis using avl_remove_balanced[OF b c] b c by simp
qed

text \<open>
  (C23) The tree is a stable priority queue: inserting any distinct live nodes into an empty tree and
  taking the first element as often returns exactly those nodes, ordered by the comparator, and
  nodes that compare equal come out in the order in which they were inserted.
\<close>

theorem avl_priority_queue:
  assumes "strict_weak_order cmp" and "m_root s = nullptr" and "distinct (map fst items)"
    and "\<forall>(a, k) \<in> set items. get_object (nodes s) a = Some k"
  shows "\<exists>s' s'' out. inserts (TypedAVLTree_insert cmp) s (map fst items) = Some s'
     \<and> pops TypedAVLTree_first AVLTree_remove s' (length items) = Some (map fst out, s'')
     \<and> set out = set items \<and> distinct (map fst out) \<and> m_root s'' = nullptr
     \<and> sorted_wrt (\<lambda>x y. \<not> cmp (snd y) (snd x)) out
     \<and> (\<forall>k. filter (\<lambda>x. equiv_class cmp k (snd x)) out = filter (\<lambda>x. equiv_class cmp k (snd x)) items)"
  using strict_weak_order.avl_queue[OF assms] .

definition sample_free :: "nat avl_tree" where
  "sample_free = \<lparr>m_root = None, nodes = (\<lambda>a. if a < 4 then
     Some \<lparr>child = case_dir None None, parent = None, avl_height = 0, \<dots> = if a = 1 then 7 else 3\<rparr> else None)\<rparr>"

theorem avl_priority_queue_witness:
  fixes items :: "(addr \<times> nat) list"
  defines "items \<equiv> [(1, 7), (2, 3), (3, 3)]"
  shows "\<exists>s' s'' out. inserts (TypedAVLTree_insert (<)) sample_free (map fst items) = Some s'
     \<and> pops TypedAVLTree_first AVLTree_remove s' (length items) = Some (map fst out, s'')
     \<and> set out = set items \<and> m_root s'' = nullptr \<and> sorted_wrt (\<lambda>x y. \<not> snd y < snd x) out"
proof -
  have "m_root sample_free = nullptr" "distinct (map fst items)"
    "\<forall>(a, k) \<in> set items. get_object (nodes sample_free) a = Some k"
    by (simp_all add: items_def sample_free_def get_object_def)
  from avl_priority_queue[OF strict_weak_order_less this] show ?thesis by blast
qed

section \<open>Removal of a node with two children\<close>

text \<open>
  In the two general cases of \<^verbatim>\<open>remove\<close> the in-order successor \<open>Z\<close> takes the place of the removed node
  but keeps its own stored height. When \<open>fixup\<close> reaches \<open>Z\<close> and the height it computes happens to
  equal that stale value, it stops, although the subtree is now lower than it was: the ancestors keep
  wrong heights and may stay out of balance.
\<close>

definition unlucky_left :: "nat atree" where
  "unlucky_left = \<langle>\<langle>\<rangle>, (3, 1, 1), \<langle>\<rangle>\<rangle>"

definition unlucky_right :: "nat atree" where
  "unlucky_right = \<langle>\<langle>\<rangle>, (4, 2, 3), \<langle>\<langle>\<rangle>, (5, 1, 4), \<langle>\<rangle>\<rangle>\<rangle>"

definition unlucky_path :: "nat path" where
  "unlucky_path = [(LEFT, (1, 5, 5), \<langle>\<langle>\<langle>\<langle>\<rangle>, (9, 1, 6), \<langle>\<rangle>\<rangle>, (8, 2, 7), \<langle>\<rangle>\<rangle>, (6, 4, 8),
       \<langle>\<langle>\<langle>\<rangle>, (11, 1, 9), \<langle>\<rangle>\<rangle>, (7, 3, 10), \<langle>\<langle>\<rangle>, (10, 2, 11), \<langle>\<langle>\<rangle>, (12, 1, 12), \<langle>\<rangle>\<rangle>\<rangle>\<rangle>\<rangle>)]"

lemmas unlucky_defs = unlucky_left_def unlucky_right_def unlucky_path_def

lemma unlucky_after_removal: "\<not> avl (after_removal unlucky_left unlucky_right unlucky_path)"
  by (simp add: unlucky_defs after_removal_def)

text \<open>
  The stale height matters: there is a balanced tree from which the removal of a node with two
  children returns a well-linked tree that is no longer balanced.
\<close>

theorem avl_remove_may_unbalance:
  "\<exists>(s :: nat avl_tree) s' xs k ys. balanced s (xs @ (2, k) # ys) \<and> AVLTree_remove s 2 = Some s'
     \<and> linked s' (xs @ ys) \<and> \<not> balanced s' (xs @ ys)"
proof -
  let ?n = "\<langle>unlucky_left, (2, 3, 2), unlucky_right\<rangle>"
  let ?t = "plug ?n unlucky_path" and ?t' = "after_removal unlucky_left unlucky_right unlucky_path"
  let ?s = "\<lparr>m_root = rootp ?t, nodes = heap_of None ?t\<rparr>"
  let ?xs = "before self unlucky_path @ contents self unlucky_left"
    and ?ys = "contents self unlucky_right @ after self unlucky_path"
  have t: "represents ?s ?t" "avl ?t"
    using tree_at_heap_of[of ?t None] by (simp_all add: represents_def) (simp_all add: unlucky_defs)
  have c: "contents self ?t = ?xs @ (2, 2) # ?ys" by (simp add: contents_plug)
  obtain s' where s': "AVLTree_remove ?s 2 = Some s'" "represents s' ?t'"
    using AVLTree_remove_represents[OF t(1) avl_hpos[OF t(2)]] by blast
  have "contents self ?t' = ?xs @ ?ys" by (simp add: contents_after_removal)
  then have "linked s' (?xs @ ?ys)"
    using s'(2) hpos_after_removal[OF avl_hpos[OF t(2)]] by (auto simp: linked_def)
  moreover have "\<not> balanced s' (?xs @ ?ys)"
  proof
    assume "balanced s' (?xs @ ?ys)"
    then obtain u where u: "represents s' u" "avl u" by (auto simp: balanced_def)
    then have "u = ?t'" using s'(2) tree_at_unique[of "nodes s'" None u ?t'] by (simp add: represents_def)
    then show False using u unlucky_after_removal by simp
  qed
  moreover have "balanced ?s (?xs @ (2, 2) # ?ys)" using t c by (auto simp: balanced_def)
  ultimately show ?thesis using s'(1) by blast
qed

end
