(* ===== verification/Dsl_VMA_Tree.thy ===== *)
theory Dsl_VMA_Tree
  imports Dsl_AVL Dsl_List Dsl_Align
begin

text \<open>
  The VMA tree of \<^verbatim>\<open>include/dsl/vmatree.h\<close> and its modification in \<^verbatim>\<open>dsl/vmamodify.cc\<close>: an AVL tree
  of address ranges that also threads its nodes on a list and keeps, for every subtree, the biggest
  gap in front of one of its nodes. A node is an AVL node whose record extension holds the range
  and the gaps; its list head lives at the same address in the heap of list nodes.
\<close>

section \<open>State\<close>

record vma =
  vm_first :: u64
  vm_last :: u64
  prev_gap :: u64
  biggest_gap :: u64

record vma_tree =
  vt :: "vma avl_tree"
  vlist :: list_heap
  list_anchor :: addr

definition VMA_TREE_MAX :: u64 where
  "VMA_TREE_MAX = -1"

definition set_vma :: "vma avl_heap \<Rightarrow> addr \<Rightarrow> (vma \<Rightarrow> vma) \<Rightarrow> vma avl_heap option" where
  "set_vma h a f = do { v \<leftarrow> get_object h a; set_object h a (f v) }"

section \<open>vmatree.h\<close>

definition VMATree_init :: "vma_tree \<Rightarrow> vma_tree option" where
  "VMATree_init s = do {
     l \<leftarrow> ListHead_init (vlist s) (list_anchor s);
     Some (s\<lparr>vlist := l, vt := (vt s)\<lparr>m_root := nullptr\<rparr>\<rparr>)
   }"

definition VMATree_empty :: "vma_tree \<Rightarrow> bool" where
  "VMATree_empty s = (m_root (vt s) = nullptr)"

definition VMATree_next :: "vma_tree \<Rightarrow> ptr \<Rightarrow> ptr option" where
  "VMATree_next s node = do {
     let entry = (case node of Some n \<Rightarrow> n | None \<Rightarrow> list_anchor s);
     entry \<leftarrow> get_next (vlist s) entry;
     Some (if entry = list_anchor s then nullptr else Some entry)
   }"

definition VMATree_prev :: "vma_tree \<Rightarrow> ptr \<Rightarrow> ptr option" where
  "VMATree_prev s node = do {
     let entry = (case node of Some n \<Rightarrow> n | None \<Rightarrow> list_anchor s);
     entry \<leftarrow> get_prev (vlist s) entry;
     Some (if entry = list_anchor s then nullptr else Some entry)
   }"

definition VMATree_first :: "vma_tree \<Rightarrow> ptr option" where
  "VMATree_first s = VMATree_next s nullptr"

definition VMATree_last :: "vma_tree \<Rightarrow> ptr option" where
  "VMATree_last s = VMATree_prev s nullptr"

section \<open>vmamodify.cc\<close>

definition node_max_gap :: "vma avl_heap \<Rightarrow> ptr \<Rightarrow> u64 option" where
  "node_max_gap h node = (case node of
     None \<Rightarrow> Some 0
   | Some a \<Rightarrow> do { v \<leftarrow> get_object h a; Some (biggest_gap v) })"

definition propagate :: "vma avl_heap \<Rightarrow> addr \<Rightarrow> vma avl_heap option" where
  "propagate h node = do {
     l \<leftarrow> get_child h node LEFT;
     l_height \<leftarrow> node_height h l;
     l_gap \<leftarrow> node_max_gap h l;
     r \<leftarrow> get_child h node RIGHT;
     r_height \<leftarrow> node_height h r;
     r_gap \<leftarrow> node_max_gap h r;
     v \<leftarrow> get_object h node;
     let new_height = 1 + (if l_height > r_height then l_height else r_height);
     let new_gap = dsl_max (prev_gap v) (dsl_max l_gap r_gap);
     h \<leftarrow> set_height h node new_height;
     set_vma h node (\<lambda>v. v\<lparr>biggest_gap := new_gap\<rparr>)
   }"

definition vma_rotate :: "vma avl_heap \<Rightarrow> addr \<Rightarrow> dir \<Rightarrow> (addr \<times> vma avl_heap) option" where
  "vma_rotate h node dir = do {
     let oth = opp dir;
     z \<leftarrow> get_child h node oth;
     Z \<leftarrow> z;
     tmp \<leftarrow> get_child h Z dir;
     h \<leftarrow> set_child h node oth tmp;
     h \<leftarrow> set_parent_if h tmp (Some node);
     h \<leftarrow> set_child h Z dir (Some node);
     h \<leftarrow> set_parent h node (Some Z);
     h \<leftarrow> propagate h node;
     h \<leftarrow> propagate h Z;
     Some (Z, h)
   }"

partial_function (option) VMATree_fixup :: "vma avl_tree \<Rightarrow> ptr \<Rightarrow> vma avl_tree option" where
  "VMATree_fixup s p = (case p of
     None \<Rightarrow> Some s
   | Some node \<Rightarrow> do {
       balance \<leftarrow> node_balance (nodes s) node;
       if -1 \<le> balance \<and> balance \<le> 1 then do {
         h \<leftarrow> propagate (nodes s) node;
         par \<leftarrow> get_parent h node;
         VMATree_fixup (s\<lparr>nodes := h\<rparr>) par
       } else do {
         (s, par) \<leftarrow> rebalance vma_rotate s node balance;
         VMATree_fixup s par
       }
     })"

partial_function (option) vma_descend :: "vma avl_heap \<Rightarrow> addr \<Rightarrow> ptr \<Rightarrow> ptr \<Rightarrow> dir \<Rightarrow> (ptr \<times> dir) option" where
  "vma_descend h node par p dir = (case p of
     None \<Rightarrow> Some (par, dir)
   | Some x \<Rightarrow> do {
       vn \<leftarrow> get_object h node;
       vx \<leftarrow> get_object h x;
       let dir = (if vm_first vn < vm_first vx then LEFT else RIGHT);
       nx \<leftarrow> get_child h x dir;
       vma_descend h node (Some x) nx dir
     })"

text \<open>The gap in front of \<open>node\<close> when \<open>pred\<close> is its predecessor, stored in \<open>node->prev_gap\<close>.\<close>

definition set_prev_gap :: "vma avl_heap \<Rightarrow> addr \<Rightarrow> ptr \<Rightarrow> vma avl_heap option" where
  "set_prev_gap h node pred = do {
     vn \<leftarrow> get_object h node;
     gap \<leftarrow> (case pred of
        Some p \<Rightarrow> do { vp \<leftarrow> get_object h p; Some (vm_first vn - vm_last vp - 1) }
      | None \<Rightarrow> Some (vm_first vn));
     set_vma h node (\<lambda>v. v\<lparr>prev_gap := gap\<rparr>)
   }"

definition VMATree_insert :: "vma_tree \<Rightarrow> addr \<Rightarrow> vma_tree option" where
  "VMATree_insert s node = do {
     h \<leftarrow> set_child (nodes (vt s)) node LEFT nullptr;
     h \<leftarrow> set_child h node RIGHT nullptr;
     h \<leftarrow> set_height h node 1;
     (par, dir) \<leftarrow> vma_descend h node nullptr (m_root (vt s)) LEFT;
     pred \<leftarrow> (if dir = RIGHT then Some par else VMATree_prev s par);
     succ \<leftarrow> (if dir = RIGHT then VMATree_next s par else Some par);
     h \<leftarrow> set_prev_gap h node pred;
     h \<leftarrow> (case succ of Some sc \<Rightarrow> set_prev_gap h sc (Some node) | None \<Rightarrow> Some h);
     h \<leftarrow> set_parent h node par;
     t \<leftarrow> replace_child ((vt s)\<lparr>nodes := h\<rparr>) par dir (Some node);
     l \<leftarrow> (case pred of
        Some p \<Rightarrow> push_front (vlist s) p node
      | None \<Rightarrow> push_front (vlist s) (list_anchor s) node);
     t \<leftarrow> VMATree_fixup t (Some node);
     Some (s\<lparr>vt := t, vlist := l\<rparr>)
   }"

text \<open>The part of \<^verbatim>\<open>remove\<close> that takes \<open>node\<close> out of the tree, once gaps and list are updated.\<close>

definition VMATree_unlink :: "vma avl_tree \<Rightarrow> ptr \<Rightarrow> dir \<Rightarrow> ptr \<Rightarrow> addr \<Rightarrow> vma avl_tree option" where
  "VMATree_unlink t par me succ node = do {
     let h = nodes t;
     l \<leftarrow> get_child h node LEFT;
     r \<leftarrow> get_child h node RIGHT;
     if r = nullptr then do {
       t \<leftarrow> replace_child t par me l;
       h \<leftarrow> set_parent_if (nodes t) l par;
       VMATree_fixup (t\<lparr>nodes := h\<rparr>) (if l \<noteq> nullptr then l else par)
     } else if l = nullptr then do {
       Z \<leftarrow> r;
       h \<leftarrow> set_parent h Z par;
       t \<leftarrow> replace_child (t\<lparr>nodes := h\<rparr>) par me (Some Z);
       VMATree_fixup t succ
     } else do {
       Z \<leftarrow> succ;
       y \<leftarrow> get_parent h Z;
       h \<leftarrow> set_parent h Z par;
       l \<leftarrow> get_child h node LEFT;
       h \<leftarrow> set_child h Z LEFT l;
       L \<leftarrow> l;
       h \<leftarrow> set_parent h L (Some Z);
       t \<leftarrow> replace_child (t\<lparr>nodes := h\<rparr>) par me (Some Z);
       if y = Some node then VMATree_fixup t (Some Z)
       else do {
         Y \<leftarrow> y;
         zr \<leftarrow> get_child (nodes t) Z RIGHT;
         h \<leftarrow> set_child (nodes t) Y LEFT zr;
         h \<leftarrow> set_parent_if h zr (Some Y);
         r \<leftarrow> get_child h node RIGHT;
         h \<leftarrow> set_child h Z RIGHT r;
         R \<leftarrow> r;
         h \<leftarrow> set_parent h R (Some Z);
         VMATree_fixup (t\<lparr>nodes := h\<rparr>) (Some Y)
       }
     }
   }"

definition VMATree_remove :: "vma_tree \<Rightarrow> addr \<Rightarrow> vma_tree option" where
  "VMATree_remove s node = do {
     let h = nodes (vt s);
     par \<leftarrow> get_parent h node;
     me \<leftarrow> child_dir h par node;
     pred \<leftarrow> VMATree_prev s (Some node);
     succ \<leftarrow> VMATree_next s (Some node);
     h \<leftarrow> (case succ of Some sc \<Rightarrow> set_prev_gap h sc pred | None \<Rightarrow> Some h);
     vl \<leftarrow> ListHead_remove (vlist s) node;
     t \<leftarrow> VMATree_unlink ((vt s)\<lparr>nodes := h\<rparr>) par me succ node;
     Some (s\<lparr>vt := t, vlist := vl\<rparr>)
   }"

text \<open>The loop at the end of \<^verbatim>\<open>adjust\<close>: propagate at the node and at all its ancestors.\<close>

partial_function (option) propagate_up :: "vma avl_heap \<Rightarrow> addr \<Rightarrow> vma avl_heap option" where
  "propagate_up h node = do {
     h \<leftarrow> propagate h node;
     par \<leftarrow> get_parent h node;
     (case par of None \<Rightarrow> Some h | Some p \<Rightarrow> propagate_up h p)
   }"

definition VMATree_adjust :: "vma_tree \<Rightarrow> addr \<Rightarrow> vma_tree option" where
  "VMATree_adjust s node = do {
     pred \<leftarrow> VMATree_prev s (Some node);
     succ \<leftarrow> VMATree_next s (Some node);
     h \<leftarrow> set_prev_gap (nodes (vt s)) node pred;
     (h, node) \<leftarrow> (case succ of
        Some sc \<Rightarrow> do {
          h \<leftarrow> set_prev_gap h sc (Some node);
          sh \<leftarrow> get_height h sc;
          nh \<leftarrow> get_height h node;
          Some (h, if sh < nh then sc else node)
        }
      | None \<Rightarrow> Some (h, node));
     h \<leftarrow> propagate_up h node;
     Some (s\<lparr>vt := (vt s)\<lparr>nodes := h\<rparr>\<rparr>)
   }"

section \<open>Fixup refines the functional tree\<close>

fun mgap :: "vma atree \<Rightarrow> u64" where
  "mgap \<langle>\<rangle> = 0"
| "mgap \<langle>l, (a, hh, m), r\<rangle> = biggest_gap m"

definition vma_upd :: "vma augment" where
  "vma_upd m l r = m\<lparr>biggest_gap := dsl_max (prev_gap m) (dsl_max (mgap l) (mgap r))\<rparr>"

interpretation vma_augmentation: augmentation vma_upd
  by unfold_locales (simp add: vma_upd_def)

lemma tree_at_max_gap: "tree_at h par t \<Longrightarrow> node_max_gap h (rootp t) = Some (mgap t)"
  by (cases t rule: mgap.cases) (auto simp: node_max_gap_def get_object_def)

lemma node_max_gap_upd [heap_simps]:
  "a \<notin> set (addrs t) \<Longrightarrow> node_max_gap (h(a := n)) (rootp t) = node_max_gap h (rootp t)"
  by (cases t rule: rootp.cases) (auto simp: node_max_gap_def get_object_def)

lemma node_max_gap_Some [heap_simps]:
  "node_max_gap h (Some a) = map_option (biggest_gap \<circ> avl_node.more) (h a)"
  by (cases "h a") (auto simp: node_max_gap_def get_object_def)

lemmas object_access = get_object_def set_object_def set_vma_def

lemma propagate_node:
  assumes "h a = Some \<lparr>child = case_dir (rootp l) (rootp r), parent = p, avl_height = hh, \<dots> = m\<rparr>"
    and "tree_at h pl l" "tree_at h pr r"
  shows "propagate h a = Some (h(a \<mapsto> \<lparr>child = case_dir (rootp l) (rootp r), parent = p,
     avl_height = 1 + max (ht l) (ht r), \<dots> = vma_upd m l r\<rparr>))"
  using assms(1) tree_at_node_height[OF assms(2)] tree_at_node_height[OF assms(3)]
    tree_at_max_gap[OF assms(2)] tree_at_max_gap[OF assms(3)]
  by (simp add: propagate_def node_access object_access vma_upd_def max_def del: bind_Some_iff)

lemma vma_rotate_left:
  assumes t: "t = \<langle>l, (a, ha, ma), \<langle>b, (z, hz, mz), c\<rangle>\<rangle>" and at: "tree_at h par t" and d: "distinct (addrs t)"
  shows "\<exists>h'. vma_rotate h a LEFT = Some (z, h') \<and> tree_at h' (Some a) (frotate vma_upd LEFT t)
     \<and> (\<forall>x. x \<notin> set (addrs t) \<longrightarrow> h' x = h x)"
proof -
  let ?h1 = "h(a \<mapsto> \<lparr>child = case_dir (rootp l) (rootp b), parent = par, avl_height = ha, \<dots> = ma\<rparr>)"
  obtain h2 where h2: "set_parent_if ?h1 (rootp b) (Some a) = Some h2" "tree_at h2 (Some a) b"
    "\<forall>x. x \<notin> set (addrs b) \<longrightarrow> h2 x = ?h1 x"
    using set_parent_if_tree_at[of ?h1 "Some z" b "Some a"] at d by (auto simp: t heap_simps)
  have same: "h2 a = ?h1 a" "h2 z = h z" using h2(3) d by (auto simp: t)
  have "tree_at h2 (Some a) l = tree_at ?h1 (Some a) l" "tree_at h2 (Some z) c = tree_at ?h1 (Some z) c"
    by (rule tree_at_cong; use d h2(3) in \<open>auto simp: t\<close>)+
  then have lc: "tree_at h2 (Some a) l" "tree_at h2 (Some z) c" using at d by (auto simp: t heap_simps)
  let ?h3 = "h2(z \<mapsto> \<lparr>child = case_dir (Some a) (rootp c), parent = Some a, avl_height = hz, \<dots> = mz\<rparr>,
    a \<mapsto> \<lparr>child = case_dir (rootp l) (rootp b), parent = Some z, avl_height = ha, \<dots> = ma\<rparr>)"
  let ?A = "mk vma_upd l (a, ha, ma) b"
  let ?h4 = "?h3(a \<mapsto> \<lparr>child = case_dir (rootp l) (rootp b), parent = Some z,
    avl_height = 1 + max (ht l) (ht b), \<dots> = vma_upd ma l b\<rparr>)"
  have p3: "propagate ?h3 a = Some ?h4"
    by (rule propagate_node[where pl = "Some a" and pr = "Some a"]) (use lc h2(2) d in \<open>auto simp: t heap_simps\<close>)
  have A4: "tree_at ?h4 (Some z) ?A" using lc h2(2) d by (auto simp: t heap_simps)
  have p4: "propagate ?h4 z = Some (?h4(z \<mapsto> \<lparr>child = case_dir (Some a) (rootp c), parent = Some a,
    avl_height = 1 + max (ht ?A) (ht c), \<dots> = vma_upd mz ?A c\<rparr>))" (is "_ = Some ?h5")
    using propagate_node[of ?h4 z ?A c "Some a" hz mz "Some z" "Some z"] A4 lc d by (auto simp: t heap_simps)
  have "vma_rotate h a LEFT = Some (z, ?h5)"
    using at d same h2(1) p3 p4 by (simp add: t vma_rotate_def opp_def node_access del: bind_Some_iff mk.simps)
  moreover have "tree_at ?h5 (Some a) (frotate vma_upd LEFT t)"
    using A4 lc d by (auto simp: t heap_simps)
  ultimately show ?thesis using h2(3) by (auto simp: t)
qed

lemma vma_rotate_right:
  assumes t: "t = \<langle>\<langle>c, (z, hz, mz), b\<rangle>, (a, ha, ma), l\<rangle>" and at: "tree_at h par t" and d: "distinct (addrs t)"
  shows "\<exists>h'. vma_rotate h a RIGHT = Some (z, h') \<and> tree_at h' (Some a) (frotate vma_upd RIGHT t)
     \<and> (\<forall>x. x \<notin> set (addrs t) \<longrightarrow> h' x = h x)"
proof -
  let ?h1 = "h(a \<mapsto> \<lparr>child = case_dir (rootp b) (rootp l), parent = par, avl_height = ha, \<dots> = ma\<rparr>)"
  obtain h2 where h2: "set_parent_if ?h1 (rootp b) (Some a) = Some h2" "tree_at h2 (Some a) b"
    "\<forall>x. x \<notin> set (addrs b) \<longrightarrow> h2 x = ?h1 x"
    using set_parent_if_tree_at[of ?h1 "Some z" b "Some a"] at d by (auto simp: t heap_simps)
  have same: "h2 a = ?h1 a" "h2 z = h z" using h2(3) d by (auto simp: t)
  have "tree_at h2 (Some a) l = tree_at ?h1 (Some a) l" "tree_at h2 (Some z) c = tree_at ?h1 (Some z) c"
    by (rule tree_at_cong; use d h2(3) in \<open>auto simp: t\<close>)+
  then have lc: "tree_at h2 (Some a) l" "tree_at h2 (Some z) c" using at d by (auto simp: t heap_simps)
  let ?h3 = "h2(z \<mapsto> \<lparr>child = case_dir (rootp c) (Some a), parent = Some a, avl_height = hz, \<dots> = mz\<rparr>,
    a \<mapsto> \<lparr>child = case_dir (rootp b) (rootp l), parent = Some z, avl_height = ha, \<dots> = ma\<rparr>)"
  let ?A = "mk vma_upd b (a, ha, ma) l"
  let ?h4 = "?h3(a \<mapsto> \<lparr>child = case_dir (rootp b) (rootp l), parent = Some z,
    avl_height = 1 + max (ht b) (ht l), \<dots> = vma_upd ma b l\<rparr>)"
  have p3: "propagate ?h3 a = Some ?h4"
    by (rule propagate_node[where pl = "Some a" and pr = "Some a"]) (use lc h2(2) d in \<open>auto simp: t heap_simps\<close>)
  have A4: "tree_at ?h4 (Some z) ?A" using lc h2(2) d by (auto simp: t heap_simps)
  have p4: "propagate ?h4 z = Some (?h4(z \<mapsto> \<lparr>child = case_dir (rootp c) (Some a), parent = Some a,
    avl_height = 1 + max (ht c) (ht ?A), \<dots> = vma_upd mz c ?A\<rparr>))" (is "_ = Some ?h5")
    using propagate_node[of ?h4 z c ?A "Some a" hz mz "Some z" "Some z"] A4 lc d by (auto simp: t heap_simps)
  have "vma_rotate h a RIGHT = Some (z, ?h5)"
    using at d same h2(1) p3 p4 by (simp add: t vma_rotate_def opp_def node_access del: bind_Some_iff mk.simps)
  moreover have "tree_at ?h5 (Some a) (frotate vma_upd RIGHT t)"
    using A4 lc d by (auto simp: t heap_simps)
  ultimately show ?thesis using h2(3) by (auto simp: t)
qed

interpretation vma_rotation: tree_rotation vma_rotate vma_upd
proof
  fix h :: "vma avl_heap" and par t d
  assume a: "tree_at h par t" "distinct (addrs t)" "can_rotate d t"
  show "\<exists>h'. vma_rotate h (the (rootp t)) d = Some (the (rootp (frotate vma_upd d t)), h')
      \<and> tree_at h' (rootp t) (frotate vma_upd d t) \<and> (\<forall>x. x \<notin> set (addrs t) \<longrightarrow> h' x = h x)"
  proof (cases d)
    case LEFT
    then obtain l x ha ma b z hz mz c where "t = \<langle>l, (x, ha, ma), \<langle>b, (z, hz, mz), c\<rangle>\<rangle>"
      using a(3) by (cases t rule: rootp.cases; cases "right t" rule: rootp.cases) auto
    then show ?thesis using vma_rotate_left[OF _ a(1,2)] LEFT by simp
  next
    case RIGHT
    then obtain l x ha ma b z hz mz c where "t = \<langle>\<langle>c, (z, hz, mz), b\<rangle>, (x, ha, ma), l\<rangle>"
      using a(3) by (cases t rule: rootp.cases; cases "left t" rule: rootp.cases) auto
    then show ?thesis using vma_rotate_right[OF _ a(1,2)] RIGHT by simp
  qed
qed

lemma VMATree_fixup_null: "VMATree_fixup s None = Some s"
  by (simp add: VMATree_fixup.simps)

lemma VMATree_fixup_step:
  assumes rep: "represents s (plug t c)" and ne: "t \<noteq> \<langle>\<rangle>" and pos: "hpos t"
  shows "\<exists>s'. VMATree_fixup s (rootp t) = VMATree_fixup s' (path_parent c) \<and> represents s' (plug (fstep vma_upd t) c)
         \<and> (\<forall>x. x \<notin> set (addrs (plug t c)) \<longrightarrow> nodes s' x = nodes s x)"
proof -
  obtain l a hh m r where t: "t = \<langle>l, (a, hh, m), r\<rangle>" using ne by (cases t rule: rootp.cases) auto
  note n = represents_node[OF rep[unfolded t]]
  show ?thesis
  proof (cases "-1 \<le> ht r - ht l \<and> ht r - ht l \<le> 1")
    case True
    let ?s = "s\<lparr>nodes := (nodes s)(a \<mapsto> \<lparr>child = case_dir (rootp l) (rootp r), parent = path_parent c,
       avl_height = 1 + max (ht l) (ht r), \<dots> = vma_upd m l r\<rparr>)\<rparr>"
    have "VMATree_fixup s (Some a) = VMATree_fixup ?s (path_parent c)"
      using True n propagate_node[OF n(1-3)]
      by (subst VMATree_fixup.simps) (simp add: get_parent_def)
    moreover have "represents ?s (plug (fstep vma_upd t) c)"
      using True represents_update[OF rep[unfolded t]] by (simp add: t)
    ultimately show ?thesis by (intro exI[of _ ?s]) (auto simp: t set_addrs_plug)
  next
    case False
    obtain s' where s': "rebalance vma_rotate s a (ht r - ht l) = Some (s', path_parent c)"
      "represents s' (plug (frebal vma_upd t) c)" "\<forall>x. x \<notin> set (addrs (plug t c)) \<longrightarrow> nodes s' x = nodes s x"
      using vma_rotation.rebalance[OF rep t _ _ False] pos by (auto simp: t)
    have "VMATree_fixup s (Some a) = VMATree_fixup s' (path_parent c)"
      using False n s'(1) by (subst VMATree_fixup.simps) auto
    then show ?thesis using s' False by (auto simp: t)
  qed
qed

interpretation vma_fixup: tree_fixup vma_rotate vma_upd VMATree_fixup False
proof
  fix s :: "vma avl_tree" and t c
  show "VMATree_fixup s None = Some s" by (rule VMATree_fixup_null)
  assume a: "represents s (plug t c)" "t \<noteq> \<langle>\<rangle>"
  { assume "fstop False t"
    then show "VMATree_fixup s (rootp t) = Some s" using a(2) by (cases t rule: ht.cases) auto }
  { assume "hpos t"
    then show "\<exists>s'. VMATree_fixup s (rootp t) = VMATree_fixup s' (path_parent c) \<and> represents s' (plug (fstep vma_upd t) c)
         \<and> (\<forall>x. x \<notin> set (addrs (plug t c)) \<longrightarrow> nodes s' x = nodes s x)"
      using VMATree_fixup_step a by blast }
qed

section \<open>Sequences of ranges\<close>

text \<open>
  A tree holds an ordered sequence of disjoint ranges with their node addresses. The stored
  \<open>prev_gap\<close> of each node is a function of that sequence.
\<close>

type_synonym range = "addr \<times> u64 \<times> u64"

fun with_gaps :: "u64 option \<Rightarrow> range list \<Rightarrow> (addr \<times> u64 \<times> u64 \<times> u64) list" where
  "with_gaps p [] = []"
| "with_gaps p ((a, f, l) # xs) =
     (a, f, l, case p of None \<Rightarrow> f | Some q \<Rightarrow> f - q - 1) # with_gaps (Some l) xs"

abbreviation r_first :: "range \<Rightarrow> u64" where
  "r_first x \<equiv> fst (snd x)"

abbreviation r_last :: "range \<Rightarrow> u64" where
  "r_last x \<equiv> snd (snd x)"

definition end_of :: "u64 option \<Rightarrow> range list \<Rightarrow> u64 option" where
  "end_of p xs = (if xs = [] then p else Some (r_last (last xs)))"

definition ordered :: "range list \<Rightarrow> bool" where
  "ordered xs \<longleftrightarrow> sorted_wrt (\<lambda>x y. r_last x < r_first y) xs \<and> (\<forall>x \<in> set xs. r_first x \<le> r_last x)"

definition pred_of :: "(addr \<times> 'b) list \<Rightarrow> ptr" where
  "pred_of xs = (if xs = [] then nullptr else Some (fst (last xs)))"

definition succ_of :: "(addr \<times> 'b) list \<Rightarrow> ptr" where
  "succ_of xs = (if xs = [] then nullptr else Some (fst (hd xs)))"

definition gx :: "vma \<Rightarrow> u64 \<times> u64 \<times> u64" where
  "gx m = (vm_first m, vm_last m, prev_gap m)"

definition vma_holds :: "vma_tree \<Rightarrow> range list \<Rightarrow> bool" where
  "vma_holds s xs \<longleftrightarrow> ordered xs \<and> ring (vlist s) (list_anchor s) (map fst xs) \<and>
     (\<exists>t. represents (vt s) t \<and> avl t \<and> augmented vma_upd t \<and> contents gx t = with_gaps None xs)"

lemma with_gaps_append: "with_gaps p (xs @ ys) = with_gaps p xs @ with_gaps (end_of p xs) ys"
  by (induction p xs rule: with_gaps.induct) (auto simp: end_of_def)

lemma with_gaps_fst [simp]: "map fst (with_gaps p xs) = map fst xs"
  by (induction p xs rule: with_gaps.induct) auto

lemma with_gaps_length [simp]: "length (with_gaps p xs) = length xs"
  by (induction p xs rule: with_gaps.induct) auto

lemma with_gaps_ranges: "map (\<lambda>(a, f, l, g). (a, f, l)) (with_gaps p xs) = xs"
  by (induction p xs rule: with_gaps.induct) auto

lemma gx_vma_upd [simp]: "gx (vma_upd m l r) = gx m"
  by (simp add: gx_def vma_upd_def)

lemma ring_link: "ring h this (xs @ ys) \<Longrightarrow> link h (last (this # xs)) (hd (ys @ [this]))"
proof -
  assume "ring h this (xs @ ys)"
  then have "chain h (butlast (this # xs) @ last (this # xs) # ys @ [this])"
    by (simp add: ring_def) (metis append_butlast_last_id append_Cons append_assoc append_Nil list.distinct(1))
  then have "chain h (last (this # xs) # ys @ [this])" using chain_append by blast
  then show ?thesis by (cases ys) auto
qed

lemma VMATree_neighbours:
  assumes "ring (vlist s) (list_anchor s) (map fst (xs @ ys))"
  shows "VMATree_next s (pred_of xs) = Some (succ_of ys)" "VMATree_prev s (succ_of ys) = Some (pred_of xs)"
proof -
  let ?a = "list_anchor s"
  have l: "link (vlist s) (last (?a # map fst xs)) (hd (map fst ys @ [?a]))"
    using ring_link[of "vlist s" ?a "map fst xs" "map fst ys"] assms by simp
  have d: "?a \<notin> fst ` set xs" "?a \<notin> fst ` set ys" using assms by (auto simp: ring_def)
  have "xs \<noteq> [] \<Longrightarrow> fst (last xs) \<noteq> ?a" "ys \<noteq> [] \<Longrightarrow> fst (hd ys) \<noteq> ?a" using d by (metis image_eqI last_in_set, metis image_eqI hd_in_set)
  then show "VMATree_next s (pred_of xs) = Some (succ_of ys)" "VMATree_prev s (succ_of ys) = Some (pred_of xs)"
    using l by (auto simp: VMATree_next_def VMATree_prev_def pred_of_def succ_of_def link_def last_map hd_append hd_map split: if_splits)
qed

lemma VMATree_neighbours_of:
  assumes "ring (vlist s) (list_anchor s) (map fst (xs @ (a, x) # ys))"
  shows "VMATree_next s (Some a) = Some (succ_of ys)" "VMATree_prev s (Some a) = Some (pred_of xs)"
  using VMATree_neighbours(1)[of s "xs @ [(a, x)]" ys] VMATree_neighbours(2)[of s xs "(a, x) # ys"] assms
  by (auto simp: pred_of_def succ_of_def)

section \<open>Positions in the tree\<close>

abbreviation (input) first_less :: "vma \<Rightarrow> vma \<Rightarrow> bool" where
  "first_less m m' \<equiv> vm_first m < vm_first m'"

interpretation vma_order: strict_weak_order first_less
  by unfold_locales auto

lemma vma_descend_path:
  "tree_at h (path_parent c) t \<Longrightarrow> get_object h node = Some k \<Longrightarrow>
   vma_descend h node (path_parent c) (rootp t) (path_dir c)
     = Some (path_parent (ins_path first_less k t c), path_dir (ins_path first_less k t c))"
proof (induction "first_less" k t c rule: ins_path.induct)
  case (1 k c)
  then show ?case by (subst vma_descend.simps) simp
next
  case (2 k l a hh m r c)
  have "get_object h a = Some m" "get_child h a LEFT = Some (rootp l)" "get_child h a RIGHT = Some (rootp r)"
    using 2(3) by (auto simp: get_object_def get_child_def)
  then show ?case using 2 by (subst vma_descend.simps) auto
qed

lemma contents_map: "contents g t = map (\<lambda>(a, m). (a, g m)) (contents self t)"
  by (simp add: contents_def case_prod_beta)

lemma before_map: "before g c = map (\<lambda>(a, m). (a, g m)) (before self c)"
  by (induction g c rule: before.induct) (auto intro: contents_map)

lemma after_map: "after g c = map (\<lambda>(a, m). (a, g m)) (after self c)"
  by (induction g c rule: after.induct) (auto intro: contents_map)

text \<open>The node in front of the hole and the one behind it are on the path.\<close>

lemma path_pred: "path_dir c = RIGHT \<Longrightarrow> path_parent c = pred_of (before g c)"
  by (cases c rule: path_distinct.cases) (auto simp: pred_of_def)

lemma path_succ: "path_dir c = LEFT \<Longrightarrow> path_parent c = succ_of (after g c)"
  by (cases c rule: path_distinct.cases) (auto simp: succ_of_def)

fun upd_succ :: "('m \<Rightarrow> 'm) \<Rightarrow> 'm path \<Rightarrow> 'm path" where
  "upd_succ f [] = []"
| "upd_succ f ((LEFT, (a, hh, m), s) # c) = (LEFT, (a, hh, f m), s) # c"
| "upd_succ f ((RIGHT, x, s) # c) = (RIGHT, x, s) # upd_succ f c"

lemma upd_succ_parent [simp]: "path_parent_in up (upd_succ f c) = path_parent_in up c"
  and upd_succ_dir [simp]: "path_dir (upd_succ f c) = path_dir c"
  and upd_succ_addrs [simp]: "path_addrs (upd_succ f c) = path_addrs c"
  and upd_succ_distinct [simp]: "path_distinct (upd_succ f c) = path_distinct c"
  and upd_succ_nil [simp]: "upd_succ f c = [] \<longleftrightarrow> c = []"
  and upd_succ_hpos [simp]: "path_hpos (upd_succ f c) = path_hpos c"
  and upd_succ_augmented [simp]: "path_augmented upd (upd_succ f c) = path_augmented upd c"
  and upd_succ_before [simp]: "before g (upd_succ f c) = before g c"
  by (induction f c rule: upd_succ.induct) auto

lemma upd_succ_bal [simp]: "path_bal k (upd_succ f c) = path_bal k c"
  by (induction f c arbitrary: k rule: upd_succ.induct) auto

lemma upd_succ_at:
  assumes "path_at_in h up hole c" "path_distinct c" "succ_of (after self c) = Some sc" "h sc = Some n"
    and h': "h' sc = Some (n\<lparr>avl_node.more := f (avl_node.more n)\<rparr>)" "\<And>x. x \<noteq> sc \<Longrightarrow> h' x = h x"
  shows "path_at_in h' up hole (upd_succ f c) \<and> sc \<in> path_addrs c"
  using assms(1-5)
proof (induction f c arbitrary: hole rule: upd_succ.induct)
  case (2 g a hh m s c)
  have a: "a = sc" using 2(3) by (simp add: succ_of_def)
  have "tree_at h' (Some a) s = tree_at h (Some a) s" "path_at_in h' up (Some a) c = path_at_in h up (Some a) c"
    using 2(2) a h'(2) by (intro tree_at_cong path_at_cong; force)+
  then show ?case using 2 a by auto
next
  case (3 g x s c)
  obtain a hh m where x: "x = (a, hh, m)" by (cases x)
  have ih: "path_at_in h' up (Some a) (upd_succ g c) \<and> sc \<in> path_addrs c"
    using 3 by (auto simp: x)
  then have ne: "sc \<noteq> a" "sc \<notin> set (addrs s)" using 3(3) by (auto simp: x)
  have "tree_at h' (Some a) s = tree_at h (Some a) s" using ne h'(2) by (intro tree_at_cong) force
  then show ?case using 3(2) ih ne h'(2)[of a] by (auto simp: x)
qed (simp add: succ_of_def)

lemma upd_succ_after:
  "after g (upd_succ f c) = (case after self c of [] \<Rightarrow> [] | (a, m) # r \<Rightarrow> (a, g (f m)) # map (\<lambda>(a, m). (a, g m)) r)"
  by (induction f c rule: upd_succ.induct) (auto simp: contents_map[of g] after_map[of g])

section \<open>Insertion\<close>

lemma contents_gx_firsts:
  "contents gx t = with_gaps p zs \<Longrightarrow> map (\<lambda>x. vm_first (snd x)) (contents self t) = map r_first zs"
proof -
  assume "contents gx t = with_gaps p zs"
  then have "map (\<lambda>(a, f, l, g). (a, f, l)) (contents gx t) = zs" by (simp add: with_gaps_ranges)
  then have "map r_first (map (\<lambda>(a, f, l, g). (a, f, l)) (contents gx t)) = map r_first zs" by simp
  then show ?thesis by (simp add: contents_map[of gx] gx_def case_prod_beta comp_def)
qed

lemma ordered_append:
  "ordered (xs @ ys) \<longleftrightarrow> ordered xs \<and> ordered ys \<and> (\<forall>x \<in> set xs. \<forall>y \<in> set ys. r_last x < r_first y)"
  by (auto simp: ordered_def sorted_wrt_append)

lemma ordered_Cons:
  "ordered (x # ys) \<longleftrightarrow> r_first x \<le> r_last x \<and> ordered ys \<and> (\<forall>y \<in> set ys. r_last x < r_first y)"
  by (auto simp: ordered_def)

lemma ordered_removed: "ordered (xs @ y # ys) \<Longrightarrow> ordered (xs @ ys)"
  by (simp add: ordered_append ordered_Cons)

lemma ordered_firsts: "ordered zs \<Longrightarrow> sorted_wrt (\<lambda>x y. x < y) (map r_first zs)"
proof (induction zs)
  case (Cons z zs)
  then show ?case using le_less_trans by (fastforce simp: ordered_Cons)
qed simp

lemma partition_unique:
  assumes "xs @ ys = xs' @ ys'" "\<forall>x \<in> set xs. P x" "\<forall>y \<in> set ys. \<not> P y" "\<forall>x \<in> set xs'. P x" "\<forall>y \<in> set ys'. \<not> P y"
  shows "xs = xs' \<and> ys = ys'"
proof -
  have "filter P (xs @ ys) = filter P (xs' @ ys')" using assms(1) by simp
  then have "xs = xs'" using assms(2-5) by simp
  then show ?thesis using assms(1) by simp
qed

lemma insert_position:
  assumes c: "contents gx t = with_gaps None (xs @ ys)" and o: "ordered (xs @ (a, f, l) # ys)"
    and m: "vm_first m = f"
  shows "before gx (ins_path first_less m t []) = with_gaps None xs
    \<and> after gx (ins_path first_less m t []) = with_gaps (end_of None xs) ys"
proof -
  let ?F = "map (\<lambda>x. vm_first (snd x))" and ?G = "map r_first"
  have F: "?F (contents self t) = ?G xs @ ?G ys" using contents_gx_firsts[OF c] by simp
  have "ordered (xs @ ys)" using ordered_removed[OF o] .
  then have "sorted_wrt (\<lambda>x y. x < y) (?F (contents self t))" using ordered_firsts F by (metis map_append)
  then have "sorted_wrt (\<lambda>x y. \<not> first_less (snd y) (snd x)) (contents self t)"
    by (auto simp: sorted_wrt_map intro: sorted_wrt_mono_rel[rotated])
  then obtain XS YS where X: "contents self t = XS @ YS" "\<forall>x \<in> set XS. \<not> first_less m (snd x)"
    "\<forall>y \<in> set YS. first_less m (snd y)"
    "before self (ins_path first_less m t []) = XS" "after self (ins_path first_less m t []) = YS"
    using vma_order.ins_path_split[of t m "[]"] by auto
  have "\<forall>x \<in> set (?G xs). \<not> f < x" "\<forall>y \<in> set (?G ys). f < y"
    using ordered_firsts[OF o] by (auto simp: sorted_wrt_append)
  then have "?F XS = ?G xs"
    using partition_unique[of "?F XS" "?F YS" "?G xs" "?G ys" "\<lambda>x. \<not> f < x"] F X(1-3) m by auto
  then have "length XS = length xs" by (metis length_map)
  then have "length (map (\<lambda>(a, m). (a, gx m)) XS) = length (with_gaps None xs)" by simp
  moreover have "map (\<lambda>(a, m). (a, gx m)) XS @ map (\<lambda>(a, m). (a, gx m)) YS = with_gaps None xs @ with_gaps (end_of None xs) ys"
    using c X(1) by (simp add: contents_map[of gx] with_gaps_append)
  ultimately show ?thesis using X(4,5) by (simp add: before_map[of gx] after_map[of gx])
qed

definition gapf :: "u64 option \<Rightarrow> vma \<Rightarrow> vma" where
  "gapf q v = v\<lparr>prev_gap := case q of None \<Rightarrow> vm_first v | Some e \<Rightarrow> vm_first v - e - 1\<rparr>"

text \<open>The node \<open>pred\<close>, if there is one, ends at \<open>q\<close>.\<close>

definition ends_at :: "vma avl_heap \<Rightarrow> ptr \<Rightarrow> u64 option \<Rightarrow> bool" where
  "ends_at h pred q \<longleftrightarrow> (case pred of
     None \<Rightarrow> q = None
   | Some p \<Rightarrow> \<exists>v. get_object h p = Some v \<and> q = Some (vm_last v))"

lemma set_prev_gap_eq:
  "h a = Some n \<Longrightarrow> ends_at h pred q \<Longrightarrow>
   set_prev_gap h a pred = Some (h(a \<mapsto> n\<lparr>avl_node.more := gapf q (avl_node.more n)\<rparr>))"
  by (cases pred) (auto simp: set_prev_gap_def object_access ends_at_def gapf_def)

lemma gx_gapf: "gx (gapf q v) = (vm_first v, vm_last v, case q of None \<Rightarrow> vm_first v | Some e \<Rightarrow> vm_first v - e - 1)"
  by (simp add: gx_def gapf_def)

lemma gapf_simps [simp]: "vm_first (gapf q v) = vm_first v" "vm_last (gapf q v) = vm_last v"
  "prev_gap (gapf q v) = (case q of None \<Rightarrow> vm_first v | Some e \<Rightarrow> vm_first v - e - 1)"
  by (simp_all add: gapf_def)

lemma regap:
  assumes "map (\<lambda>(a, m). (a, gx m)) bs = with_gaps q' ys"
  shows "(case bs of [] \<Rightarrow> [] | (b, w) # r \<Rightarrow> (b, gx (gapf q w)) # map (\<lambda>(a, m). (a, gx m)) r) = with_gaps q ys"
  using assms by (cases ys) (auto simp: gx_def split: list.splits)

lemma list_insert:
  assumes "ring h this (map fst (xs @ ys))" "a \<in> dom h" "a \<notin> set (this # map fst (xs @ ys))"
  shows "\<exists>h'. (case pred_of xs of Some p \<Rightarrow> push_front h p a | None \<Rightarrow> push_front h this a) = Some h'
     \<and> ring h' this (map fst (xs @ (a, v) # ys)) \<and> dom h' = dom h"
proof (cases xs rule: rev_cases)
  case Nil
  then have "ring h this (map fst ys)" "a \<notin> set (this # map fst ys)" using assms by simp_all
  then show ?thesis using push_front_ring[OF _ assms(2)] Nil by (fastforce simp: pred_of_def)
next
  case (snoc zs z)
  have "ring h this (map fst zs @ fst z # map fst ys)" "a \<notin> set (this # map fst zs @ fst z # map fst ys)"
    using assms by (simp_all add: snoc)
  then show ?thesis using push_front_middle[OF _ assms(2)] snoc by (fastforce simp: pred_of_def)
qed

lemma path_at_alloc: "path_at_in h up hole c \<Longrightarrow> x \<in> path_addrs c \<Longrightarrow> \<exists>n. h x = Some n"
proof (induction h up hole c rule: path_at_in.induct)
  case (2 h up hole d a hh m s c)
  have "tree_at h p t \<Longrightarrow> x \<in> set (addrs t) \<Longrightarrow> \<exists>n. h x = Some n" for t p
    by (induction h p t rule: tree_at.induct) auto
  then show ?case using 2 by auto
qed simp

lemma set_contents_addrs: "fst ` set (contents g t) = set (addrs t)"
  by (simp add: addrs_contents[of t g])

lemma before_after_addrs: "fst ` set (before g c) \<union> fst ` set (after g c) \<subseteq> path_addrs c"
proof (induction c rule: path_distinct.induct)
  case (2 d a hh m s c)
  then show ?case using set_contents_addrs[of g s] by (cases d) auto
qed simp

lemma rootp_plug_upd_succ: "rootp (plug t (upd_succ f c)) = rootp (plug t c)"
proof (induction f c arbitrary: t rule: upd_succ.induct)
  case (2 f a hh m s c)
  then show ?case by (simp add: rootp_plug)
qed simp_all

lemma set_prev_gap_succ:
  assumes at: "path_at_in h up hole c" "path_distinct c" and e: "ends_at h pred q" and F: "F = gapf q"
  shows "\<exists>h'. (case succ_of (after self c) of Some sc \<Rightarrow> set_prev_gap h sc pred | None \<Rightarrow> Some h) = Some h'
    \<and> path_at_in h' up hole (upd_succ F c) \<and> (\<forall>x. x \<notin> path_addrs c \<longrightarrow> h' x = h x)"
proof (cases "succ_of (after self c)")
  case None
  then have "upd_succ F c = c" by (induction F c rule: upd_succ.induct) (auto simp: succ_of_def)
  then show ?thesis using None at by auto
next
  case (Some sc)
  have "sc \<in> path_addrs c" using Some at(2)
    by (induction "F" c rule: upd_succ.induct) (auto simp: succ_of_def)
  then obtain n where n: "h sc = Some n" using path_at_alloc[OF at(1)] by blast
  let ?h' = "h(sc \<mapsto> n\<lparr>avl_node.more := F (avl_node.more n)\<rparr>)"
  have "set_prev_gap h sc pred = Some ?h'"
    using set_prev_gap_eq[OF n e] by (simp add: F)
  moreover have "path_at_in ?h' up hole (upd_succ F c) \<and> sc \<in> path_addrs c"
    by (rule upd_succ_at[OF at Some n]) auto
  ultimately show ?thesis using Some by auto
qed

lemma VMATree_insert_tree:
  assumes rep: "represents (vt s) (plug \<langle>\<rangle> c)" "hpos (plug \<langle>\<rangle> c)"
    and a: "nodes (vt s) a = Some n" "a \<notin> path_addrs c"
    and c: "ins_path first_less (avl_node.more n) (plug \<langle>\<rangle> c) [] = c"
    and ls: "VMATree_next s (pred_of (before self c)) = Some (succ_of (after self c))"
      "VMATree_prev s (succ_of (after self c)) = Some (pred_of (before self c))"
    and gap: "ends_at (nodes (vt s)) (pred_of (before self c)) q" "m = gapf q (avl_node.more n)"
      "F = gapf (Some (vm_last m))"
    and l: "(case pred_of (before self c) of Some p \<Rightarrow> push_front (vlist s) p a
         | None \<Rightarrow> push_front (vlist s) (list_anchor s) a) = Some l"
  shows "\<exists>t. VMATree_insert s a = Some (s\<lparr>vt := t, vlist := l\<rparr>)
     \<and> represents t (fixz False vma_upd \<langle>\<langle>\<rangle>, (a, 1, m), \<langle>\<rangle>\<rangle> (upd_succ F c))
     \<and> (\<forall>x. x \<noteq> a \<and> x \<notin> path_addrs c \<longrightarrow> nodes t x = nodes (vt s) x)"
proof -
  let ?v = "avl_node.more n" and ?rec = "\<lambda>p m. \<lparr>child = case_dir None None, parent = p, avl_height = 1, \<dots> = m\<rparr>"
  let ?h1 = "(nodes (vt s))(a \<mapsto> ?rec (parent n) ?v)" and ?h2 = "(nodes (vt s))(a \<mapsto> ?rec (parent n) m)"
  note rp = rep(1)[unfolded represents_plug]
  have d: "vma_descend ?h1 a None (m_root (vt s)) LEFT = Some (path_parent c, path_dir c)"
  proof -
    have "tree_at ?h1 None (plug \<langle>\<rangle> c)"
      using rep(1) a(2) set_addrs_plug[of "\<langle>\<rangle>" c] by (simp add: represents_def heap_simps)
    then show ?thesis
      using vma_descend_path[of ?h1 "[]" "plug \<langle>\<rangle> c" a ?v] rp by (simp add: get_object_def c)
  qed
  have g1: "set_prev_gap ?h1 a (pred_of (before self c)) = Some ?h2"
  proof -
    have "p \<noteq> a" if "pred_of (before self c) = Some p" for p
    proof -
      have "p \<in> fst ` set (before self c)" using that by (auto simp: pred_of_def split: if_splits)
      then show ?thesis using before_after_addrs[of self c] a(2) by blast
    qed
    then have "ends_at ?h1 (pred_of (before self c)) q"
      using gap(1) by (auto simp: ends_at_def get_object_def split: option.splits)
    then show ?thesis
      using set_prev_gap_eq[of ?h1 a "?rec (parent n) ?v"] gap(2) by simp
  qed
  have h2: "path_at ?h2 None c" "path_distinct c" "ends_at ?h2 (Some a) (Some (vm_last m))"
    using rp a(2) by (auto simp: heap_simps ends_at_def get_object_def)
  obtain h3 where h3: "(case succ_of (after self c) of Some sc \<Rightarrow> set_prev_gap ?h2 sc (Some a) | None \<Rightarrow> Some ?h2) = Some h3"
    "path_at h3 None (upd_succ F c)" "\<forall>x. x \<notin> path_addrs c \<longrightarrow> h3 x = ?h2 x"
    using set_prev_gap_succ[OF h2 gap(3)] by blast
  let ?h4 = "h3(a \<mapsto> ?rec (path_parent c) m)" and ?new = "\<langle>\<langle>\<rangle>, (a, 1, m), \<langle>\<rangle>\<rangle>"
  have h4: "set_parent h3 a (path_parent c) = Some ?h4" using h3(3) a(2) by (simp add: set_parent_def)
  obtain t5 where t5: "replace_child ((vt s)\<lparr>nodes := ?h4\<rparr>) (path_parent c) (path_dir c) (Some a) = Some t5"
    "represents t5 (plug ?new (upd_succ F c))" "\<forall>x. x \<notin> path_addrs c \<longrightarrow> nodes t5 x = ?h4 x"
  proof -
    have "c \<noteq> [] \<Longrightarrow> m_root (vt s) = rootp (plug \<langle>\<rangle> (upd_succ F c))" using rp by (simp add: rootp_plug_upd_succ)
    moreover have "path_at ?h4 None (upd_succ F c)" using h3(2) a(2) by (simp add: heap_simps)
    moreover have "distinct (addrs (plug ?new (upd_succ F c)))" using rp a(2) by (simp add: distinct_addrs_plug)
    ultimately show thesis
      using that relink[of "(vt s)\<lparr>nodes := ?h4\<rparr>" "upd_succ F c" ?new None "\<langle>\<rangle>"] by auto
  qed
  have "hpos (plug ?new (upd_succ F c))" using rep(2) by (simp add: hpos_plug)
  then obtain t6 where t6: "VMATree_fixup t5 (Some a) = Some t6" "represents t6 (fixz False vma_upd ?new (upd_succ F c))"
    "\<forall>x. x \<notin> set (addrs (plug ?new (upd_succ F c))) \<longrightarrow> nodes t6 x = nodes t5 x"
    using vma_fixup.fixup[OF t5(2)] by auto
  have n1: "n\<lparr>child := case_dir None None, avl_height := 1\<rparr> = ?rec (parent n) ?v" by (cases n) simp
  have pre: "(if path_dir c = RIGHT then Some (path_parent c) else VMATree_prev s (path_parent c)) = Some (pred_of (before self c))"
    "(if path_dir c = RIGHT then VMATree_next s (path_parent c) else Some (path_parent c)) = Some (succ_of (after self c))"
    using ls path_pred[of c self] path_succ[of c self] by (cases "path_dir c"; simp)+
  have "VMATree_insert s a = Some (s\<lparr>vt := t6, vlist := l\<rparr>)"
    using a(1) d g1 h3(1) h4 t5(1) t6(1) l pre unfolding VMATree_insert_def set_child_def set_height_def
    by (simp add: n1 del: bind_Some_iff)
  moreover have "nodes t6 x = nodes (vt s) x" if "x \<noteq> a \<and> x \<notin> path_addrs c" for x
    using that t6(3) t5(3) h3(3) by (simp add: set_addrs_plug)
  ultimately show ?thesis using t6(2) by blast
qed

lemma path_avl_augmented: "augmented upd (plug t c) \<Longrightarrow> augmented upd t \<and> path_augmented upd c"
proof (induction c arbitrary: t)
  case (Cons f c)
  obtain d a hh m s where f: "f = (d, (a, hh, m), s)" by (cases f) auto
  show ?case using Cons.IH[of "fill f t"] Cons.prems by (cases d) (auto simp: f)
qed simp

lemma inserted_tree:
  assumes "avl (plug \<langle>\<rangle> c)" "augmented vma_upd (plug \<langle>\<rangle> c)"
    and t'_def: "t' = fixz False vma_upd \<langle>\<langle>\<rangle>, (a, 1, m), \<langle>\<rangle>\<rangle> (upd_succ F c)"
  shows "avl t'" "augmented vma_upd t'"
    and "contents gx t' = before gx c @ (a, gx m) # (case after self c of [] \<Rightarrow> []
      | (b, v) # r \<Rightarrow> (b, gx (F v)) # map (\<lambda>(a, m). (a, gx m)) r)"
proof -
  let ?new = "\<langle>\<langle>\<rangle>, (a, 1, m), \<langle>\<rangle>\<rangle>"
  have "path_bal 0 (upd_succ F c)" using assms(1) by (auto simp: avl_plug intro: path_avl_bal)
  then show "avl t'" unfolding t'_def by (rule fixz_start_avl[rotated 2]) auto
  have "path_augmented vma_upd c" using path_avl_augmented[OF assms(2)] by simp
  moreover have "hpos (plug ?new (upd_succ F c))" using avl_hpos[OF assms(1)] by (simp add: hpos_plug)
  ultimately show "augmented vma_upd t'" unfolding t'_def by (intro vma_augmentation.fixz_augmented) auto
  show "contents gx t' = before gx c @ (a, gx m) # (case after self c of [] \<Rightarrow> []
      | (b, v) # r \<Rightarrow> (b, gx (F v)) # map (\<lambda>(a, m). (a, gx m)) r)"
    by (simp add: t'_def contents_fixz contents_plug upd_succ_after)
qed

lemma ends_at_last:
  assumes at: "tree_at h par t" and x: "map (\<lambda>(a, m). (a, gx m)) bs = with_gaps None xs" "set bs \<subseteq> set (contents self t)"
  shows "ends_at h (pred_of xs) (end_of None xs) \<and> pred_of xs = pred_of bs"
proof (cases "bs = []")
  case True
  then show ?thesis using x(1) by (cases xs) (auto simp: ends_at_def pred_of_def end_of_def)
next
  case False
  let ?x = "last bs"
  have ne: "xs \<noteq> []" using x(1) False by auto
  have "last xs = last (map (\<lambda>(a, f, l, g). (a, f, l)) (with_gaps None xs))" by (simp add: with_gaps_ranges)
  also have "\<dots> = (fst ?x, vm_first (snd ?x), vm_last (snd ?x))"
    using False by (simp add: x(1)[symmetric] last_map case_prod_beta gx_def)
  finally have l: "last xs = (fst ?x, vm_first (snd ?x), vm_last (snd ?x))" .
  have "?x \<in> set (contents self t)" using x(2) False by auto
  then have "get_object h (fst ?x) = Some (snd ?x)" using tree_at_object[OF at, of "fst ?x" "snd ?x"] by simp
  then show ?thesis using l ne False by (simp add: ends_at_def pred_of_def end_of_def)
qed

lemma VMATree_insert_holds:
  assumes hold: "vma_holds s (xs @ ys)" and v: "get_object (nodes (vt s)) a = Some v" "vm_first v = f" "vm_last v = l"
    and a: "a \<in> dom (vlist s)" "a \<notin> set (list_anchor s # map fst (xs @ ys))" and o: "ordered (xs @ (a, f, l) # ys)"
  shows "\<exists>s'. VMATree_insert s a = Some s' \<and> vma_holds s' (xs @ (a, f, l) # ys)
     \<and> list_anchor s' = list_anchor s \<and> dom (vlist s') = dom (vlist s)
     \<and> (\<forall>x. x \<notin> fst ` set (xs @ (a, f, l) # ys) \<longrightarrow> nodes (vt s') x = nodes (vt s) x)"
proof -
  obtain t where t: "represents (vt s) t" "avl t" "augmented vma_upd t" "contents gx t = with_gaps None (xs @ ys)"
    and rg: "ring (vlist s) (list_anchor s) (map fst (xs @ ys))" using hold by (auto simp: vma_holds_def)
  obtain n where n: "nodes (vt s) a = Some n" "avl_node.more n = v" using v(1) by (auto simp: get_object_def)
  define c where "c = ins_path first_less v t []"
  have tc: "plug \<langle>\<rangle> c = t" by (simp add: c_def plug_ins_path)
  have ba: "before gx c = with_gaps None xs" "after gx c = with_gaps (end_of None xs) ys"
    using insert_position[OF t(4) o v(2)] by (auto simp: c_def)
  have mf: "map fst (before self c) = map fst xs" "map fst (after self c) = map fst ys"
    using arg_cong[OF ba(1), of "map fst"] arg_cong[OF ba(2), of "map fst"]
    by (simp_all add: before_map[of gx] after_map[of gx] comp_def case_prod_beta)
  have ps: "pred_of (before self c) = pred_of xs" "succ_of (after self c) = succ_of ys"
    using mf by (auto simp: pred_of_def succ_of_def) (metis last_map list.map_disc_iff, metis hd_map list.map_disc_iff)+
  obtain vl where vl: "(case pred_of xs of Some p \<Rightarrow> push_front (vlist s) p a | None \<Rightarrow> push_front (vlist s) (list_anchor s) a) = Some vl"
    "ring vl (list_anchor s) (map fst (xs @ (a, f, l) # ys))" "dom vl = dom (vlist s)"
    using list_insert[OF rg a] by blast
  have e: "ends_at (nodes (vt s)) (pred_of xs) (end_of None xs)"
    using ends_at_last[of "nodes (vt s)" None t "before self c" xs] ba(1) t(1) contents_plug[of self "\<langle>\<rangle>" c] tc
    by (auto simp: represents_def before_map[of gx])
  let ?m = "gapf (end_of None xs) v" and ?F = "gapf (Some l)"
  let ?t' = "fixz False vma_upd \<langle>\<langle>\<rangle>, (a, 1, ?m), \<langle>\<rangle>\<rangle> (upd_succ ?F c)"
  have "a \<notin> set (addrs t)" using a(2) by (simp add: addrs_contents[of t gx] t(4))
  then have ap: "a \<notin> path_addrs c" using set_addrs_plug[of "\<langle>\<rangle>" c] tc by simp
  obtain t' where t': "VMATree_insert s a = Some (s\<lparr>vt := t', vlist := vl\<rparr>)" "represents t' ?t'"
    "\<forall>x. x \<noteq> a \<and> x \<notin> path_addrs c \<longrightarrow> nodes t' x = nodes (vt s) x"
    using VMATree_insert_tree[of s c a n "end_of None xs" ?m ?F vl] t(1) avl_hpos[OF t(2)] n ap VMATree_neighbours[OF rg] e vl(1) v
    by (auto simp: tc c_def[symmetric] ps)
  note it = inserted_tree[of c ?t' a ?m ?F, unfolded tc, OF t(2,3) refl]
  have tail: "(case after self c of [] \<Rightarrow> [] | (b, w) # r \<Rightarrow> (b, gx (?F w)) # map (\<lambda>(a, m). (a, gx m)) r) = with_gaps (Some l) ys"
    by (rule regap) (use ba(2) in \<open>simp add: after_map[of gx]\<close>)
  have "contents gx ?t' = with_gaps None (xs @ (a, f, l) # ys)"
    unfolding it(3) tail ba(1) using v(2,3) by (simp add: with_gaps_append gx_gapf split: option.split)
  then have "vma_holds (s\<lparr>vt := t', vlist := vl\<rparr>) (xs @ (a, f, l) # ys)"
    using o vl(2) t'(2) it(1,2) unfolding vma_holds_def by auto
  moreover have "path_addrs c = fst ` set (xs @ ys)"
    using set_addrs_plug[of "\<langle>\<rangle>" c] tc t(4) by (auto simp: addrs_contents[of t gx])
  ultimately show ?thesis using t'(1,3) vl(3) by auto
qed

end
