(* ===== verification/Dsl_VMA_Remove.thy ===== *)
theory Dsl_VMA_Remove
  imports Dsl_VMA_Tree
begin

text \<open>
  Removal from the gap-augmented range tree and adjustment of a node whose range has changed
  (\<^verbatim>\<open>VMATree::remove\<close> and \<^verbatim>\<open>VMATree::adjust\<close> of \<^verbatim>\<open>dsl/vmamodify.cc\<close>): both keep the tree balanced,
  every \<open>biggest_gap\<close> exact and every \<open>prev_gap\<close> equal to the distance to the predecessor.
\<close>

section \<open>Removal\<close>

fun unlinked :: "vma atree \<Rightarrow> vma atree \<Rightarrow> vma path \<Rightarrow> vma atree" where
  "unlinked l r c =
     (if r = \<langle>\<rangle> then
        (if l \<noteq> \<langle>\<rangle> then fixz False vma_upd l c
         else (case c of [] \<Rightarrow> \<langle>\<rangle> | f # c' \<Rightarrow> fixz False vma_upd (fill f \<langle>\<rangle>) c'))
      else case min_path r [] of (z, zr, p) \<Rightarrow>
        if l = \<langle>\<rangle> then fixz False vma_upd \<langle>\<langle>\<rangle>, z, zr\<rangle> (p @ c)
        else (case p of
          [] \<Rightarrow> fixz False vma_upd \<langle>l, z, zr\<rangle> c
        | f # p' \<Rightarrow> fixz False vma_upd (fill f zr) (p' @ (RIGHT, z, l) # c)))"

declare unlinked.simps [simp del]

lemma unlink_right_null:
  assumes rep: "represents t (plug \<langle>l, (a, hh, m), \<langle>\<rangle>\<rangle> c)" and pos: "hpos (plug \<langle>l, (a, hh, m), \<langle>\<rangle>\<rangle> c)"
  shows "\<exists>t'. VMATree_unlink t (path_parent c) (path_dir c) succ a = Some t' \<and> represents t' (unlinked l \<langle>\<rangle> c)
     \<and> (\<forall>x. x = a \<or> x \<notin> set (addrs (plug \<langle>l, (a, hh, m), \<langle>\<rangle>\<rangle> c)) \<longrightarrow> nodes t' x = nodes t x)"
proof -
  note rp = rep[unfolded represents_plug] and n = represents_node[OF rep]
  obtain t1 where t1: "replace_child t (path_parent c) (path_dir c) (rootp l) = Some t1"
    "path_at (nodes t1) (rootp l) c" "m_root t1 = (if c = [] then rootp l else m_root t)"
    "\<forall>x. x \<notin> path_addrs c \<longrightarrow> nodes t1 x = nodes t x"
    using replace_child_path[of t "Some a" c "rootp l"] rp by auto
  have "tree_at (nodes t1) (Some a) l = tree_at (nodes t) (Some a) l"
    by (rule tree_at_cong) (use rp t1(4) in auto)
  then obtain h2 where h2: "set_parent_if (nodes t1) (rootp l) (path_parent c) = Some h2" "tree_at h2 (path_parent c) l"
    "\<forall>x. x \<notin> set (addrs l) \<longrightarrow> h2 x = nodes t1 x"
    using set_parent_if_tree_at[of "nodes t1" "Some a" l "path_parent c"] rp by auto
  have "path_at h2 (rootp l) c = path_at (nodes t1) (rootp l) c"
    by (rule path_at_cong) (use rp h2(3) in auto)
  then have rep2: "represents (t1\<lparr>nodes := h2\<rparr>) (plug l c)"
    using rp t1(2,3) h2(2) rootp_plug_cong[of c l "\<langle>l, (a, hh, m), \<langle>\<rangle>\<rangle>"] by (auto simp: represents_plug)
  have eq: "VMATree_unlink t (path_parent c) (path_dir c) succ a
      = VMATree_fixup (t1\<lparr>nodes := h2\<rparr>) (if l \<noteq> \<langle>\<rangle> then rootp l else path_parent c)"
    using n t1(1) h2(1) by (auto simp: VMATree_unlink_def get_child_def)
  have fr: "h2 x = nodes t x" if "x = a \<or> x \<notin> set (addrs (plug \<langle>l, (a, hh, m), \<langle>\<rangle>\<rangle> c))" for x
    using that t1(4) h2(3) rp by (auto simp: set_addrs_plug)
  have hp: "hpos (plug l c)" using pos by (simp add: hpos_plug)
  have sub: "x \<notin> set (addrs (plug l c))" if "x = a \<or> x \<notin> set (addrs (plug \<langle>l, (a, hh, m), \<langle>\<rangle>\<rangle> c))" for x
    using that rp by (auto simp: set_addrs_plug)
  show ?thesis
  proof (cases "l = \<langle>\<rangle>")
    case False
    then show ?thesis using eq fr sub vma_fixup.fixup[OF rep2 False hp] by (auto simp: unlinked.simps)
  next
    case True
    show ?thesis
    proof (cases c)
      case Nil
      then show ?thesis using eq fr rep2 True by (auto simp: unlinked.simps VMATree_fixup_null)
    next
      case (Cons f c')
      have "fill f \<langle>\<rangle> \<noteq> \<langle>\<rangle>" "rootp (fill f \<langle>\<rangle>) = path_parent c" by (cases f; cases "fst f"; auto simp: Cons)+
      then show ?thesis
        using eq fr sub True vma_fixup.fixup[of "t1\<lparr>nodes := h2\<rparr>" "fill f \<langle>\<rangle>" c'] rep2 hp by (auto simp: Cons unlinked.simps)
    qed
  qed
qed

lemma unlink_left_null:
  assumes rep: "represents t (plug \<langle>\<langle>\<rangle>, (a, hh, m), r\<rangle> c)" and pos: "hpos (plug \<langle>\<langle>\<rangle>, (a, hh, m), r\<rangle> c)"
    and r: "r \<noteq> \<langle>\<rangle>" "min_path r [] = (z, zr, p)"
  shows "\<exists>t'. VMATree_unlink t (path_parent c) (path_dir c) (Some (fst z)) a = Some t' \<and> represents t' (unlinked \<langle>\<rangle> r c)
     \<and> (\<forall>x. x = a \<or> x \<notin> set (addrs (plug \<langle>\<langle>\<rangle>, (a, hh, m), r\<rangle> c)) \<longrightarrow> nodes t' x = nodes t x)"
proof -
  note rp = rep[unfolded represents_plug] and n = represents_node[OF rep]
  obtain R where R: "rootp r = Some R" using r(1) by (meson rootp_None option.exhaust)
  obtain h1 where h1: "set_parent (nodes t) R (path_parent c) = Some h1" "tree_at h1 (path_parent c) r"
    "\<forall>x. x \<noteq> R \<longrightarrow> h1 x = nodes t x"
    using set_parent_tree_at[of "nodes t" "Some a" r R "path_parent c"] rp R by auto
  have Rr: "R \<in> set (addrs r)" using rootp_in_addrs[OF R] .
  have "path_at h1 (Some a) c = path_at (nodes t) (Some a) c"
    by (rule path_at_cong) (use rp h1(3) Rr in auto)
  moreover have "distinct (addrs (plug r c))" using rp by (auto simp: distinct_addrs_plug)
  ultimately obtain t2 where t2: "replace_child (t\<lparr>nodes := h1\<rparr>) (path_parent c) (path_dir c) (Some R) = Some t2"
    "represents t2 (plug r c)" "\<forall>x. x \<notin> path_addrs c \<longrightarrow> nodes t2 x = h1 x"
    using relink[of "t\<lparr>nodes := h1\<rparr>" c r "Some a" "\<langle>\<langle>\<rangle>, (a, hh, m), r\<rangle>"] rp h1(2) R by auto
  have eq: "VMATree_unlink t (path_parent c) (path_dir c) (Some (fst z)) a = VMATree_fixup t2 (Some (fst z))"
    using n h1(1) t2(1) R r(1) by (simp add: VMATree_unlink_def get_child_def del: bind_Some_iff)
  have rt: "plug r c = plug \<langle>\<langle>\<rangle>, z, zr\<rangle> (p @ c)" using min_path_plug[OF r] by (simp add: plug_append)
  have "hpos (plug r c)" using pos by (simp add: hpos_plug)
  then obtain t' where "VMATree_fixup t2 (Some (fst z)) = Some t'" "represents t' (fixz False vma_upd \<langle>\<langle>\<rangle>, z, zr\<rangle> (p @ c))"
    "\<forall>x. x \<notin> set (addrs (plug r c)) \<longrightarrow> nodes t' x = nodes t2 x"
    using vma_fixup.fixup[of t2 "\<langle>\<langle>\<rangle>, z, zr\<rangle>" "p @ c"] t2(2) rt by (cases z) auto
  moreover have "nodes t2 x = nodes t x \<and> x \<notin> set (addrs (plug r c))"
    if "x = a \<or> x \<notin> set (addrs (plug \<langle>\<langle>\<rangle>, (a, hh, m), r\<rangle> c))" for x
    using that t2(3) h1(3) rp Rr by (auto simp: set_addrs_plug)
  ultimately show ?thesis using eq r by (auto simp: unlinked.simps)
qed

text \<open>The first writes of the case of two children: the successor \<open>Z\<close> takes over the left subtree and
  the place of \<open>node\<close> below its parent.\<close>

lemma take_left:
  assumes rep: "represents t (plug \<langle>l, (a, hh, m), r\<rangle> c)" and l: "rootp l = Some L"
    and z: "nodes t z = Some \<lparr>child = case_dir None zr, parent = y, avl_height = hz, \<dots> = mz\<rparr>" "z \<in> set (addrs r)"
  shows "\<exists>h1 h2 h3 t4. set_parent (nodes t) z (path_parent c) = Some h1 \<and> get_child h1 a LEFT = Some (Some L)
     \<and> set_child h1 z LEFT (Some L) = Some h2 \<and> set_parent h2 L (Some z) = Some h3
     \<and> replace_child (t\<lparr>nodes := h3\<rparr>) (path_parent c) (path_dir c) (Some z) = Some t4
     \<and> tree_at (nodes t4) (Some z) l \<and> path_at (nodes t4) (Some z) c
     \<and> nodes t4 z = Some \<lparr>child = case_dir (Some L) zr, parent = path_parent c, avl_height = hz, \<dots> = mz\<rparr>
     \<and> m_root t4 = (if c = [] then Some z else m_root t)
     \<and> (\<forall>x. x \<notin> insert z (set (addrs l) \<union> path_addrs c) \<longrightarrow> nodes t4 x = nodes t x)"
proof -
  note rp = rep[unfolded represents_plug] and n = represents_node[OF rep]
  let ?r = "\<lambda>ch. \<lparr>child = ch, parent = path_parent c, avl_height = hz, \<dots> = mz\<rparr>"
  let ?h1 = "(nodes t)(z \<mapsto> ?r (case_dir None zr))" and ?h2 = "(nodes t)(z \<mapsto> ?r (case_dir (Some L) zr))"
  have zl: "z \<notin> set (addrs l)" "z \<noteq> a" "z \<notin> path_addrs c" using rp z(2) by auto
  have h12: "set_parent (nodes t) z (path_parent c) = Some ?h1" "get_child ?h1 a LEFT = Some (Some L)"
    "set_child ?h1 z LEFT (Some L) = Some ?h2"
    using z(1) n(1) l zl by (simp_all add: node_access)
  obtain h3 where h3: "set_parent ?h2 L (Some z) = Some h3" "tree_at h3 (Some z) l" "\<forall>x. x \<noteq> L \<longrightarrow> h3 x = ?h2 x"
    using set_parent_tree_at[of ?h2 "Some a" l L "Some z"] n(2) rp l zl by (auto simp: heap_simps)
  have Ll: "L \<in> set (addrs l)" using rootp_in_addrs[OF l] .
  have "path_at h3 (Some a) c = path_at (nodes t) (Some a) c"
    by (rule path_at_cong) (use rp h3(3) Ll zl in auto)
  then obtain t4 where t4: "replace_child (t\<lparr>nodes := h3\<rparr>) (path_parent c) (path_dir c) (Some z) = Some t4"
    "path_at (nodes t4) (Some z) c" "m_root t4 = (if c = [] then Some z else m_root t)"
    "\<forall>x. x \<notin> path_addrs c \<longrightarrow> nodes t4 x = h3 x"
    using replace_child_path[of "t\<lparr>nodes := h3\<rparr>" "Some a" c "Some z"] rp by auto
  have "tree_at (nodes t4) (Some z) l = tree_at h3 (Some z) l"
    by (rule tree_at_cong) (use rp t4(4) in auto)
  moreover have "nodes t4 z = ?h2 z" using t4(4) h3(3) zl Ll by auto
  moreover have "nodes t4 x = nodes t x" if "x \<notin> insert z (set (addrs l) \<union> path_addrs c)" for x
    using that t4(4) h3(3) Ll by auto
  ultimately show ?thesis using h12 h3 t4 by (intro exI[of _ ?h1] exI[of _ ?h2] exI[of _ h3] exI[of _ t4]) auto
qed

lemma unlink_direct:
  assumes rep: "represents t (plug \<langle>l, (a, hh, m), r\<rangle> c)" and pos: "hpos (plug \<langle>l, (a, hh, m), r\<rangle> c)"
    and l: "l \<noteq> \<langle>\<rangle>" and r: "r = \<langle>\<langle>\<rangle>, (z, hz, mz), zr\<rangle>"
  shows "\<exists>t'. VMATree_unlink t (path_parent c) (path_dir c) (Some z) a = Some t' \<and> represents t' (unlinked l r c)
     \<and> (\<forall>x. x = a \<or> x \<notin> set (addrs (plug \<langle>l, (a, hh, m), r\<rangle> c)) \<longrightarrow> nodes t' x = nodes t x)"
proof -
  let ?t = "\<langle>l, (z, hz, mz), zr\<rangle>"
  note rp = rep[unfolded represents_plug] and n = represents_node[OF rep]
  obtain L where L: "rootp l = Some L" using l by (meson rootp_None option.exhaust)
  have zn: "nodes t z = Some \<lparr>child = case_dir None (rootp zr), parent = Some a, avl_height = hz, \<dots> = mz\<rparr>"
    using n(3) by (simp add: r)
  obtain h1 h2 h3 t4 where t4: "set_parent (nodes t) z (path_parent c) = Some h1" "get_child h1 a LEFT = Some (Some L)"
     "set_child h1 z LEFT (Some L) = Some h2" "set_parent h2 L (Some z) = Some h3"
     "replace_child (t\<lparr>nodes := h3\<rparr>) (path_parent c) (path_dir c) (Some z) = Some t4"
     "tree_at (nodes t4) (Some z) l" "path_at (nodes t4) (Some z) c"
     "nodes t4 z = Some \<lparr>child = case_dir (Some L) (rootp zr), parent = path_parent c, avl_height = hz, \<dots> = mz\<rparr>"
     "m_root t4 = (if c = [] then Some z else m_root t)"
     "\<forall>x. x \<notin> insert z (set (addrs l) \<union> path_addrs c) \<longrightarrow> nodes t4 x = nodes t x"
    using take_left[OF rep L zn] by (auto simp: r)
  have "tree_at (nodes t4) (Some z) zr = tree_at (nodes t) (Some z) zr"
    by (rule tree_at_cong) (use rp t4(10) in \<open>auto simp: r\<close>)
  then have "tree_at (nodes t4) (path_parent c) ?t" using t4(6,8) n(3) L by (simp add: r)
  then have rep4: "represents t4 (plug ?t c)"
    using rp t4(7,9) rootp_plug_cong[of c ?t "\<langle>l, (a, hh, m), r\<rangle>"] by (auto simp: represents_plug r)
  have "get_child (nodes t) a LEFT = Some (Some L)" "get_child (nodes t) a RIGHT = Some (Some z)"
    "get_parent (nodes t) z = Some (Some a)"
    using n(1) L zn by (simp_all add: node_access(1,2) r)
  then have "VMATree_unlink t (path_parent c) (path_dir c) (Some z) a = VMATree_fixup t4 (Some z)"
    using t4(1-5) by (simp add: VMATree_unlink_def del: bind_Some_iff)
  moreover have "hpos (plug ?t c)" using pos by (simp add: hpos_plug r)
  moreover have "nodes t4 x = nodes t x \<and> x \<notin> set (addrs (plug ?t c))"
    if "x = a \<or> x \<notin> set (addrs (plug \<langle>l, (a, hh, m), r\<rangle> c))" for x
    using that t4(10) rp by (auto simp: set_addrs_plug r)
  ultimately show ?thesis using vma_fixup.fixup[OF rep4] l by (auto simp: unlinked.simps r)
qed

lemma unlink_general:
  assumes rep: "represents t (plug \<langle>l, (a, hh, m), r\<rangle> c)" and pos: "hpos (plug \<langle>l, (a, hh, m), r\<rangle> c)"
    and l: "l \<noteq> \<langle>\<rangle>" and r: "r \<noteq> \<langle>\<rangle>" "min_path r [] = ((z, hz, mz), zr, (LEFT, (y, hy, my), yr) # p)"
  shows "\<exists>t'. VMATree_unlink t (path_parent c) (path_dir c) (Some z) a = Some t' \<and> represents t' (unlinked l r c)
     \<and> (\<forall>x. x = a \<or> x \<notin> set (addrs (plug \<langle>l, (a, hh, m), r\<rangle> c)) \<longrightarrow> nodes t' x = nodes t x)"
proof -
  let ?f = "(LEFT, (y, hy, my), yr)" and ?z = "(z, hz, mz)"
  let ?r1 = "plug zr (?f # p)" and ?T = "plug \<langle>l, (a, hh, m), r\<rangle> c"
  note rp = rep[unfolded represents_plug] and n = represents_node[OF rep]
  have rt: "r = plug \<langle>\<langle>\<rangle>, ?z, zr\<rangle> (?f # p)" using min_path_plug[OF r] by simp
  have rd: "path_distinct (?f # p)" "distinct (addrs zr)" "z \<notin> set (addrs zr)" "z \<notin> path_addrs (?f # p)"
    "set (addrs zr) \<inter> path_addrs (?f # p) = {}" "set (addrs r) = insert z (set (addrs zr) \<union> path_addrs (?f # p))"
    using rp distinct_addrs_plug[of "\<langle>\<langle>\<rangle>, ?z, zr\<rangle>" "?f # p"] set_addrs_plug[of "\<langle>\<langle>\<rangle>, ?z, zr\<rangle>" "?f # p"] by (auto simp: rt simp del: plug.simps)
  have rat: "path_at_in (nodes t) (Some a) (Some z) (?f # p)" "tree_at (nodes t) (Some z) zr"
    and zn: "nodes t z = Some \<lparr>child = case_dir None (rootp zr), parent = Some y, avl_height = hz, \<dots> = mz\<rparr>"
    using n(3) unfolding rt tree_at_plug by auto
  obtain L R where LR: "rootp l = Some L" "rootp r = Some R" using l r(1) by (meson rootp_None option.exhaust)
  obtain h1 h2 h3 t4 where t4: "set_parent (nodes t) z (path_parent c) = Some h1" "get_child h1 a LEFT = Some (Some L)"
     "set_child h1 z LEFT (Some L) = Some h2" "set_parent h2 L (Some z) = Some h3"
     "replace_child (t\<lparr>nodes := h3\<rparr>) (path_parent c) (path_dir c) (Some z) = Some t4"
     "tree_at (nodes t4) (Some z) l" "path_at (nodes t4) (Some z) c"
     "nodes t4 z = Some \<lparr>child = case_dir (Some L) (rootp zr), parent = path_parent c, avl_height = hz, \<dots> = mz\<rparr>"
     "m_root t4 = (if c = [] then Some z else m_root t)"
     "\<forall>x. x \<notin> insert z (set (addrs l) \<union> path_addrs c) \<longrightarrow> nodes t4 x = nodes t x"
    using take_left[OF rep LR(1) zn] rd(6) by auto
  have f4: "path_at_in (nodes t4) (Some a) (Some z) (?f # p) = path_at_in (nodes t) (Some a) (Some z) (?f # p)"
    "tree_at (nodes t4) (Some z) zr = tree_at (nodes t) (Some z) zr"
    by (rule path_at_cong tree_at_cong; use rp rd t4(10) in auto)+
  obtain h5 h6 where h6: "set_child (nodes t4) y LEFT (rootp zr) = Some h5" "set_parent_if h5 (rootp zr) (Some y) = Some h6"
    "tree_at h6 (Some a) ?r1" "\<forall>x. x \<notin> path_addrs (?f # p) \<union> set (addrs zr) \<longrightarrow> h6 x = nodes t4 x"
    using unlink_min[of "nodes t4" "Some a" "Some z" "?f # p" "Some z" zr y hy my yr p] f4 rat rd by blast
  let ?h7 = "h6(z \<mapsto> \<lparr>child = case_dir (Some L) (Some R), parent = path_parent c, avl_height = hz, \<dots> = mz\<rparr>)"
  have r1: "set (addrs ?r1) = set (addrs zr) \<union> path_addrs (?f # p)" "distinct (addrs ?r1)" "rootp ?r1 = Some R"
    using LR(2) rd set_addrs_plug[of zr "?f # p"] distinct_addrs_plug[of zr "?f # p"]
      rootp_plug_cong[of "?f # p" zr "\<langle>\<langle>\<rangle>, ?z, zr\<rangle>"] by (auto simp: rt simp del: plug.simps)
  obtain h8 where h8: "set_parent ?h7 R (Some z) = Some h8" "tree_at h8 (Some z) ?r1" "\<forall>x. x \<noteq> R \<longrightarrow> h8 x = ?h7 x"
    using set_parent_tree_at[of ?h7 "Some a" ?r1 R "Some z"] h6(3) r1 rd by (auto simp: heap_simps simp del: plug.simps)
  have Rr: "R \<in> set (addrs ?r1)" using rootp_in_addrs[OF r1(3)] .
  have fr8: "h8 x = nodes t4 x" if "x \<noteq> z" "x \<notin> set (addrs ?r1)" for x
    using that h8(3) h6(4) Rr r1(1) by auto
  have zfree: "z \<noteq> a" "z \<notin> set (addrs l)" "z \<notin> path_addrs c" "a \<notin> set (addrs ?r1)"
    "set (addrs ?r1) \<inter> set (addrs l) = {}" "set (addrs ?r1) \<inter> path_addrs c = {}" "set (addrs ?T) = insert z (set (addrs \<langle>l, (a, hh, m), ?r1\<rangle>) \<union> path_addrs c)"
    using rp rd(6) r1(1) by (auto simp: set_addrs_plug simp del: plug.simps)
  have "tree_at h8 (Some z) l = tree_at (nodes t4) (Some z) l"
    by (rule tree_at_cong, rule fr8) (use zfree in auto)
  moreover have "path_at h8 (Some z) c = path_at (nodes t4) (Some z) c"
    by (rule path_at_cong, rule fr8) (use zfree in auto)
  moreover have "h8 z = ?h7 z" using h8(3) Rr rd r1(1) by auto
  moreover have "m_root t4 = rootp (plug \<langle>l, ?z, ?r1\<rangle> c)"
    using t4(9) rp rootp_plug_cong[of c "\<langle>l, ?z, ?r1\<rangle>" "\<langle>l, (a, hh, m), r\<rangle>"] by (cases "c = []") auto
  ultimately have rep8: "represents (t4\<lparr>nodes := h8\<rparr>) (plug \<langle>l, ?z, ?r1\<rangle> c)"
    using rp h8(2) t4(6,7) LR(1) r1(2,3) zfree rd r1(1)
    by (auto simp: represents_plug simp del: plug.simps)
  have "get_child (nodes t) a LEFT = Some (Some L)" "get_child (nodes t) a RIGHT = Some (Some R)"
    "get_parent (nodes t) z = Some (Some y)" "get_child (nodes t4) z RIGHT = Some (rootp zr)" "y \<noteq> a"
    using n(1) LR zn t4(8) zfree(4) r1(1) by (auto simp: node_access(1,2))
  moreover have "h6 a = nodes t a" "h6 z = nodes t4 z"
    using h6(4) t4(10) zfree rp r1(1) rd by auto
  then have "get_child h6 a RIGHT = Some (Some R)" "set_child h6 z RIGHT (Some R) = Some ?h7"
    using n(1) LR t4(8) by (auto simp: node_access(1) set_child_def)
  ultimately have eq: "VMATree_unlink t (path_parent c) (path_dir c) (Some z) a = VMATree_fixup (t4\<lparr>nodes := h8\<rparr>) (Some y)"
    using t4(1-5) h6(1,2) h8(1) by (simp add: VMATree_unlink_def del: bind_Some_iff)
  have fin: "plug \<langle>l, ?z, ?r1\<rangle> c = plug (fill ?f zr) (p @ (RIGHT, ?z, l) # c)" by (simp add: plug_append)
  have "hpos (plug \<langle>l, ?z, ?r1\<rangle> c)"
    using pos hpos_plug[of "\<langle>\<langle>\<rangle>, ?z, zr\<rangle>" "?f # p"] hpos_plug[of zr "?f # p"] rt by (simp add: hpos_plug)
  then obtain t' where "VMATree_fixup (t4\<lparr>nodes := h8\<rparr>) (Some y) = Some t'"
    "represents t' (fixz False vma_upd (fill ?f zr) (p @ (RIGHT, ?z, l) # c))"
    "\<forall>x. x \<notin> set (addrs (plug \<langle>l, ?z, ?r1\<rangle> c)) \<longrightarrow> nodes t' x = h8 x"
    using vma_fixup.fixup[of "t4\<lparr>nodes := h8\<rparr>" "fill ?f zr"] rep8 fin by auto
  moreover have "h8 x = nodes t x \<and> x \<notin> set (addrs (plug \<langle>l, ?z, ?r1\<rangle> c))" if "x = a \<or> x \<notin> set (addrs ?T)" for x
  proof -
    have x: "x \<notin> set (addrs ?r1)" "x \<notin> set (addrs l)" "x \<notin> path_addrs c" "x \<noteq> z"
      using that unfolding zfree(7) using zfree rp by auto
    then show ?thesis using fr8[of x] t4(10) by (auto simp: set_addrs_plug simp del: plug.simps)
  qed
  ultimately show ?thesis using eq l r by (auto simp: unlinked.simps)
qed


lemma VMATree_unlink_represents:
  assumes rep: "represents t (plug \<langle>l, (a, hh, m), r\<rangle> c)" and pos: "hpos (plug \<langle>l, (a, hh, m), r\<rangle> c)"
    and succ: "r \<noteq> \<langle>\<rangle> \<Longrightarrow> succ = Some (fst (fst (min_path r [])))"
  shows "\<exists>t'. VMATree_unlink t (path_parent c) (path_dir c) succ a = Some t' \<and> represents t' (unlinked l r c)
     \<and> (\<forall>x. x = a \<or> x \<notin> set (addrs (plug \<langle>l, (a, hh, m), r\<rangle> c)) \<longrightarrow> nodes t' x = nodes t x)"
proof (cases r)
  case Leaf
  then show ?thesis using unlink_right_null rep pos by simp
next
  case (Node rl x rr)
  obtain z zr p where mp: "min_path r [] = (z, zr, p)" by (cases "min_path r []") auto
  have ne: "r \<noteq> \<langle>\<rangle>" by (simp add: Node)
  show ?thesis
  proof (cases "l = \<langle>\<rangle>")
    case True
    then show ?thesis using unlink_left_null[of t a hh m r c z zr p] rep pos ne mp succ by simp
  next
    case False
    show ?thesis
    proof (cases "rl = \<langle>\<rangle>")
      case True
      then show ?thesis
        using unlink_direct[OF rep pos False, of "fst x" "fst (snd x)" "snd (snd x)" rr] Node succ by simp
    next
      case rl: False
      then have "min_path rl [(LEFT, x, rr)] = (z, zr, p)" using mp by (simp add: Node)
      from min_path_head_left[OF rl this]
      obtain y hy my yr p' where "p = (LEFT, (y, hy, my), yr) # p'" by blast
      then show ?thesis
        using unlink_general[OF rep pos False ne, of "fst z" "fst (snd z)" "snd (snd z)" zr y hy my yr p'] mp succ ne by simp
    qed
  qed
qed

lemma fstep_avl: "avl t \<Longrightarrow> t \<noteq> \<langle>\<rangle> \<Longrightarrow> avl (fstep upd t) \<and> ht (fstep upd t) = ht t"
  by (cases t rule: avl.cases) auto

lemma path_top_ge: "k \<le> path_top k p"
proof (induction k p rule: path_top.induct)
  case (2 k d x s c)
  then show ?case by simp
qed simp

lemma unlinked_avl:
  assumes "avl (plug \<langle>l, (a, hh, m), r\<rangle> c)"
  shows "avl (unlinked l r c)"
proof -
  have n: "avl l" "avl r" "hh = 1 + max (ht l) (ht r)" "-1 \<le> ht r - ht l" "ht r - ht l \<le> 1" and c: "path_bal hh c"
    using assms by (auto simp: avl_plug intro: path_avl_bal)
  have pos: "0 \<le> ht l" "0 \<le> ht r" "l \<noteq> \<langle>\<rangle> \<Longrightarrow> 1 \<le> ht l" "r \<noteq> \<langle>\<rangle> \<Longrightarrow> 1 \<le> ht r" using avl_ht n by auto
  show ?thesis
  proof (cases "r = \<langle>\<rangle>")
    case r: True
    show ?thesis
    proof (cases "l = \<langle>\<rangle>")
      case False
      then have "avl (fixz False vma_upd l c)"
        using fstep_avl[OF n(1) False] n pos r by (intro fixz_start_avl[OF _ _ c]) auto
      then show ?thesis using r False by (simp add: unlinked.simps)
    next
      case True
      show ?thesis
      proof (cases c)
        case (Cons f c')
        obtain d x s where f: "f = (d, x, s)" by (cases f)
        have "near (1 + max 1 (ht s)) (fill f \<langle>\<rangle>)" "path_bal (1 + max 1 (ht s)) c'"
          using near_fill_bal[of "\<langle>\<rangle>" 1 d x s c'] c n True r by (auto simp: Cons f)
        then show ?thesis using fixz_avl_bal r True by (simp add: unlinked.simps Cons)
      qed (simp add: unlinked.simps r True)
    qed
  next
    case r: False
    obtain z zr p where mp: "min_path r [] = (z, zr, p)" by (cases "min_path r []") auto
    have rt: "r = plug \<langle>\<langle>\<rangle>, z, zr\<rangle> p" using min_path_plug[OF r mp] by simp
    have zr: "avl \<langle>\<langle>\<rangle>, z, zr\<rangle>" "path_avl (ht \<langle>\<langle>\<rangle>, z, zr\<rangle>) p" using n(2) by (simp_all add: rt avl_plug)
    then have htz: "ht \<langle>\<langle>\<rangle>, z, zr\<rangle> = 1 + ht zr" "avl zr" "ht zr \<le> 1" "0 \<le> ht zr" using avl_ht[of zr] by (cases z; auto)+
    have tp: "path_top (1 + ht zr) p = ht r" "path_bal (1 + ht zr) p"
      using path_avl_top[OF zr(2)] path_avl_bal[OF zr(2)] htz(1) by (simp_all add: rt)
    show ?thesis
    proof (cases p)
      case Nil
      have "near hh \<langle>l, z, zr\<rangle>"
        using n htz tp Nil by (simp, intro exI[of _ "ht l"] exI[of _ "ht r"]) auto
      then have "avl (fixz False vma_upd \<langle>l, z, zr\<rangle> c)" using fixz_avl_bal c by blast
      then show ?thesis using r mp Nil by (auto simp: unlinked.simps)
    next
      case (Cons f p')
      obtain d y yr where f: "f = (d, y, yr)" by (cases f)
      let ?K = "1 + max (1 + ht zr) (ht yr)"
      have l: "l \<noteq> \<langle>\<rangle>"
      proof
        assume "l = \<langle>\<rangle>"
        then have "ht r \<le> 1" using n by simp
        then show False using tp path_top_ge[of ?K p'] Cons f htz by simp
      qed
      have "near ?K (fill f zr)"
        using near_fill_bal[of zr "1 + ht zr" d y yr p'] htz tp Cons f by simp
      moreover have "path_bal ?K (p' @ (RIGHT, z, l) # c)"
        using tp n c by (auto simp: Cons f path_bal_append max.commute)
      ultimately show ?thesis using fixz_avl_bal l r mp Cons by (simp add: unlinked.simps)
    qed
  qed
qed

lemma contents_unlinked:
  assumes "\<And>m l r. g (vma_upd m l r) = g m"
  shows "contents g (unlinked l r c) = before g c @ contents g l @ contents g r @ after g c"
proof (cases "r = \<langle>\<rangle>")
  case True
  have "contents g (plug (fill f \<langle>\<rangle>) c') = before g (f # c') @ after g (f # c')" for f c'
    using contents_plug[of g "\<langle>\<rangle>" "f # c'"] by simp
  then show ?thesis using True contents_plug[of g l c]
    by (cases c) (simp_all add: unlinked.simps contents_fixz[of g vma_upd, OF assms] del: fixz.simps)
next
  case False
  obtain z zr p where mp: "min_path r [] = (z, zr, p)" by (cases "min_path r []") auto
  have rt: "contents g r = contents g (plug \<langle>\<langle>\<rangle>, z, zr\<rangle> p)" using min_path_plug[OF False mp] by simp
  show ?thesis
  proof (cases p)
    case Nil
    then show ?thesis using False mp rt by (cases z) (simp add: unlinked.simps contents_fixz[of g vma_upd, OF assms] contents_plug del: fixz.simps)
  next
    case (Cons f p')
    have "contents g (plug (fill f zr) q) = contents g (plug zr (f # q))" for q by simp
    moreover have "plug t (f # p' @ c) = plug (plug t (f # p')) c" for t using plug_append[of t "f # p'" c] by simp
    ultimately show ?thesis using False mp rt min_path_before[OF False mp, of g] Cons
      by (cases z) (simp add: unlinked.simps contents_fixz[of g vma_upd, OF assms] plug_append contents_plug del: plug.simps fixz.simps)
  qed
qed

lemma unlinked_augmented:
  assumes "hpos (plug \<langle>l, (a, hh, m), r\<rangle> c)" "augmented vma_upd l" "path_augmented vma_upd c"
    and r: "r \<noteq> \<langle>\<rangle> \<Longrightarrow> min_path r [] = (z, zr, p)" "augmented vma_upd zr" "path_augmented vma_upd p"
  shows "augmented vma_upd (unlinked l r c)"
proof -
  have pos: "hpos l" "hpos r" "path_hpos c" using assms(1) by (simp_all add: hpos_plug)
  have app: "path_augmented vma_upd (p @ c') \<longleftrightarrow> path_augmented vma_upd c'"
    "path_hpos p \<Longrightarrow> path_hpos (p @ c') \<longleftrightarrow> path_hpos c'" for c'
    using r(3) by (induction p) auto
  show ?thesis
  proof (cases "r = \<langle>\<rangle>")
    case True
    have hl: "hpos (plug l c)" "hpos (plug \<langle>\<rangle> c)" using pos by (simp_all add: hpos_plug)
    have 1: "augmented vma_upd (fixz False vma_upd l c)" if "l \<noteq> \<langle>\<rangle>"
      using vma_augmentation.fixz_augmented[OF that hl(1)] vma_augmentation.sub_augmented[OF assms(2)] assms(3) by blast
    have 2: "augmented vma_upd (fixz False vma_upd (fill f \<langle>\<rangle>) c')" if c: "c = f # c'" for f c'
    proof -
      obtain d x s where f: "f = (d, x, s)" by (cases f)
      have "sub_augmented vma_upd (fill f \<langle>\<rangle>)" "fill f \<langle>\<rangle> \<noteq> \<langle>\<rangle>" "path_augmented vma_upd c'"
        using assms(3) by (cases d; simp add: c f)+
      then show ?thesis using vma_augmentation.fixz_augmented[of "fill f \<langle>\<rangle>" c'] hl(2) c by simp
    qed
    show ?thesis using 1 2 True by (simp add: unlinked.simps split: list.split)
  next
    case False
    have "hpos (plug \<langle>\<langle>\<rangle>, z, zr\<rangle> p)" using min_path_plug[OF False r(1)[OF False]] pos(2) by simp
    then have pz: "hpos \<langle>\<langle>\<rangle>, z, zr\<rangle>" "path_hpos p" by (simp_all add: hpos_plug)
    then have pz2: "hpos zr" "hpos \<langle>l, z, zr\<rangle>" "path_hpos ((RIGHT, z, l) # c)" using pos by (cases z; simp)+
    show ?thesis
    proof (cases p)
      case Nil
      have "augmented vma_upd (fixz False vma_upd \<langle>l, z, zr\<rangle> c)"
        by (rule vma_augmentation.fixz_augmented) (use r assms(2,3) pz2 pos in \<open>auto simp: hpos_plug\<close>)
      then show ?thesis using False r(1) Nil by (auto simp: unlinked.simps)
    next
      case (Cons f p')
      obtain d y yr where f: "f = (d, y, yr)" by (cases f)
      have "augmented vma_upd (fixz False vma_upd (fill f zr) (p' @ (RIGHT, z, l) # c))"
      proof (rule vma_augmentation.fixz_augmented)
        show "fill f zr \<noteq> \<langle>\<rangle>" "sub_augmented vma_upd (fill f zr)"
          using r(2,3) by (cases d; simp add: Cons f)+
        have "hpos (plug zr (p @ (RIGHT, z, l) # c))"
          using app(2)[OF pz(2), of "(RIGHT, z, l) # c"] pz2 unfolding hpos_plug by blast
        then show "hpos (plug (fill f zr) (p' @ (RIGHT, z, l) # c))" by (simp add: Cons)
        show "path_augmented vma_upd (p' @ (RIGHT, z, l) # c)"
          using app(1)[of "(RIGHT, z, l) # c"] assms(2,3) r(3) by (simp add: Cons f)
      qed
      moreover have "augmented vma_upd (fixz False vma_upd \<langle>\<langle>\<rangle>, z, zr\<rangle> (p @ c))"
        using vma_augmentation.fixz_augmented[of "\<langle>\<langle>\<rangle>, z, zr\<rangle>" "p @ c"] app(1)[of c] app(2)[OF pz(2), of c] r(2) assms(3) pz pos
        unfolding hpos_plug by simp
      ultimately show ?thesis using False r(1) Cons by (simp add: unlinked.simps)
    qed
  qed
qed

section \<open>The gap of the successor\<close>

fun upd_min :: "('m \<Rightarrow> 'm) \<Rightarrow> 'm atree \<Rightarrow> 'm atree" where
  "upd_min f \<langle>\<rangle> = \<langle>\<rangle>"
| "upd_min f \<langle>l, (a, hh, m), r\<rangle> = (if l = \<langle>\<rangle> then \<langle>l, (a, hh, f m), r\<rangle> else \<langle>upd_min f l, (a, hh, m), r\<rangle>)"

lemma upd_succ_avl [simp]: "path_avl k (upd_succ f c) = path_avl k c"
  by (induction f c arbitrary: k rule: upd_succ.induct) auto

lemma upd_min_leaf [simp]: "upd_min f t = \<langle>\<rangle> \<longleftrightarrow> t = \<langle>\<rangle>"
  and upd_min_ht [simp]: "ht (upd_min f t) = ht t"
  and upd_min_rootp [simp]: "rootp (upd_min f t) = rootp t"
  by (cases t rule: ht.cases; simp)+

lemma upd_min_addrs [simp]: "addrs (upd_min f t) = addrs t"
  and upd_min_avl [simp]: "avl (upd_min f t) = avl t"
  and upd_min_hpos [simp]: "hpos (upd_min f t) = hpos t"
  by (induction f t rule: upd_min.induct) auto

lemma contents_leaf: "contents g t = [] \<longleftrightarrow> t = \<langle>\<rangle>"
  by (cases t rule: ht.cases) auto

lemma tree_at_alloc: "tree_at h par t \<Longrightarrow> x \<in> set (addrs t) \<Longrightarrow> \<exists>n. h x = Some n"
  by (induction h par t rule: tree_at.induct) auto

lemma upd_min_contents:
  "contents g (upd_min f t) = (case contents self t of [] \<Rightarrow> [] | (a, m) # r \<Rightarrow> (a, g (f m)) # map (\<lambda>(a, m). (a, g m)) r)"
proof (induction f t rule: upd_min.induct)
  case (2 f l a hh m r)
  show ?case
  proof (cases "l = \<langle>\<rangle>")
    case False
    then obtain b w ys where "contents self l = (b, w) # ys" by (cases "contents self l") (auto simp: contents_leaf)
    then show ?thesis using 2[OF False] False by (simp add: contents_map[of g r])
  qed (simp add: contents_map[of g r])
qed simp

lemma upd_min_path: "t \<noteq> \<langle>\<rangle> \<Longrightarrow> min_path t c = ((z, hz, mz), zr, p) \<Longrightarrow> min_path (upd_min f t) c = ((z, hz, f mz), zr, p)"
  by (induction f t arbitrary: c rule: upd_min.induct) (auto split: if_splits)

lemma min_path_hd: "t \<noteq> \<langle>\<rangle> \<Longrightarrow> min_path t c = ((z, hz, mz), zr, p) \<Longrightarrow> hd (contents self t) = (z, mz)"
  by (induction t c rule: min_path.induct) (auto split: if_splits simp: hd_append contents_leaf)

lemma upd_min_at:
  assumes "tree_at h par t" "distinct (addrs t)" "t \<noteq> \<langle>\<rangle>" "fst (hd (contents self t)) = sc" "h sc = Some n"
    and h': "h' sc = Some (n\<lparr>avl_node.more := f (avl_node.more n)\<rparr>)" "\<And>x. x \<noteq> sc \<Longrightarrow> h' x = h x"
  shows "tree_at h' par (upd_min f t)"
  using assms(1-5)
proof (induction t arbitrary: par)
  case (Node l x r)
  obtain a hh m where x: "x = (a, hh, m)" by (cases x)
  have sc: "sc \<in> insert a (set (addrs l))" "l \<noteq> \<langle>\<rangle> \<Longrightarrow> sc \<in> set (addrs l) \<and> sc = fst (hd (contents self l))" "l = \<langle>\<rangle> \<Longrightarrow> sc = a"
    using Node.prems(4) set_contents_addrs[of self l] hd_in_set[of "contents self l"]
    by (auto simp: x hd_append contents_leaf split: if_splits)
  have r: "tree_at h' (Some a) r = tree_at h (Some a) r"
    by (rule tree_at_cong, rule h'(2)) (use Node.prems(2) sc(1) in \<open>auto simp: x\<close>)
  show ?case
  proof (cases "l = \<langle>\<rangle>")
    case True
    then show ?thesis using Node.prems r sc(3) h'(1) by (auto simp: x)
  next
    case False
    then have "tree_at h' (Some a) (upd_min f l)" using Node.IH(1)[of "Some a"] Node.prems sc by (simp add: x)
    moreover have "h' a = h a" using h'(2)[of a] sc(2)[OF False] Node.prems(2) by (auto simp: x)
    ultimately show ?thesis using Node.prems(1) r False by (simp add: x)
  qed
qed simp

text \<open>The tree after the gap of the successor of the node at the focus is set for a predecessor that ends at \<open>q\<close>.\<close>

abbreviation gap_right :: "u64 option \<Rightarrow> vma atree \<Rightarrow> vma atree" where
  "gap_right q r \<equiv> upd_min (gapf q) r"

abbreviation gap_path :: "u64 option \<Rightarrow> vma atree \<Rightarrow> vma path \<Rightarrow> vma path" where
  "gap_path q r c \<equiv> (if r = \<langle>\<rangle> then upd_succ (gapf q) c else c)"

lemma succ_gap:
  assumes rep: "represents t (plug \<langle>l, (a, hh, m), r\<rangle> c)" and e: "ends_at (nodes t) pred q"
  shows "\<exists>h'. (case succ_of (contents self r @ after self c) of Some sc \<Rightarrow> set_prev_gap (nodes t) sc pred | None \<Rightarrow> Some (nodes t)) = Some h'
     \<and> represents (t\<lparr>nodes := h'\<rparr>) (plug \<langle>l, (a, hh, m), gap_right q r\<rangle> (gap_path q r c))
     \<and> (\<forall>x. x \<notin> set (addrs r) \<union> path_addrs c \<longrightarrow> h' x = nodes t x)"
proof (cases "r = \<langle>\<rangle>")
  case True
  note rp = rep[unfolded represents_plug]
  obtain h' where h': "(case succ_of (after self c) of Some sc \<Rightarrow> set_prev_gap (nodes t) sc pred | None \<Rightarrow> Some (nodes t)) = Some h'"
    "path_at h' (Some a) (upd_succ (gapf q) c)" "\<forall>x. x \<notin> path_addrs c \<longrightarrow> h' x = nodes t x"
    using set_prev_gap_succ[of "nodes t" None "Some a" c pred q] rp e by auto
  have "tree_at h' (path_parent c) \<langle>l, (a, hh, m), r\<rangle> = tree_at (nodes t) (path_parent c) \<langle>l, (a, hh, m), r\<rangle>"
    by (rule tree_at_cong) (use rp h'(3) in auto)
  then show ?thesis using True rp h' rootp_plug_upd_succ[of "\<langle>l, (a, hh, m), r\<rangle>" "gapf q" c] by (auto simp: represents_plug)
next
  case False
  note rp = rep[unfolded represents_plug] and n = represents_node[OF rep]
  obtain sc w where sc: "hd (contents self r) = (sc, w)" by (cases "hd (contents self r)")
  have "(sc, w) \<in> set (contents self r)" using hd_in_set[of "contents self r"] sc False by (simp add: contents_leaf)
  then have scr: "sc \<in> set (addrs r)" using set_contents_addrs[of self r] by force
  then have scl: "sc \<notin> set (addrs l)" "sc \<noteq> a" "sc \<notin> path_addrs c" using rp by auto
  obtain k where k: "nodes t sc = Some k" using scr n(3) tree_at_alloc by blast
  let ?h' = "(nodes t)(sc \<mapsto> k\<lparr>avl_node.more := gapf q (avl_node.more k)\<rparr>)"
  have "set_prev_gap (nodes t) sc pred = Some ?h'" using set_prev_gap_eq[OF k e] .
  moreover have "succ_of (contents self r @ after self c) = Some sc"
    using False sc by (simp add: succ_of_def contents_leaf)
  moreover have "tree_at ?h' (Some a) (gap_right q r)"
    by (rule upd_min_at[OF n(3)]) (use rp False sc k in auto)
  then have "tree_at ?h' (path_parent c) \<langle>l, (a, hh, m), gap_right q r\<rangle>"
    using rp scl n by (auto simp: heap_simps)
  then have "represents (t\<lparr>nodes := ?h'\<rparr>) (plug \<langle>l, (a, hh, m), gap_right q r\<rangle> c)"
    using rp scl rootp_plug[of "\<langle>l, (a, hh, m), r\<rangle>" "\<langle>l, (a, hh, m), gap_right q r\<rangle>" c]
    by (auto simp: represents_plug heap_simps)
  ultimately show ?thesis using False scr by auto
qed

lemma succ_gap_at:
  assumes "represents (t\<lparr>nodes := h\<rparr>) (plug \<langle>l, (a, hh, m), r\<rangle> c)" and "ends_at h pred q"
  shows "\<exists>h'. (case succ_of (contents self r @ after self c) of Some sc \<Rightarrow> set_prev_gap h sc pred | None \<Rightarrow> Some h) = Some h'
     \<and> represents (t\<lparr>nodes := h'\<rparr>) (plug \<langle>l, (a, hh, m), gap_right q r\<rangle> (gap_path q r c))
     \<and> (\<forall>x. x \<notin> set (addrs r) \<union> path_addrs c \<longrightarrow> h' x = h x)"
  using succ_gap[OF assms(1), of pred q] assms(2) by (simp cong: option.case_cong split del: if_split)

section \<open>Removal keeps the tree\<close>

lemma holds_split:
  assumes hold: "vma_holds s (xs @ (a, f, l) # ys)"
  shows "\<exists>L hh m R c. represents (vt s) (plug \<langle>L, (a, hh, m), R\<rangle> c) \<and> avl (plug \<langle>L, (a, hh, m), R\<rangle> c)
    \<and> augmented vma_upd (plug \<langle>L, (a, hh, m), R\<rangle> c)
    \<and> before gx c @ contents gx L = with_gaps None xs \<and> gx m = (f, l, case end_of None xs of None \<Rightarrow> f | Some q \<Rightarrow> f - q - 1)
    \<and> contents gx R @ after gx c = with_gaps (Some l) ys"
proof -
  obtain t where t: "represents (vt s) t" "avl t" "augmented vma_upd t" "contents gx t = with_gaps None (xs @ (a, f, l) # ys)"
    using hold by (auto simp: vma_holds_def)
  have "a \<in> set (addrs t)" by (simp add: addrs_contents[of t gx] t(4))
  then obtain L hh m R c where tc: "t = plug \<langle>L, (a, hh, m), R\<rangle> c" using split_at_addr by blast
  let ?A = "before gx c @ contents gx L" and ?B = "contents gx R @ after gx c"
  let ?k = "(f, l, case end_of None xs of None \<Rightarrow> f | Some q \<Rightarrow> f - q - 1)"
  have d: "distinct (map fst (contents gx t))" using t(1) distinct_contents by (auto simp: represents_def)
  have A: "contents gx t = ?A @ (a, gx m) # ?B" by (simp add: tc contents_plug)
  have X: "contents gx t = with_gaps None xs @ (a, ?k) # with_gaps (Some l) ys" by (simp add: t(4) with_gaps_append)
  have "a \<notin> fst ` set ?A" using d[unfolded A] by auto
  moreover have "a \<notin> fst ` set (with_gaps None xs)" using d[unfolded X] unfolding list.set_map[symmetric] by auto
  moreover have eq: "?A @ (a, gx m) # ?B = with_gaps None xs @ (a, ?k) # with_gaps (Some l) ys" using A X by simp
  ultimately have "?A = with_gaps None xs \<and> ?B = with_gaps (Some l) ys" using split_unique[OF eq] by blast
  moreover from this have "gx m = ?k" using eq by simp
  ultimately show ?thesis using t tc by blast
qed

lemma split_addrs:
  assumes "before gx c @ contents gx L = with_gaps p xs" "contents gx R @ after gx c = with_gaps q ys"
  shows "addrs (plug \<langle>L, (a, hh, m), R\<rangle> c) = map fst (xs @ (a, v) # ys)"
proof -
  have "contents gx (plug \<langle>L, (a, hh, m), R\<rangle> c) = (before gx c @ contents gx L) @ (a, gx m) # contents gx R @ after gx c"
    by (simp add: contents_plug)
  then show ?thesis unfolding assms by (simp add: addrs_contents[of _ gx])
qed

lemma map_gx: "contents gx t = map (\<lambda>(a, m). (a, gx m)) (contents self t)"
  "before gx c = map (\<lambda>(a, m). (a, gx m)) (before self c)" "after gx c = map (\<lambda>(a, m). (a, gx m)) (after self c)"
  by (rule contents_map before_map after_map)+

lemma succ_of_gx: "map (\<lambda>(a, m). (a, gx m)) bs = with_gaps q ys \<Longrightarrow> succ_of bs = succ_of ys"
  by (cases bs; cases ys) (auto simp: succ_of_def)

text \<open>Both update a gap and read the list around the node, which is where its neighbours in the tree are.\<close>

lemma contents_gap:
  assumes "contents gx R @ after gx c = with_gaps q' ys"
  shows "contents gx (gap_right q R) @ after gx (gap_path q R c) = with_gaps q ys"
proof -
  have "map (\<lambda>(a, m). (a, gx m)) (contents self R @ after self c) = with_gaps q' ys" using assms by (simp add: map_gx)
  from regap[OF this, of q] show ?thesis
    by (cases "contents self R") (auto simp: contents_leaf upd_min_contents upd_succ_after map_gx(3))
qed

lemma VMATree_remove_holds:
  assumes hold: "vma_holds s (xs @ (a, f, l) # ys)"
  shows "\<exists>s'. VMATree_remove s a = Some s' \<and> vma_holds s' (xs @ ys) \<and> list_anchor s' = list_anchor s
     \<and> dom (vlist s') = dom (vlist s) \<and> nodes (vt s') a = nodes (vt s) a
     \<and> (\<forall>x. x \<notin> fst ` set (xs @ (a, f, l) # ys) \<longrightarrow> nodes (vt s') x = nodes (vt s) x)"
proof -
  obtain L hh m R c where t: "represents (vt s) (plug \<langle>L, (a, hh, m), R\<rangle> c)" "avl (plug \<langle>L, (a, hh, m), R\<rangle> c)"
    "augmented vma_upd (plug \<langle>L, (a, hh, m), R\<rangle> c)" "before gx c @ contents gx L = with_gaps None xs"
    "contents gx R @ after gx c = with_gaps (Some l) ys"
    using holds_split[OF hold] by blast
  have o: "ordered (xs @ ys)" and rg: "ring (vlist s) (list_anchor s) (map fst (xs @ (a, f, l) # ys))"
    using hold ordered_removed by (auto simp: vma_holds_def)
  let ?q = "end_of None xs"
  let ?R = "gap_right ?q R" and ?c = "gap_path ?q R c"
  let ?T = "plug \<langle>L, (a, hh, m), ?R\<rangle> ?c"
  have pc: "path_parent ?c = path_parent c" "path_dir ?c = path_dir c" "path_addrs ?c = path_addrs c" by simp_all
  have mb: "map (\<lambda>(a, m). (a, gx m)) (before self c @ contents self L) = with_gaps None xs"
    "map (\<lambda>(a, m). (a, gx m)) (contents self R @ after self c) = with_gaps (Some l) ys"
    using t(4,5) by (simp_all add: map_gx)
  have e: "ends_at (nodes (vt s)) (pred_of xs) ?q"
    using ends_at_last[OF _ mb(1), of "nodes (vt s)" None "plug \<langle>L, (a, hh, m), R\<rangle> c"] t(1)
    by (auto simp: represents_def contents_plug)
  obtain h' where h': "(case succ_of ys of Some sc \<Rightarrow> set_prev_gap (nodes (vt s)) sc (pred_of xs) | None \<Rightarrow> Some (nodes (vt s))) = Some h'"
    "represents ((vt s)\<lparr>nodes := h'\<rparr>) ?T" "\<forall>x. x \<notin> set (addrs R) \<union> path_addrs c \<longrightarrow> h' x = nodes (vt s) x"
    using succ_gap[OF t(1) e] succ_of_gx[OF mb(2)] by auto
  have avl': "avl ?T" using t(2) by (auto simp: avl_plug)
  obtain z hz mz zr p where mp: "min_path R [] = ((z, hz, mz), zr, p)" by (metis prod_cases3)
  have sc: "succ_of ys = Some (fst (fst (min_path ?R [])))" if "?R \<noteq> \<langle>\<rangle>"
    using that succ_of_gx[OF mb(2)] min_path_hd[OF _ mp] upd_min_path[OF _ mp] by (auto simp: succ_of_def contents_leaf)
  obtain t' where t': "VMATree_unlink ((vt s)\<lparr>nodes := h'\<rparr>) (path_parent c) (path_dir c) (succ_of ys) a = Some t'"
    "represents t' (unlinked L ?R ?c)" "\<forall>x. x = a \<or> x \<notin> set (addrs ?T) \<longrightarrow> nodes t' x = h' x"
    using VMATree_unlink_represents[OF h'(2) avl_hpos[OF avl'] sc] pc by auto
  obtain vl where vl: "ListHead_remove (vlist s) a = Some vl" "ring vl (list_anchor s) (map fst (xs @ ys))" "dom vl = dom (vlist s)"
    using ListHead_remove_ring[of "vlist s" "list_anchor s" "map fst xs" a "map fst ys"] rg by auto
  have cd: "child_dir (nodes (vt s)) (path_parent c) a = Some (path_dir c)"
    by (rule child_dir_path) (use t(1) in \<open>auto simp: represents_plug\<close>)
  have "VMATree_remove s a = Some (s\<lparr>vt := t', vlist := vl\<rparr>)"
    using VMATree_neighbours_of[OF rg] h'(1) vl(1) t'(1) represents_node(1)[OF t(1)] cd
    by (simp add: VMATree_remove_def get_parent_def del: bind_Some_iff)
  moreover have "vma_holds (s\<lparr>vt := t', vlist := vl\<rparr>) (xs @ ys)"
  proof -
    have ag: "augmented vma_upd L" "augmented vma_upd R" "path_augmented vma_upd c"
      using path_avl_augmented[OF t(3)] by auto
    have "augmented vma_upd zr \<and> path_augmented vma_upd p" if "R \<noteq> \<langle>\<rangle>"
      using path_avl_augmented[of vma_upd "\<langle>\<langle>\<rangle>, (z, hz, mz), zr\<rangle>" p] min_path_plug[OF that mp] ag(2) by simp
    then have "augmented vma_upd (unlinked L ?R ?c)"
      using unlinked_augmented[OF avl_hpos[OF avl'], of "(z, hz, gapf ?q mz)" zr p] upd_min_path[OF _ mp]
        unlinked_augmented[OF avl_hpos[OF avl'], of "(z, hz, mz)" "\<langle>\<rangle>" "[]"] ag
      by (cases "R = \<langle>\<rangle>") simp_all
    moreover have "contents gx (unlinked L ?R ?c) = with_gaps None (xs @ ys)"
      using contents_gap[OF t(5), of ?q] t(4) by (simp add: contents_unlinked with_gaps_append)
    ultimately show ?thesis using o vl(2) t'(2) unlinked_avl[OF avl'] by (auto simp: vma_holds_def)
  qed
  moreover have frame: "nodes t' x = nodes (vt s) x" if "x = a \<or> x \<notin> fst ` set (xs @ (a, f, l) # ys)" for x
  proof -
    have ad: "set (addrs (plug \<langle>L, (a, hh, m), R\<rangle> c)) = fst ` set (xs @ (a, f, l) # ys)"
      using split_addrs[OF t(4,5), of a hh m] by (simp add: image_Un)
    then have x: "x = a \<or> x \<notin> set (addrs ?T)" "x \<notin> set (addrs R) \<union> path_addrs c"
      using that t(1) by (auto simp: set_addrs_plug represents_plug)
    show ?thesis using t'(3)[rule_format, OF x(1)] h'(3)[rule_format, OF x(2)] by simp
  qed
  ultimately show ?thesis using frame[of a] vl(3) by (intro exI[of _ "s\<lparr>vt := t', vlist := vl\<rparr>"]) simp
qed

section \<open>Adjustment\<close>

fun recomp :: "vma atree \<Rightarrow> vma atree" where
  "recomp \<langle>\<rangle> = \<langle>\<rangle>"
| "recomp \<langle>l, x, r\<rangle> = mk vma_upd l x r"

fun propz :: "vma atree \<Rightarrow> vma path \<Rightarrow> vma atree" where
  "propz t [] = recomp t"
| "propz t (f # c) = propz (fill f (recomp t)) c"

lemma recomp_simps [simp]: "rootp (recomp t) = rootp t" "addrs (recomp t) = addrs t" "contents gx (recomp t) = contents gx t"
  by (cases t rule: ht.cases; simp)+

lemma recomp_avl: "avl t \<Longrightarrow> avl (recomp t) \<and> ht (recomp t) = ht t"
  by (cases t rule: ht.cases) auto

lemma recomp_augmented: "sub_augmented vma_upd t \<Longrightarrow> augmented vma_upd (recomp t)"
  by (cases t rule: ht.cases) (simp_all add: vma_augmentation.idem)

lemma propz_avl: "avl (plug t c) \<Longrightarrow> avl (propz t c)"
proof (induction t c rule: propz.induct)
  case (2 t f c)
  have "avl (plug (recomp t) (f # c))" using 2(2) recomp_avl[of t] unfolding avl_plug by auto
  then show ?case using 2(1) by simp
qed (simp add: recomp_avl)

lemma propz_contents: "contents gx (propz t c) = contents gx (plug t c)"
proof (induction t c rule: propz.induct)
  case (2 t f c)
  then show ?case using contents_plug[of gx "recomp t" "f # c"] contents_plug[of gx t "f # c"] by simp
qed simp

lemma propz_augmented: "sub_augmented vma_upd t \<Longrightarrow> path_augmented vma_upd c \<Longrightarrow> augmented vma_upd (propz t c)"
proof (induction t c rule: propz.induct)
  case (2 t f c)
  obtain d x s where f: "f = (d, x, s)" by (cases f)
  show ?case using 2 recomp_augmented[OF 2(2)] by (cases d) (simp_all add: f)
qed (simp add: recomp_augmented)

lemma propagate_step:
  assumes rep: "represents s (plug t c)" and a: "rootp t = Some a"
  shows "\<exists>h'. propagate (nodes s) a = Some h' \<and> represents (s\<lparr>nodes := h'\<rparr>) (plug (recomp t) c)
    \<and> get_parent h' a = Some (path_parent c) \<and> (\<forall>x. x \<noteq> a \<longrightarrow> h' x = nodes s x)"
proof -
  obtain l hh m r where t: "t = \<langle>l, (a, hh, m), r\<rangle>" using a by (cases t rule: rootp.cases) auto
  note n = represents_node[OF rep[unfolded t]]
  from propagate_node[OF n(1-3)] represents_update[OF rep[unfolded t], of "1 + max (ht l) (ht r)" "vma_upd m l r"]
  show ?thesis by (auto simp: t get_parent_def)
qed

lemma propagate_up_tree:
  assumes "represents s (plug t c)" "rootp t = Some a"
  shows "\<exists>h'. propagate_up (nodes s) a = Some h' \<and> represents (s\<lparr>nodes := h'\<rparr>) (propz t c)
    \<and> (\<forall>x. x \<notin> set (addrs (plug t c)) \<longrightarrow> h' x = nodes s x)"
  using assms
proof (induction t c arbitrary: s a rule: propz.induct)
  case (1 t)
  then show ?case
    using propagate_step[OF 1] rootp_in_addrs[OF 1(2)] by (subst propagate_up.simps) auto
next
  case (2 t f c)
  obtain d b hh m u where f: "f = (d, (b, hh, m), u)" by (cases f) auto
  obtain h1 where h1: "propagate (nodes s) a = Some h1" "represents (s\<lparr>nodes := h1\<rparr>) (plug (recomp t) (f # c))"
    "get_parent h1 a = Some (Some b)" "\<forall>x. x \<noteq> a \<longrightarrow> h1 x = nodes s x"
    using propagate_step[OF 2(2,3)] by (auto simp: f)
  obtain h2 where h2: "propagate_up h1 b = Some h2" "represents (s\<lparr>nodes := h2\<rparr>) (propz (fill f (recomp t)) c)"
    "\<forall>x. x \<notin> set (addrs (plug (fill f (recomp t)) c)) \<longrightarrow> h2 x = h1 x"
    using 2(1)[of "s\<lparr>nodes := h1\<rparr>" b] h1(2) by (auto simp: f)
  have "propagate_up (nodes s) a = Some h2" using h1 h2(1) by (subst propagate_up.simps) simp
  moreover have "h2 x = nodes s x" if "x \<notin> set (addrs (plug t (f # c)))" for x
    using that h1(4) h2(3) set_addrs_plug[of "recomp t" "f # c"] set_addrs_plug[of t "f # c"] rootp_in_addrs[OF 2(3)] by auto
  ultimately show ?case using h2(2) by auto
qed

text \<open>The contract of \<^verbatim>\<open>adjust\<close>: the range of one node of a tree has been overwritten in place.\<close>

definition vma_resize :: "vma_tree \<Rightarrow> addr \<Rightarrow> u64 \<Rightarrow> u64 \<Rightarrow> vma_tree option" where
  "vma_resize s a f l = do {
     h \<leftarrow> set_vma (nodes (vt s)) a (\<lambda>v. v\<lparr>vm_first := f, vm_last := l\<rparr>);
     Some (s\<lparr>vt := (vt s)\<lparr>nodes := h\<rparr>\<rparr>)
   }"

lemma succ_path_height:
  assumes "path_at_in h up hole c" "path_avl k c" "succ_of (after self c) = Some sc"
  shows "\<exists>n. get_height h sc = Some n \<and> k < n"
  using assms
proof (induction h up hole c arbitrary: k rule: path_at_in.induct)
  case (2 h up hole d a hh m s c)
  then show ?case by (cases d) (fastforce simp: succ_of_def get_height_def)+
qed (simp add: succ_of_def)

lemma succ_of_hd: "succ_of (contents self R @ xs) = (if R = \<langle>\<rangle> then succ_of xs else Some (fst (hd (contents self R))))"
  by (simp add: succ_of_def contents_leaf)

text \<open>Where the propagation starts: the lower one of the node and its successor.\<close>

lemma adjust_start:
  assumes rep: "represents t (plug \<langle>L, (a, hh, m), R'\<rangle> c')" and av: "avl (plug \<langle>L, (a, hh, m), R'\<rangle> c')"
    and R': "R' = gap_right q R" "c' = gap_path q R c"
    and ag: "augmented vma_upd L" "augmented vma_upd R" "path_augmented vma_upd c" and h: "nodes t = h"
  shows "\<exists>b t' p'. (case succ_of (contents self R @ after self c) of
        Some sc \<Rightarrow> do { sh \<leftarrow> get_height h sc; nh \<leftarrow> get_height h a; Some (h, if sh < nh then sc else a) }
      | None \<Rightarrow> Some (h, a)) = Some (h, b)
    \<and> rootp t' = Some b \<and> plug t' p' = plug \<langle>L, (a, hh, m), R'\<rangle> c' \<and> sub_augmented vma_upd t' \<and> path_augmented vma_upd p'"
proof -
  note rp = rep[unfolded represents_plug h] and n = represents_node[OF rep, unfolded h]
  have ga: "get_height h a = Some hh" using n(1) by (simp add: get_height_def)
  show ?thesis
  proof (cases "R = \<langle>\<rangle>")
    case True
    have "succ_of (after self c') = succ_of (after self c)"
      using True R'(2) by (simp add: upd_succ_after succ_of_def split: list.split)
    moreover have "path_at h (Some a) c'" "path_avl hh c'" using rp av by (auto simp: avl_plug)
    ultimately have "\<exists>n. get_height h sc = Some n \<and> hh < n" if "succ_of (after self c) = Some sc" for sc
      using succ_path_height that by metis
    then show ?thesis using True R' ag ga
      by (intro exI[of _ a] exI[of _ "\<langle>L, (a, hh, m), R'\<rangle>"] exI[of _ c']) (force simp: succ_of_hd split: option.split)
  next
    case False
    obtain z hz mz zr p where mp: "min_path R [] = ((z, hz, mz), zr, p)" by (metis prod_cases3)
    let ?z = "\<langle>\<langle>\<rangle>, (z, hz, gapf q mz), zr\<rangle>"
    have z: "plug ?z p = R'" using min_path_plug[OF _ upd_min_path[OF False mp, of "gapf q"]] False R'(1) by simp
    have sc: "succ_of (contents self R @ after self c) = Some z" using False min_path_hd[OF False mp] by (simp add: succ_of_hd)
    have R: "tree_at h (Some a) R'" "avl R'" "ht R' < hh" using n(3) av by (auto simp: avl_plug)
    then have "path_avl (ht ?z) p" "h z = Some \<lparr>child = case_dir None (rootp zr), parent = path_parent_in (Some a) p, avl_height = hz, \<dots> = gapf q mz\<rparr>"
      by (auto simp flip: z simp: avl_plug tree_at_plug)
    then have hz: "get_height h z = Some hz" "hz < hh"
      using path_avl_top[of ?z p] path_top_ge[of hz p] R(3) z by (auto simp: get_height_def)
    have "augmented vma_upd zr \<and> path_augmented vma_upd p"
      using path_avl_augmented[of vma_upd "\<langle>\<langle>\<rangle>, (z, hz, mz), zr\<rangle>" p] min_path_plug[OF False mp] ag(2) by simp
    then have "path_augmented vma_upd (p @ (RIGHT, (a, hh, m), L) # c) \<and> augmented vma_upd zr"
      using ag by (induction p) auto
    then show ?thesis using sc hz ga z R'(2) False
      by (intro exI[of _ z] exI[of _ ?z] exI[of _ "p @ (RIGHT, (a, hh, m), L) # c"]) (simp add: plug_append)
  qed
qed

lemma VMATree_adjust_tree:
  assumes rep: "represents (vt s) (plug \<langle>L, (a, hh, m), R\<rangle> c)" and av: "avl (plug \<langle>L, (a, hh, m), R\<rangle> c)"
    and ag: "augmented vma_upd L" "augmented vma_upd R" "path_augmented vma_upd c"
    and ls: "VMATree_prev s (Some a) = Some pred" "VMATree_next s (Some a) = Some (succ_of (contents self R @ after self c))"
    and e: "ends_at (nodes (vt s)) pred q"
  shows "\<exists>h' t'. VMATree_adjust s a = Some (s\<lparr>vt := (vt s)\<lparr>nodes := h'\<rparr>\<rparr>)
    \<and> represents ((vt s)\<lparr>nodes := h'\<rparr>) t' \<and> avl t' \<and> augmented vma_upd t'
    \<and> contents gx t' = contents gx (plug \<langle>L, (a, hh, gapf q m), gap_right (Some (vm_last m)) R\<rangle> (gap_path (Some (vm_last m)) R c))
    \<and> (\<forall>x. x \<notin> set (addrs (plug \<langle>L, (a, hh, m), R\<rangle> c)) \<longrightarrow> h' x = nodes (vt s) x)"
proof -
  let ?q = "Some (vm_last m)" and ?m = "gapf q m"
  let ?R = "gap_right ?q R" and ?c = "gap_path ?q R c"
  let ?T = "plug \<langle>L, (a, hh, ?m), ?R\<rangle> ?c"
  note n = represents_node[OF rep]
  let ?h1 = "(nodes (vt s))(a \<mapsto> \<lparr>child = case_dir (rootp L) (rootp R), parent = path_parent c, avl_height = hh, \<dots> = ?m\<rparr>)"
  have h1: "set_prev_gap (nodes (vt s)) a pred = Some ?h1" "ends_at ?h1 (Some a) ?q"
    using set_prev_gap_eq[OF n(1) e] by (simp_all add: ends_at_def get_object_def)
  obtain h2 where h2: "(case succ_of (contents self R @ after self c) of Some sc \<Rightarrow> set_prev_gap ?h1 sc (Some a) | None \<Rightarrow> Some ?h1) = Some h2"
    "represents ((vt s)\<lparr>nodes := h2\<rparr>) ?T" "\<forall>x. x \<notin> set (addrs R) \<union> path_addrs c \<longrightarrow> h2 x = ?h1 x"
    using succ_gap_at[OF represents_update[OF rep, of hh ?m] h1(2)] by metis
  have av': "avl ?T" using av by (auto simp: avl_plug)
  obtain b t' p' where b: "(case succ_of (contents self R @ after self c) of
        Some sc \<Rightarrow> do { sh \<leftarrow> get_height h2 sc; nh \<leftarrow> get_height h2 a; Some (h2, if sh < nh then sc else a) }
      | None \<Rightarrow> Some (h2, a)) = Some (h2, b)"
    "rootp t' = Some b" "plug t' p' = ?T" "sub_augmented vma_upd t'" "path_augmented vma_upd p'"
    using adjust_start[OF h2(2) av' refl refl ag, of h2] by auto
  obtain h3 where h3: "propagate_up h2 b = Some h3" "represents ((vt s)\<lparr>nodes := h3\<rparr>) (propz t' p')"
    "\<forall>x. x \<notin> set (addrs ?T) \<longrightarrow> h3 x = h2 x"
    using propagate_up_tree[of "(vt s)\<lparr>nodes := h2\<rparr>" t' p' b] h2(2) b(2,3) by auto
  have "VMATree_adjust s a = Some (s\<lparr>vt := (vt s)\<lparr>nodes := h3\<rparr>\<rparr>)"
    using ls h1(1) h2(1) b(1) h3(1) by (cases "succ_of (contents self R @ after self c)") (auto simp: VMATree_adjust_def split: if_splits)
  moreover have "h3 x = nodes (vt s) x" if "x \<notin> set (addrs (plug \<langle>L, (a, hh, m), R\<rangle> c))" for x
    using that h3(3) h2(3) by (simp add: set_addrs_plug)
  moreover have "avl (propz t' p')" "augmented vma_upd (propz t' p')" "contents gx (propz t' p') = contents gx ?T"
    using propz_avl[of t' p'] propz_augmented b(3-5) av' by (auto simp: propz_contents)
  ultimately show ?thesis using h3(2) by (intro exI[of _ h3] exI[of _ "propz t' p'"]) simp
qed


lemma VMATree_adjust_holds:
  assumes hold: "vma_holds s0 (xs @ (a, f0, l0) # ys)" and rs: "vma_resize s0 a f l = Some s"
    and o: "ordered (xs @ (a, f, l) # ys)"
  shows "\<exists>s'. VMATree_adjust s a = Some s' \<and> vma_holds s' (xs @ (a, f, l) # ys) \<and> list_anchor s' = list_anchor s0
     \<and> vlist s' = vlist s0 \<and> (\<forall>x. x \<notin> fst ` set (xs @ (a, f, l) # ys) \<longrightarrow> nodes (vt s') x = nodes (vt s0) x)"
proof -
  obtain L hh m0 R c where t: "represents (vt s0) (plug \<langle>L, (a, hh, m0), R\<rangle> c)" "avl (plug \<langle>L, (a, hh, m0), R\<rangle> c)"
    "augmented vma_upd (plug \<langle>L, (a, hh, m0), R\<rangle> c)" "before gx c @ contents gx L = with_gaps None xs"
    "contents gx R @ after gx c = with_gaps (Some l0) ys"
    using holds_split[OF hold] by blast
  have rg: "ring (vlist s0) (list_anchor s0) (map fst (xs @ (a, f0, l0) # ys))" using hold by (simp add: vma_holds_def)
  let ?m = "m0\<lparr>vm_first := f, vm_last := l\<rparr>" and ?q = "end_of None xs"
  have s: "s = s0\<lparr>vt := (vt s0)\<lparr>nodes := (nodes (vt s0))(a \<mapsto> \<lparr>child = case_dir (rootp L) (rootp R), parent = path_parent c, avl_height = hh, \<dots> = ?m\<rparr>)\<rparr>\<rparr>"
    using rs represents_node(1)[OF t(1)] by (simp add: vma_resize_def object_access)
  have rep: "represents (vt s) (plug \<langle>L, (a, hh, ?m), R\<rangle> c)" "avl (plug \<langle>L, (a, hh, ?m), R\<rangle> c)"
    using represents_update[OF t(1), of hh ?m] t(2) by (auto simp: s avl_plug)
  have mb: "map (\<lambda>(a, m). (a, gx m)) (before self c @ contents self L) = with_gaps None xs"
    "map (\<lambda>(a, m). (a, gx m)) (contents self R @ after self c) = with_gaps (Some l0) ys"
    using t(4,5) by (simp_all add: map_gx)
  have e: "ends_at (nodes (vt s)) (pred_of xs) ?q"
    using ends_at_last[OF _ mb(1), of "nodes (vt s)" None "plug \<langle>L, (a, hh, ?m), R\<rangle> c"] rep(1)
    by (auto simp: represents_def contents_plug)
  have ls: "VMATree_prev s (Some a) = Some (pred_of xs)" "VMATree_next s (Some a) = Some (succ_of (contents self R @ after self c))"
    using VMATree_neighbours_of[of s xs a "(f, l)" ys] rg succ_of_gx[OF mb(2)] by (simp_all add: s)
  have ag: "augmented vma_upd L" "augmented vma_upd R" "path_augmented vma_upd c" using path_avl_augmented[OF t(3)] by auto
  obtain h' t' where t': "VMATree_adjust s a = Some (s\<lparr>vt := (vt s)\<lparr>nodes := h'\<rparr>\<rparr>)"
    "represents ((vt s)\<lparr>nodes := h'\<rparr>) t'" "avl t'" "augmented vma_upd t'"
    "contents gx t' = contents gx (plug \<langle>L, (a, hh, gapf ?q ?m), gap_right (Some l) R\<rangle> (gap_path (Some l) R c))"
    "\<forall>x. x \<notin> set (addrs (plug \<langle>L, (a, hh, ?m), R\<rangle> c)) \<longrightarrow> h' x = nodes (vt s) x"
    using VMATree_adjust_tree[OF rep ag ls e] by auto
  have "contents gx t' = with_gaps None (xs @ (a, f, l) # ys)"
  proof -
    have "contents gx t' = (before gx c @ contents gx L) @ (a, gx (gapf ?q ?m)) # contents gx (gap_right (Some l) R) @ after gx (gap_path (Some l) R c)"
      by (simp add: t'(5) contents_plug)
    then show ?thesis unfolding t(4) contents_gap[OF t(5)] by (simp add: with_gaps_append gx_gapf split: option.split)
  qed
  then have "vma_holds (s\<lparr>vt := (vt s)\<lparr>nodes := h'\<rparr>\<rparr>) (xs @ (a, f, l) # ys)"
    using o rg t'(2-4) by (auto simp: vma_holds_def s)
  moreover have "h' x = nodes (vt s0) x" if "x \<notin> fst ` set (xs @ (a, f, l) # ys)" for x
  proof -
    have "x \<notin> set (addrs (plug \<langle>L, (a, hh, ?m), R\<rangle> c))" "x \<noteq> a"
      using that split_addrs[OF t(4,5), of a hh ?m] by (auto simp: image_Un)
    then show ?thesis using t'(6)[rule_format, of x] by (simp add: s)
  qed
  ultimately show ?thesis using t'(1) by (intro exI[of _ "s\<lparr>vt := (vt s)\<lparr>nodes := h'\<rparr>\<rparr>"]) (simp add: s)
qed

end
