(* ===== verification/Dsl_VMA_Find.thy ===== *)
theory Dsl_VMA_Find
  imports Dsl_VMA_Remove
begin

text \<open>
  Lookup in the VMA tree (\<^verbatim>\<open>dsl/vmafind.cc\<close>): the three searches by address and the two searches
  for a free hole. The hole searches walk the tree in order, or in reverse order, with the help of
  \<open>goto\<close>s; they skip a subtree whose \<open>biggest_gap\<close> is too small. Each is shown to return exactly
  the lowest, or highest, suitable address.
\<close>

section \<open>Lookup by address\<close>

partial_function (option) vma_find :: "vma avl_heap \<Rightarrow> u64 \<Rightarrow> ptr \<Rightarrow> ptr option" where
  "vma_find h address current = (case current of
     None \<Rightarrow> Some nullptr
   | Some c \<Rightarrow> do {
       v \<leftarrow> get_object h c;
       if address < vm_first v then do { l \<leftarrow> get_child h c LEFT; vma_find h address l }
       else if address > vm_last v then do { r \<leftarrow> get_child h c RIGHT; vma_find h address r }
       else Some (Some c)
     })"

definition VMATree_find :: "vma_tree \<Rightarrow> u64 \<Rightarrow> ptr option" where
  "VMATree_find s address = vma_find (nodes (vt s)) address (m_root (vt s))"

partial_function (option) vma_find_above :: "vma avl_heap \<Rightarrow> u64 \<Rightarrow> ptr \<Rightarrow> ptr \<Rightarrow> ptr option" where
  "vma_find_above h address current found = (case current of
     None \<Rightarrow> Some found
   | Some c \<Rightarrow> do {
       v \<leftarrow> get_object h c;
       if address > vm_last v then do { r \<leftarrow> get_child h c RIGHT; vma_find_above h address r found }
       else do { l \<leftarrow> get_child h c LEFT; vma_find_above h address l (Some c) }
     })"

definition VMATree_find_above :: "vma_tree \<Rightarrow> u64 \<Rightarrow> ptr option" where
  "VMATree_find_above s address = vma_find_above (nodes (vt s)) address (m_root (vt s)) nullptr"

partial_function (option) vma_find_below :: "vma avl_heap \<Rightarrow> u64 \<Rightarrow> ptr \<Rightarrow> ptr \<Rightarrow> ptr option" where
  "vma_find_below h address current found = (case current of
     None \<Rightarrow> Some found
   | Some c \<Rightarrow> do {
       v \<leftarrow> get_object h c;
       if address \<le> vm_first v then do { l \<leftarrow> get_child h c LEFT; vma_find_below h address l found }
       else do { r \<leftarrow> get_child h c RIGHT; vma_find_below h address r (Some c) }
     })"

definition VMATree_find_below :: "vma_tree \<Rightarrow> u64 \<Rightarrow> ptr option" where
  "VMATree_find_below s address = vma_find_below (nodes (vt s)) address (m_root (vt s)) nullptr"

section \<open>Holes\<close>

text \<open>The labels of the two search loops, and how a loop ends: with a hole, with \<open>return false\<close>, or by \<open>break\<close>.\<close>

datatype find_label = Loop_head | Look_at_current | Look_at_other | Go_up

datatype find_result = Found u64 | Not_found | Break

text \<open>The arguments of a search: \<open>size\<close>, \<open>align\<close>, \<open>min_addr\<close> and \<open>max_addr\<close>.\<close>

record hole_request =
  rq_size :: u64
  rq_align :: u64
  rq_min :: u64
  rq_max :: u64

text \<open>The bounds of the gap in front of \<open>current\<close>, clipped to the range of the request.\<close>

definition clipped_gap :: "vma_tree \<Rightarrow> addr \<Rightarrow> hole_request \<Rightarrow> (u64 \<times> u64) option" where
  "clipped_gap s current rq = do {
     v \<leftarrow> get_object (nodes (vt s)) current;
     tmp \<leftarrow> VMATree_prev s (Some current);
     gap_start \<leftarrow> (case tmp of
        Some t \<Rightarrow> do { w \<leftarrow> get_object (nodes (vt s)) t; Some (vm_last w + 1) }
      | None \<Rightarrow> Some 0);
     let gap_end = vm_first v;
     let gap_start = dsl_max gap_start (rq_min rq);
     let gap_end = (if rq_max rq \<noteq> VMA_TREE_MAX then dsl_min gap_end (rq_max rq + 1) else gap_end);
     Some (gap_start, gap_end)
   }"

text \<open>Lines after \<^verbatim>\<open>look_at_current\<close>: a result ends the search, \<^const>\<open>None\<close> goes on with the other subtree.\<close>

definition bottomup_look :: "vma_tree \<Rightarrow> hole_request \<Rightarrow> addr \<Rightarrow> find_result option option" where
  "bottomup_look s rq current = do {
     (gap_start, gap_end) \<leftarrow> clipped_gap s current rq;
     let alloc_start = align_up gap_start (rq_align rq);
     Some (if alloc_start < gap_start \<or> gap_end \<le> alloc_start then None
       else if gap_end - alloc_start \<ge> rq_size rq then Some (Found alloc_start)
       else if gap_end \<ge> rq_max rq then Some Not_found
       else None)
   }"

partial_function (option) bottomup :: "vma_tree \<Rightarrow> hole_request \<Rightarrow> find_label \<Rightarrow> addr \<Rightarrow> find_result option" where
  "bottomup s rq label current = (case label of
     Loop_head \<Rightarrow> do {
       v \<leftarrow> get_object (nodes (vt s)) current;
       if biggest_gap v < rq_size rq then bottomup s rq Go_up current
       else do {
         tmp \<leftarrow> get_child (nodes (vt s)) current LEFT;
         (case tmp of
            Some l \<Rightarrow> if vm_first v > rq_min rq then bottomup s rq Loop_head l
                      else bottomup s rq Look_at_current current
          | None \<Rightarrow> bottomup s rq Look_at_current current)
       }
     }
   | Look_at_current \<Rightarrow> do {
       r \<leftarrow> bottomup_look s rq current;
       (case r of
          Some result \<Rightarrow> Some result
        | None \<Rightarrow> bottomup s rq Look_at_other current)
     }
   | Look_at_other \<Rightarrow> do {
       tmp \<leftarrow> get_child (nodes (vt s)) current RIGHT;
       (case tmp of
          Some r \<Rightarrow> bottomup s rq Loop_head r
        | None \<Rightarrow> bottomup s rq Go_up current)
     }
   | Go_up \<Rightarrow> do {
       par \<leftarrow> get_parent (nodes (vt s)) current;
       (case par of
          None \<Rightarrow> Some Break
        | Some p \<Rightarrow> do {
            r \<leftarrow> get_child (nodes (vt s)) p RIGHT;
            if r = Some current then bottomup s rq Go_up p
            else bottomup s rq Look_at_current p
          })
     })"

text \<open>The checks on the request. The range of all addresses is exempt from the second, whose sum would wrap.\<close>

definition bad_request :: "hole_request \<Rightarrow> bool" where
  "bad_request rq \<longleftrightarrow>
     rq_size rq = 0 \<or> (rq_max rq < rq_min rq \<or> rq_max rq < rq_size rq)
     \<or> ((rq_max rq \<noteq> VMA_TREE_MAX \<or> rq_min rq \<noteq> 0) \<and> rq_max rq - rq_min rq + 1 < rq_size rq)"

definition VMATree_find_free_bottomup :: "vma_tree \<Rightarrow> hole_request \<Rightarrow> u64 option option" where
  "VMATree_find_free_bottomup s rq =
     (if bad_request rq then Some None
      else do {
        r \<leftarrow> (case m_root (vt s) of
           None \<Rightarrow> Some Break
         | Some root \<Rightarrow> bottomup s rq Loop_head root);
        (case r of
           Found a \<Rightarrow> Some (Some a)
         | Not_found \<Rightarrow> Some None
         | Break \<Rightarrow> do {
             current \<leftarrow> VMATree_last s;
             last_addr \<leftarrow> (case current of
                Some c \<Rightarrow> do { v \<leftarrow> get_object (nodes (vt s)) c; Some (Some (vm_last v)) }
              | None \<Rightarrow> Some None);
             if last_addr = Some VMA_TREE_MAX then Some None
             else do {
               let gap_start = dsl_max (case last_addr of Some e \<Rightarrow> e + 1 | None \<Rightarrow> 0) (rq_min rq);
               let alloc_start = align_up gap_start (rq_align rq);
               if alloc_start < gap_start then Some None
               else do {
                 let gap_end = alloc_start + rq_size rq - 1;
                 if gap_end < alloc_start \<or> gap_end > rq_max rq then Some None
                 else Some (Some alloc_start)
               }
             }
           })
      })"

definition topdown_look :: "vma_tree \<Rightarrow> hole_request \<Rightarrow> addr \<Rightarrow> find_result option option" where
  "topdown_look s rq current = do {
     (gap_start, gap_end) \<leftarrow> clipped_gap s current rq;
     let alloc_start = align_up gap_start (rq_align rq);
     Some (if alloc_start < gap_start \<or> gap_end \<le> alloc_start then None
       else if gap_end - alloc_start \<ge> rq_size rq then Some (Found (align_down (gap_end - rq_size rq) (rq_align rq)))
       else if gap_start \<le> rq_min rq then Some Not_found
       else None)
   }"

partial_function (option) topdown :: "vma_tree \<Rightarrow> hole_request \<Rightarrow> find_label \<Rightarrow> addr \<Rightarrow> find_result option" where
  "topdown s rq label current = (case label of
     Loop_head \<Rightarrow> do {
       v \<leftarrow> get_object (nodes (vt s)) current;
       if biggest_gap v < rq_size rq then topdown s rq Go_up current
       else do {
         tmp \<leftarrow> get_child (nodes (vt s)) current RIGHT;
         (case tmp of
            Some r \<Rightarrow> if vm_last v < rq_max rq then topdown s rq Loop_head r
                      else topdown s rq Look_at_current current
          | None \<Rightarrow> topdown s rq Look_at_current current)
       }
     }
   | Look_at_current \<Rightarrow> do {
       r \<leftarrow> topdown_look s rq current;
       (case r of
          Some result \<Rightarrow> Some result
        | None \<Rightarrow> topdown s rq Look_at_other current)
     }
   | Look_at_other \<Rightarrow> do {
       tmp \<leftarrow> get_child (nodes (vt s)) current LEFT;
       (case tmp of
          Some l \<Rightarrow> topdown s rq Loop_head l
        | None \<Rightarrow> topdown s rq Go_up current)
     }
   | Go_up \<Rightarrow> do {
       par \<leftarrow> get_parent (nodes (vt s)) current;
       (case par of
          None \<Rightarrow> Some Not_found
        | Some p \<Rightarrow> do {
            l \<leftarrow> get_child (nodes (vt s)) p LEFT;
            if l = Some current then topdown s rq Go_up p
            else topdown s rq Look_at_current p
          })
     })"

text \<open>The gap behind the last node: the highest address of the range, if a hole fits below it.\<close>

definition topdown_last :: "hole_request \<Rightarrow> u64 option \<Rightarrow> u64 option" where
  "topdown_last rq last_addr =
     (if last_addr = Some VMA_TREE_MAX then None
      else let gap_start = dsl_max (case last_addr of Some e \<Rightarrow> e + 1 | None \<Rightarrow> 0) (rq_min rq);
               alloc_start = align_up gap_start (rq_align rq)
           in if alloc_start < gap_start then None
              else let gap_end = alloc_start + rq_size rq - 1
                   in if gap_end \<ge> alloc_start \<and> gap_end \<le> rq_max rq
                      then Some (align_down (rq_max rq + 1 - rq_size rq) (rq_align rq)) else None)"

definition VMATree_find_free_topdown :: "vma_tree \<Rightarrow> hole_request \<Rightarrow> u64 option option" where
  "VMATree_find_free_topdown s rq =
     (if bad_request rq then Some None
      else do {
        current \<leftarrow> VMATree_last s;
        last_addr \<leftarrow> (case current of
           Some c \<Rightarrow> do { v \<leftarrow> get_object (nodes (vt s)) c; Some (Some (vm_last v)) }
         | None \<Rightarrow> Some None);
        (case topdown_last rq last_addr of
           Some a \<Rightarrow> Some (Some a)
         | None \<Rightarrow> (case m_root (vt s) of
              None \<Rightarrow> Some None
            | Some root \<Rightarrow> do {
                r \<leftarrow> topdown s rq Loop_head root;
                Some (case r of Found a \<Rightarrow> Some a | _ \<Rightarrow> None)
              }))
      })"

section \<open>The sequence of nodes\<close>

type_synonym entry = "addr \<times> vma"

abbreviation e_first :: "entry \<Rightarrow> u64" where
  "e_first x \<equiv> vm_first (snd x)"

abbreviation e_last :: "entry \<Rightarrow> u64" where
  "e_last x \<equiv> vm_last (snd x)"

text \<open>Entries in order behind an end \<open>p\<close>, each with the right gap.\<close>

fun gapped :: "u64 option \<Rightarrow> entry list \<Rightarrow> bool" where
  "gapped p [] = True"
| "gapped p (x # ms) = ((case p of None \<Rightarrow> prev_gap (snd x) = e_first x
      | Some q \<Rightarrow> q < e_first x \<and> prev_gap (snd x) = e_first x - q - 1)
     \<and> e_first x \<le> e_last x \<and> gapped (Some (e_last x)) ms)"

definition endp :: "u64 option \<Rightarrow> entry list \<Rightarrow> u64 option" where
  "endp p ms = (if ms = [] then p else Some (e_last (last ms)))"

lemma endp_simps [simp]: "endp p [] = p" "endp p (x # ms) = endp (Some (e_last x)) ms"
  "endp p (ms @ ns) = endp (endp p ms) ns"
  by (auto simp: endp_def)

lemma gapped_append: "gapped p (ms @ ns) \<longleftrightarrow> gapped p ms \<and> gapped (endp p ms) ns"
  by (induction ms arbitrary: p) auto

lemma gapped_after: "gapped (Some q) ms \<Longrightarrow> x \<in> set ms \<Longrightarrow> q < e_first x"
proof (induction ms arbitrary: q)
  case (Cons y ms)
  then show ?case using Cons.IH[of "e_last y"] by (cases "x = y") (auto intro: less_le_trans le_less_trans order.strict_trans)
qed simp

lemma gapped_order: "gapped p ms \<Longrightarrow> x \<in> set ms \<Longrightarrow> e_first x \<le> e_last x"
  by (induction ms arbitrary: p) auto

lemma gapped_sorted: "gapped p ms \<Longrightarrow> sorted_wrt (\<lambda>x y. e_last x < e_first y) ms"
proof (induction ms arbitrary: p)
  case (Cons y ms)
  then show ?case using gapped_after by auto
qed simp

lemma gapped_before: "gapped p (ms @ [y]) \<Longrightarrow> x \<in> set ms \<Longrightarrow> e_last x < e_first y"
  using gapped_sorted[of p "ms @ [y]"] by (auto simp: sorted_wrt_append)

lemma gapped_le_last: "gapped p ms \<Longrightarrow> x \<in> set ms \<Longrightarrow> e_last x \<le> e_last (last ms)"
proof (induction ms arbitrary: p)
  case (Cons y ms)
  show ?case
  proof (cases "ms = []")
    case False
    have g: "gapped (Some (e_last y)) ms" using Cons.prems(1) by simp
    have "e_last y \<le> e_last (last ms)"
      using gapped_after[OF g last_in_set[OF False]] gapped_order[OF g last_in_set[OF False]] by (meson less_imp_le order_trans)
    then show ?thesis using Cons.IH[OF g] Cons.prems(2) False by auto
  qed (use Cons.prems in simp)
qed simp

lemma with_gaps_gapped:
  assumes "map (\<lambda>(a, m). (a, gx m)) ms = with_gaps p zs" "ordered zs" "\<And>q z. p = Some q \<Longrightarrow> z \<in> set zs \<Longrightarrow> q < r_first z"
  shows "gapped p ms"
  using assms
proof (induction ms arbitrary: p zs)
  case (Cons x ms)
  obtain a f l zs' where zs: "zs = (a, f, l) # zs'" using Cons.prems(1) by (cases zs) auto
  have "gapped (Some l) ms"
  proof (rule Cons.IH)
    show "map (\<lambda>(a, m). (a, gx m)) ms = with_gaps (Some l) zs'" "ordered zs'" using Cons.prems by (auto simp: zs ordered_Cons)
    show "q < r_first z" if "Some l = Some q" "z \<in> set zs'" for q z
      using Cons.prems(2) that by (simp add: zs ordered_Cons)
  qed
  moreover have "q < f" if "p = Some q" for q using Cons.prems(3)[OF that, of "(a, f, l)"] by (simp add: zs)
  ultimately show ?case using Cons.prems(1,2) by (cases x) (auto simp: zs gx_def ordered_Cons split: option.splits)
qed simp

text \<open>What a state in which the tree holds \<open>zs\<close> gives to a search.\<close>

definition searchable :: "vma_tree \<Rightarrow> vma atree \<Rightarrow> bool" where
  "searchable s t \<longleftrightarrow> represents (vt s) t \<and> augmented vma_upd t
     \<and> ring (vlist s) (list_anchor s) (map fst (contents self t)) \<and> gapped None (contents self t)"

lemma holds_searchable:
  assumes "vma_holds s zs"
  shows "\<exists>t. searchable s t \<and> map (\<lambda>x. (fst x, e_first x, e_last x)) (contents self t) = zs"
proof -
  obtain t where t: "represents (vt s) t" "augmented vma_upd t" "contents gx t = with_gaps None zs"
    and o: "ordered zs" "ring (vlist s) (list_anchor s) (map fst zs)"
    using assms by (auto simp: vma_holds_def)
  have m: "map (\<lambda>(a, m). (a, gx m)) (contents self t) = with_gaps None zs" using t(3) by (simp add: map_gx)
  have "map (\<lambda>(a, f, l, g). (a, f, l)) (with_gaps None zs) = zs" by (rule with_gaps_ranges)
  then have "map (\<lambda>x. (fst x, e_first x, e_last x)) (contents self t) = zs"
    by (simp add: m[symmetric] comp_def case_prod_beta gx_def)
  moreover from this have "map fst (contents self t) = map fst zs" by (metis (no_types, lifting) comp_apply fst_conv map_eq_conv map_map)
  moreover have "gapped None (contents self t)" using with_gaps_gapped[OF m o(1)] by simp
  ultimately show ?thesis using t(1,2) o(2) unfolding searchable_def by (intro exI[of _ t]) simp
qed

section \<open>Lookup is search in the sequence\<close>

abbreviation found_in :: "entry option \<Rightarrow> ptr" where
  "found_in r \<equiv> map_option fst r"

lemma tree_at_access:
  assumes "tree_at h par \<langle>l, (a, hh, m), r\<rangle>"
  shows "get_object h a = Some m" "get_child h a LEFT = Some (rootp l)" "get_child h a RIGHT = Some (rootp r)"
    "get_parent h a = Some par" "tree_at h (Some a) l" "tree_at h (Some a) r"
  using assms by (simp_all add: get_object_def node_access)

lemma find_append: "List.find P (xs @ ys) = (case List.find P xs of None \<Rightarrow> List.find P ys | Some x \<Rightarrow> Some x)"
  by (induction xs) auto

lemma find_None: "(\<And>x. x \<in> set xs \<Longrightarrow> \<not> P x) \<Longrightarrow> List.find P xs = None"
  by (auto simp: find_None_iff)

lemma vma_find_tree:
  "tree_at h par t \<Longrightarrow> gapped p (contents self t) \<Longrightarrow>
   vma_find h address (rootp t) = Some (found_in (List.find (\<lambda>x. e_first x \<le> address \<and> address \<le> e_last x) (contents self t)))"
proof (induction t arbitrary: par p)
  case Leaf
  then show ?case by (subst vma_find.simps) simp
next
  case (Node l x r)
  obtain a hh m where x: "x = (a, hh, m)" by (cases x)
  note t = tree_at_access[OF Node.prems(1)[unfolded x]]
  let ?P = "\<lambda>x. e_first x \<le> address \<and> address \<le> e_last x"
  have g: "gapped p (contents self l)" "gapped (Some (vm_last m)) (contents self r)" "gapped p (contents self l @ [(a, m)])"
    "vm_first m \<le> vm_last m"
    using Node.prems(2) by (auto simp: x gapped_append)
  have L: "\<not> ?P y" if "y \<in> set (contents self l)" "vm_first m \<le> address" for y
    using gapped_before[OF g(3) that(1)] that(2) by auto
  have R: "\<not> ?P y" if "y \<in> set (contents self r)" "address \<le> vm_last m" for y
    using gapped_after[OF g(2) that(1)] that(2) by auto
  note IH = Node.IH(1)[OF t(5) g(1)] Node.IH(2)[OF t(6) g(2)]
  consider "address < vm_first m" | "vm_last m < address" | "vm_first m \<le> address" "address \<le> vm_last m"
    using g(4) by (meson not_le)
  then show ?case
  proof cases
    case 1
    then have "List.find ?P (contents self r) = None" using g(4) by (intro find_None R) auto
    then show ?thesis using t(1-3) IH 1 by (subst vma_find.simps) (auto simp: x find_append split: option.split)
  next
    case 2
    then have "List.find ?P (contents self l) = None" using g(4) by (intro find_None L) auto
    then show ?thesis using t(1-3) IH 2 g(4) by (subst vma_find.simps) (auto simp: x find_append)
  next
    case 3
    then have "List.find ?P (contents self l) = None" by (intro find_None L) auto
    then show ?thesis using t(1-3) 3 by (subst vma_find.simps) (auto simp: x find_append)
  qed
qed

lemma vma_find_above_tree:
  "tree_at h par t \<Longrightarrow> gapped p (contents self t) \<Longrightarrow>
   vma_find_above h address (rootp t) found
     = Some (case List.find (\<lambda>x. address \<le> e_last x) (contents self t) of Some x \<Rightarrow> Some (fst x) | None \<Rightarrow> found)"
proof (induction t arbitrary: par p found)
  case Leaf
  then show ?case by (subst vma_find_above.simps) simp
next
  case (Node l x r)
  obtain a hh m where x: "x = (a, hh, m)" by (cases x)
  note t = tree_at_access[OF Node.prems(1)[unfolded x]]
  let ?P = "\<lambda>x. address \<le> e_last x"
  have g: "gapped p (contents self l)" "gapped (Some (vm_last m)) (contents self r)" "gapped p (contents self l @ [(a, m)])"
    "vm_first m \<le> vm_last m"
    using Node.prems(2) by (auto simp: x gapped_append)
  note IH = Node.IH(1)[OF t(5) g(1)] Node.IH(2)[OF t(6) g(2)]
  show ?case
  proof (cases "vm_last m < address")
    case True
    have "\<not> ?P y" if "y \<in> set (contents self l)" for y
      using gapped_before[OF g(3) that] g(4) True by auto
    then have "List.find ?P (contents self l) = None" by (intro find_None)
    then show ?thesis using t(1-3) IH True by (subst vma_find_above.simps) (auto simp: x find_append)
  next
    case False
    then show ?thesis using t(1-3) IH by (subst vma_find_above.simps) (auto simp: x find_append split: option.split)
  qed
qed

lemma vma_find_below_tree:
  "tree_at h par t \<Longrightarrow> gapped p (contents self t) \<Longrightarrow>
   vma_find_below h address (rootp t) found
     = Some (case List.find (\<lambda>x. e_first x < address) (rev (contents self t)) of Some x \<Rightarrow> Some (fst x) | None \<Rightarrow> found)"
proof (induction t arbitrary: par p found)
  case Leaf
  then show ?case by (subst vma_find_below.simps) simp
next
  case (Node l x r)
  obtain a hh m where x: "x = (a, hh, m)" by (cases x)
  note t = tree_at_access[OF Node.prems(1)[unfolded x]]
  let ?P = "\<lambda>x. e_first x < address"
  have g: "gapped p (contents self l)" "gapped (Some (vm_last m)) (contents self r)" "vm_first m \<le> vm_last m"
    using Node.prems(2) by (auto simp: x gapped_append)
  note IH = Node.IH(1)[OF t(5) g(1)] Node.IH(2)[OF t(6) g(2)]
  show ?case
  proof (cases "address \<le> vm_first m")
    case True
    have "\<not> ?P y" if "y \<in> set (contents self r)" for y
      using gapped_after[OF g(2) that] g(3) True by auto
    then have "List.find ?P (rev (contents self r)) = None" by (intro find_None) simp
    then show ?thesis using t(1-3) IH True by (subst vma_find_below.simps) (auto simp: x find_append)
  next
    case False
    then show ?thesis using t(1-3) IH by (subst vma_find_below.simps) (auto simp: x find_append not_le split: option.split)
  qed
qed

section \<open>Holes in the sequence\<close>

abbreviation start_of :: "u64 option \<Rightarrow> u64" where
  "start_of p \<equiv> (case p of Some e \<Rightarrow> e + 1 | None \<Rightarrow> 0)"

definition gap_lo :: "hole_request \<Rightarrow> u64 option \<Rightarrow> u64" where
  "gap_lo rq p = dsl_max (start_of p) (rq_min rq)"

definition gap_hi :: "hole_request \<Rightarrow> u64 \<Rightarrow> u64" where
  "gap_hi rq f = (if rq_max rq \<noteq> VMA_TREE_MAX then dsl_min f (rq_max rq + 1) else f)"

text \<open>Whether the gap between an end \<open>p\<close> and the start \<open>f\<close> of the next node has room for the request.\<close>

definition gap_fits :: "hole_request \<Rightarrow> u64 option \<Rightarrow> u64 \<Rightarrow> bool" where
  "gap_fits rq p f \<longleftrightarrow> (let a = align_up (gap_lo rq p) (rq_align rq)
     in \<not> a < gap_lo rq p \<and> a < gap_hi rq f \<and> rq_size rq \<le> gap_hi rq f - a)"

definition tail_fits :: "hole_request \<Rightarrow> u64 option \<Rightarrow> bool" where
  "tail_fits rq p \<longleftrightarrow> p \<noteq> Some VMA_TREE_MAX \<and> (let a = align_up (gap_lo rq p) (rq_align rq); e = a + rq_size rq - 1
     in \<not> a < gap_lo rq p \<and> a \<le> e \<and> e \<le> rq_max rq)"

fun first_fit :: "hole_request \<Rightarrow> u64 option \<Rightarrow> entry list \<Rightarrow> u64 option" where
  "first_fit rq p [] = (if tail_fits rq p then Some (align_up (gap_lo rq p) (rq_align rq)) else None)"
| "first_fit rq p (x # ms) = (if gap_fits rq p (e_first x) then Some (align_up (gap_lo rq p) (rq_align rq))
     else first_fit rq (Some (e_last x)) ms)"

text \<open>Usable addresses: aligned, in range, and with all of the block free.\<close>

definition base_ok :: "hole_request \<Rightarrow> u64 option \<Rightarrow> u64 \<Rightarrow> bool" where
  "base_ok rq p b \<longleftrightarrow> unat (rq_align rq) dvd unat b \<and> rq_min rq \<le> b \<and> (\<forall>e. p = Some e \<longrightarrow> e < b)
     \<and> unat b + unat (rq_size rq) \<le> unat (rq_max rq) + 1"

definition hole_at :: "hole_request \<Rightarrow> u64 option \<Rightarrow> entry list \<Rightarrow> u64 \<Rightarrow> bool" where
  "hole_at rq p ms b \<longleftrightarrow> base_ok rq p b \<and> (\<forall>x \<in> set ms. unat b + unat (rq_size rq) \<le> unat (e_first x) \<or> e_last x < b)"

definition valid_rq :: "hole_request \<Rightarrow> bool" where
  "valid_rq rq \<longleftrightarrow> (\<exists>k < 64. rq_align rq = 2 ^ k) \<and> rq_size rq \<noteq> 0"

lemma unat_max_64: "unat VMA_TREE_MAX = 18446744073709551615"
  by (simp add: VMA_TREE_MAX_def unsigned_minus_1_eq_mask mask_eq_exp_minus_1)

lemma start_of_gap_lo:
  assumes "\<And>e. p = Some e \<Longrightarrow> e < f"
  shows "gap_lo rq p \<le> b \<longleftrightarrow> rq_min rq \<le> b \<and> (\<forall>e. p = Some e \<longrightarrow> e < b)"
proof (cases p)
  case None
  then show ?thesis by (simp add: gap_lo_def dsl_max_def not_less)
next
  case (Some e)
  then have "unat e < 18446744073709551615" using assms[of e] unat_lt_64[of f] by (simp add: word_less_nat_alt)
  then have "unat (e + 1) = unat e + 1" by (simp add: unat_add_64)
  then show ?thesis using Some by (auto simp: gap_lo_def word_le_nat_alt word_less_nat_alt unat_dsl_max)
qed

lemma unat_gap_hi: "unat (gap_hi rq f) = min (unat f) (unat (rq_max rq) + 1)"
proof (cases "rq_max rq = VMA_TREE_MAX")
  case True
  then show ?thesis using unat_lt_64[of f] by (simp add: gap_hi_def unat_max_64)
next
  case False
  then have "unat (rq_max rq) \<noteq> 18446744073709551615" using unat_max_64 by (metis unsigned_word_eqI)
  then have "unat (rq_max rq + 1) = unat (rq_max rq) + 1" using unat_lt_64[of "rq_max rq"] by (simp add: unat_add_64)
  then show ?thesis using False by (simp add: gap_hi_def unat_dsl_min)
qed

lemma align_up_least_from:
  assumes "valid_rq rq"
  shows "\<not> align_up v (rq_align rq) < v \<longleftrightarrow> (\<exists>b. v \<le> b \<and> unat (rq_align rq) dvd unat b)"
    and "\<not> align_up v (rq_align rq) < v \<Longrightarrow> unat (rq_align rq) dvd unat (align_up v (rq_align rq) :: u64)"
    and "v \<le> b \<Longrightarrow> unat (rq_align rq) dvd unat b \<Longrightarrow> align_up v (rq_align rq) \<le> (b :: u64)"
proof -
  obtain k where k: "k < 64" "rq_align rq = 2 ^ k" using assms by (auto simp: valid_rq_def)
  note ke = k(2) unat_pow2[OF k(1)]
  have nt: "\<not> 2 ^ k dvd unat b" if "\<not> unat v + 2 ^ k \<le> 18446744073709551616" "v \<le> b" for b
    using no_multiple_near_top[OF k(1) that] .
  show d: "unat (rq_align rq) dvd unat (align_up v (rq_align rq) :: u64)" for v :: u64
    using dvd_align_up[OF k(1), of v] by (simp add: ke)
  show le: "align_up v (rq_align rq) \<le> b" if "v \<le> b" "unat (rq_align rq) dvd unat b" for b
  proof -
    have "unat v + 2 ^ k \<le> 18446744073709551616" using nt[of b] that by (auto simp: ke)
    then show ?thesis using that k(1) by (auto simp: ke(1) word_le_nat_alt unat_align_up unat_pow2 intro: round_up_least)
  qed
  show "\<not> align_up v (rq_align rq) < v \<longleftrightarrow> (\<exists>b. v \<le> b \<and> unat (rq_align rq) dvd unat b)"
  proof
    assume "\<not> align_up v (rq_align rq) < v"
    then show "\<exists>b. v \<le> b \<and> unat (rq_align rq) dvd unat b" using d by (intro exI[of _ "align_up v (rq_align rq)"]) auto
  next
    assume "\<exists>b. v \<le> b \<and> unat (rq_align rq) dvd unat b"
    then have "unat v + 2 ^ k \<le> 18446744073709551616" using nt by (auto simp: ke)
    then show "\<not> align_up v (rq_align rq) < v" using align_up_ge_iff[OF k(1), of v] by (simp add: ke(1) not_less)
  qed
qed

text \<open>A gap fits exactly if it has a usable address; the one taken is the lowest.\<close>

lemma gap_fits_hole:
  assumes v: "valid_rq rq" and p: "\<And>e. p = Some e \<Longrightarrow> e < f" and fits: "gap_fits rq p f"
  shows "base_ok rq p (align_up (gap_lo rq p) (rq_align rq))"
    and "unat (align_up (gap_lo rq p) (rq_align rq) :: u64) + unat (rq_size rq) \<le> unat f"
proof -
  let ?a = "align_up (gap_lo rq p) (rq_align rq) :: u64"
  have f: "\<not> ?a < gap_lo rq p" "?a < gap_hi rq f" "rq_size rq \<le> gap_hi rq f - ?a"
    using fits by (auto simp: gap_fits_def Let_def)
  have "unat (rq_size rq) \<le> unat (gap_hi rq f) - unat ?a" "unat ?a < unat (gap_hi rq f)"
    using f(2,3) by (simp_all add: unat_arith_64)
  then have le: "unat ?a + unat (rq_size rq) \<le> min (unat f) (unat (rq_max rq) + 1)" unfolding unat_gap_hi[symmetric] by simp
  have "gap_lo rq p \<le> ?a" using f(1) by simp
  then have "rq_min rq \<le> ?a" "\<forall>e. p = Some e \<longrightarrow> e < ?a" using start_of_gap_lo[of p f rq ?a] p by blast+
  then show "base_ok rq p ?a" using align_up_least_from(2)[OF v f(1)] le by (simp add: base_ok_def)
  show "unat ?a + unat (rq_size rq) \<le> unat f" using le by simp
qed

lemma hole_gap_fits:
  assumes v: "valid_rq rq" and p: "\<And>e. p = Some e \<Longrightarrow> e < f"
    and b: "base_ok rq p b" "unat b + unat (rq_size rq) \<le> unat f"
  shows "gap_fits rq p f" and "align_up (gap_lo rq p) (rq_align rq) \<le> b"
proof -
  let ?a = "align_up (gap_lo rq p) (rq_align rq) :: u64"
  have b': "gap_lo rq p \<le> b" "unat (rq_align rq) dvd unat b" "unat b + unat (rq_size rq) \<le> unat (rq_max rq) + 1"
    using b(1) start_of_gap_lo[of p f rq b] p by (auto simp: base_ok_def)
  show le: "?a \<le> b" using align_up_least_from(3)[OF v b'(1,2)] .
  have sz: "unat (rq_size rq) \<noteq> 0" using v by (simp add: valid_rq_def unat_eq_zero)
  have "unat ?a + unat (rq_size rq) \<le> unat (gap_hi rq f)"
    using le b(2) b'(3) unfolding unat_gap_hi by (simp add: word_le_nat_alt)
  then have "?a < gap_hi rq f" "rq_size rq \<le> gap_hi rq f - ?a" using sz by (auto simp: unat_arith_64)
  moreover have "\<not> ?a < gap_lo rq p" using align_up_least_from(1)[OF v, of "gap_lo rq p"] b'(1,2) by blast
  ultimately show "gap_fits rq p f" by (simp add: gap_fits_def Let_def)
qed

lemma gap_lo_top: "p \<noteq> Some VMA_TREE_MAX \<Longrightarrow> gap_lo rq p \<le> b \<longleftrightarrow> rq_min rq \<le> b \<and> (\<forall>e. p = Some e \<longrightarrow> e < b)"
  by (rule start_of_gap_lo[of p VMA_TREE_MAX]) (auto simp: VMA_TREE_MAX_def word_order.not_eq_extremum)

lemma tail_end:
  assumes "rq_size rq \<noteq> 0"
  shows "(let e = a + rq_size rq - 1 in a \<le> e \<and> e \<le> rq_max rq) \<longleftrightarrow> unat a + unat (rq_size rq) \<le> unat (rq_max rq) + 1"
proof -
  have sz: "unat (rq_size rq) \<noteq> 0" using assms by (simp add: unat_eq_zero)
  have e: "a + rq_size rq - 1 = a + (rq_size rq - 1)" by simp
  have "unat (rq_size rq - 1) = unat (rq_size rq) - 1" using sz by (simp add: unat_sub_64)
  then show ?thesis
    using sz unat_lt_64[of a] unat_lt_64[of "rq_size rq"] unat_lt_64[of "rq_max rq"]
    unfolding Let_def e word_le_nat_alt unat_add_64 by auto
qed

lemma tail_fits_hole:
  assumes v: "valid_rq rq" and fits: "tail_fits rq p"
  shows "base_ok rq p (align_up (gap_lo rq p) (rq_align rq))"
proof -
  let ?a = "align_up (gap_lo rq p) (rq_align rq) :: u64"
  have f: "\<not> ?a < gap_lo rq p" "unat ?a + unat (rq_size rq) \<le> unat (rq_max rq) + 1" and p: "p \<noteq> Some VMA_TREE_MAX"
    using fits tail_end[of rq ?a] v by (auto simp: tail_fits_def Let_def valid_rq_def)
  moreover have "rq_min rq \<le> ?a \<and> (\<forall>e. p = Some e \<longrightarrow> e < ?a)" using gap_lo_top[OF p, of rq ?a] f(1) by (simp add: not_less)
  ultimately show ?thesis using align_up_least_from(2)[OF v f(1)] by (simp add: base_ok_def)
qed

lemma hole_tail_fits:
  assumes v: "valid_rq rq" and b: "base_ok rq p b"
  shows "tail_fits rq p" and "align_up (gap_lo rq p) (rq_align rq) \<le> b"
proof -
  let ?a = "align_up (gap_lo rq p) (rq_align rq) :: u64"
  have p: "p \<noteq> Some VMA_TREE_MAX" using b by (auto simp: base_ok_def VMA_TREE_MAX_def)
  have b': "gap_lo rq p \<le> b" "unat (rq_align rq) dvd unat b" "unat b + unat (rq_size rq) \<le> unat (rq_max rq) + 1"
    using b gap_lo_top[OF p, of rq b] by (auto simp: base_ok_def)
  show le: "?a \<le> b" using align_up_least_from(3)[OF v b'(1,2)] .
  moreover have "\<not> ?a < gap_lo rq p" using align_up_least_from(1)[OF v, of "gap_lo rq p"] b'(1,2) by blast
  ultimately show "tail_fits rq p"
    using p tail_end[of rq ?a] v b'(3) by (auto simp: tail_fits_def Let_def valid_rq_def word_le_nat_alt)
qed

lemma hole_at_Cons:
  assumes v: "valid_rq rq" and g: "gapped p (x # ms)"
  shows "hole_at rq p (x # ms) b \<longleftrightarrow> base_ok rq p b \<and> unat b + unat (rq_size rq) \<le> unat (e_first x) \<or> hole_at rq (Some (e_last x)) ms b"
proof
  assume h: "hole_at rq p (x # ms) b"
  then show "base_ok rq p b \<and> unat b + unat (rq_size rq) \<le> unat (e_first x) \<or> hole_at rq (Some (e_last x)) ms b"
    by (auto simp: hole_at_def base_ok_def)
next
  assume h: "base_ok rq p b \<and> unat b + unat (rq_size rq) \<le> unat (e_first x) \<or> hole_at rq (Some (e_last x)) ms b"
  have xl: "e_first x \<le> e_last x" and px: "p = Some e \<Longrightarrow> e < e_first x" for e using g by (auto split: option.splits)
  have "unat (e_first x) \<le> unat (e_first y)" if "y \<in> set ms" for y
    using gapped_after[of "e_last x" ms y] g that xl by (simp add: word_less_nat_alt word_le_nat_alt)
  moreover have "e < b" if "p = Some e" "e_last x < b" for e using px[OF that(1)] xl that(2) by (meson less_trans le_less_trans)
  ultimately show "hole_at rq p (x # ms) b"
    using h by (auto simp: hole_at_def base_ok_def intro: order_trans)
qed

lemma first_fit_least:
  assumes v: "valid_rq rq"
  shows "gapped p ms \<Longrightarrow> (case first_fit rq p ms of
     Some a \<Rightarrow> hole_at rq p ms a \<and> (\<forall>b. hole_at rq p ms b \<longrightarrow> a \<le> b) | None \<Rightarrow> \<forall>b. \<not> hole_at rq p ms b)"
proof (induction ms arbitrary: p)
  case Nil
  then show ?case using tail_fits_hole[OF v, of p] hole_tail_fits[OF v, of p] by (auto simp: hole_at_def)
next
  case (Cons x ms)
  have p: "\<And>e. p = Some e \<Longrightarrow> e < e_first x" and xl: "e_first x \<le> e_last x" using Cons.prems by (auto split: option.splits)
  note H = hole_at_Cons[OF v Cons.prems] and F = gap_fits_hole[OF v p] hole_gap_fits[OF v p]
  show ?case
  proof (cases "gap_fits rq p (e_first x)")
    case True
    let ?a = "align_up (gap_lo rq p) (rq_align rq) :: u64"
    have "?a \<le> b" if "hole_at rq (Some (e_last x)) ms b" for b
    proof -
      have "unat ?a \<le> unat (e_first x)" using F(2)[OF _ True] by simp
      moreover have "e_last x < b" using that by (simp add: hole_at_def base_ok_def)
      ultimately show ?thesis using xl by (simp add: word_le_nat_alt word_less_nat_alt)
    qed
    then show ?thesis using True F(1,2)[OF _ True] F(4) by (auto simp: H)
  next
    case False
    then have "\<not> (base_ok rq p b \<and> unat b + unat (rq_size rq) \<le> unat (e_first x))" for b using F(3) by blast
    then have "hole_at rq p (x # ms) b \<longleftrightarrow> hole_at rq (Some (e_last x)) ms b" for b using H by blast
    then show ?thesis using Cons.IH[of "Some (e_last x)"] Cons.prems False by (cases "first_fit rq (Some (e_last x)) ms") simp_all
  qed
qed

section \<open>The upward walk\<close>

text \<open>Gaps that the walk does not look at do not fit.\<close>

lemma no_fit_small:
  assumes "case p of None \<Rightarrow> prev_gap (snd x) = e_first x | Some q \<Rightarrow> q < e_first x \<and> prev_gap (snd x) = e_first x - q - 1"
    and "prev_gap (snd x) < rq_size rq"
  shows "\<not> gap_fits rq p (e_first x)"
proof
  assume f: "gap_fits rq p (e_first x)"
  let ?a = "align_up (gap_lo rq p) (rq_align rq) :: u64"
  have "unat (rq_size rq) \<le> unat (gap_hi rq (e_first x)) - unat ?a" "unat ?a < unat (gap_hi rq (e_first x))" "unat (gap_lo rq p) \<le> unat ?a"
    using f by (auto simp: gap_fits_def Let_def unat_arith_64)
  then have "unat (gap_lo rq p) + unat (rq_size rq) \<le> unat (e_first x)" unfolding unat_gap_hi by linarith
  moreover have "unat (start_of p) \<le> unat (gap_lo rq p)" by (simp add: gap_lo_def unat_dsl_max)
  ultimately show False
    using assms unat_lt_64[of "e_first x"] by (auto simp: unat_arith_64 split: option.splits if_splits)
qed

lemma no_fit_low: "e_first x \<le> rq_min rq \<Longrightarrow> \<not> gap_fits rq p (e_first x)"
  by (auto simp: gap_fits_def Let_def gap_lo_def gap_hi_def dsl_max_def dsl_min_def split: if_splits)

lemma first_fit_skip:
  "gapped p ms \<Longrightarrow> (\<And>x. x \<in> set ms \<Longrightarrow> prev_gap (snd x) < rq_size rq \<or> e_first x \<le> rq_min rq) \<Longrightarrow>
   first_fit rq p (ms @ ns) = first_fit rq (endp p ms) ns"
proof (induction ms arbitrary: p)
  case (Cons x ms)
  have "\<not> gap_fits rq p (e_first x)" using no_fit_small[of x p rq] no_fit_low[of x rq p] Cons.prems(1) Cons.prems(2)[of x] by auto
  then show ?case using Cons by simp
qed simp

lemma no_fit_high:
  assumes "rq_max rq \<le> e" "e < f"
  shows "\<not> gap_fits rq (Some e) f"
proof
  assume f: "gap_fits rq (Some e) f"
  let ?a = "align_up (gap_lo rq (Some e)) (rq_align rq) :: u64"
  have "gap_lo rq (Some e) \<le> ?a" "?a < gap_hi rq f" using f by (auto simp: gap_fits_def Let_def)
  moreover have "e < ?a" using calculation(1) start_of_gap_lo[of "Some e" f rq ?a] assms(2) by blast
  ultimately show False using assms unfolding word_less_nat_alt word_le_nat_alt unat_gap_hi by simp
qed

lemma first_fit_stop: "rq_max rq \<le> e \<Longrightarrow> gapped (Some e) ms \<Longrightarrow> first_fit rq (Some e) ms = None"
proof (induction ms arbitrary: e)
  case Nil
  show ?case
  proof (cases "e = VMA_TREE_MAX")
    case False
    let ?a = "align_up (gap_lo rq (Some e)) (rq_align rq) :: u64"
    have "e < ?a" if "\<not> ?a < gap_lo rq (Some e)" using that gap_lo_top[of "Some e" rq ?a] False by auto
    then show ?thesis using Nil.prems by (auto simp: tail_fits_def Let_def)
  qed (simp add: tail_fits_def)
next
  case (Cons x ms)
  have "e < e_first x" "e_first x \<le> e_last x" using Cons.prems(2) by auto
  moreover from this have "rq_max rq \<le> e_last x" using Cons.prems(1) by (meson le_less_trans less_imp_le less_le_trans)
  ultimately show ?case using no_fit_high[of rq e "e_first x"] Cons by simp
qed

lemma max_gap: "augmented vma_upd t \<Longrightarrow> x \<in> set (contents self t) \<Longrightarrow> prev_gap (snd x) \<le> mgap t"
proof (induction t)
  case (Node l y r)
  obtain a hh m where y: "y = (a, hh, m)" by (cases y)
  have "mgap \<langle>l, y, r\<rangle> = dsl_max (prev_gap m) (dsl_max (mgap l) (mgap r))"
    using Node.prems(1) by (simp add: y vma_upd_def) (metis vma.select_convs(4) vma.surjective vma.update_convs(4))
  then show ?case using Node by (auto simp: y word_le_nat_alt unat_dsl_max)
qed simp

lemma searchable_node:
  assumes s: "searchable s (plug \<langle>l, (a, hh, m), r\<rangle> c)"
  shows "get_object (nodes (vt s)) a = Some m" "get_child (nodes (vt s)) a LEFT = Some (rootp l)"
    "get_child (nodes (vt s)) a RIGHT = Some (rootp r)" "get_parent (nodes (vt s)) a = Some (path_parent c)"
    "gapped None (before self c @ contents self l)"
    "gapped (endp None (before self c @ contents self l)) ((a, m) # contents self r @ after self c)"
    "rootp l \<noteq> None \<Longrightarrow> rootp l \<noteq> rootp r"
    "clipped_gap s a rq = Some (gap_lo rq (endp None (before self c @ contents self l)), gap_hi rq (vm_first m))"
proof -
  let ?ms = "before self c @ contents self l" and ?T = "plug \<langle>l, (a, hh, m), r\<rangle> c"
  have rep: "represents (vt s) ?T" using s by (simp add: searchable_def)
  note n = represents_node[OF rep] and rp = rep[unfolded represents_plug]
  show ob: "get_object (nodes (vt s)) a = Some m" "get_child (nodes (vt s)) a LEFT = Some (rootp l)"
    "get_child (nodes (vt s)) a RIGHT = Some (rootp r)" "get_parent (nodes (vt s)) a = Some (path_parent c)"
    using n(1) by (simp_all add: get_object_def node_access)
  have ct: "contents self ?T = ?ms @ (a, m) # contents self r @ after self c" by (simp add: contents_plug)
  show "gapped None ?ms" "gapped (endp None ?ms) ((a, m) # contents self r @ after self c)"
    using s by (simp_all add: searchable_def ct gapped_append del: gapped.simps append_assoc)
  show "rootp l \<noteq> rootp r" if "rootp l \<noteq> None"
    using that rp rootp_in_addrs[of l] rootp_in_addrs[of r] by (cases "rootp l") auto
  have prev: "VMATree_prev s (Some a) = Some (pred_of ?ms)"
    using VMATree_neighbours_of(2)[of s ?ms a m "contents self r @ after self c"] s by (simp add: searchable_def ct)
  have "get_object (nodes (vt s)) (fst (last ?ms)) = Some (snd (last ?ms))" if "?ms \<noteq> []"
    using tree_at_object[of "nodes (vt s)" None ?T "fst (last ?ms)" "snd (last ?ms)"] rep that last_in_set[of ?ms]
    unfolding ct represents_def by auto
  then show "clipped_gap s a rq = Some (gap_lo rq (endp None ?ms), gap_hi rq (vm_first m))"
    using prev ob(1) by (cases "?ms = []") (auto simp: clipped_gap_def pred_of_def endp_def gap_lo_def gap_hi_def)
qed

text \<open>What the caller makes of the end of the loop.\<close>

fun up_result :: "hole_request \<Rightarrow> u64 option \<Rightarrow> find_result \<Rightarrow> u64 option" where
  "up_result rq e (Found a) = Some a"
| "up_result rq e Not_found = None"
| "up_result rq e Break = first_fit rq e []"

definition up_yields :: "vma_tree \<Rightarrow> hole_request \<Rightarrow> vma atree \<Rightarrow> find_label \<Rightarrow> addr \<Rightarrow> u64 option \<Rightarrow> bool" where
  "up_yields s rq t label a r \<longleftrightarrow>
     (\<exists>x. bottomup s rq label a = Some x \<and> up_result rq (endp None (contents self t)) x = r)"

lemma bottomup_current:
  assumes s: "searchable s t" and t: "t = plug \<langle>l, (a, hh, m), r\<rangle> c"
    and other: "up_yields s rq t Look_at_other a (first_fit rq (Some (vm_last m)) (contents self r @ after self c))"
  shows "up_yields s rq t Look_at_current a
    (first_fit rq (endp None (before self c @ contents self l)) ((a, m) # contents self r @ after self c))"
proof -
  note n = searchable_node[OF s[unfolded t]]
  let ?p = "endp None (before self c @ contents self l)" and ?rest = "contents self r @ after self c"
  let ?lo = "gap_lo rq ?p" and ?hi = "gap_hi rq (vm_first m)"
  let ?a = "align_up ?lo (rq_align rq) :: u64"
  have look: "bottomup_look s rq a = Some (if ?a < ?lo \<or> ?hi \<le> ?a then None else if rq_size rq \<le> ?hi - ?a then Some (Found ?a)
     else if rq_max rq \<le> ?hi then Some Not_found else None)"
    using n(8)[of rq] by (simp add: bottomup_look_def Let_def del: endp_simps)
  have g: "vm_first m \<le> vm_last m" "gapped (Some (vm_last m)) ?rest" using n(6) by auto
  have stop: "first_fit rq (Some (vm_last m)) ?rest = None" if "rq_max rq \<le> ?hi"
  proof (rule first_fit_stop[OF _ g(2)])
    have "unat (rq_max rq) \<le> unat (vm_first m)" using that unfolding word_le_nat_alt unat_gap_hi by simp
    then show "rq_max rq \<le> vm_last m" using g(1) by (simp add: word_le_nat_alt)
  qed
  have fits: "gap_fits rq ?p (vm_first m) \<longleftrightarrow> \<not> (?a < ?lo \<or> ?hi \<le> ?a) \<and> rq_size rq \<le> ?hi - ?a"
    by (auto simp: gap_fits_def Let_def)
  show ?thesis
    using other look stop unfolding up_yields_def
    by (subst bottomup.simps) (auto simp: fits simp del: endp_simps split: if_splits)
qed

lemma bottomup_go_up:
  assumes s: "searchable s t" and t: "t = plug u ((d, (a, hh, m), w) # c)" and b: "rootp u = Some b"
  shows "bottomup s rq Go_up b = bottomup s rq (if d = RIGHT then Go_up else Look_at_current) a"
proof -
  obtain l bh bm r where u: "u = \<langle>l, (b, bh, bm), r\<rangle>" using b by (cases u rule: rootp.cases) auto
  have "get_parent (nodes (vt s)) b = Some (Some a)"
    using searchable_node(4)[of s l b bh bm r "(d, (a, hh, m), w) # c"] s by (simp add: t u)
  moreover have "get_child (nodes (vt s)) a RIGHT = Some (if d = RIGHT then Some b else rootp w)" "d = LEFT \<Longrightarrow> rootp w \<noteq> Some b"
    using searchable_node(3)[of s w a hh m u c] searchable_node(3,7)[of s u a hh m w c] s b by (cases d; auto simp: t)+
  ultimately show ?thesis by (subst bottomup.simps) (cases d; simp)
qed

lemma bottomup_enter:
  assumes s: "searchable s t"
  shows "t = plug u c \<Longrightarrow> rootp u = Some b \<Longrightarrow>
    up_yields s rq t Go_up b (first_fit rq (endp None (before self c @ contents self u)) (after self c)) \<Longrightarrow>
    up_yields s rq t Loop_head b (first_fit rq (endp None (before self c)) (contents self u @ after self c))"
proof (induction u arbitrary: c b)
  case (Node l x r)
  obtain hh m where x: "x = (b, hh, m)" using Node.prems(2) by (cases x) auto
  note t = Node.prems(1)[unfolded x]
  note n = searchable_node[OF s[unfolded t]]
  have bt: "bottomup s rq Go_up e = bottomup s rq Go_up b" if "rootp r = Some e" for e
    using bottomup_go_up[OF s, of r RIGHT b hh m l c e] t that by simp
  have other: "up_yields s rq t Look_at_other b (first_fit rq (Some (vm_last m)) (contents self r @ after self c))"
  proof (cases "rootp r")
    case None
    then show ?thesis using Node.prems(3) n(3) unfolding up_yields_def by (subst bottomup.simps) (simp add: x)
  next
    case (Some e)
    have "up_yields s rq t Loop_head e (first_fit rq (Some (vm_last m)) (contents self r @ after self c))"
      using Node.IH(2)[of "(RIGHT, (b, hh, m), l) # c" e] Node.prems(3) Some t bt[OF Some] by (simp add: x up_yields_def)
    then show ?thesis using n(3) Some unfolding up_yields_def by (subst bottomup.simps) simp
  qed
  note look = bottomup_current[OF s t other]
  have g: "gapped (endp None (before self c)) (contents self l @ [(b, m)])" "gapped (endp None (before self c)) (contents self \<langle>l, x, r\<rangle>)"
    using n(5,6) by (auto simp: gapped_append x)
  show ?case
  proof (cases "biggest_gap m < rq_size rq")
    case True
    have "augmented vma_upd \<langle>l, x, r\<rangle>" using s path_avl_augmented[of vma_upd "\<langle>l, x, r\<rangle>" c] Node.prems(1) by (simp add: searchable_def)
    then have "prev_gap (snd y) < rq_size rq" if "y \<in> set (contents self \<langle>l, x, r\<rangle>)" for y
      using max_gap[OF _ that] True by (auto simp: x)
    then have "first_fit rq (endp None (before self c)) (contents self \<langle>l, x, r\<rangle> @ after self c)
      = first_fit rq (endp None (before self c @ contents self \<langle>l, x, r\<rangle>)) (after self c)"
      using first_fit_skip[OF g(2)] by (simp del: contents_simps)
    then show ?thesis using Node.prems(3) n(1) True unfolding up_yields_def by (subst bottomup.simps) (simp del: contents_simps endp_simps)
  next
    case False
    let ?R = "first_fit rq (endp None (before self c)) (contents self l @ (b, m) # contents self r @ after self c)"
    have skip: "up_yields s rq t Look_at_current b ?R" if "l = \<langle>\<rangle> \<or> vm_first m \<le> rq_min rq"
    proof -
      have "e_first y \<le> rq_min rq" if "y \<in> set (contents self l)" for y
        using gapped_before[OF g(1) that] gapped_order[OF g(1), of y] that \<open>l = \<langle>\<rangle> \<or> vm_first m \<le> rq_min rq\<close>
        by (auto intro: order_trans less_imp_le)
      then have "?R = first_fit rq (endp None (before self c @ contents self l)) ((b, m) # contents self r @ after self c)"
        using first_fit_skip[of "endp None (before self c)" "contents self l"] g(1) by (simp add: gapped_append)
      then show ?thesis using look by simp
    qed
    have left: "up_yields s rq t Loop_head e ?R" if e: "rootp l = Some e" for e
    proof -
      have "bottomup s rq Go_up e = bottomup s rq Look_at_current b"
        using bottomup_go_up[OF s, of l LEFT b hh m r c e] t e by simp
      then show ?thesis using Node.IH(1)[of "(LEFT, (b, hh, m), r) # c" e] look e t by (simp add: up_yields_def)
    qed
    show ?thesis
      using skip left n(1,2) False unfolding up_yields_def
      by (subst bottomup.simps) (auto simp: x not_less split: option.split)
  qed
qed simp

lemma bottomup_up:
  assumes s: "searchable s t"
  shows "t = plug u c \<Longrightarrow> rootp u = Some b \<Longrightarrow>
    up_yields s rq t Go_up b (first_fit rq (endp None (before self c @ contents self u)) (after self c))"
proof (induction c arbitrary: u b)
  case Nil
  obtain l bh bm r where u: "u = \<langle>l, (b, bh, bm), r\<rangle>" using Nil.prems(2) by (cases u rule: rootp.cases) auto
  have "get_parent (nodes (vt s)) b = Some None" using searchable_node(4)[of s l b bh bm r "[]"] s Nil.prems u by simp
  then show ?case using Nil.prems(1) unfolding up_yields_def by (subst bottomup.simps) simp
next
  case (Cons f c)
  obtain d a hh m w where f: "f = (d, (a, hh, m), w)" by (cases f) auto
  note gu = bottomup_go_up[OF s, of u d a hh m w c b rq]
  show ?case
  proof (cases d)
    case RIGHT
    then show ?thesis using Cons.IH[of "\<langle>w, (a, hh, m), u\<rangle>" a] gu Cons.prems by (simp add: f up_yields_def)
  next
    case LEFT
    have t: "t = plug \<langle>u, (a, hh, m), w\<rangle> c" using Cons.prems(1) by (simp add: f LEFT)
    note n = searchable_node[OF s[unfolded t]]
    have up: "up_yields s rq t Go_up a (first_fit rq (endp (Some (vm_last m)) (contents self w)) (after self c))"
      using Cons.IH[OF t] by simp
    have "up_yields s rq t Look_at_other a (first_fit rq (Some (vm_last m)) (contents self w @ after self c))"
    proof (cases "rootp w")
      case None
      then show ?thesis using up n(3) unfolding up_yields_def by (subst bottomup.simps) simp
    next
      case (Some e)
      have "bottomup s rq Go_up e = bottomup s rq Go_up a"
        using bottomup_go_up[OF s, of w RIGHT a hh m u c e] t Some by simp
      then have "up_yields s rq t Loop_head e (first_fit rq (Some (vm_last m)) (contents self w @ after self c))"
        using bottomup_enter[OF s, of w "(RIGHT, (a, hh, m), u) # c" e rq] up Some t by (simp add: up_yields_def)
      then show ?thesis using n(3) Some unfolding up_yields_def by (subst bottomup.simps) simp
    qed
    from bottomup_current[OF s t this] show ?thesis using gu Cons.prems by (simp add: f LEFT up_yields_def)
  qed
qed

lemma searchable_last:
  assumes s: "searchable s t"
  shows "\<exists>current. VMATree_last s = Some current \<and>
    (case current of Some c \<Rightarrow> do { v \<leftarrow> get_object (nodes (vt s)) c; Some (Some (vm_last v)) } | None \<Rightarrow> Some None)
      = Some (endp None (contents self t))"
proof -
  let ?ms = "contents self t"
  have "VMATree_last s = Some (pred_of ?ms)"
    using VMATree_neighbours(2)[of s ?ms "[] :: entry list"] s by (simp add: searchable_def VMATree_last_def succ_of_def)
  moreover have "get_object (nodes (vt s)) (fst (last ?ms)) = Some (snd (last ?ms))" if "?ms \<noteq> []"
    using tree_at_object[of "nodes (vt s)" None t "fst (last ?ms)" "snd (last ?ms)"] s last_in_set[OF that]
    by (simp add: searchable_def represents_def)
  ultimately show ?thesis by (cases "?ms = []") (auto simp: pred_of_def endp_def)
qed

lemma find_free_bottomup_eq:
  assumes s: "searchable s t" and rq: "\<not> bad_request rq"
  shows "VMATree_find_free_bottomup s rq = Some (first_fit rq None (contents self t))"
proof -
  have root: "m_root (vt s) = rootp t" using s by (simp add: searchable_def represents_def)
  obtain current where cur: "VMATree_last s = Some current"
    "(case current of Some c \<Rightarrow> do { v \<leftarrow> get_object (nodes (vt s)) c; Some (Some (vm_last v)) } | None \<Rightarrow> Some None)
      = Some (endp None (contents self t))" using searchable_last[OF s] by blast
  let ?e = "endp None (contents self t)"
  obtain x where x: "(case m_root (vt s) of None \<Rightarrow> Some Break | Some root \<Rightarrow> bottomup s rq Loop_head root) = Some x"
    "up_result rq ?e x = first_fit rq None (contents self t)"
  proof (cases "rootp t")
    case None
    then show thesis using that[of Break] root by simp
  next
    case (Some b)
    have "up_yields s rq t Loop_head b (first_fit rq None (contents self t))"
      using bottomup_enter[OF s, of t "[]" b rq] bottomup_up[OF s, of t "[]" b rq] Some by simp
    then show thesis using that root Some by (auto simp: up_yields_def)
  qed
  show ?thesis
  proof (cases x)
    case Break
    have "first_fit rq None (contents self t) = first_fit rq ?e []" using x(2) Break by simp
    also have "\<dots> = (if ?e = Some VMA_TREE_MAX then None else let g = dsl_max (start_of ?e) (rq_min rq); a = align_up g (rq_align rq); e = a + rq_size rq - 1
       in if a < g then None else if e < a \<or> e > rq_max rq then None else Some a)"
      unfolding first_fit.simps tail_fits_def gap_lo_def Let_def by auto
    finally show ?thesis using rq x(1) cur by (simp add: VMATree_find_free_bottomup_def Break Let_def)
  qed (use rq x in \<open>simp_all add: VMATree_find_free_bottomup_def\<close>)
qed

section \<open>The downward walk\<close>

fun or_else :: "'a option \<Rightarrow> 'a option \<Rightarrow> 'a option" where
  "or_else (Some a) b = Some a"
| "or_else None b = b"

lemma or_else_None [simp]: "or_else a None = a"
  by (cases a) auto

lemma or_else_assoc: "or_else (or_else a b) c = or_else a (or_else b c)"
  by (cases a) auto

abbreviation down_addr :: "hole_request \<Rightarrow> u64 \<Rightarrow> u64" where
  "down_addr rq hi \<equiv> align_down (hi - rq_size rq) (rq_align rq)"

fun last_fit :: "hole_request \<Rightarrow> u64 option \<Rightarrow> entry list \<Rightarrow> u64 option" where
  "last_fit rq p [] = None"
| "last_fit rq p (x # ms) = or_else (last_fit rq (Some (e_last x)) ms)
     (if gap_fits rq p (e_first x) then Some (down_addr rq (gap_hi rq (e_first x))) else None)"

lemma last_fit_append: "last_fit rq p (ms @ ns) = or_else (last_fit rq (endp p ms) ns) (last_fit rq p ms)"
  by (induction ms arbitrary: p) (auto simp: or_else_assoc)

lemma last_fit_skip:
  "gapped p ms \<Longrightarrow> (\<And>x. x \<in> set ms \<Longrightarrow> prev_gap (snd x) < rq_size rq \<or> e_first x \<le> rq_min rq) \<Longrightarrow> last_fit rq p ms = None"
proof (induction ms arbitrary: p)
  case (Cons x ms)
  have "\<not> gap_fits rq p (e_first x)" using no_fit_small[of x p rq] no_fit_low[of x rq p] Cons.prems(1) Cons.prems(2)[of x] by auto
  then show ?case using Cons by simp
qed simp

lemma last_fit_high: "rq_max rq \<le> e \<Longrightarrow> gapped (Some e) ms \<Longrightarrow> last_fit rq (Some e) ms = None"
proof (induction ms arbitrary: e)
  case (Cons x ms)
  have "e < e_first x" "e_first x \<le> e_last x" using Cons.prems(2) by auto
  moreover from this have "rq_max rq \<le> e_last x" using Cons.prems(1) by (meson le_less_trans less_imp_le less_le_trans)
  ultimately show ?case using no_fit_high[of rq e "e_first x"] Cons by simp
qed simp

fun down_result :: "find_result \<Rightarrow> u64 option" where
  "down_result (Found a) = Some a"
| "down_result _ = None"

definition down_yields :: "vma_tree \<Rightarrow> hole_request \<Rightarrow> find_label \<Rightarrow> addr \<Rightarrow> u64 option \<Rightarrow> bool" where
  "down_yields s rq label a r \<longleftrightarrow> (\<exists>x. topdown s rq label a = Some x \<and> down_result x = r)"

lemma topdown_current:
  assumes s: "searchable s t" and t: "t = plug \<langle>l, (a, hh, m), r\<rangle> c"
    and other: "down_yields s rq Look_at_other a (last_fit rq None (before self c @ contents self l))"
  shows "down_yields s rq Look_at_current a (last_fit rq None (before self c @ contents self l @ [(a, m)]))"
proof -
  note n = searchable_node[OF s[unfolded t]]
  let ?ms = "before self c @ contents self l"
  let ?p = "endp None ?ms"
  let ?lo = "gap_lo rq ?p" and ?hi = "gap_hi rq (vm_first m)"
  let ?a = "align_up ?lo (rq_align rq) :: u64"
  have look: "topdown_look s rq a = Some (if ?a < ?lo \<or> ?hi \<le> ?a then None else if rq_size rq \<le> ?hi - ?a then Some (Found (down_addr rq ?hi))
     else if ?lo \<le> rq_min rq then Some Not_found else None)"
    using n(8)[of rq] by (simp add: topdown_look_def Let_def del: endp_simps)
  have stop: "last_fit rq None ?ms = None" if "?lo \<le> rq_min rq"
  proof (rule last_fit_skip[OF n(5)])
    fix x assume x: "x \<in> set ?ms"
    then have p: "?p = Some (e_last (last ?ms))" by (auto simp: endp_def)
    have "e_last (last ?ms) < vm_first m" using n(6) p by auto
    then have "e_last (last ?ms) < rq_min rq" using start_of_gap_lo[of ?p "vm_first m" rq "rq_min rq"] that p by auto
    moreover have "e_last x \<le> e_last (last ?ms)"
      using gapped_le_last[OF n(5) x] .
    ultimately show "prev_gap (snd x) < rq_size rq \<or> e_first x \<le> rq_min rq"
      using gapped_order[OF n(5) x] by (meson le_less_trans less_imp_le order_trans)
  qed
  have fits: "gap_fits rq ?p (vm_first m) \<longleftrightarrow> \<not> (?a < ?lo \<or> ?hi \<le> ?a) \<and> rq_size rq \<le> ?hi - ?a"
    by (auto simp: gap_fits_def Let_def)
  have "last_fit rq None (before self c @ contents self l @ [(a, m)])
     = or_else (if gap_fits rq ?p (vm_first m) then Some (down_addr rq ?hi) else None) (last_fit rq None ?ms)"
    using last_fit_append[of rq None ?ms "[(a, m)]"] by simp
  then show ?thesis
    using other look stop unfolding down_yields_def
    by (subst topdown.simps) (auto simp: fits simp del: endp_simps split: if_splits)
qed

lemma topdown_go_up:
  assumes s: "searchable s t" and t: "t = plug u ((d, (a, hh, m), w) # c)" and b: "rootp u = Some b"
  shows "topdown s rq Go_up b = topdown s rq (if d = LEFT then Go_up else Look_at_current) a"
proof -
  obtain l bh bm r where u: "u = \<langle>l, (b, bh, bm), r\<rangle>" using b by (cases u rule: rootp.cases) auto
  have "get_parent (nodes (vt s)) b = Some (Some a)"
    using searchable_node(4)[of s l b bh bm r "(d, (a, hh, m), w) # c"] s by (simp add: t u)
  moreover have "get_child (nodes (vt s)) a LEFT = Some (if d = LEFT then Some b else rootp w)" "d = RIGHT \<Longrightarrow> rootp w \<noteq> Some b"
    using searchable_node(2,7)[of s w a hh m u c] searchable_node(2)[of s u a hh m w c] s b by (cases d; auto simp: t)+
  ultimately show ?thesis by (subst topdown.simps) (cases d; simp)
qed

lemma topdown_enter:
  assumes s: "searchable s t"
  shows "t = plug u c \<Longrightarrow> rootp u = Some b \<Longrightarrow> down_yields s rq Go_up b (last_fit rq None (before self c)) \<Longrightarrow>
    down_yields s rq Loop_head b (last_fit rq None (before self c @ contents self u))"
proof (induction u arbitrary: c b)
  case (Node l x r)
  obtain hh m where x: "x = (b, hh, m)" using Node.prems(2) by (cases x) auto
  note t = Node.prems(1)[unfolded x]
  note n = searchable_node[OF s[unfolded t]]
  have other: "down_yields s rq Look_at_other b (last_fit rq None (before self c @ contents self l))"
  proof (cases "rootp l")
    case None
    then show ?thesis using Node.prems(3) n(2) unfolding down_yields_def by (subst topdown.simps) simp
  next
    case (Some e)
    have "topdown s rq Go_up e = topdown s rq Go_up b"
      using topdown_go_up[OF s, of l LEFT b hh m r c e] t Some by simp
    then have "down_yields s rq Loop_head e (last_fit rq None (before self c @ contents self l))"
      using Node.IH(1)[of "(LEFT, (b, hh, m), r) # c" e] Node.prems(3) Some t by (simp add: down_yields_def)
    then show ?thesis using n(2) Some unfolding down_yields_def by (subst topdown.simps) simp
  qed
  note look = topdown_current[OF s t other]
  have g: "gapped (endp None (before self c)) (contents self \<langle>l, x, r\<rangle>)" "gapped (Some (vm_last m)) (contents self r)"
    using n(5,6) by (auto simp: gapped_append x)
  show ?case
  proof (cases "biggest_gap m < rq_size rq")
    case True
    have "augmented vma_upd \<langle>l, x, r\<rangle>" using s path_avl_augmented[of vma_upd "\<langle>l, x, r\<rangle>" c] Node.prems(1) by (simp add: searchable_def)
    then have "prev_gap (snd y) < rq_size rq" if "y \<in> set (contents self \<langle>l, x, r\<rangle>)" for y
      using max_gap[OF _ that] True by (auto simp: x)
    then have "last_fit rq (endp None (before self c)) (contents self \<langle>l, x, r\<rangle>) = None" by (intro last_fit_skip[OF g(1)]) blast
    then have "last_fit rq None (before self c @ contents self \<langle>l, x, r\<rangle>) = last_fit rq None (before self c)"
      by (simp add: last_fit_append del: contents_simps last_fit.simps)
    then show ?thesis using Node.prems(3) n(1) True unfolding down_yields_def by (subst topdown.simps) (simp del: contents_simps)
  next
    case False
    let ?R = "last_fit rq None (before self c @ contents self l @ (b, m) # contents self r)"
    have skip: "down_yields s rq Look_at_current b ?R" if "r = \<langle>\<rangle> \<or> rq_max rq \<le> vm_last m"
    proof -
      have "last_fit rq (Some (vm_last m)) (contents self r) = None" using that last_fit_high[OF _ g(2)] by auto
      then have "?R = last_fit rq None (before self c @ contents self l @ [(b, m)])"
        using last_fit_append[of rq None "before self c @ contents self l @ [(b, m)]" "contents self r"] by simp
      then show ?thesis using look by simp
    qed
    have right: "down_yields s rq Loop_head e ?R" if e: "rootp r = Some e" for e
    proof -
      have "topdown s rq Go_up e = topdown s rq Look_at_current b"
        using topdown_go_up[OF s, of r RIGHT b hh m l c e] t e by simp
      then show ?thesis using Node.IH(2)[of "(RIGHT, (b, hh, m), l) # c" e] look e t by (simp add: down_yields_def)
    qed
    show ?thesis
      using skip right n(1,3) False unfolding down_yields_def
      by (subst topdown.simps) (auto simp: x not_less split: option.split)
  qed
qed simp

lemma topdown_up:
  assumes s: "searchable s t"
  shows "t = plug u c \<Longrightarrow> rootp u = Some b \<Longrightarrow> down_yields s rq Go_up b (last_fit rq None (before self c))"
proof (induction c arbitrary: u b)
  case Nil
  obtain l bh bm r where u: "u = \<langle>l, (b, bh, bm), r\<rangle>" using Nil.prems(2) by (cases u rule: rootp.cases) auto
  have "get_parent (nodes (vt s)) b = Some None" using searchable_node(4)[of s l b bh bm r "[]"] s Nil.prems u by simp
  then show ?case using Nil.prems(1) unfolding down_yields_def by (subst topdown.simps) simp
next
  case (Cons f c)
  obtain d a hh m w where f: "f = (d, (a, hh, m), w)" by (cases f) auto
  note gu = topdown_go_up[OF s, of u d a hh m w c b rq]
  show ?case
  proof (cases d)
    case LEFT
    then show ?thesis using Cons.IH[of "\<langle>u, (a, hh, m), w\<rangle>" a] gu Cons.prems by (simp add: f down_yields_def)
  next
    case RIGHT
    have t: "t = plug \<langle>w, (a, hh, m), u\<rangle> c" using Cons.prems(1) by (simp add: f RIGHT)
    note n = searchable_node[OF s[unfolded t]]
    have up: "down_yields s rq Go_up a (last_fit rq None (before self c))" using Cons.IH[OF t] by simp
    have "down_yields s rq Look_at_other a (last_fit rq None (before self c @ contents self w))"
    proof (cases "rootp w")
      case None
      then show ?thesis using up n(2) unfolding down_yields_def by (subst topdown.simps) simp
    next
      case (Some e)
      have "topdown s rq Go_up e = topdown s rq Go_up a"
        using topdown_go_up[OF s, of w LEFT a hh m u c e] t Some by simp
      then have "down_yields s rq Loop_head e (last_fit rq None (before self c @ contents self w))"
        using topdown_enter[OF s, of w "(LEFT, (a, hh, m), u) # c" e rq] up Some t by (simp add: down_yields_def)
      then show ?thesis using n(2) Some unfolding down_yields_def by (subst topdown.simps) simp
    qed
    from topdown_current[OF s t this] show ?thesis using gu Cons.prems by (simp add: f RIGHT down_yields_def)
  qed
qed

lemma down_addr_greatest:
  assumes v: "valid_rq rq" and b: "unat (rq_align rq) dvd unat b" "unat b + unat (rq_size rq) \<le> n" "unat (hi - rq_size rq) = n - unat (rq_size rq)"
  shows "b \<le> down_addr rq hi" "unat (down_addr rq hi) + unat (rq_size rq) \<le> n" "unat (rq_align rq) dvd unat (down_addr rq hi)"
proof -
  obtain k where k: "k < 64" "rq_align rq = 2 ^ k" using v by (auto simp: valid_rq_def)
  have d: "unat (down_addr rq hi) = (n - unat (rq_size rq)) div 2 ^ k * 2 ^ k"
    using unat_align_down[OF k(1), of "hi - rq_size rq"] b(3) by (simp add: k(2))
  have "unat b \<le> (n - unat (rq_size rq)) div 2 ^ k * 2 ^ k"
    by (rule round_down_greatest) (use b k unat_pow2[OF k(1)] in auto)
  then show "b \<le> down_addr rq hi" by (simp add: word_le_nat_alt d)
  have "(n - unat (rq_size rq)) div 2 ^ k * 2 ^ k \<le> n - unat (rq_size rq)" by simp
  then show "unat (down_addr rq hi) + unat (rq_size rq) \<le> n" using b(2) unfolding d by linarith
  show "unat (rq_align rq) dvd unat (down_addr rq hi)" unfolding d by (simp add: k(2) unat_pow2[OF k(1)])
qed

lemma base_ok_up:
  "base_ok rq p b \<Longrightarrow> b \<le> a \<Longrightarrow> unat (rq_align rq) dvd unat a \<Longrightarrow> unat a + unat (rq_size rq) \<le> unat (rq_max rq) + 1 \<Longrightarrow> base_ok rq p a"
  by (auto simp: base_ok_def)

lemma gap_fits_down:
  assumes v: "valid_rq rq" and p: "\<And>e. p = Some e \<Longrightarrow> e < f" and fits: "gap_fits rq p f"
  shows "base_ok rq p (down_addr rq (gap_hi rq f))" "unat (down_addr rq (gap_hi rq f)) + unat (rq_size rq) \<le> unat f"
    "base_ok rq p b \<Longrightarrow> unat b + unat (rq_size rq) \<le> unat f \<Longrightarrow> b \<le> down_addr rq (gap_hi rq f)"
proof -
  let ?b = "align_up (gap_lo rq p) (rq_align rq) :: u64" and ?a = "down_addr rq (gap_hi rq f)"
  have h: "base_ok rq p ?b" "unat ?b + unat (rq_size rq) \<le> unat f" using gap_fits_hole[OF v p fits] by blast+
  have le: "base_ok rq p b \<Longrightarrow> unat b + unat (rq_size rq) \<le> unat f \<Longrightarrow> unat b + unat (rq_size rq) \<le> unat (gap_hi rq f)" for b
    by (simp add: unat_gap_hi base_ok_def)
  have hi: "unat (gap_hi rq f - rq_size rq) = unat (gap_hi rq f) - unat (rq_size rq)" using le[OF h] by (simp add: unat_sub_64)
  have al: "base_ok rq p b \<Longrightarrow> unat (rq_align rq) dvd unat b" for b by (simp add: base_ok_def)
  note D = down_addr_greatest[OF v al[OF h(1)] le[OF h] hi]
  show "unat ?a + unat (rq_size rq) \<le> unat f" using D(2) unfolding unat_gap_hi by simp
  have "unat ?a + unat (rq_size rq) \<le> unat (rq_max rq) + 1" using D(2) unfolding unat_gap_hi by simp
  then show "base_ok rq p ?a" by (rule base_ok_up[OF h(1) D(1,3)])
  show "b \<le> ?a" if "base_ok rq p b" "unat b + unat (rq_size rq) \<le> unat f"
    using down_addr_greatest(1)[OF v al[OF that(1)] le[OF that] hi] .
qed

text \<open>Usable addresses in front of some node.\<close>

definition hole_below :: "hole_request \<Rightarrow> u64 option \<Rightarrow> entry list \<Rightarrow> u64 \<Rightarrow> bool" where
  "hole_below rq p ms b \<longleftrightarrow> hole_at rq p ms b \<and> (\<exists>x \<in> set ms. unat b + unat (rq_size rq) \<le> unat (e_first x))"

lemma hole_below_Cons:
  assumes v: "valid_rq rq" and g: "gapped p (x # ms)"
  shows "hole_below rq p (x # ms) b \<longleftrightarrow> base_ok rq p b \<and> unat b + unat (rq_size rq) \<le> unat (e_first x) \<or> hole_below rq (Some (e_last x)) ms b"
proof -
  have sz: "unat (rq_size rq) \<noteq> 0" using v by (simp add: valid_rq_def unat_eq_zero)
  have xl: "unat (e_first x) \<le> unat (e_last x)" using g by (simp add: word_le_nat_alt)
  have "\<not> unat b + unat (rq_size rq) \<le> unat (e_first x)" if "hole_at rq (Some (e_last x)) ms b"
  proof -
    have "unat (e_last x) < unat b" using that by (simp add: hole_at_def base_ok_def word_less_nat_alt)
    then show ?thesis using xl by linarith
  qed
  then show ?thesis unfolding hole_below_def hole_at_Cons[OF v g] by auto
qed

lemma last_fit_greatest:
  assumes v: "valid_rq rq"
  shows "gapped p ms \<Longrightarrow> (case last_fit rq p ms of
     Some a \<Rightarrow> hole_below rq p ms a \<and> (\<forall>b. hole_below rq p ms b \<longrightarrow> b \<le> a) | None \<Rightarrow> \<forall>b. \<not> hole_below rq p ms b)"
proof (induction ms arbitrary: p)
  case (Cons x ms)
  have p: "\<And>e. p = Some e \<Longrightarrow> e < e_first x" and xl: "e_first x \<le> e_last x" using Cons.prems by (auto split: option.splits)
  note H = hole_below_Cons[OF v Cons.prems]
  let ?L = "last_fit rq (Some (e_last x)) ms"
  have IH: "case ?L of Some a \<Rightarrow> hole_below rq (Some (e_last x)) ms a \<and> (\<forall>b. hole_below rq (Some (e_last x)) ms b \<longrightarrow> b \<le> a)
    | None \<Rightarrow> \<forall>b. \<not> hole_below rq (Some (e_last x)) ms b"
    using Cons.IH[of "Some (e_last x)"] Cons.prems by simp
  show ?case
  proof (cases ?L)
    case (Some a)
    have "b \<le> a" if "unat b + unat (rq_size rq) \<le> unat (e_first x)" for b
    proof -
      have "e_last x < a" using IH Some by (simp add: hole_below_def hole_at_def base_ok_def)
      then show ?thesis using xl that by (simp add: word_le_nat_alt word_less_nat_alt)
    qed
    then show ?thesis using IH Some by (auto simp: H)
  next
    case None
    then show ?thesis
      using IH gap_fits_down[OF v p] hole_gap_fits(1)[OF v p] by (auto simp: H)
  qed
qed (simp add: hole_below_def)

lemma topdown_last_eq:
  "topdown_last rq p = (if tail_fits rq p then Some (down_addr rq (rq_max rq + 1)) else None)"
  unfolding topdown_last_def tail_fits_def gap_lo_def Let_def by auto

lemma tail_fits_down:
  assumes v: "valid_rq rq" and fits: "tail_fits rq p"
  shows "base_ok rq p (down_addr rq (rq_max rq + 1))" "unat b + unat (rq_size rq) \<le> unat (rq_max rq) + 1 \<Longrightarrow> unat (rq_align rq) dvd unat b \<Longrightarrow>
    b \<le> down_addr rq (rq_max rq + 1)"
proof -
  let ?b = "align_up (gap_lo rq p) (rq_align rq) :: u64" and ?a = "down_addr rq (rq_max rq + 1)"
  note h = tail_fits_hole[OF v fits]
  have le: "unat (rq_align rq) dvd unat ?b" "unat ?b + unat (rq_size rq) \<le> unat (rq_max rq) + 1" using h by (auto simp: base_ok_def)
  have sz: "unat (rq_size rq) \<noteq> 0" using v by (simp add: valid_rq_def unat_eq_zero)
  have e: "rq_max rq + 1 - rq_size rq = rq_max rq - (rq_size rq - 1)" by simp
  have "unat (rq_size rq - 1) = unat (rq_size rq) - 1" using sz by (simp add: unat_sub_64)
  then have hi: "unat (rq_max rq + 1 - rq_size rq) = unat (rq_max rq) + 1 - unat (rq_size rq)"
    using le(2) sz unfolding e unat_sub_64[of "rq_max rq"] by simp
  note D = down_addr_greatest[OF v le hi]
  show "base_ok rq p ?a" by (rule base_ok_up[OF h D(1,3,2)])
  show "b \<le> ?a" if "unat b + unat (rq_size rq) \<le> unat (rq_max rq) + 1" "unat (rq_align rq) dvd unat b"
    using down_addr_greatest(1)[OF v that(2,1) hi] .
qed

lemma find_free_topdown_eq:
  assumes s: "searchable s t" and rq: "\<not> bad_request rq"
  shows "VMATree_find_free_topdown s rq
    = Some (or_else (topdown_last rq (endp None (contents self t))) (last_fit rq None (contents self t)))"
proof -
  have root: "m_root (vt s) = rootp t" using s by (simp add: searchable_def represents_def)
  obtain current where cur: "VMATree_last s = Some current"
    "(case current of Some c \<Rightarrow> do { v \<leftarrow> get_object (nodes (vt s)) c; Some (Some (vm_last v)) } | None \<Rightarrow> Some None)
      = Some (endp None (contents self t))" using searchable_last[OF s] by blast
  have "\<exists>x. topdown s rq Loop_head b = Some x \<and> (case x of Found a \<Rightarrow> Some a | _ \<Rightarrow> None) = last_fit rq None (contents self t)"
    if b: "rootp t = Some b" for b
  proof -
    obtain x where "topdown s rq Loop_head b = Some x" "down_result x = last_fit rq None (contents self t)"
      using topdown_enter[OF s, of t "[]" b rq] topdown_up[OF s, of t "[]" b rq] b by (auto simp: down_yields_def)
    then show ?thesis by (intro exI[of _ x]) (cases x; simp)
  qed
  then show ?thesis using rq cur root
    by (cases "topdown_last rq (endp None (contents self t))"; cases "rootp t")
      (auto simp: VMATree_find_free_topdown_def)
qed

section \<open>The contract of the searches\<close>

text \<open>An address at which the request can be granted while the ranges \<open>zs\<close> are taken.\<close>

definition free_hole :: "range list \<Rightarrow> hole_request \<Rightarrow> u64 \<Rightarrow> bool" where
  "free_hole zs rq a \<longleftrightarrow> unat (rq_align rq) dvd unat a \<and> rq_min rq \<le> a
     \<and> unat a + unat (rq_size rq) \<le> unat (rq_max rq) + 1
     \<and> (\<forall>z \<in> set zs. unat a + unat (rq_size rq) \<le> unat (r_first z) \<or> r_last z < a)"

lemma hole_at_free:
  "map (\<lambda>x. (fst x, e_first x, e_last x)) ms = zs \<Longrightarrow> hole_at rq None ms b \<longleftrightarrow> free_hole zs rq b"
  by (drule sym) (simp add: hole_at_def free_hole_def base_ok_def)

lemma bad_request_no_hole:
  assumes "bad_request rq" "rq_size rq \<noteq> 0" "rq_size rq \<le> rq_max rq"
  shows "\<not> free_hole zs rq b"
proof
  assume f: "free_hole zs rq b"
  have sz: "unat (rq_size rq) \<noteq> 0" using assms(2) by (simp add: unat_eq_zero)
  have b: "unat (rq_min rq) + unat (rq_size rq) \<le> unat (rq_max rq) + 1" using f by (auto simp: free_hole_def word_le_nat_alt)
  then have "unat (rq_min rq) \<le> unat (rq_max rq)" using sz by simp
  then have d: "unat (rq_max rq - rq_min rq) = unat (rq_max rq) - unat (rq_min rq)" by (simp add: unat_sub_64)
  have "\<not> rq_max rq < rq_min rq" using \<open>unat (rq_min rq) \<le> unat (rq_max rq)\<close> by (simp add: word_less_nat_alt)
  moreover have "\<not> rq_max rq < rq_size rq" using assms(3) by simp
  ultimately have "(rq_max rq \<noteq> VMA_TREE_MAX \<or> rq_min rq \<noteq> 0) \<and> rq_max rq - rq_min rq + 1 < rq_size rq"
    using assms(1,2) unfolding bad_request_def by blast
  then have bad: "rq_max rq \<noteq> VMA_TREE_MAX \<or> rq_min rq \<noteq> 0" "unat (rq_max rq - rq_min rq + 1) < unat (rq_size rq)"
    unfolding word_less_nat_alt by blast+
  have "unat (rq_max rq - rq_min rq) + 1 < 18446744073709551616"
  proof -
    have "unat (rq_max rq) \<noteq> 18446744073709551615 \<or> unat (rq_min rq) \<noteq> 0"
      using bad(1) unat_max_64 unat_eq_zero[of "rq_min rq"] by (metis unsigned_word_eqI)
    then show ?thesis using unat_lt_64[of "rq_max rq"] \<open>unat (rq_min rq) \<le> unat (rq_max rq)\<close> d by linarith
  qed
  then have "unat (rq_max rq - rq_min rq + 1) = unat (rq_max rq) - unat (rq_min rq) + 1" using d by (simp add: unat_add_64)
  then show False using bad(2) b \<open>unat (rq_min rq) \<le> unat (rq_max rq)\<close> by linarith
qed

lemma bottomup_contract:
  assumes hold: "vma_holds s zs" and al: "k < 64" "rq_align rq = 2 ^ k" and sz: "rq_size rq \<noteq> 0" "rq_size rq \<le> rq_max rq"
  shows "\<exists>r. VMATree_find_free_bottomup s rq = Some r \<and> (case r of
     Some a \<Rightarrow> free_hole zs rq a \<and> (\<forall>b. free_hole zs rq b \<longrightarrow> a \<le> b) | None \<Rightarrow> \<forall>b. \<not> free_hole zs rq b)"
proof (cases "bad_request rq")
  case True
  then show ?thesis using bad_request_no_hole[OF True sz] by (simp add: VMATree_find_free_bottomup_def)
next
  case False
  obtain t where t: "searchable s t" "map (\<lambda>x. (fst x, e_first x, e_last x)) (contents self t) = zs"
    using holds_searchable[OF hold] by blast
  have v: "valid_rq rq" using al sz by (auto simp: valid_rq_def)
  have "gapped None (contents self t)" using t(1) by (simp add: searchable_def)
  from first_fit_least[OF v this] show ?thesis
    unfolding find_free_bottomup_eq[OF t(1) False] hole_at_free[OF t(2)] by blast
qed

lemma topdown_contract:
  assumes hold: "vma_holds s zs" and al: "k < 64" "rq_align rq = 2 ^ k" and sz: "rq_size rq \<noteq> 0" "rq_size rq \<le> rq_max rq"
  shows "\<exists>r. VMATree_find_free_topdown s rq = Some r \<and> (case r of
     Some a \<Rightarrow> free_hole zs rq a \<and> (\<forall>b. free_hole zs rq b \<longrightarrow> b \<le> a) | None \<Rightarrow> \<forall>b. \<not> free_hole zs rq b)"
proof (cases "bad_request rq")
  case True
  then show ?thesis using bad_request_no_hole[OF True sz] by (simp add: VMATree_find_free_topdown_def)
next
  case False
  obtain t where t: "searchable s t" "map (\<lambda>x. (fst x, e_first x, e_last x)) (contents self t) = zs"
    using holds_searchable[OF hold] by blast
  have v: "valid_rq rq" using al sz by (auto simp: valid_rq_def)
  let ?ms = "contents self t"
  have g: "gapped None ?ms" using t(1) by (simp add: searchable_def)
  have tail: "hole_at rq None ?ms a" if "base_ok rq (endp None ?ms) a" for a
    using that gapped_le_last[OF g] by (fastforce simp: hole_at_def base_ok_def endp_def split: if_splits)
  have below: "hole_below rq None ?ms b" if "hole_at rq None ?ms b" "\<not> base_ok rq (endp None ?ms) b" for b
    using that last_in_set[of ?ms] by (fastforce simp: hole_below_def hole_at_def base_ok_def endp_def split: if_splits)
  have res: "VMATree_find_free_topdown s rq = Some (or_else (topdown_last rq (endp None ?ms)) (last_fit rq None ?ms))"
    using find_free_topdown_eq[OF t(1) False] .
  note H = hole_at_free[OF t(2), symmetric]
  show ?thesis
  proof (cases "tail_fits rq (endp None ?ms)")
    case True
    have "b \<le> down_addr rq (rq_max rq + 1)" if "hole_at rq None ?ms b" for b
      using tail_fits_down(2)[OF v True, of b] that by (simp add: hole_at_def base_ok_def)
    then show ?thesis using tail[OF tail_fits_down(1)[OF v True]] True unfolding res topdown_last_eq H by simp
  next
    case nt: False
    have eq: "hole_below rq None ?ms b \<longleftrightarrow> hole_at rq None ?ms b" for b
      using nt below[of b] hole_tail_fits(1)[OF v, of "endp None ?ms" b] by (auto simp: hole_below_def)
    show ?thesis using last_fit_greatest[OF v g] nt unfolding res topdown_last_eq H eq by simp
  qed
qed

end
