(* ===== verification/Dsl_VMA.thy ===== *)
theory Dsl_VMA
  imports Dsl_VMA_Find
begin

text \<open>
  The contract of the VMA tree as its users see it: a set of disjoint address ranges that can grow
  and shrink, be asked for the range at an address and for the lowest or highest hole. The locale
  \<open>range_space\<close> states what a user relies on and derives allocation and release of a range from
  it; the VMA tree is its instance.
\<close>

section \<open>The interface\<close>

definition block_last :: "u64 \<Rightarrow> u64 \<Rightarrow> u64" where
  "block_last a sz = a + sz - 1"

locale range_space =
  fixes holds :: "'s \<Rightarrow> range list \<Rightarrow> bool"
    and room :: "'s \<Rightarrow> addr \<Rightarrow> u64 \<Rightarrow> u64 \<Rightarrow> bool"
    and ins :: "'s \<Rightarrow> addr \<Rightarrow> 's option"
    and rem :: "'s \<Rightarrow> addr \<Rightarrow> 's option"
    and hole :: "'s \<Rightarrow> hole_request \<Rightarrow> u64 option option"
    and lookup :: "'s \<Rightarrow> u64 \<Rightarrow> ptr option"
  assumes ordered: "holds s zs \<Longrightarrow> ordered zs"
    and ins: "holds s (xs @ ys) \<Longrightarrow> room s a f l \<Longrightarrow> a \<notin> fst ` set (xs @ ys) \<Longrightarrow> ordered (xs @ (a, f, l) # ys) \<Longrightarrow>
      \<exists>s'. ins s a = Some s' \<and> holds s' (xs @ (a, f, l) # ys)"
    and rem: "holds s (xs @ (a, f, l) # ys) \<Longrightarrow> \<exists>s'. rem s a = Some s' \<and> holds s' (xs @ ys)"
    and hole: "holds s zs \<Longrightarrow> k < 64 \<Longrightarrow> rq_align rq = 2 ^ k \<Longrightarrow> rq_size rq \<noteq> 0 \<Longrightarrow> hole s rq = Some (Some b) \<Longrightarrow> free_hole zs rq b"
    and hole_total: "holds s zs \<Longrightarrow> k < 64 \<Longrightarrow> rq_align rq = 2 ^ k \<Longrightarrow> rq_size rq \<noteq> 0 \<Longrightarrow> \<exists>r. hole s rq = Some r"
    and lookup: "holds s zs \<Longrightarrow> lookup s b = Some (map_option fst (List.find (\<lambda>x. r_first x \<le> b \<and> b \<le> r_last x) zs))"
begin

lemma lookup_member:
  assumes h: "holds s (xs @ (a, f, l) # ys)" and b: "f \<le> b" "b \<le> l"
  shows "lookup s b = Some (Some a)"
proof -
  have "r_last x < b" if "x \<in> set xs" for x
    using ordered[OF h] that b(1) by (auto simp: ordered_append dest!: bspec[of _ _ x] intro: less_le_trans)
  then have "List.find (\<lambda>x. r_first x \<le> b \<and> b \<le> r_last x) xs = None" by (intro find_None) (auto simp: not_le)
  then show ?thesis using lookup[OF h, of b] b by (simp add: find_append)
qed

lemma release:
  assumes h: "holds s (xs @ (a, f, l) # ys)" and b: "f \<le> b" "b \<le> l"
  shows "\<exists>s'. lookup s b = Some (Some a) \<and> rem s a = Some s' \<and> holds s' (xs @ ys)"
  using lookup_member[OF assms] rem[OF h] by auto

end

lemma block_last_bounds:
  assumes "free_hole zs rq b" "rq_size rq \<noteq> 0"
  shows "unat (block_last b (rq_size rq)) = unat b + unat (rq_size rq) - 1" "b \<le> block_last b (rq_size rq)"
    "block_last b (rq_size rq) \<le> rq_max rq"
proof -
  have sz: "unat (rq_size rq) \<noteq> 0" using assms(2) by (simp add: unat_eq_zero)
  have le: "unat b + unat (rq_size rq) \<le> unat (rq_max rq) + 1" using assms(1) by (simp add: free_hole_def)
  have e: "b + rq_size rq - 1 = b + (rq_size rq - 1)" by simp
  have "unat (rq_size rq - 1) = unat (rq_size rq) - 1" using sz by (simp add: unat_sub_64)
  then show 1: "unat (block_last b (rq_size rq)) = unat b + unat (rq_size rq) - 1"
    using le sz unat_lt_64[of "rq_max rq"] unfolding block_last_def e unat_add_64 by auto
  show "b \<le> block_last b (rq_size rq)" "block_last b (rq_size rq) \<le> rq_max rq"
    using le sz unfolding word_le_nat_alt 1 by linarith+
qed

text \<open>A block at a hole fits between two neighbours of the sequence.\<close>

lemma hole_splits:
  assumes o: "ordered zs" and h: "free_hole zs rq b" and sz: "rq_size rq \<noteq> 0"
  shows "\<exists>xs ys. zs = xs @ ys \<and> ordered (xs @ (a, b, block_last b (rq_size rq)) # ys)"
proof -
  let ?xs = "takeWhile (\<lambda>x. r_last x < b) zs" and ?ys = "dropWhile (\<lambda>x. r_last x < b) zs"
  note bl = block_last_bounds[OF h sz]
  have "block_last b (rq_size rq) < r_first y" if y: "y \<in> set ?ys" for y
  proof -
    have ne: "?ys \<noteq> []" using y by (metis empty_iff list.set(1))
    have hd: "\<not> r_last (hd ?ys) < b" using hd_dropWhile[OF ne] .
    have "hd ?ys \<in> set zs" using ne hd_in_set set_dropWhileD by metis
    then have "unat b + unat (rq_size rq) \<le> unat (r_first (hd ?ys))" using h hd by (auto simp: free_hole_def)
    moreover have "r_first (hd ?ys) \<le> r_first y"
    proof (cases "y = hd ?ys")
      case False
      have "ordered (hd ?ys # tl ?ys)" using o ordered_append[of ?xs ?ys] ne by simp
      moreover have "y \<in> set (tl ?ys)" using y False by (metis list.collapse ne set_ConsD)
      ultimately show ?thesis by (auto simp: ordered_Cons intro: order_trans less_imp_le)
    qed simp
    moreover have "unat (rq_size rq) \<noteq> 0" using sz by (simp add: unat_eq_zero)
    ultimately show ?thesis using bl(1) by (simp add: word_less_nat_alt word_le_nat_alt)
  qed
  moreover have "r_last x < b" if "x \<in> set ?xs" for x using set_takeWhileD[OF that] by simp
  moreover have "ordered ?xs" "ordered ?ys" "\<forall>x \<in> set ?xs. \<forall>y \<in> set ?ys. r_last x < r_first y"
    using o ordered_append[of ?xs ?ys] by simp_all
  ultimately have "ordered (?xs @ (a, b, block_last b (rq_size rq)) # ?ys)"
    using bl(2) by (auto simp: ordered_append ordered_Cons)
  then show ?thesis by (metis takeWhile_dropWhile_id)
qed

context range_space
begin

lemma allocate:
  assumes h: "holds s zs" and rq: "k < 64" "rq_align rq = 2 ^ k" "rq_size rq \<noteq> 0" and f: "hole s rq = Some (Some b)"
    and r: "room s' a b (block_last b (rq_size rq))" "a \<notin> fst ` set zs" and same: "holds s' zs"
  shows "\<exists>s'' xs ys. ins s' a = Some s'' \<and> zs = xs @ ys \<and> holds s'' (xs @ (a, b, block_last b (rq_size rq)) # ys)"
proof -
  have "free_hole zs rq b" using hole[OF h rq f] .
  then obtain xs ys where z: "zs = xs @ ys" "ordered (xs @ (a, b, block_last b (rq_size rq)) # ys)"
    using hole_splits[OF ordered[OF h] _ rq(3)] by blast
  then show ?thesis using ins[of s' xs ys a b "block_last b (rq_size rq)"] same r by blast
qed

end

section \<open>The VMA tree\<close>

text \<open>A node that can be inserted: allocated, with its range filled in, and not the anchor of the list.\<close>

definition vma_room :: "vma_tree \<Rightarrow> addr \<Rightarrow> u64 \<Rightarrow> u64 \<Rightarrow> bool" where
  "vma_room s a f l \<longleftrightarrow> (\<exists>v. get_object (nodes (vt s)) a = Some v \<and> vm_first v = f \<and> vm_last v = l)
     \<and> a \<in> dom (vlist s) \<and> a \<noteq> list_anchor s"

lemma VMATree_find_holds:
  assumes "vma_holds s zs"
  shows "VMATree_find s b = Some (map_option fst (List.find (\<lambda>x. r_first x \<le> b \<and> b \<le> r_last x) zs))"
    and "VMATree_find_above s b = Some (map_option fst (List.find (\<lambda>x. b \<le> r_last x) zs))"
    and "VMATree_find_below s b = Some (map_option fst (List.find (\<lambda>x. r_first x < b) (rev zs)))"
proof -
  obtain t where t: "searchable s t" and z: "zs = map (\<lambda>x. (fst x, e_first x, e_last x)) (contents self t)"
    using holds_searchable[OF assms] by blast
  have r: "tree_at (nodes (vt s)) None t" "m_root (vt s) = rootp t" "gapped None (contents self t)"
    using t by (auto simp: searchable_def represents_def)
  have fm: "List.find P (map g xs) = map_option g (List.find (P \<circ> g) xs)" for P and g :: "entry \<Rightarrow> range" and xs
    by (induction xs) auto
  show "VMATree_find s b = Some (map_option fst (List.find (\<lambda>x. r_first x \<le> b \<and> b \<le> r_last x) zs))"
    using vma_find_tree[OF r(1,3), of b] r(2) by (simp add: VMATree_find_def z fm option.map_comp comp_def)
  show "VMATree_find_above s b = Some (map_option fst (List.find (\<lambda>x. b \<le> r_last x) zs))"
    using vma_find_above_tree[OF r(1,3), of b] r(2)
    by (simp add: VMATree_find_above_def z fm option.map_comp comp_def split: option.split)
  show "VMATree_find_below s b = Some (map_option fst (List.find (\<lambda>x. r_first x < b) (rev zs)))"
    using vma_find_below_tree[OF r(1,3), of b] r(2)
    by (simp add: VMATree_find_below_def z fm rev_map option.map_comp comp_def split: option.split)
qed

lemma rejected_request: "rq_max rq < rq_size rq \<Longrightarrow> VMATree_find_free_bottomup s rq = Some None \<and> VMATree_find_free_topdown s rq = Some None"
  by (simp add: VMATree_find_free_bottomup_def VMATree_find_free_topdown_def bad_request_def)

interpretation vma_space: range_space vma_holds vma_room VMATree_insert VMATree_remove VMATree_find_free_bottomup VMATree_find
proof
  fix s zs xs ys a f l k rq b
  show "ordered zs" if "vma_holds s zs" using that by (simp add: vma_holds_def)
  show "\<exists>s'. VMATree_insert s a = Some s' \<and> vma_holds s' (xs @ (a, f, l) # ys)"
    if h: "vma_holds s (xs @ ys)" "vma_room s a f l" "a \<notin> fst ` set (xs @ ys)" "ordered (xs @ (a, f, l) # ys)"
  proof -
    obtain v where "get_object (nodes (vt s)) a = Some v" "vm_first v = f" "vm_last v = l" "a \<in> dom (vlist s)" "a \<noteq> list_anchor s"
      using h(2) by (auto simp: vma_room_def)
    then show ?thesis using VMATree_insert_holds[OF h(1), of a v f l] h(3,4) by auto
  qed
  show "\<exists>s'. VMATree_remove s a = Some s' \<and> vma_holds s' (xs @ ys)" if "vma_holds s (xs @ (a, f, l) # ys)"
    using VMATree_remove_holds[OF that] by blast
  show "free_hole zs rq b" if "vma_holds s zs" "k < 64" "rq_align rq = 2 ^ k" "rq_size rq \<noteq> 0" "VMATree_find_free_bottomup s rq = Some (Some b)"
    using bottomup_contract[OF that(1-4)] rejected_request[of rq s] that(5) by (cases "rq_size rq \<le> rq_max rq") (auto simp: not_le)
  show "\<exists>r. VMATree_find_free_bottomup s rq = Some r" if "vma_holds s zs" "k < 64" "rq_align rq = 2 ^ k" "rq_size rq \<noteq> 0"
    using bottomup_contract[OF that(1-4)] rejected_request[of rq s] by (cases "rq_size rq \<le> rq_max rq") (auto simp: not_le)
  show "VMATree_find s b = Some (map_option fst (List.find (\<lambda>x. r_first x \<le> b \<and> b \<le> r_last x) zs))" if "vma_holds s zs"
    using VMATree_find_holds(1)[OF that] .
qed

section \<open>Properties\<close>

text \<open>Two linked ranges, nodes 1 and 2, and a node 3 that is allocated and not yet linked.\<close>

definition sample_vt :: "vma atree" where
  "sample_vt = \<langle>\<langle>\<rangle>, (1, 2, \<lparr>vm_first = 0x1000, vm_last = 0x1fff, prev_gap = 0x1000, biggest_gap = 0x2000\<rparr>),
     \<langle>\<langle>\<rangle>, (2, 1, \<lparr>vm_first = 0x4000, vm_last = 0x4fff, prev_gap = 0x2000, biggest_gap = 0x2000\<rparr>), \<langle>\<rangle>\<rangle>\<rangle>"

definition sample_vma :: vma_tree where
  "sample_vma = \<lparr>vt = \<lparr>m_root = Some 1, nodes = (heap_of None sample_vt)(3 \<mapsto>
       \<lparr>child = case_dir None None, parent = None, avl_height = 0, \<dots> = \<lparr>vm_first = 0x2000, vm_last = 0x2fff, prev_gap = 0, biggest_gap = 0\<rparr>\<rparr>)\<rparr>,
     vlist = [0 \<mapsto> \<lparr>l_next = 1, l_prev = 2\<rparr>, 1 \<mapsto> \<lparr>l_next = 2, l_prev = 0\<rparr>, 2 \<mapsto> \<lparr>l_next = 0, l_prev = 1\<rparr>, 3 \<mapsto> \<lparr>l_next = 3, l_prev = 3\<rparr>],
     list_anchor = 0\<rparr>"

abbreviation sample_ranges :: "range list" where
  "sample_ranges \<equiv> [(1, 0x1000, 0x1fff), (2, 0x4000, 0x4fff)]"

lemma sample_vma_holds: "vma_holds sample_vma sample_ranges"
proof -
  have "represents (vt sample_vma) sample_vt"
    using tree_at_heap_of[of sample_vt None] by (simp add: represents_def sample_vma_def heap_simps) (simp add: sample_vt_def)
  moreover have "avl sample_vt" "augmented vma_upd sample_vt" "contents gx sample_vt = with_gaps None sample_ranges"
    by (simp_all add: sample_vt_def vma_upd_def gx_def dsl_max_def)
  moreover have "ring (vlist sample_vma) (list_anchor sample_vma) (map fst sample_ranges)" "ordered sample_ranges"
    by (simp_all add: sample_vma_def ring_def link_def get_next_def get_prev_def ordered_def)
  ultimately show ?thesis unfolding vma_holds_def by blast
qed

text \<open>
  (C3) Inserting an allocated node whose range is disjoint from the ranges of a well-formed VMA tree
  goes through valid pointers only and gives a well-formed tree (balanced, ordered, threaded on the
  list, every \<open>prev_gap\<close> and \<open>biggest_gap\<close> exact) with the new range at its place, and writes to no
  other node's memory.
\<close>

theorem vma_insert_exact:
  assumes "vma_holds s (xs @ ys)" and "vma_room s a f l" and "a \<notin> fst ` set (xs @ ys)" and "ordered (xs @ (a, f, l) # ys)"
  shows "\<exists>s'. VMATree_insert s a = Some s' \<and> vma_holds s' (xs @ (a, f, l) # ys)
     \<and> (\<forall>x. x \<notin> fst ` set (xs @ (a, f, l) # ys) \<longrightarrow> nodes (vt s') x = nodes (vt s) x)"
proof -
  obtain v where "get_object (nodes (vt s)) a = Some v" "vm_first v = f" "vm_last v = l" "a \<in> dom (vlist s)" "a \<noteq> list_anchor s"
    using assms(2) by (auto simp: vma_room_def)
  then show ?thesis using VMATree_insert_holds[OF assms(1), of a v f l] assms(3,4) by auto
qed

theorem vma_insert_exact_witness:
  "\<exists>s'. VMATree_insert sample_vma 3 = Some s' \<and> vma_holds s' [(1, 0x1000, 0x1fff), (3, 0x2000, 0x2fff), (2, 0x4000, 0x4fff)]"
proof -
  have "vma_holds sample_vma ([(1, 0x1000, 0x1fff)] @ [(2, 0x4000, 0x4fff)])" using sample_vma_holds by simp
  moreover have "vma_room sample_vma 3 0x2000 0x2fff" by (simp add: vma_room_def sample_vma_def get_object_def)
  moreover have "ordered ([(1, 0x1000, 0x1fff)] @ (3, 0x2000, 0x2fff) # [(2, 0x4000, 0x4fff)])" by (simp add: ordered_def)
  ultimately show ?thesis using vma_insert_exact[of sample_vma "[(1, 0x1000, 0x1fff)]" "[(2, 0x4000, 0x4fff)]" 3 "0x2000" "0x2fff"] by auto
qed

text \<open>
  (C4) Removing any node of a well-formed VMA tree goes through valid pointers only and gives a
  well-formed tree (balanced, with exact gaps) of exactly the other ranges; the removed node and all
  memory outside the tree keep their contents.
\<close>

theorem vma_remove_exact:
  assumes "vma_holds s (xs @ (a, f, l) # ys)"
  shows "\<exists>s'. VMATree_remove s a = Some s' \<and> vma_holds s' (xs @ ys) \<and> nodes (vt s') a = nodes (vt s) a
     \<and> (\<forall>x. x \<notin> fst ` set (xs @ (a, f, l) # ys) \<longrightarrow> nodes (vt s') x = nodes (vt s) x)"
  using VMATree_remove_holds[OF assms] by blast

theorem vma_remove_exact_witness:
  "vma_holds sample_vma ([] @ (1, 0x1000, 0x1fff) # [(2, 0x4000, 0x4fff)])
   \<and> (\<exists>s'. VMATree_remove sample_vma 1 = Some s' \<and> vma_holds s' [(2, 0x4000, 0x4fff)])"
  using vma_remove_exact[of sample_vma "[]" 1 "0x1000" "0x1fff" "[(2, 0x4000, 0x4fff)]"] sample_vma_holds by auto

text \<open>
  (C5) After the range of one node of a well-formed VMA tree has been overwritten by a range that still
  lies between its neighbours, \<^verbatim>\<open>adjust\<close> makes the tree well-formed again for the new ranges: the
  gaps of the node and its successor and every \<open>biggest_gap\<close> above them are exact.
\<close>

theorem vma_adjust_exact:
  assumes "vma_holds s0 (xs @ (a, f0, l0) # ys)" and "vma_resize s0 a f l = Some s" and "ordered (xs @ (a, f, l) # ys)"
  shows "\<exists>s'. VMATree_adjust s a = Some s' \<and> vma_holds s' (xs @ (a, f, l) # ys)
     \<and> (\<forall>x. x \<notin> fst ` set (xs @ (a, f, l) # ys) \<longrightarrow> nodes (vt s') x = nodes (vt s0) x)"
  using VMATree_adjust_holds[OF assms] by blast

theorem vma_adjust_exact_witness:
  "\<exists>s s'. vma_resize sample_vma 1 0x1000 0x2fff = Some s \<and> VMATree_adjust s 1 = Some s'
     \<and> vma_holds s' [(1, 0x1000, 0x2fff), (2, 0x4000, 0x4fff)]"
proof -
  have h: "vma_holds sample_vma ([] @ (1, 0x1000, 0x1fff) # [(2, 0x4000, 0x4fff)])" using sample_vma_holds by simp
  obtain s where s: "vma_resize sample_vma 1 0x1000 0x2fff = Some s"
    by (simp add: vma_resize_def object_access sample_vma_def sample_vt_def)
  have "ordered ([] @ (1, 0x1000, 0x2fff) # [(2, 0x4000, 0x4fff)])" by (simp add: ordered_def)
  from vma_adjust_exact[OF h s this] s show ?thesis by auto
qed

text \<open>
  (C27) The three lookups by address are searches in the sequence of ranges: \<^verbatim>\<open>find\<close> returns the node
  whose range contains the address, \<^verbatim>\<open>find_above\<close> the first node that ends at or above it,
  \<^verbatim>\<open>find_below\<close> the last node that starts below it; each returns \<open>nullptr\<close> exactly when there is none.
\<close>

theorem vma_lookup_exact:
  assumes "vma_holds s zs"
  shows "VMATree_find s b = Some (map_option fst (List.find (\<lambda>x. r_first x \<le> b \<and> b \<le> r_last x) zs))
     \<and> VMATree_find_above s b = Some (map_option fst (List.find (\<lambda>x. b \<le> r_last x) zs))
     \<and> VMATree_find_below s b = Some (map_option fst (List.find (\<lambda>x. r_first x < b) (rev zs)))"
  using VMATree_find_holds[OF assms] by blast

theorem vma_lookup_exact_witness:
  "VMATree_find sample_vma 0x4123 = Some (Some 2) \<and> VMATree_find sample_vma 0x3000 = Some nullptr
   \<and> VMATree_find_above sample_vma 0x3000 = Some (Some 2) \<and> VMATree_find_below sample_vma 0x3000 = Some (Some 1)"
  using vma_lookup_exact[OF sample_vma_holds, of "0x4123"] vma_lookup_exact[OF sample_vma_holds, of "0x3000"] by simp

lemma empty_request: "rq_size rq = 0 \<Longrightarrow> VMATree_find_free_bottomup s rq = Some None \<and> VMATree_find_free_topdown s rq = Some None"
  by (simp add: VMATree_find_free_bottomup_def VMATree_find_free_topdown_def bad_request_def)

text \<open>
  (C1) \<^verbatim>\<open>find_free_bottomup\<close> terminates for every request with an alignment that is a power of two. It returns an address only
  for a size that is neither zero nor above \<open>max_addr\<close>, and then exactly the lowest aligned address in [\<open>min_addr\<close>, \<open>max_addr\<close>] at which a
  block of the size is free of all ranges, whatever subtrees it skips. It returns false for the sizes zero and above \<open>max_addr\<close>,
  and otherwise only if there is no such address.
\<close>

theorem vma_lowest_hole:
  assumes "vma_holds s zs" and "k < 64" and "rq_align rq = 2 ^ k"
  shows "\<exists>r. VMATree_find_free_bottomup s rq = Some r \<and> (case r of
     Some a \<Rightarrow> rq_size rq \<noteq> 0 \<and> rq_size rq \<le> rq_max rq \<and> free_hole zs rq a \<and> (\<forall>b. free_hole zs rq b \<longrightarrow> a \<le> b)
   | None \<Rightarrow> rq_size rq = 0 \<or> rq_max rq < rq_size rq \<or> (\<forall>b. \<not> free_hole zs rq b))"
proof (cases "rq_size rq = 0 \<or> rq_max rq < rq_size rq")
  case True
  then show ?thesis using rejected_request[of rq s] empty_request[of rq s] by auto
next
  case False
  then show ?thesis using bottomup_contract[OF assms] by (fastforce simp: not_less split: option.splits)
qed

abbreviation sample_rq :: hole_request where
  "sample_rq \<equiv> \<lparr>rq_size = 0x1000, rq_align = 2 ^ 12, rq_min = 0x1800, rq_max = 0xffff\<rparr>"

theorem vma_lowest_hole_witness: "VMATree_find_free_bottomup sample_vma sample_rq = Some (Some 0x2000)"
proof -
  have f: "free_hole sample_ranges sample_rq 0x2000" by (simp add: free_hole_def)
  obtain r where r: "VMATree_find_free_bottomup sample_vma sample_rq = Some r" "case r of
      Some a \<Rightarrow> free_hole sample_ranges sample_rq a \<and> (\<forall>b. free_hole sample_ranges sample_rq b \<longrightarrow> a \<le> b)
    | None \<Rightarrow> \<forall>b. \<not> free_hole sample_ranges sample_rq b"
    using vma_lowest_hole[OF sample_vma_holds, of 12 sample_rq] by (auto split: option.splits)
  then obtain a where a: "r = Some a" "free_hole sample_ranges sample_rq a" "a \<le> 0x2000" using f by (cases r) auto
  have "\<not> a < 0x2000" using a(2) by (auto simp: free_hole_def word_less_nat_alt word_le_nat_alt)
  then show ?thesis using r(1) a by simp
qed

text \<open>
  (C2) \<^verbatim>\<open>find_free_topdown\<close> likewise terminates and returns exactly the highest such address; it returns false for the sizes zero
  and above \<open>max_addr\<close>, and otherwise only if there is no such address.
\<close>

theorem vma_highest_hole:
  assumes "vma_holds s zs" and "k < 64" and "rq_align rq = 2 ^ k"
  shows "\<exists>r. VMATree_find_free_topdown s rq = Some r \<and> (case r of
     Some a \<Rightarrow> rq_size rq \<noteq> 0 \<and> rq_size rq \<le> rq_max rq \<and> free_hole zs rq a \<and> (\<forall>b. free_hole zs rq b \<longrightarrow> b \<le> a)
   | None \<Rightarrow> rq_size rq = 0 \<or> rq_max rq < rq_size rq \<or> (\<forall>b. \<not> free_hole zs rq b))"
proof (cases "rq_size rq = 0 \<or> rq_max rq < rq_size rq")
  case True
  then show ?thesis using rejected_request[of rq s] empty_request[of rq s] by auto
next
  case False
  then show ?thesis using topdown_contract[OF assms] by (fastforce simp: not_less split: option.splits)
qed

theorem vma_highest_hole_witness: "VMATree_find_free_topdown sample_vma sample_rq = Some (Some 0xf000)"
proof -
  have f: "free_hole sample_ranges sample_rq 0xf000" by (simp add: free_hole_def)
  obtain r where r: "VMATree_find_free_topdown sample_vma sample_rq = Some r" "case r of
      Some a \<Rightarrow> free_hole sample_ranges sample_rq a \<and> (\<forall>b. free_hole sample_ranges sample_rq b \<longrightarrow> b \<le> a)
    | None \<Rightarrow> \<forall>b. \<not> free_hole sample_ranges sample_rq b"
    using vma_highest_hole[OF sample_vma_holds, of 12 sample_rq] by (auto split: option.splits)
  then obtain a where a: "r = Some a" "free_hole sample_ranges sample_rq a" "0xf000 \<le> a" using f by (cases r) auto
  then have "a = 0xf000" by (auto simp: free_hole_def word_unat_eq_iff word_le_nat_alt)
  then show ?thesis using r(1) a by simp
qed

text \<open>
  Both hole searches refuse every request whose size exceeds \<open>max_addr\<close>; this includes the one
  request of that kind that has an answer, the block that fills [0, \<open>max_addr\<close>] of an empty tree.
\<close>

theorem vma_refuses_whole_range:
  "(rq_max rq < rq_size rq \<longrightarrow> VMATree_find_free_bottomup s rq = Some None \<and> VMATree_find_free_topdown s rq = Some None)
   \<and> free_hole [] \<lparr>rq_size = 0x10000, rq_align = 0x1000, rq_min = 0, rq_max = 0xffff\<rparr> 0"
  by (simp add: rejected_request free_hole_def)

theorem vma_refuses_whole_range_witness:
  "VMATree_find_free_bottomup sample_vma \<lparr>rq_size = 0x1000, rq_align = 0x1000, rq_min = 0, rq_max = 0xfff\<rparr> = Some None
   \<and> free_hole sample_ranges \<lparr>rq_size = 0x1000, rq_align = 0x1000, rq_min = 0, rq_max = 0xfff\<rparr> 0"
  using vma_refuses_whole_range[of "\<lparr>rq_size = 0x1000, rq_align = 0x1000, rq_min = 0, rq_max = 0xfff\<rparr>" sample_vma]
  by (simp add: free_hole_def)

end
