(* ===== verification/Util_String.thy ===== *)
theory Util_String
  imports Davix_Prelude
begin

text \<open>
  The string functions of \<^verbatim>\<open>util/string.cc\<close> on a byte memory. A byte that is not mapped makes an
  access undefined (\<^const>\<open>None\<close>), so every equation with \<^const>\<open>Some\<close> below also says that the
  function stays within the objects it is given. Counted loops are recursive in their count, loops
  that run up to a terminating zero byte are partial functions.
\<close>

section \<open>Byte memory\<close>

type_synonym bytes = "nat \<rightharpoonup> u8"

definition store :: "bytes \<Rightarrow> nat \<Rightarrow> u8 \<Rightarrow> bytes option" where
  "store m a v = (case m a of None \<Rightarrow> None | Some _ \<Rightarrow> Some (m(a \<mapsto> v)))"

definition bytes_at :: "bytes \<Rightarrow> nat \<Rightarrow> u8 list \<Rightarrow> bool" where
  "bytes_at m a bs \<longleftrightarrow> (\<forall>i < length bs. m (a + i) = Some (bs ! i))"

definition write_at :: "bytes \<Rightarrow> nat \<Rightarrow> u8 list \<Rightarrow> bytes" where
  "write_at m a bs = (\<lambda>x. if a \<le> x \<and> x < a + length bs then Some (bs ! (x - a)) else m x)"

definition mapped :: "bytes \<Rightarrow> nat \<Rightarrow> nat \<Rightarrow> bool" where
  "mapped m a n \<longleftrightarrow> (\<forall>i < n. m (a + i) \<noteq> None)"

text \<open>A C string: bytes other than zero, followed by a zero byte.\<close>

definition cstring_at :: "bytes \<Rightarrow> nat \<Rightarrow> u8 list \<Rightarrow> bool" where
  "cstring_at m a bs \<longleftrightarrow> 0 \<notin> set bs \<and> bytes_at m a (bs @ [0])"

section \<open>The functions\<close>

fun memset_loop :: "bytes \<Rightarrow> nat \<Rightarrow> u8 \<Rightarrow> nat \<Rightarrow> bytes option" where
  "memset_loop m p c 0 = Some m"
| "memset_loop m p c (Suc n) = do { m \<leftarrow> store m p c; memset_loop m (p + 1) c n }"

definition memset :: "bytes \<Rightarrow> nat \<Rightarrow> u32 \<Rightarrow> nat \<Rightarrow> (bytes \<times> nat) option" where
  "memset m dst c n = do { m \<leftarrow> memset_loop m dst (ucast c) n; Some (m, dst) }"

fun mempcpy :: "bytes \<Rightarrow> nat \<Rightarrow> nat \<Rightarrow> nat \<Rightarrow> (bytes \<times> nat) option" where
  "mempcpy m d s 0 = Some (m, d)"
| "mempcpy m d s (Suc n) = do { b \<leftarrow> m s; m \<leftarrow> store m d b; mempcpy m (d + 1) (s + 1) n }"

definition memcpy :: "bytes \<Rightarrow> nat \<Rightarrow> nat \<Rightarrow> nat \<Rightarrow> (bytes \<times> nat) option" where
  "memcpy m dst src n = do { (m, _) \<leftarrow> mempcpy m dst src n; Some (m, dst) }"

fun memmove_down :: "bytes \<Rightarrow> nat \<Rightarrow> nat \<Rightarrow> nat \<Rightarrow> bytes option" where
  "memmove_down m d s 0 = Some m"
| "memmove_down m d s (Suc n) = do { b \<leftarrow> m (s + n); m \<leftarrow> store m (d + n) b; memmove_down m d s n }"

fun memmove_up :: "bytes \<Rightarrow> nat \<Rightarrow> nat \<Rightarrow> nat \<Rightarrow> bytes option" where
  "memmove_up m d s 0 = Some m"
| "memmove_up m d s (Suc n) = do { b \<leftarrow> m s; m \<leftarrow> store m d b; memmove_up m (d + 1) (s + 1) n }"

definition memmove :: "bytes \<Rightarrow> nat \<Rightarrow> nat \<Rightarrow> nat \<Rightarrow> (bytes \<times> nat) option" where
  "memmove m dst src n = do {
     m \<leftarrow> (if dst > src then memmove_down m dst src n else memmove_up m dst src n);
     Some (m, dst)
   }"

fun memcmp :: "bytes \<Rightarrow> nat \<Rightarrow> nat \<Rightarrow> nat \<Rightarrow> int option" where
  "memcmp m a b 0 = Some 0"
| "memcmp m a b (Suc n) = do {
     x \<leftarrow> m a;
     y \<leftarrow> m b;
     if x \<noteq> y then Some (uint x - uint y) else memcmp m (a + 1) (b + 1) n
   }"

partial_function (option) strlen_loop :: "bytes \<Rightarrow> nat \<Rightarrow> nat \<Rightarrow> nat option" where
  "strlen_loop m s i = do { b \<leftarrow> m (s + i); if b \<noteq> 0 then strlen_loop m s (i + 1) else Some i }"

definition strlen :: "bytes \<Rightarrow> nat \<Rightarrow> nat option" where
  "strlen m s = strlen_loop m s 0"

partial_function (option) stpcpy :: "bytes \<Rightarrow> nat \<Rightarrow> nat \<Rightarrow> (bytes \<times> nat) option" where
  "stpcpy m dst src = do {
     b \<leftarrow> m src;
     if b \<noteq> 0 then do { m \<leftarrow> store m dst b; stpcpy m (dst + 1) (src + 1) }
     else do { m \<leftarrow> store m dst 0; Some (m, dst) }
   }"

definition strcpy :: "bytes \<Rightarrow> nat \<Rightarrow> nat \<Rightarrow> (bytes \<times> nat) option" where
  "strcpy m dst src = do { r \<leftarrow> stpcpy m dst src; Some (fst r, dst) }"

partial_function (option) strcmp :: "bytes \<Rightarrow> nat \<Rightarrow> nat \<Rightarrow> int option" where
  "strcmp m s1 s2 = do {
     x \<leftarrow> m s1;
     y \<leftarrow> m s2;
     if x = y then (if x = 0 then Some 0 else strcmp m (s1 + 1) (s2 + 1))
     else Some (uint x - uint y)
   }"

function strnlen_loop :: "bytes \<Rightarrow> nat \<Rightarrow> nat \<Rightarrow> nat \<Rightarrow> nat option" where
  "strnlen_loop m s n i =
     (if i < n then do { b \<leftarrow> m (s + i); if b \<noteq> 0 then strnlen_loop m s n (i + 1) else Some i } else Some i)"
  by pat_completeness auto
termination by (relation "measure (\<lambda>(m, s, n, i). n - i)") auto

definition strnlen :: "bytes \<Rightarrow> nat \<Rightarrow> nat \<Rightarrow> nat option" where
  "strnlen m s n = strnlen_loop m s n 0"

text \<open>The copying loop of \<^verbatim>\<open>stpncpy\<close>; it returns the position it has reached and the count that is left.\<close>

fun stpncpy_copy :: "bytes \<Rightarrow> nat \<Rightarrow> nat \<Rightarrow> nat \<Rightarrow> (bytes \<times> nat \<times> nat) option" where
  "stpncpy_copy m dst src 0 = Some (m, dst, 0)"
| "stpncpy_copy m dst src (Suc n) = do {
     b \<leftarrow> m src;
     if b \<noteq> 0 then do { m \<leftarrow> store m dst b; stpncpy_copy m (dst + 1) (src + 1) n }
     else Some (m, dst, Suc n)
   }"

definition stpncpy :: "bytes \<Rightarrow> nat \<Rightarrow> nat \<Rightarrow> nat \<Rightarrow> (bytes \<times> nat) option" where
  "stpncpy m dst src n = do {
     (m, dst, n) \<leftarrow> stpncpy_copy m dst src n;
     let ret = dst;
     m \<leftarrow> memset_loop m dst 0 n;
     Some (m, ret)
   }"

definition strncpy :: "bytes \<Rightarrow> nat \<Rightarrow> nat \<Rightarrow> nat \<Rightarrow> (bytes \<times> nat) option" where
  "strncpy m dst src n = do { r \<leftarrow> stpncpy m dst src n; Some (fst r, dst) }"

fun strncmp :: "bytes \<Rightarrow> nat \<Rightarrow> nat \<Rightarrow> nat \<Rightarrow> int option" where
  "strncmp m s1 s2 0 = Some 0"
| "strncmp m s1 s2 (Suc n) = do {
     x \<leftarrow> m s1;
     y \<leftarrow> m s2;
     if x \<noteq> y then Some (uint x - uint y)
     else if x = 0 then Some 0
     else strncmp m (s1 + 1) (s2 + 1) n
   }"

partial_function (option) strchrnul :: "bytes \<Rightarrow> nat \<Rightarrow> u8 \<Rightarrow> nat option" where
  "strchrnul m s c = do {
     b \<leftarrow> m s;
     if b \<noteq> c then (if b = 0 then Some s else strchrnul m (s + 1) c) else Some s
   }"

section \<open>Memory lemmas\<close>

lemma write_at_Nil [simp]: "write_at m a [] = m"
  by (rule ext) (auto simp: write_at_def)

lemma write_at_Cons: "write_at m a (b # bs) = write_at (m(a \<mapsto> b)) (a + 1) bs"
  by (rule ext) (auto simp: write_at_def nth_Cons')

lemma write_at_snoc: "write_at m a (bs @ [b]) = write_at (m(a + length bs \<mapsto> b)) a bs"
  by (rule ext) (auto simp: write_at_def nth_append)

lemma write_at_append: "write_at m a (bs @ cs) = write_at (write_at m a bs) (a + length bs) cs"
  by (induction bs arbitrary: m a) (simp_all add: write_at_Cons)

lemma bytes_at_Nil [simp]: "bytes_at m a []"
  by (simp add: bytes_at_def)

lemma bytes_at_Cons: "bytes_at m a (b # bs) \<longleftrightarrow> m a = Some b \<and> bytes_at m (a + 1) bs"
  by (simp add: bytes_at_def All_less_Suc2)

lemma bytes_at_append: "bytes_at m a (bs @ cs) \<longleftrightarrow> bytes_at m a bs \<and> bytes_at m (a + length bs) cs"
  by (induction bs arbitrary: a) (auto simp: bytes_at_Cons)

lemma bytes_at_cong: "(\<And>x. a \<le> x \<Longrightarrow> x < a + length bs \<Longrightarrow> m x = m' x) \<Longrightarrow> bytes_at m a bs = bytes_at m' a bs"
  by (auto simp: bytes_at_def)

lemma bytes_at_upd [simp]: "x < a \<or> a + length bs \<le> x \<Longrightarrow> bytes_at (m(x := v)) a bs = bytes_at m a bs"
  by (rule bytes_at_cong) auto

lemma bytes_at_write: "a + length bs \<le> b \<or> b + length cs \<le> a \<Longrightarrow> bytes_at (write_at m b cs) a bs = bytes_at m a bs"
  by (rule bytes_at_cong) (auto simp: write_at_def)

lemma bytes_at_written: "bytes_at (write_at m a bs) a bs"
  by (simp add: bytes_at_def write_at_def)

lemma mapped_0 [simp]: "mapped m a 0"
  by (simp add: mapped_def)

lemma mapped_Suc: "mapped m a (Suc n) \<longleftrightarrow> m a \<noteq> None \<and> mapped m (a + 1) n"
  by (simp add: mapped_def All_less_Suc2)

lemma mapped_Suc_last: "mapped m a (Suc n) \<longleftrightarrow> m (a + n) \<noteq> None \<and> mapped m a n"
  by (simp add: mapped_def All_less_Suc)

lemma mapped_upd [simp]: "mapped m a n \<Longrightarrow> mapped (m(x \<mapsto> v)) a n"
  by (auto simp: mapped_def)

lemma mapped_add: "mapped m a (n + k) \<longleftrightarrow> mapped m a n \<and> mapped m (a + n) k"
  by (induction n arbitrary: a) (auto simp: mapped_Suc)

lemma mapped_write: "mapped m a n \<Longrightarrow> mapped (write_at m b bs) a n"
  by (auto simp: mapped_def write_at_def)

lemma store_mapped [simp]: "m a \<noteq> None \<Longrightarrow> store m a v = Some (m(a \<mapsto> v))"
  by (auto simp: store_def)

section \<open>Counted functions\<close>

lemma memset_loop_eq: "mapped m a n \<Longrightarrow> memset_loop m a c n = Some (write_at m a (replicate n c))"
  by (induction n arbitrary: m a) (simp_all add: mapped_Suc write_at_Cons)

lemma mempcpy_eq:
  "bytes_at m s bs \<Longrightarrow> mapped m d (length bs) \<Longrightarrow> d + length bs \<le> s \<or> s + length bs \<le> d \<Longrightarrow>
   mempcpy m d s (length bs) = Some (write_at m d bs, d + length bs)"
proof (induction bs arbitrary: m d s)
  case (Cons b bs)
  define m' where "m' = m(d \<mapsto> b)"
  have "bytes_at m' (s + 1) bs" "mapped m' (d + 1) (length bs)" "d + 1 + length bs \<le> s + 1 \<or> s + 1 + length bs \<le> d + 1"
    using Cons.prems by (auto simp: m'_def bytes_at_Cons mapped_Suc)
  from Cons.IH[OF this] show ?case using Cons.prems by (simp add: bytes_at_Cons mapped_Suc write_at_Cons flip: m'_def)
qed simp

lemma memmove_up_eq:
  "d \<le> s \<Longrightarrow> bytes_at m s bs \<Longrightarrow> mapped m d (length bs) \<Longrightarrow> memmove_up m d s (length bs) = Some (write_at m d bs)"
proof (induction bs arbitrary: m d s)
  case (Cons b bs)
  define m' where "m' = m(d \<mapsto> b)"
  have "d + 1 \<le> s + 1" "bytes_at m' (s + 1) bs" "mapped m' (d + 1) (length bs)"
    using Cons.prems by (auto simp: m'_def bytes_at_Cons mapped_Suc)
  from Cons.IH[OF this] show ?case using Cons.prems by (simp add: bytes_at_Cons mapped_Suc write_at_Cons flip: m'_def)
qed simp

lemma memmove_down_eq:
  "s < d \<Longrightarrow> bytes_at m s bs \<Longrightarrow> mapped m d (length bs) \<Longrightarrow> memmove_down m d s (length bs) = Some (write_at m d bs)"
proof (induction bs arbitrary: m rule: rev_induct)
  case (snoc b bs)
  have "bytes_at (m(d + length bs \<mapsto> b)) s bs" using snoc.prems by (auto simp: bytes_at_append)
  then show ?case using snoc by (simp add: bytes_at_append bytes_at_Cons mapped_Suc_last write_at_snoc)
qed simp

text \<open>The order that the comparison functions implement: the sign of the first difference.\<close>

fun diff_bytes :: "u8 list \<Rightarrow> u8 list \<Rightarrow> int" where
  "diff_bytes (x # xs) (y # ys) = (if x \<noteq> y then uint x - uint y else diff_bytes xs ys)"
| "diff_bytes [] (y # ys) = - uint y"
| "diff_bytes (x # xs) [] = uint x"
| "diff_bytes [] [] = 0"

lemma memcmp_eq:
  "bytes_at m a xs \<Longrightarrow> bytes_at m b ys \<Longrightarrow> length ys = length xs \<Longrightarrow> memcmp m a b (length xs) = Some (diff_bytes xs ys)"
proof (induction xs arbitrary: a b ys)
  case (Cons x xs)
  then show ?case by (cases ys) (auto simp: bytes_at_Cons)
qed simp

section \<open>String functions\<close>

lemma cstring_at_Nil [simp]: "cstring_at m a [] \<longleftrightarrow> m a = Some 0"
  by (simp add: cstring_at_def bytes_at_Cons)

lemma cstring_at_Cons: "cstring_at m a (b # bs) \<longleftrightarrow> b \<noteq> 0 \<and> m a = Some b \<and> cstring_at m (a + 1) bs"
  by (auto simp: cstring_at_def bytes_at_Cons)

lemma cstring_at_upd: "x < a \<or> a + length bs < x \<Longrightarrow> cstring_at (m(x := v)) a bs = cstring_at m a bs"
  using bytes_at_upd[of x a "bs @ [0]" m v] by (auto simp: cstring_at_def)

lemma strlen_loop_eq: "cstring_at m (s + i) bs \<Longrightarrow> strlen_loop m s i = Some (i + length bs)"
proof (induction bs arbitrary: i)
  case Nil
  then show ?case by (subst strlen_loop.simps) simp
next
  case (Cons b bs)
  then show ?case using Cons.IH[of "i + 1"] by (subst strlen_loop.simps) (simp add: cstring_at_Cons add.assoc)
qed

lemma strnlen_loop_eq: "cstring_at m (s + i) bs \<Longrightarrow> i \<le> n \<Longrightarrow> strnlen_loop m s n i = Some (min n (i + length bs))"
proof (induction bs arbitrary: i)
  case Nil
  then show ?case by (subst strnlen_loop.simps) auto
next
  case (Cons b bs)
  then show ?case using Cons.IH[of "i + 1"] by (subst strnlen_loop.simps) (auto simp: cstring_at_Cons add.assoc)
qed

lemma stpcpy_eq:
  "cstring_at m s bs \<Longrightarrow> mapped m d (length bs + 1) \<Longrightarrow> d + length bs < s \<or> s + length bs < d \<Longrightarrow>
   stpcpy m d s = Some (write_at m d (bs @ [0]), d + length bs)"
proof (induction bs arbitrary: m d s)
  case Nil
  then show ?case by (subst stpcpy.simps) (simp add: mapped_Suc write_at_Cons)
next
  case (Cons b bs)
  define m' where "m' = m(d \<mapsto> b)"
  have "cstring_at m' (s + 1) bs" "mapped m' (d + 1) (length bs + 1)" "d + 1 + length bs < s + 1 \<or> s + 1 + length bs < d + 1"
    using Cons.prems mapped_upd[of m "Suc d" "Suc (length bs)" d b] by (auto simp: m'_def cstring_at_Cons cstring_at_upd mapped_Suc[of m d])
  from Cons.IH[OF this] show ?case using Cons.prems by (subst stpcpy.simps) (simp add: cstring_at_Cons mapped_Suc write_at_Cons flip: m'_def)
qed

lemma strcmp_eq: "cstring_at m a xs \<Longrightarrow> cstring_at m b ys \<Longrightarrow> strcmp m a b = Some (diff_bytes xs ys)"
proof (induction xs ys arbitrary: a b rule: diff_bytes.induct)
  case (1 x xs y ys)
  then show ?case by (subst strcmp.simps) (auto simp: cstring_at_Cons)
next
  case (2 y ys)
  then show ?case by (subst strcmp.simps) (auto simp: cstring_at_Cons)
next
  case (3 x xs)
  then show ?case by (subst strcmp.simps) (auto simp: cstring_at_Cons)
next
  case 4
  then show ?case by (subst strcmp.simps) simp
qed

lemma strncmp_eq: "cstring_at m a xs \<Longrightarrow> cstring_at m b ys \<Longrightarrow> strncmp m a b n = Some (diff_bytes (take n xs) (take n ys))"
proof (induction xs ys arbitrary: a b n rule: diff_bytes.induct)
  case (1 x xs y ys)
  then show ?case by (cases n) (auto simp: cstring_at_Cons)
next
  case (2 y ys)
  then show ?case by (cases n) (auto simp: cstring_at_Cons)
next
  case (3 x xs)
  then show ?case by (cases n) (auto simp: cstring_at_Cons)
next
  case 4
  then show ?case by (cases n) auto
qed

lemma stpncpy_copy_eq:
  "cstring_at m s bs \<Longrightarrow> mapped m d n \<Longrightarrow> d + n \<le> s \<or> s + length bs < d \<Longrightarrow>
   stpncpy_copy m d s n = Some (write_at m d (take n bs), d + min n (length bs), n - length bs)"
proof (induction bs arbitrary: m d s n)
  case Nil
  then show ?case by (cases n) simp_all
next
  case (Cons b bs)
  show ?case
  proof (cases n)
    case (Suc k)
    define m' where "m' = m(d \<mapsto> b)"
    have "cstring_at m' (s + 1) bs" "mapped m' (d + 1) k" "d + 1 + k \<le> s + 1 \<or> s + 1 + length bs < d + 1"
      using Cons.prems Suc by (auto simp: m'_def cstring_at_Cons cstring_at_upd mapped_Suc)
    from Cons.IH[OF this] show ?thesis using Cons.prems by (simp add: Suc cstring_at_Cons mapped_Suc write_at_Cons flip: m'_def)
  qed simp
qed

lemma stpncpy_eq:
  assumes "cstring_at m s bs" "mapped m d n" "d + n \<le> s \<or> s + length bs < d"
  shows "stpncpy m d s n = Some (write_at m d (take n bs @ replicate (n - length bs) 0), d + min n (length bs))"
proof -
  have "mapped m (d + min n (length bs)) (n - length bs)"
    using assms(2) mapped_add[of m d "min n (length bs)" "n - length bs"] by (simp add: min_def split: if_splits)
  then have "mapped (write_at m d (take n bs)) (d + min n (length bs)) (n - length bs)" by (rule mapped_write)
  then show ?thesis using stpncpy_copy_eq[OF assms]
    by (simp add: stpncpy_def memset_loop_eq write_at_append min.commute)
qed

lemma strchrnul_eq:
  "cstring_at m s bs \<Longrightarrow> strchrnul m s c = Some (s + length (takeWhile (\<lambda>b. b \<noteq> c) bs))"
proof (induction bs arbitrary: s)
  case Nil
  then show ?case by (subst strchrnul.simps) simp
next
  case (Cons b bs)
  then show ?case using Cons.IH[of "s + 1"] by (subst strchrnul.simps) (auto simp: cstring_at_Cons)
qed

text \<open>The order is the one of the byte values, and equal strings are the only ones that compare equal.\<close>

lemma diff_bytes_0: "0 \<notin> set xs \<Longrightarrow> 0 \<notin> set ys \<Longrightarrow> diff_bytes xs ys = 0 \<longleftrightarrow> xs = ys"
  by (induction xs ys rule: diff_bytes.induct) (auto simp: uint_0_iff dest: unsigned_word_eqI)

lemma diff_bytes_sign:
  "0 \<notin> set xs \<Longrightarrow> 0 \<notin> set ys \<Longrightarrow>
   diff_bytes xs ys < 0 \<longleftrightarrow> (xs, ys) \<in> lexord {(x, y). x < y}"
proof (induction xs ys rule: diff_bytes.induct)
  case (2 y ys)
  have "0 < uint y" using 2 uint_0_iff[of y] uint_ge_0[of y] unfolding less_le by auto
  then show ?case by simp
next
  case (3 x xs)
  have "0 \<le> uint x" by simp
  then show ?case by (simp add: not_less)
qed (auto simp: word_less_def)

section \<open>Properties\<close>

definition sample_bytes :: bytes where
  "sample_bytes = write_at Map.empty 0 [1, 2, 3, 4, 0, 104, 105, 0, 9, 9]"

lemma sample_bytes_at:
  "bytes_at sample_bytes 0 [1, 2, 3, 4, 0]" "bytes_at sample_bytes 1 [2, 3, 4]" "bytes_at sample_bytes 5 [104, 105, 0]"
  "mapped sample_bytes 0 4" "mapped sample_bytes 1 4"
  by (simp_all add: bytes_at_def mapped_def sample_bytes_def write_at_def All_less_Suc2 numeral_nat)

lemma sample_strings: "cstring_at sample_bytes 0 [1, 2, 3, 4]" "cstring_at sample_bytes 5 [104, 105]"
  using sample_bytes_at by (simp_all add: cstring_at_def)

text \<open>
  \<^verbatim>\<open>memmove\<close> copies the block that was at the source before the call to the destination,
  however the two overlap, returns the destination, and changes no byte outside it.
\<close>

theorem memmove_overlapping:
  assumes "bytes_at m src bs" and "mapped m dst (length bs)"
  shows "memmove m dst src (length bs) = Some (write_at m dst bs, dst)"
  using assms memmove_down_eq memmove_up_eq by (simp add: memmove_def)

theorem memmove_overlapping_witness:
  "memmove sample_bytes 1 0 4 = Some (write_at sample_bytes 1 [1, 2, 3, 4], 1)
   \<and> memmove sample_bytes 0 1 3 = Some (write_at sample_bytes 0 [2, 3, 4], 0)"
proof -
  have "bytes_at sample_bytes 0 [1, 2, 3, 4]" "mapped sample_bytes 0 3"
    using sample_bytes_at(1) bytes_at_append[of sample_bytes 0 "[1, 2, 3, 4]" "[0]"] sample_bytes_at(4) by (simp_all add: mapped_def)
  then show ?thesis using sample_bytes_at memmove_overlapping[of sample_bytes 0 "[1, 2, 3, 4]" 1] memmove_overlapping[of sample_bytes 1 "[2, 3, 4]" 0]
    by (simp add: numeral_nat)
qed

text \<open>
  \<^verbatim>\<open>strcmp\<close> is a comparison of C strings by unsigned byte values: it terminates within the
  strings, returns 0 exactly for equal strings and a negative number exactly when the first string
  is lexicographically smaller.
\<close>

theorem strcmp_order:
  assumes "cstring_at m a xs" and "cstring_at m b ys"
  shows "\<exists>r. strcmp m a b = Some r \<and> (r = 0 \<longleftrightarrow> xs = ys) \<and> (r < 0 \<longleftrightarrow> (xs, ys) \<in> lexord {(x, y). x < y})"
  using strcmp_eq[OF assms] diff_bytes_0[of xs ys] diff_bytes_sign[of xs ys] assms by (simp add: cstring_at_def)

theorem strcmp_order_witness: "\<exists>r. strcmp sample_bytes 0 5 = Some r \<and> r < 0"
  using strcmp_order[OF sample_strings] by auto

text \<open>
  \<^verbatim>\<open>strncpy\<close> writes exactly \<open>n\<close> bytes: the string cut to \<open>n\<close> bytes, padded with zero bytes; the
  result is therefore a C string if and only if the source is shorter than \<open>n\<close>.
\<close>

theorem strncpy_pads:
  assumes "cstring_at m src bs" and "mapped m dst n" and "dst + n \<le> src \<or> src + length bs < dst"
  shows "strncpy m dst src n = Some (write_at m dst (take n bs @ replicate (n - length bs) 0), dst)
     \<and> length (take n bs @ replicate (n - length bs) (0 :: u8)) = n
     \<and> (0 \<in> set (take n bs @ replicate (n - length bs) (0 :: u8)) \<longleftrightarrow> length bs < n)"
proof -
  have "0 \<notin> set (take n bs)" using assms(1) set_take_subset[of n bs] by (auto simp: cstring_at_def)
  then show ?thesis using stpncpy_eq[OF assms] by (auto simp: strncpy_def min_def)
qed

theorem strncpy_pads_witness:
  "strncpy sample_bytes 0 5 4 = Some (write_at sample_bytes 0 [104, 105, 0, 0], 0)"
  using strncpy_pads[OF sample_strings(2) sample_bytes_at(4)] by (simp add: numeral_nat)

end
