(* ===== verification/Util_Vsnprintf.thy ===== *)
theory Util_Vsnprintf
  imports Davix_Prelude "HOL-Library.Char_ord"
begin

text \<open>
  Formatted output (\<^verbatim>\<open>util/vsnprintf.cc\<close>). The output object is the text written so far and the room that
  is left; a C string is the list of its characters, without the terminating zero. Reading an
  argument of another type than the one passed, or past the last one, and overflow of a signed
  integer are undefined (\<^const>\<open>None\<close>). The functional specification \<open>render\<close> has no buffer; the
  implementation is shown to produce its result cut to the buffer.
\<close>

section \<open>Output\<close>

record snprintf_output =
  o_text :: string
  o_len :: nat

definition put_single_char :: "snprintf_output \<Rightarrow> char \<Rightarrow> snprintf_output" where
  "put_single_char out c =
     (if o_len out \<noteq> 0 then out\<lparr>o_text := o_text out @ [c], o_len := o_len out - 1\<rparr> else out)"

definition rep_single_char :: "snprintf_output \<Rightarrow> char \<Rightarrow> nat \<Rightarrow> snprintf_output" where
  "rep_single_char out c n =
     (let n = min n (o_len out)
      in out\<lparr>o_text := o_text out @ replicate n c, o_len := o_len out - n\<rparr>)"

definition put_string :: "snprintf_output \<Rightarrow> string \<Rightarrow> nat \<Rightarrow> snprintf_output" where
  "put_string out s n =
     (let n = min n (o_len out)
      in out\<lparr>o_text := o_text out @ take n s, o_len := o_len out - n\<rparr>)"

definition put_string_auto :: "snprintf_output \<Rightarrow> string \<Rightarrow> snprintf_output" where
  "put_string_auto out s = put_string out s (length s)"

section \<open>Conversions\<close>

record fmtspec =
  width :: int
  precision :: int
  flags :: u32

definition PR_LEFT :: u32 where "PR_LEFT = 0x01"

definition PR_PLUS :: u32 where "PR_PLUS = 0x02"

definition PR_SPACE :: u32 where "PR_SPACE = 0x04"

definition PR_ZERO :: u32 where "PR_ZERO = 0x08"

definition PR_SPECIAL :: u32 where "PR_SPECIAL = 0x10"

definition PR_UPPER :: u32 where "PR_UPPER = 0x20"

definition has :: "fmtspec \<Rightarrow> u32 \<Rightarrow> bool" where
  "has spec flag \<longleftrightarrow> flags spec AND flag \<noteq> 0"

definition alphabet :: "bool \<Rightarrow> string" where
  "alphabet upper = (if upper then ''0123456789ABCDEF'' else ''0123456789abcdef'')"

text \<open>
  The digit loop fills a buffer from its end; \<open>i\<close> is the free space in front of the digits that are
  already there. Running out of space is undefined.
\<close>

fun digit_loop :: "nat \<Rightarrow> string \<Rightarrow> nat \<Rightarrow> string \<Rightarrow> nat \<Rightarrow> string option" where
  "digit_loop base alpha 0 buf value = None"
| "digit_loop base alpha (Suc i) buf value =
     (let buf = alpha ! (value mod base) # buf; value = value div base
      in if value \<noteq> 0 then digit_loop base alpha i buf value else Some buf)"

definition pad :: "bool \<Rightarrow> int \<Rightarrow> char \<Rightarrow> snprintf_output \<Rightarrow> snprintf_output" where
  "pad wanted w c out = (if wanted \<and> w > 0 then rep_single_char out c (nat w) else out)"

definition do_unsigned :: "nat \<Rightarrow> snprintf_output \<Rightarrow> fmtspec \<Rightarrow> u64 \<Rightarrow> snprintf_output option" where
  "do_unsigned base out spec value = do {
     buf \<leftarrow> digit_loop base (alphabet (has spec PR_UPPER)) 32 [] (unat value);
     let w = width spec - int (length buf);
     let w = (if has spec PR_SPECIAL then if base = 8 then w - 1 else if base = 16 then w - 2 else w else w);
     let out = pad (flags spec AND (PR_ZERO OR PR_LEFT) = 0) w CHR '' '' out;
     let out = (if has spec PR_SPECIAL \<and> (base = 8 \<or> base = 16)
       then let out = put_single_char out CHR ''0''
            in if base = 16 then put_single_char out (if has spec PR_UPPER then CHR ''X'' else CHR ''x'') else out
       else out);
     let out' = pad (has spec PR_ZERO) w CHR ''0'' out;
     let w' = (if has spec PR_ZERO \<and> w > 0 then 0 else w);
     let out = put_string out' buf (length buf);
     Some (pad (has spec PR_LEFT) w' CHR '' '' out)
   }"

text \<open>The sum \<open>-(value + 1) + 1\<close> is computed in \<^verbatim>\<open>intmax_t\<close>; it overflows for the most negative value.\<close>

definition do_signed :: "snprintf_output \<Rightarrow> fmtspec \<Rightarrow> 64 word \<Rightarrow> snprintf_output option" where
  "do_signed out spec value = do {
     let sign = (if has spec PR_PLUS then ''+'' else if has spec PR_SPACE then '' '' else []);
     (sign, x) \<leftarrow> (if sint value < 0
        then if - (sint value + 1) + 1 \<le> 2 ^ 63 - 1 then Some (''-'', nat (- (sint value + 1) + 1)) else None
        else Some (sign, nat (sint value)));
     buf \<leftarrow> digit_loop 10 (alphabet False) 32 [] x;
     let w = width spec - int (length buf);
     let w = (if sign \<noteq> [] then w - 1 else w);
     let out = pad (flags spec AND (PR_ZERO OR PR_LEFT) = 0) w CHR '' '' out;
     let out = (if sign \<noteq> [] then put_single_char out (hd sign) else out);
     let out' = pad (has spec PR_ZERO) w CHR ''0'' out;
     let w' = (if has spec PR_ZERO \<and> w > 0 then 0 else w);
     let out = put_string out' buf (length buf);
     Some (pad (has spec PR_LEFT) w' CHR '' '' out)
   }"

definition do_string :: "snprintf_output \<Rightarrow> fmtspec \<Rightarrow> string option \<Rightarrow> snprintf_output" where
  "do_string out spec s = (
     let s = (case s of None \<Rightarrow> ''(nullptr)'' | Some s \<Rightarrow> s);
         n = min (if precision spec \<noteq> 0 then nat (precision spec) else 1024) (length s);
         w = width spec - int n;
         out = pad (\<not> has spec PR_LEFT) w CHR '' '' out;
         out = put_string out s n
     in pad (has spec PR_LEFT) w CHR '' '' out)"

section \<open>Parsing a directive\<close>

definition peek :: "string \<Rightarrow> char" where
  "peek s = (case s of [] \<Rightarrow> CHR 0x00 | c # _ \<Rightarrow> c)"

fun atoi_loop :: "nat \<Rightarrow> int \<Rightarrow> string \<Rightarrow> int \<times> string" where
  "atoi_loop 0 x fmt = (0, fmt)"
| "atoi_loop (Suc n) x fmt =
     (if peek fmt < CHR ''0'' \<or> CHR ''9'' < peek fmt then (x, fmt)
      else atoi_loop n (x * 10 + (of_char (peek fmt) - 48)) (tl fmt))"

definition dumb_atoi :: "string \<Rightarrow> int \<times> string" where
  "dumb_atoi fmt = atoi_loop 4 (of_char (peek fmt) - 48) (tl fmt)"

datatype va_slot = VInt u64 | VStr "string option"

type_synonym va_list = "va_slot list"

datatype pr_error = Bad_string | Bad_parameters

fun error_text :: "pr_error \<Rightarrow> string" where
  "error_text Bad_string = ''(bad format string)''"
| "error_text Bad_parameters = ''(bad format parameters)''"

fun va_word :: "va_list \<Rightarrow> (u64 \<times> va_list) option" where
  "va_word (VInt w # args) = Some (w, args)"
| "va_word _ = None"

fun va_string :: "va_list \<Rightarrow> (string option \<times> va_list) option" where
  "va_string (VStr s # args) = Some (s, args)"
| "va_string _ = None"

definition as_int :: "u64 \<Rightarrow> int" where
  "as_int w = sint (ucast w :: 32 word)"

definition flag_of :: "char \<Rightarrow> u32" where
  "flag_of c =
     (if c = CHR ''-'' then PR_LEFT else if c = CHR ''+'' then PR_PLUS else if c = CHR '' '' then PR_SPACE
      else if c = CHR ''0'' then PR_ZERO else if c = CHR ''#'' then PR_SPECIAL else 0)"

fun parse_flags :: "u32 \<Rightarrow> string \<Rightarrow> pr_error + u32 \<times> string" where
  "parse_flags fl [] = Inr (fl, [])"
| "parse_flags fl (c # fmt) =
     (if flag_of c = 0 then Inr (fl, c # fmt)
      else if fl AND flag_of c \<noteq> 0 then Inl Bad_string
      else parse_flags (fl OR flag_of c) fmt)"

definition parse_width :: "fmtspec \<Rightarrow> string \<Rightarrow> va_list \<Rightarrow> (pr_error + fmtspec \<times> string \<times> va_list) option" where
  "parse_width spec fmt args =
     (if peek fmt = CHR ''*'' then do {
        (w, args) \<leftarrow> va_word args;
        let x = as_int w;
        Some (if x < -1024 \<or> precision spec > 1024 then Inl Bad_parameters
          else if x < 0 then Inr (spec\<lparr>width := - x, flags := flags spec OR PR_LEFT\<rparr>, tl fmt, args)
          else Inr (spec\<lparr>width := x\<rparr>, tl fmt, args))
      } else if CHR ''1'' \<le> peek fmt \<and> peek fmt \<le> CHR ''9'' then
        Some (let (x, fmt) = dumb_atoi fmt in if x = 0 then Inl Bad_string else Inr (spec\<lparr>width := x\<rparr>, fmt, args))
      else Some (Inr (spec, fmt, args)))"

definition parse_precision :: "fmtspec \<Rightarrow> string \<Rightarrow> va_list \<Rightarrow> (pr_error + fmtspec \<times> string \<times> va_list) option" where
  "parse_precision spec fmt args =
     (if peek fmt = CHR ''.'' then
        (let fmt = tl fmt in
         if peek fmt = CHR ''*'' then do {
           (w, args) \<leftarrow> va_word args;
           let x = as_int w;
           Some (if x < 0 \<or> x > 1024 then Inl Bad_parameters else Inr (spec\<lparr>precision := x\<rparr>, tl fmt, args))
         } else if CHR ''1'' \<le> peek fmt \<and> peek fmt \<le> CHR ''9'' then
           Some (let (x, fmt) = dumb_atoi fmt in if x = 0 then Inl Bad_string else Inr (spec\<lparr>precision := x\<rparr>, fmt, args))
         else Some (Inl Bad_string))
      else Some (Inr (spec, fmt, args)))"

definition parse_size :: "string \<Rightarrow> nat \<times> string" where
  "parse_size fmt =
     (if peek fmt = CHR ''h'' then (if peek (tl fmt) = CHR ''h'' then (0, tl (tl fmt)) else (1, tl fmt))
      else if peek fmt = CHR ''l'' then (if peek (tl fmt) = CHR ''l'' then (4, tl (tl fmt)) else (3, tl fmt))
      else if peek fmt = CHR ''j'' then (5, tl fmt)
      else if peek fmt = CHR ''z'' then (6, tl fmt)
      else if peek fmt = CHR ''t'' then (7, tl fmt)
      else (2, fmt))"

definition signed_arg :: "nat \<Rightarrow> u64 \<Rightarrow> 64 word" where
  "signed_arg sz w = (if sz = 0 \<or> sz = 1 \<or> sz = 2 then scast (ucast w :: 32 word) else w)"

definition unsigned_arg :: "nat \<Rightarrow> u64 \<Rightarrow> u64" where
  "unsigned_arg sz w = (if sz = 0 \<or> sz = 1 \<or> sz = 2 then ucast (ucast w :: u32) else w)"

text \<open>The \<open>switch\<close> over the conversion character.\<close>

definition convert :: "snprintf_output \<Rightarrow> fmtspec \<Rightarrow> nat \<Rightarrow> char \<Rightarrow> va_list \<Rightarrow> (pr_error + snprintf_output \<times> va_list) option" where
  "convert out spec sz c args =
     (if c = CHR ''%'' then Some (Inr (put_single_char out CHR ''%'', args))
      else if c = CHR ''c'' then do {
        (w, args) \<leftarrow> va_word args;
        Some (Inr (put_single_char out (char_of (unat w)), args))
      } else if c = CHR ''s'' then do {
        (s, args) \<leftarrow> va_string args;
        Some (Inr (do_string out spec s, args))
      } else if c = CHR ''d'' \<or> c = CHR ''i'' then do {
        (w, args) \<leftarrow> va_word args;
        out \<leftarrow> do_signed out spec (signed_arg sz w);
        Some (Inr (out, args))
      } else if c = CHR ''u'' then do {
        (w, args) \<leftarrow> va_word args;
        out \<leftarrow> do_unsigned 10 out spec (unsigned_arg sz w);
        Some (Inr (out, args))
      } else if c = CHR ''o'' then do {
        (w, args) \<leftarrow> va_word args;
        out \<leftarrow> do_unsigned 8 out spec (unsigned_arg sz w);
        Some (Inr (out, args))
      } else if c = CHR ''X'' \<or> c = CHR ''x'' then do {
        let spec = (if c = CHR ''X'' then spec\<lparr>flags := flags spec OR PR_UPPER\<rparr> else spec);
        (w, args) \<leftarrow> va_word args;
        out \<leftarrow> do_unsigned 16 out spec (unsigned_arg sz w);
        Some (Inr (out, args))
      } else if c = CHR ''p'' then do {
        let spec = spec\<lparr>flags := PR_ZERO OR PR_SPECIAL, width := 18\<rparr>;
        (w, args) \<leftarrow> va_word args;
        out \<leftarrow> do_unsigned 16 out spec w;
        Some (Inr (out, args))
      } else Some (Inl Bad_string))"

text \<open>Flags, width, precision and size modifier of the directive after a percent sign.\<close>

definition parse_directive :: "string \<Rightarrow> va_list \<Rightarrow> (pr_error + (fmtspec \<times> nat) \<times> string \<times> va_list) option" where
  "parse_directive fmt args = (case parse_flags 0 fmt of
     Inl e \<Rightarrow> Some (Inl e)
   | Inr (fl, fmt) \<Rightarrow> do {
       r \<leftarrow> parse_width \<lparr>width = 0, precision = 0, flags = fl\<rparr> fmt args;
       (case r of Inl e \<Rightarrow> Some (Inl e) | Inr (spec, fmt, args) \<Rightarrow> do {
         r \<leftarrow> parse_precision spec fmt args;
         (case r of Inl e \<Rightarrow> Some (Inl e) | Inr (spec, fmt, args) \<Rightarrow>
            let (sz, fmt) = parse_size fmt in Some (Inr ((spec, sz), fmt, args)))
       })
     })"

lemma atoi_loop_length: "length (snd (atoi_loop n x fmt)) \<le> length fmt"
proof (induction n x fmt rule: atoi_loop.induct)
  case (2 n x fmt)
  then show ?case by (auto intro: le_trans)
qed simp

lemma parse_flags_length: "parse_flags fl fmt = Inr (fl', fmt') \<Longrightarrow> length fmt' \<le> length fmt"
  by (induction fl fmt rule: parse_flags.induct) (auto split: if_splits intro: le_SucI)

lemma dumb_atoi_length: "length (snd (dumb_atoi fmt)) \<le> length fmt"
  using atoi_loop_length[of 4 "of_char (peek fmt) - 48" "tl fmt"] by (simp add: dumb_atoi_def)

lemma parse_width_length: "parse_width spec fmt args = Some (Inr (spec', fmt', args')) \<Longrightarrow> length fmt' \<le> length fmt"
  using dumb_atoi_length[of fmt] by (auto simp: parse_width_def Let_def split: if_splits prod.splits)

lemma parse_precision_length: "parse_precision spec fmt args = Some (Inr (spec', fmt', args')) \<Longrightarrow> length fmt' \<le> length fmt"
  using dumb_atoi_length[of "tl fmt"] by (auto simp: parse_precision_def Let_def split: if_splits prod.splits)

lemma parse_size_length: "length (snd (parse_size fmt)) \<le> length fmt"
  by (auto simp: parse_size_def)

lemma parse_directive_Some:
  assumes "parse_directive fmt args = Some (Inr (sp, fmt', args'))"
  obtains fl f1 spec2 f2 a2 spec3 f3 where "parse_flags 0 fmt = Inr (fl, f1)"
    "parse_width \<lparr>width = 0, precision = 0, flags = fl\<rparr> f1 args = Some (Inr (spec2, f2, a2))"
    "parse_precision spec2 f2 a2 = Some (Inr (spec3, f3, args'))" "sp = (spec3, fst (parse_size f3))" "fmt' = snd (parse_size f3)"
proof -
  obtain fl f1 where 1: "parse_flags 0 fmt = Inr (fl, f1)"
    using assms by (cases "parse_flags 0 fmt") (auto simp: parse_directive_def)
  obtain r where r: "parse_width \<lparr>width = 0, precision = 0, flags = fl\<rparr> f1 args = Some r"
    using assms 1 by (auto simp: parse_directive_def)
  obtain spec2 f2 a2 where 2: "r = Inr (spec2, f2, a2)"
    using assms 1 r by (cases r) (auto simp: parse_directive_def)
  obtain q where q: "parse_precision spec2 f2 a2 = Some q"
    using assms 1 r 2 by (auto simp: parse_directive_def)
  obtain spec3 f3 a3 where 3: "q = Inr (spec3, f3, a3)"
    using assms 1 r 2 q by (cases q) (auto simp: parse_directive_def)
  have "a3 = args'" "sp = (spec3, fst (parse_size f3))" "fmt' = snd (parse_size f3)"
    using assms 1 r 2 q 3 by (cases "parse_size f3"; simp add: parse_directive_def)+
  then show thesis using that[of fl f1 spec2 f2 a2 spec3 f3] 1 r 2 q 3 by simp
qed

lemma parse_directive_length:
  assumes "parse_directive fmt args = Some (Inr (sp, fmt', args'))"
  shows "length fmt' \<le> length fmt"
proof -
  from assms obtain fl f1 spec2 f2 a2 spec3 f3 where *: "parse_flags 0 fmt = Inr (fl, f1)"
    "parse_width \<lparr>width = 0, precision = 0, flags = fl\<rparr> f1 args = Some (Inr (spec2, f2, a2))"
    "parse_precision spec2 f2 a2 = Some (Inr (spec3, f3, args'))" "fmt' = snd (parse_size f3)"
    by (rule parse_directive_Some)
  show ?thesis using parse_flags_length[OF *(1)] parse_width_length[OF *(2)] parse_precision_length[OF *(3)]
      parse_size_length[of f3] *(4) by simp
qed

text \<open>The loop over the directives. An error ends it after its message has been written.\<close>

function vsnprintf_loop :: "snprintf_output \<Rightarrow> string \<Rightarrow> va_list \<Rightarrow> snprintf_output option" where
  "vsnprintf_loop out fmt args = (
     let p = dropWhile (\<lambda>c. c \<noteq> CHR ''%'') fmt;
         out = put_string out fmt (length fmt - length p)
     in case p of
       [] \<Rightarrow> Some out
     | _ # fmt \<Rightarrow> (case parse_directive fmt args of
         None \<Rightarrow> None
       | Some (Inl e) \<Rightarrow> Some (put_string_auto out (error_text e))
       | Some (Inr ((spec, sz), fmt, args)) \<Rightarrow> (case convert out spec sz (peek fmt) args of
           None \<Rightarrow> None
         | Some (Inl e) \<Rightarrow> Some (put_string_auto out (error_text e))
         | Some (Inr (out, args)) \<Rightarrow> vsnprintf_loop out (tl fmt) args)))"
  by pat_completeness auto
termination
proof (relation "measure (\<lambda>(out, fmt, args). length fmt)", simp)
  fix out out2 :: snprintf_output
  fix fmt args p out1 c fmt1 r b sp y spec sz fmt2 args2 x2a ba args3
  assume p: "p = dropWhile (\<lambda>c. c \<noteq> CHR ''%'') fmt" "p = c # fmt1"
  assume r: "parse_directive fmt1 args = Some r" "r = Inr b" "(sp, y) = b" "(fmt2, args2) = y"
  have "length fmt2 \<le> length fmt1"
    by (rule parse_directive_length[of fmt1 args sp fmt2 args2]) (simp add: r)
  moreover have "Suc (length fmt1) \<le> length fmt"
    using length_dropWhile_le[of "\<lambda>c. c \<noteq> CHR ''%''" fmt] unfolding p(1)[symmetric] p(2) by simp
  ultimately show "((out2, tl fmt2, args3), out, fmt, args) \<in> measure (\<lambda>(out, fmt, args). length fmt)" by simp
qed

declare vsnprintf_loop.simps [simp del]

definition vsnprintf :: "nat \<Rightarrow> string \<Rightarrow> va_list \<Rightarrow> string option" where
  "vsnprintf sz fmt args =
     (if sz = 0 then Some []
      else do {
        out \<leftarrow> vsnprintf_loop \<lparr>o_text = [], o_len = sz - 1\<rparr> fmt args;
        Some (o_text out @ [CHR 0x00])
      })"

section \<open>The text that is meant, without a buffer\<close>

function number_text :: "nat \<Rightarrow> string \<Rightarrow> nat \<Rightarrow> string" where
  "number_text base alpha v =
     (if v < base \<or> base < 2 then [alpha ! (v mod base)] else number_text base alpha (v div base) @ [alpha ! (v mod base)])"
  by pat_completeness auto
termination
  by (relation "measure (\<lambda>(base, alpha, v). v)") (auto intro!: div_less_dividend)

declare number_text.simps [simp del]

definition padding :: "bool \<Rightarrow> int \<Rightarrow> char \<Rightarrow> string" where
  "padding wanted w c = (if wanted then replicate (nat w) c else [])"

definition field :: "fmtspec \<Rightarrow> string \<Rightarrow> string \<Rightarrow> string" where
  "field spec prefix body = (
     let w = width spec - int (length prefix + length body) in
     if has spec PR_ZERO then prefix @ replicate (nat w) CHR ''0'' @ body
     else if has spec PR_LEFT then prefix @ body @ replicate (nat w) CHR '' ''
     else replicate (nat w) CHR '' '' @ prefix @ body)"

definition radix_prefix :: "nat \<Rightarrow> fmtspec \<Rightarrow> string" where
  "radix_prefix base spec =
     (if \<not> has spec PR_SPECIAL then [] else if base = 8 then ''0''
      else if base = 16 then (if has spec PR_UPPER then ''0X'' else ''0x'') else [])"

definition unsigned_text :: "nat \<Rightarrow> fmtspec \<Rightarrow> u64 \<Rightarrow> string" where
  "unsigned_text base spec v =
     field spec (radix_prefix base spec) (number_text base (alphabet (has spec PR_UPPER)) (unat v))"

definition sign_text :: "fmtspec \<Rightarrow> int \<Rightarrow> string" where
  "sign_text spec v =
     (if v < 0 then ''-'' else if has spec PR_PLUS then ''+'' else if has spec PR_SPACE then '' '' else [])"

definition signed_text :: "fmtspec \<Rightarrow> int \<Rightarrow> string" where
  "signed_text spec v = field spec (sign_text spec v) (number_text 10 (alphabet False) (nat \<bar>v\<bar>))"

definition string_text :: "fmtspec \<Rightarrow> string option \<Rightarrow> string" where
  "string_text spec s = (
     let s = take (if precision spec \<noteq> 0 then nat (precision spec) else 1024) (case s of None \<Rightarrow> ''(nullptr)'' | Some s \<Rightarrow> s);
         w = nat (width spec - int (length s))
     in if has spec PR_LEFT then s @ replicate w CHR '' '' else replicate w CHR '' '' @ s)"

section \<open>Writing to the buffer\<close>

definition emit :: "snprintf_output \<Rightarrow> string \<Rightarrow> snprintf_output" where
  "emit out t = out\<lparr>o_text := o_text out @ take (o_len out) t, o_len := o_len out - length t\<rparr>"

lemma emit_Nil [simp]: "emit out [] = out"
  by (simp add: emit_def)

lemma emit_emit [simp]: "emit (emit out s) t = emit out (s @ t)"
  by (simp add: emit_def)

lemma put_single_char_emit: "put_single_char out c = emit out [c]"
  by (simp add: put_single_char_def emit_def take_Cons')

lemma rep_single_char_emit: "rep_single_char out c n = emit out (replicate n c)"
  by (simp add: rep_single_char_def emit_def min_def)

lemma put_string_emit: "n \<le> length s \<Longrightarrow> put_string out s n = emit out (take n s)"
  by (simp add: put_string_def emit_def min_def)

lemma put_string_auto_emit: "put_string_auto out s = emit out s"
  by (simp add: put_string_auto_def put_string_emit)

lemma pad_emit: "pad wanted w c out = emit out (padding wanted w c)"
  by (simp add: pad_def padding_def rep_single_char_emit)

lemmas emits = put_single_char_emit rep_single_char_emit put_string_emit put_string_auto_emit pad_emit

section \<open>Digits\<close>

lemma number_text_length: "2 \<le> base \<Longrightarrow> v < base ^ n \<Longrightarrow> 0 < n \<Longrightarrow> length (number_text base alpha v) \<le> n"
proof (induction base alpha v arbitrary: n rule: number_text.induct)
  case (1 base alpha v)
  show ?case
  proof (cases "v < base")
    case False
    with 1 obtain m where m: "n = Suc m" "0 < m" by (cases n; cases "n - 1") auto
    then have "v div base < base ^ m" using 1 by (simp add: div_less_iff_less_mult mult.commute)
    then show ?thesis using 1 m False by (subst number_text.simps) simp
  qed (use 1 in \<open>subst number_text.simps, simp\<close>)
qed

lemma digit_loop_number:
  "2 \<le> base \<Longrightarrow> length (number_text base alpha v) \<le> n \<Longrightarrow> digit_loop base alpha n buf v = Some (number_text base alpha v @ buf)"
proof (induction base alpha n buf v rule: digit_loop.induct)
  case (1 base alpha buf v)
  then show ?case by (subst (asm) number_text.simps) (simp split: if_splits)
next
  case (2 base alpha i buf v)
  show ?case
  proof (cases "v < base")
    case True
    then show ?thesis by (subst number_text.simps) (simp add: Let_def)
  next
    case False
    then have "v div base \<noteq> 0" using 2 by (simp add: div_eq_0_iff)
    then show ?thesis using 2 False by (subst number_text.simps) (simp add: Let_def number_text.simps[of base alpha v])
  qed
qed

lemma digits_64:
  assumes "base \<in> {8, 10, 16}" "v < 2 ^ 64"
  shows "length (number_text base alpha v) \<le> 22" "base = 10 \<Longrightarrow> length (number_text base alpha v) \<le> 20"
    "base = 16 \<Longrightarrow> length (number_text base alpha v) \<le> 16"
  using assms number_text_length[of base v 22 alpha] number_text_length[of base v 20 alpha] number_text_length[of base v 16 alpha]
  by auto

lemma digit_loop_64:
  "base \<in> {8, 10, 16} \<Longrightarrow> v < 2 ^ 64 \<Longrightarrow> digit_loop base alpha 32 [] v = Some (number_text base alpha v)"
  using digits_64(1)[of base v alpha] by (subst digit_loop_number) auto

section \<open>The conversions write the text that is meant\<close>

lemma flags_none: "flags spec AND (PR_ZERO OR PR_LEFT) = 0 \<longleftrightarrow> \<not> has spec PR_ZERO \<and> \<not> has spec PR_LEFT"
  unfolding has_def by (simp add: bit.conj_disj_distrib) (metis word_bw_same(2) or_eq_0_iff)

lemma field_padding:
  assumes "w = width spec - int (length prefix + length body)"
  shows "padding (flags spec AND (PR_ZERO OR PR_LEFT) = 0) w CHR '' '' @ prefix @ padding (has spec PR_ZERO) w CHR ''0'' @ body @
           padding (has spec PR_LEFT) (if has spec PR_ZERO \<and> w > 0 then 0 else w) CHR '' '' = field spec prefix body"
  using assms by (auto simp: flags_none padding_def field_def Let_def)

lemma do_unsigned_text:
  assumes "base \<in> {8, 10, 16}"
  shows "do_unsigned base out spec v = Some (emit out (unsigned_text base spec v))"
proof -
  define buf where "buf = number_text base (alphabet (has spec PR_UPPER)) (unat v)"
  have "unat v < 2 ^ 64" using unsigned_less[of v] by simp
  then have "digit_loop base (alphabet (has spec PR_UPPER)) 32 [] (unat v) = Some buf"
    unfolding buf_def by (rule digit_loop_64[OF assms])
  moreover have "unsigned_text base spec v = field spec (radix_prefix base spec) buf"
    by (simp add: unsigned_text_def buf_def)
  ultimately show ?thesis using assms
    unfolding do_unsigned_def
    by (auto simp: emits Let_def radix_prefix_def algebra_simps simp flip: field_padding[OF refl])
qed

lemma do_signed_text:
  "do_signed out spec v = (if sint v = - (2 ^ 63) then None else Some (emit out (signed_text spec (sint v))))"
proof -
  define buf where "buf = number_text 10 (alphabet False) (nat \<bar>sint v\<bar>)"
  have lo: "- (2 ^ 63) \<le> sint v" "sint v < 2 ^ 63"
    using sint_greater_eq[of v] sint_less[of v] by simp_all
  have *: "digit_loop 10 (alphabet False) 32 [] (nat \<bar>sint v\<bar>) = Some buf"
    unfolding buf_def using lo by (intro digit_loop_64) auto
  have **: "digit_loop 10 (alphabet False) 32 [] (nat (sint v)) = Some buf" if "\<not> sint v < 0"
    using * that by simp
  have ***: "digit_loop 10 (alphabet False) 32 [] (nat (- sint v)) = Some buf" if "sint v < 0"
    using * that by simp
  have st: "signed_text spec (sint v) = field spec (sign_text spec (sint v)) buf"
    by (simp add: signed_text_def buf_def)
  show ?thesis using lo
    unfolding do_signed_def st
    by (auto simp: emits Let_def sign_text_def ** *** algebra_simps simp flip: field_padding[OF refl])
qed

lemma do_string_text: "do_string out spec s = emit out (string_text spec s)"
proof -
  have "take (min n (length t)) t = take n t" for n and t :: string by (simp add: min_def)
  then show ?thesis by (auto simp: do_string_def string_text_def Let_def emits padding_def min.commute)
qed

definition convert_text :: "fmtspec \<Rightarrow> nat \<Rightarrow> char \<Rightarrow> va_list \<Rightarrow> (pr_error + string \<times> va_list) option" where
  "convert_text spec sz c args =
     (if c = CHR ''%'' then Some (Inr (''%'', args))
      else if c = CHR ''c'' then map_option (\<lambda>(w, args). Inr ([char_of (unat w)], args)) (va_word args)
      else if c = CHR ''s'' then map_option (\<lambda>(s, args). Inr (string_text spec s, args)) (va_string args)
      else if c = CHR ''d'' \<or> c = CHR ''i'' then do {
        (w, args) \<leftarrow> va_word args;
        if sint (signed_arg sz w) = - (2 ^ 63) then None else Some (Inr (signed_text spec (sint (signed_arg sz w)), args))
      } else if c = CHR ''u'' then map_option (\<lambda>(w, args). Inr (unsigned_text 10 spec (unsigned_arg sz w), args)) (va_word args)
      else if c = CHR ''o'' then map_option (\<lambda>(w, args). Inr (unsigned_text 8 spec (unsigned_arg sz w), args)) (va_word args)
      else if c = CHR ''X'' then
        map_option (\<lambda>(w, args). Inr (unsigned_text 16 (spec\<lparr>flags := flags spec OR PR_UPPER\<rparr>) (unsigned_arg sz w), args)) (va_word args)
      else if c = CHR ''x'' then map_option (\<lambda>(w, args). Inr (unsigned_text 16 spec (unsigned_arg sz w), args)) (va_word args)
      else if c = CHR ''p'' then
        map_option (\<lambda>(w, args). Inr (unsigned_text 16 (spec\<lparr>flags := PR_ZERO OR PR_SPECIAL, width := 18\<rparr>) w, args)) (va_word args)
      else Some (Inl Bad_string))"

lemma convert_emit:
  "convert out spec sz c args = map_option (map_sum id (\<lambda>(t, args). (emit out t, args))) (convert_text spec sz c args)"
  by (cases "va_word args"; cases "va_string args")
    (simp_all add: convert_def convert_text_def emits do_unsigned_text do_signed_text do_string_text Let_def case_prod_unfold)

function render :: "string \<Rightarrow> va_list \<Rightarrow> string option" where
  "render fmt args = (
     let text = takeWhile (\<lambda>c. c \<noteq> CHR ''%'') fmt in
     case dropWhile (\<lambda>c. c \<noteq> CHR ''%'') fmt of
       [] \<Rightarrow> Some text
     | _ # fmt \<Rightarrow> (case parse_directive fmt args of
         None \<Rightarrow> None
       | Some (Inl e) \<Rightarrow> Some (text @ error_text e)
       | Some (Inr ((spec, sz), fmt, args)) \<Rightarrow> (case convert_text spec sz (peek fmt) args of
           None \<Rightarrow> None
         | Some (Inl e) \<Rightarrow> Some (text @ error_text e)
         | Some (Inr (t, args)) \<Rightarrow> map_option (\<lambda>u. text @ t @ u) (render (tl fmt) args))))"
  by pat_completeness auto
termination
proof (relation "measure (\<lambda>(fmt, args). length fmt)", simp)
  fix fmt args c fmt1 r b sp y fmt2 args2 args3
  assume p: "dropWhile (\<lambda>c. c \<noteq> CHR ''%'') fmt = c # fmt1"
  assume r: "parse_directive fmt1 args = Some r" "r = Inr b" "(sp, y) = b" "(fmt2, args2) = y"
  have "length fmt2 \<le> length fmt1"
    by (rule parse_directive_length[of fmt1 args sp fmt2 args2]) (simp add: r)
  moreover have "Suc (length fmt1) \<le> length fmt"
    using length_dropWhile_le[of "\<lambda>c. c \<noteq> CHR ''%''" fmt] unfolding p by simp
  ultimately show "((tl fmt2, args3), fmt, args) \<in> measure (\<lambda>(fmt, args). length fmt)" by simp
qed

declare render.simps [simp del]

lemma takeWhile_by_length: "take (length xs - length (dropWhile P xs)) xs = takeWhile P xs"
  by (metis add_diff_cancel_right' append_eq_conv_conj length_append takeWhile_dropWhile_id)

lemma vsnprintf_loop_render: "vsnprintf_loop out fmt args = map_option (emit out) (render fmt args)"
proof (induction out fmt args rule: vsnprintf_loop.induct)
  case (1 out fmt args)
  define p where "p = dropWhile (\<lambda>c. c \<noteq> CHR ''%'') fmt"
  define t where "t = takeWhile (\<lambda>c. c \<noteq> CHR ''%'') fmt"
  have put: "put_string out fmt (length fmt - length p) = emit out t"
    by (simp add: put_string_emit p_def t_def takeWhile_by_length)
  show ?case
  proof (cases p)
    case Nil
    show ?thesis
      by (subst vsnprintf_loop.simps, subst render.simps)
        (simp only: Let_def p_def[symmetric] t_def[symmetric] put[unfolded Nil] Nil list.case option.map)
  next
    case (Cons c fmt1)
    note IH = "1.IH"[OF p_def refl Cons]
    have L: "vsnprintf_loop out fmt args = (case parse_directive fmt1 args of
         None \<Rightarrow> None
       | Some (Inl e) \<Rightarrow> Some (put_string_auto (emit out t) (error_text e))
       | Some (Inr ((spec, sz), fmt, args)) \<Rightarrow> (case convert (emit out t) spec sz (peek fmt) args of
           None \<Rightarrow> None
         | Some (Inl e) \<Rightarrow> Some (put_string_auto (emit out t) (error_text e))
         | Some (Inr (out, args)) \<Rightarrow> vsnprintf_loop out (tl fmt) args))"
      by (subst vsnprintf_loop.simps) (simp only: Let_def p_def[symmetric] put[unfolded Cons] Cons list.case)
    have R: "render fmt args = (case parse_directive fmt1 args of
         None \<Rightarrow> None
       | Some (Inl e) \<Rightarrow> Some (t @ error_text e)
       | Some (Inr ((spec, sz), fmt, args)) \<Rightarrow> (case convert_text spec sz (peek fmt) args of
           None \<Rightarrow> None
         | Some (Inl e) \<Rightarrow> Some (t @ error_text e)
         | Some (Inr (t', args)) \<Rightarrow> map_option (\<lambda>u. t @ t' @ u) (render (tl fmt) args)))"
      by (subst render.simps) (simp only: Let_def p_def[symmetric] t_def[symmetric] Cons list.case)
    show ?thesis
    proof (cases "parse_directive fmt1 args")
      case (Some r)
      note pd = Some
      show ?thesis
      proof (cases r)
        case (Inr b)
        obtain sp f2 a2 where "b = (sp, f2, a2)" by (cases b)
        then obtain spec sz where b: "b = ((spec, sz), f2, a2)" by (cases sp) simp
        show ?thesis
        proof (cases "\<exists>t' a3. convert_text spec sz (peek f2) a2 = Some (Inr (t', a3))")
          case True
          then obtain t' a3 where ct: "convert_text spec sz (peek f2) a2 = Some (Inr (t', a3))" by blast
          have cv: "convert (emit out t) spec sz (peek f2) a2 = Some (Inr (emit out (t @ t'), a3))"
            by (simp add: convert_emit ct)
          have "emit (emit out (t @ t')) = (\<lambda>x. emit out (t @ t' @ x))" by (simp add: fun_eq_iff)
          moreover have "vsnprintf_loop (emit out (t @ t')) (tl f2) a3 = map_option (emit (emit out (t @ t'))) (render (tl f2) a3)"
            by (rule IH[OF pd Inr b[symmetric] refl refl cv[folded put] refl refl])
          ultimately show ?thesis unfolding L R by (simp add: pd Inr b ct cv option.map_comp o_def)
        qed (auto simp: L R pd Inr b convert_emit put_string_auto_emit split: option.split sum.split)
      qed (simp add: L R pd put_string_auto_emit)
    qed (simp add: L R)
  qed
qed

section \<open>Reading numbers back\<close>

definition digit_value :: "char \<Rightarrow> nat" where
  "digit_value c =
     (if c \<le> CHR ''9'' then of_char c - 48 else if CHR ''a'' \<le> c then of_char c - 87 else of_char c - 55)"

definition read_number :: "nat \<Rightarrow> string \<Rightarrow> nat" where
  "read_number base s = foldl (\<lambda>n c. n * base + digit_value c) 0 s"

lemma digit_value_alphabet: "d < 16 \<Longrightarrow> digit_value (alphabet upper ! d) = d"
  by (auto simp: alphabet_def digit_value_def less_eq_char_def numeral_eq_Suc less_Suc_eq)

lemma read_number_text: "base \<in> {8, 10, 16} \<Longrightarrow> read_number base (number_text base (alphabet upper) v) = v"
proof (induction base "alphabet upper" v rule: number_text.induct)
  case (1 base v)
  then have "digit_value (alphabet upper ! (v mod base)) = v mod base"
    by (intro digit_value_alphabet) (auto intro: less_le_trans[OF mod_less_divisor])
  then show ?case using 1 by (subst number_text.simps) (auto simp: read_number_def)
qed

lemma plain_unsigned_text:
  "unsigned_text base \<lparr>width = 0, precision = 0, flags = 0\<rparr> v = number_text base (alphabet False) (unat v)"
  by (simp add: unsigned_text_def field_def has_def radix_prefix_def)

lemma render_long:
  "c \<in> {CHR ''u'', CHR ''x'', CHR ''o''} \<Longrightarrow> render (''%l'' @ [c]) [VInt v] =
     Some (number_text (if c = CHR ''u'' then 10 else if c = CHR ''x'' then 16 else 8) (alphabet False) (unat v))"
  by (auto simp: render.simps[of "_ # _"] render.simps[of "[]"] parse_directive_def parse_width_def parse_precision_def parse_size_def
      flag_of_def peek_def convert_text_def unsigned_arg_def plain_unsigned_text less_eq_char_def)

lemma number_text_small: "v < base \<Longrightarrow> number_text base alpha v = [alpha ! v]"
  by (subst number_text.simps) simp

lemma number_text_big:
  "base \<le> v \<Longrightarrow> 2 \<le> base \<Longrightarrow> number_text base alpha v = number_text base alpha (v div base) @ [alpha ! (v mod base)]"
  by (subst number_text.simps) simp

lemma atoi_loop_numeral:
  "atoi_loop (numeral k) x fmt =
     (if peek fmt < CHR ''0'' \<or> CHR ''9'' < peek fmt then (x, fmt)
      else atoi_loop (pred_numeral k) (x * 10 + (of_char (peek fmt) - 48)) (tl fmt))"
  by (simp add: numeral_eq_Suc)

lemmas render_steps = render.simps[of "_ # _"] render.simps[of "[]"] parse_directive_def parse_width_def parse_precision_def
  parse_size_def dumb_atoi_def atoi_loop_numeral flag_of_def peek_def convert_text_def signed_arg_def unsigned_arg_def
  less_eq_char_def less_char_def

section \<open>Properties\<close>

text \<open>
  (C31) Formatted output refines the text without a buffer: with room for at least one character, the
  buffer receives the rendered text cut to one character less than its size, and a terminating
  zero; it is undefined exactly where the rendering is.
\<close>

theorem vsnprintf_truncates:
  assumes "0 < sz"
  shows "vsnprintf sz fmt args = map_option (\<lambda>t. take (sz - 1) t @ [CHR 0x00]) (render fmt args)"
  using assms by (cases "render fmt args") (simp_all add: vsnprintf_def vsnprintf_loop_render emit_def)

theorem vsnprintf_truncates_witness:
  "vsnprintf 6 ''a=%5d|'' [VInt 42] = Some (''a=   '' @ [CHR 0x00]) \<and> render ''a=%5d|'' [VInt 42] = Some ''a=   42|''"
proof -
  have "render ''a=%5d|'' [VInt 42] = Some ''a=   42|''"
    by (simp add: render_steps signed_text_def field_def has_def sign_text_def number_text_small number_text_big
      alphabet_def numeral_3_eq_3)
  then show ?thesis using vsnprintf_truncates[of 6 "''a=%5d|''" "[VInt 42]"] by simp
qed

text \<open>
  (C36) Printing and reading an unsigned 64-bit number is the identity in every base, and the texts
  have the sizes a caller reserves for them: 20 decimal, 16 hexadecimal and 22 octal digits.
\<close>

theorem vsnprintf_number_roundtrip:
  "(\<exists>t. vsnprintf 21 ''%lu'' [VInt v] = Some (t @ [CHR 0x00]) \<and> read_number 10 t = unat v) \<and>
   (\<exists>t. vsnprintf 17 ''%lx'' [VInt v] = Some (t @ [CHR 0x00]) \<and> read_number 16 t = unat v) \<and>
   (\<exists>t. vsnprintf 23 ''%lo'' [VInt v] = Some (t @ [CHR 0x00]) \<and> read_number 8 t = unat v)"
proof -
  have v: "unat v < 2 ^ 64" using unsigned_less[of v] by simp
  show ?thesis
    using render_long[of "CHR ''u''" v] render_long[of "CHR ''x''" v] render_long[of "CHR ''o''" v]
      digits_64(2)[OF _ v, of 10 "alphabet False"] digits_64(3)[OF _ v, of 16 "alphabet False"] digits_64(1)[OF _ v, of 8 "alphabet False"]
    by (simp add: vsnprintf_def vsnprintf_loop_render emit_def read_number_text)
qed

text \<open>
  A signed conversion is undefined for the most negative 64-bit number, and for no other: the
  sum that is meant to avoid the overflow is computed in the signed type. Every other number is
  written with its sign, padded to the width.
\<close>

theorem do_signed_most_negative:
  "do_signed out spec v = (if v = 0x8000000000000000 then None else Some (emit out (signed_text spec (sint v))))"
proof -
  have "sint (0x8000000000000000 :: 64 word) = - (2 ^ 63)" by simp
  then have "sint v = - (2 ^ 63) \<longleftrightarrow> v = 0x8000000000000000"
    using signed_word_eqI[of v "0x8000000000000000"] by auto
  then show ?thesis by (simp add: do_signed_text)
qed

end
