(* ===== verification/Kernel_Sched.thy ===== *)
theory Kernel_Sched
  imports Davix_Prelude "HOL-Library.Multiset"
begin

text \<open>
  The scheduler (\<^verbatim>\<open>kernel/sched/main.cc\<close>). The state holds the tasks, one runqueue per processor, and what the
  functions do to the rest of the system: the pending-reschedule flags, the reschedule IPIs that
  were sent, the time-slice timers and the lists of dead tasks. Every function runs under the runqueue
  lock and with interrupts disabled, so it is one transition of this state; an access outside the array
  of priority queues, or to a task that does not exist, is undefined (\<^const>\<open>None\<close>). The two sides of a
  wakeup, which race without a lock, are a step relation of their own at the end.
\<close>

section \<open>Tasks and runqueues\<close>

type_synonym task = u64
type_synonym cpu = u32

datatype task_status = TASK_RUNNABLE | TASK_INTERRUPTIBLE | TASK_UNINTERRUPTIBLE | TASK_ZOMBIE

definition TF_IDLE :: u32 where "TF_IDLE = 1"

definition TF_NOMIGRATE :: u32 where "TF_NOMIGRATE = 2"

definition MAX_TASK_PRIORITY :: int where "MAX_TASK_PRIORITY = 20"

definition MIN_TASK_PRIORITY :: int where "MIN_TASK_PRIORITY = 0"

definition NO_CPU :: cpu where "NO_CPU = - 1"

record Task =
  task_state :: task_status
  task_flags :: u32
  base_priority :: int
  current_priority :: int
  unblock_ticket :: u64
  pending_wakeup :: int
  on_cpu :: cpu
  last_cpu :: cpu

record sched_runqueue =
  queues :: "task list list"
  rq_priority :: int
  current_task :: "task option"
  idle_task :: "task option"
  rq_load :: u32

record sched =
  tasks :: "task \<Rightarrow> Task option"
  runqueue :: "cpu \<Rightarrow> sched_runqueue"
  cpu_online :: "cpu list"
  running :: "cpu \<Rightarrow> task"
  pending_reschedule :: "cpu \<Rightarrow> bool"
  reschedule_ipis :: "cpu list"
  slice_timer :: "cpu \<Rightarrow> u64 option"
  reap_list :: "cpu \<Rightarrow> task list"
  reap_pending :: "cpu \<Rightarrow> bool"
  clock :: u64
  quiescent_reports :: "cpu list"

definition idle_flag :: "Task \<Rightarrow> bool" where
  "idle_flag T \<longleftrightarrow> task_flags T AND TF_IDLE \<noteq> 0"

definition nomigrate :: "Task \<Rightarrow> bool" where
  "nomigrate T \<longleftrightarrow> task_flags T AND TF_NOMIGRATE \<noteq> 0"

definition init_runqueue :: sched_runqueue where
  "init_runqueue = \<lparr>queues = replicate 21 [], rq_priority = MIN_TASK_PRIORITY, current_task = None, idle_task = None, rq_load = 0\<rparr>"

definition init_task_struct_fields :: "cpu \<Rightarrow> Task" where
  "init_task_struct_fields this = \<lparr>task_state = TASK_RUNNABLE, task_flags = 0, base_priority = 10, current_priority = 10,
     unblock_ticket = 0, pending_wakeup = 0, on_cpu = NO_CPU, last_cpu = this\<rparr>"

definition idle_task_fields :: "cpu \<Rightarrow> Task" where
  "idle_task_fields this = \<lparr>task_state = TASK_RUNNABLE, task_flags = TF_IDLE OR TF_NOMIGRATE, base_priority = MIN_TASK_PRIORITY - 1,
     current_priority = MIN_TASK_PRIORITY - 1, unblock_ticket = 0, pending_wakeup = 0, on_cpu = this, last_cpu = this\<rparr>"

definition sched_init_cpu :: "task \<Rightarrow> cpu \<Rightarrow> sched \<Rightarrow> sched" where
  "sched_init_cpu tsk this s = s\<lparr>tasks := (tasks s)(tsk \<mapsto> idle_task_fields this),
     runqueue := (runqueue s)(this := (runqueue s this)\<lparr>idle_task := Some tsk, current_task := Some tsk\<rparr>)\<rparr>"

section \<open>Queues\<close>

definition queue_at :: "sched_runqueue \<Rightarrow> int \<Rightarrow> task list option" where
  "queue_at rq idx = (if 0 \<le> idx \<and> nat idx < length (queues rq) then Some (queues rq ! nat idx) else None)"

definition set_queue :: "int \<Rightarrow> task list \<Rightarrow> sched_runqueue \<Rightarrow> sched_runqueue" where
  "set_queue idx q rq = rq\<lparr>queues := (queues rq)[nat idx := q]\<rparr>"

definition upd_rq :: "cpu \<Rightarrow> (sched_runqueue \<Rightarrow> sched_runqueue) \<Rightarrow> sched \<Rightarrow> sched" where
  "upd_rq c f s = s\<lparr>runqueue := (runqueue s)(c := f (runqueue s c))\<rparr>"

definition upd_task :: "task \<Rightarrow> (Task \<Rightarrow> Task) \<Rightarrow> sched \<Rightarrow> sched option" where
  "upd_task t f s = map_option (\<lambda>T. s\<lparr>tasks := (tasks s)(t \<mapsto> f T)\<rparr>) (tasks s t)"

definition FIXED_TIMESLICE_LENGTH :: u64 where "FIXED_TIMESLICE_LENGTH = 5000000"

definition arm_slice_timer :: "cpu \<Rightarrow> sched \<Rightarrow> sched" where
  "arm_slice_timer c s = (case slice_timer s c of
     Some _ \<Rightarrow> s
   | None \<Rightarrow> s\<lparr>slice_timer := (slice_timer s)(c \<mapsto> clock s + FIXED_TIMESLICE_LENGTH)\<rparr>)"

definition set_pending_reschedule :: "cpu \<Rightarrow> sched \<Rightarrow> sched" where
  "set_pending_reschedule c s = s\<lparr>pending_reschedule := (pending_reschedule s)(c := True)\<rparr>"

definition clear_pending_reschedule :: "cpu \<Rightarrow> sched \<Rightarrow> sched" where
  "clear_pending_reschedule c s = s\<lparr>pending_reschedule := (pending_reschedule s)(c := False)\<rparr>"

definition reschedule_remote_processor :: "cpu \<Rightarrow> sched \<Rightarrow> sched" where
  "reschedule_remote_processor c s = s\<lparr>reschedule_ipis := reschedule_ipis s @ [c]\<rparr>"

definition handle_reschedule_IPI :: "cpu \<Rightarrow> sched \<Rightarrow> sched" where
  "handle_reschedule_IPI c s = set_pending_reschedule c s"

definition sched_timer_fn :: "cpu \<Rightarrow> sched \<Rightarrow> sched" where
  "sched_timer_fn c s = set_pending_reschedule c (s\<lparr>slice_timer := (slice_timer s)(c := None)\<rparr>)"

fun least_loaded :: "sched \<Rightarrow> cpu list \<Rightarrow> cpu \<times> u32 \<Rightarrow> cpu \<times> u32" where
  "least_loaded s [] best = best"
| "least_loaded s (c # cs) (best_cpu, best_load) =
     least_loaded s cs (if rq_load (runqueue s c) < best_load then (c, rq_load (runqueue s c)) else (best_cpu, best_load))"

definition find_least_loaded_cpu :: "sched \<Rightarrow> cpu" where
  "find_least_loaded_cpu s = fst (least_loaded s (cpu_online s) (0, - 1))"

definition enqueue_on_remote_processor :: "task \<Rightarrow> cpu \<Rightarrow> sched \<Rightarrow> sched option" where
  "enqueue_on_remote_processor t c s = do {
     T \<leftarrow> tasks s t;
     let idx = current_priority T - MIN_TASK_PRIORITY;
     let s = upd_rq c (\<lambda>rq. rq\<lparr>rq_load := rq_load rq + 1\<rparr>) s;
     s \<leftarrow> upd_task t (\<lambda>T. T\<lparr>task_state := TASK_RUNNABLE\<rparr>) s;
     q \<leftarrow> queue_at (runqueue s c) idx;
     let was_empty = (q = []);
     let s = upd_rq c (set_queue idx (q @ [t])) s;
     Some (if current_priority T > rq_priority (runqueue s c) then reschedule_remote_processor c s
           else if current_priority T = rq_priority (runqueue s c) \<and> was_empty then reschedule_remote_processor c s
           else s)
   }"

definition enqueue_on_this_processor :: "task \<Rightarrow> cpu \<Rightarrow> sched \<Rightarrow> sched option" where
  "enqueue_on_this_processor t this s = do {
     T \<leftarrow> tasks s t;
     let idx = current_priority T - MIN_TASK_PRIORITY;
     let s = upd_rq this (\<lambda>rq. rq\<lparr>rq_load := rq_load rq + 1\<rparr>) s;
     s \<leftarrow> upd_task t (\<lambda>T. T\<lparr>task_state := TASK_RUNNABLE\<rparr>) s;
     q \<leftarrow> queue_at (runqueue s this) idx;
     let was_empty = (q = []);
     let s = upd_rq this (set_queue idx (q @ [t])) s;
     Some (if current_priority T > rq_priority (runqueue s this) then set_pending_reschedule this s
           else if current_priority T = rq_priority (runqueue s this) \<and> was_empty then arm_slice_timer this s
           else s)
   }"

definition enqueue_on :: "task \<Rightarrow> cpu \<Rightarrow> cpu \<Rightarrow> sched \<Rightarrow> sched option" where
  "enqueue_on t this target s =
     (if this = target then enqueue_on_this_processor t this s else enqueue_on_remote_processor t target s)"

section \<open>Waking\<close>

definition wake_off_cpu :: "task \<Rightarrow> cpu \<Rightarrow> sched \<Rightarrow> sched option" where
  "wake_off_cpu t this s = do {
     T \<leftarrow> tasks s t;
     (if nomigrate T then enqueue_on t this (last_cpu T) s
      else do {
        let target = find_least_loaded_cpu s;
        s \<leftarrow> upd_task t (\<lambda>T. T\<lparr>last_cpu := target\<rparr>) s;
        enqueue_on t this target s
      })
   }"

definition sched_wake_task :: "task \<Rightarrow> cpu \<Rightarrow> sched \<Rightarrow> sched option" where
  "sched_wake_task t this s = do {
     s \<leftarrow> upd_task t (\<lambda>T. T\<lparr>pending_wakeup := 1\<rparr>) s;
     T \<leftarrow> tasks s t;
     (if on_cpu T \<noteq> NO_CPU then Some s
      else if pending_wakeup T \<noteq> 1 then Some s
      else do {
        s \<leftarrow> upd_task t (\<lambda>T. T\<lparr>pending_wakeup := 0\<rparr>) s;
        wake_off_cpu t this s
      })
   }"

definition sched_wake :: "task \<Rightarrow> u64 \<Rightarrow> cpu \<Rightarrow> sched \<Rightarrow> (bool \<times> sched) option" where
  "sched_wake t ticket this s = do {
     T \<leftarrow> tasks s t;
     (if unblock_ticket T \<noteq> ticket then Some (False, s)
      else do {
        s \<leftarrow> upd_task t (\<lambda>T. T\<lparr>unblock_ticket := ticket + 1\<rparr>) s;
        s \<leftarrow> sched_wake_task t this s;
        Some (True, s)
      })
   }"

definition sched_get_blocking_ticket :: "cpu \<Rightarrow> sched \<Rightarrow> (u64 \<times> sched) option" where
  "sched_get_blocking_ticket this s = do {
     let me = running s this;
     s \<leftarrow> upd_task me (\<lambda>T. T\<lparr>unblock_ticket := unblock_ticket T + 1\<rparr>) s;
     T \<leftarrow> tasks s me;
     Some (unblock_ticket T, s)
   }"

definition set_current_state :: "task_status \<Rightarrow> cpu \<Rightarrow> sched \<Rightarrow> sched option" where
  "set_current_state st this s = upd_task (running s this) (\<lambda>T. T\<lparr>task_state := st\<rparr>) s"

section \<open>Switching\<close>

definition finish_context_switch :: "task \<Rightarrow> cpu \<Rightarrow> sched \<Rightarrow> sched option" where
  "finish_context_switch prev this s = do {
     T \<leftarrow> tasks s prev;
     (if task_state T = TASK_ZOMBIE then
        Some (s\<lparr>reap_list := (reap_list s)(this := reap_list s this @ [prev]), reap_pending := (reap_pending s)(this := True)\<rparr>)
      else if task_state T = TASK_RUNNABLE then upd_task prev (\<lambda>T. T\<lparr>on_cpu := NO_CPU\<rparr>) s
      else do {
        s \<leftarrow> upd_task prev (\<lambda>T. T\<lparr>on_cpu := NO_CPU\<rparr>) s;
        T \<leftarrow> tasks s prev;
        (if pending_wakeup T \<noteq> 1 then Some s
         else do {
           s \<leftarrow> upd_task prev (\<lambda>T. T\<lparr>pending_wakeup := 0\<rparr>) s;
           (if nomigrate T then enqueue_on_this_processor prev this s
            else do {
              let target = find_least_loaded_cpu s;
              s \<leftarrow> upd_task prev (\<lambda>T. T\<lparr>last_cpu := target\<rparr>) s;
              enqueue_on prev this target s
            })
         })
      })
   }"

definition context_switch :: "task \<Rightarrow> task \<Rightarrow> cpu \<Rightarrow> sched \<Rightarrow> sched option" where
  "context_switch me nxt this s = do {
     N \<leftarrow> tasks s nxt;
     let s = upd_rq this (\<lambda>rq. rq\<lparr>rq_priority := current_priority N\<rparr>) s;
     s \<leftarrow> upd_task nxt (\<lambda>T. T\<lparr>on_cpu := this\<rparr>) s;
     q \<leftarrow> queue_at (runqueue s this) (rq_priority (runqueue s this));
     let s = (if q \<noteq> [] then arm_slice_timer this s else s);
     let s = upd_rq this (\<lambda>rq. rq\<lparr>current_task := Some nxt\<rparr>) s;
     finish_context_switch me this (s\<lparr>running := (running s)(this := nxt)\<rparr>)
   }"

fun pick_from :: "nat \<Rightarrow> sched_runqueue \<Rightarrow> (task \<times> sched_runqueue) option" where
  "pick_from 0 rq = map_option (\<lambda>t. (t, rq)) (idle_task rq)"
| "pick_from (Suc n) rq = do {
     q \<leftarrow> queue_at rq (int n);
     (case q of [] \<Rightarrow> pick_from n rq | t # ts \<Rightarrow> Some (t, set_queue (int n) ts rq))
   }"

definition pick_next_task :: "sched_runqueue \<Rightarrow> (task \<times> sched_runqueue) option" where
  "pick_next_task rq = pick_from (nat (MAX_TASK_PRIORITY - MIN_TASK_PRIORITY + 1)) rq"

definition enqueue_task :: "task \<Rightarrow> Task \<Rightarrow> sched_runqueue \<Rightarrow> sched_runqueue option" where
  "enqueue_task t T rq = map_option (\<lambda>q. set_queue (current_priority T) (q @ [t]) rq) (queue_at rq (current_priority T))"

definition requeue_current :: "task \<Rightarrow> Task \<Rightarrow> sched_runqueue \<Rightarrow> sched_runqueue option" where
  "requeue_current me T rq =
     (if task_state T = TASK_RUNNABLE \<and> \<not> idle_flag T then enqueue_task me T rq
      else if \<not> idle_flag T then Some (rq\<lparr>rq_load := rq_load rq - 1\<rparr>)
      else Some rq)"

text \<open>The call of \<open>rcu_quiesce\<close> is only recorded here.\<close>

definition report_quiescent :: "cpu \<Rightarrow> sched \<Rightarrow> sched" where
  "report_quiescent c s = s\<lparr>quiescent_reports := quiescent_reports s @ [c]\<rparr>"

definition schedule :: "cpu \<Rightarrow> sched \<Rightarrow> sched option" where
  "schedule this s = do {
     let me = running s this;
     let s = report_quiescent this s;
     let s = clear_pending_reschedule this s;
     T \<leftarrow> tasks s me;
     rq \<leftarrow> requeue_current me T (runqueue s this);
     (nxt, rq) \<leftarrow> pick_next_task rq;
     let s = upd_rq this (\<lambda>_. rq) s;
     (if me \<noteq> nxt then context_switch me nxt this s else Some s)
   }"

definition kthread_start :: "task \<Rightarrow> cpu \<Rightarrow> sched \<Rightarrow> (bool \<times> sched) option" where
  "kthread_start t this s = sched_wake t 0 this s"

definition kthread_exit :: "cpu \<Rightarrow> sched \<Rightarrow> sched option" where
  "kthread_exit this s = do { s \<leftarrow> set_current_state TASK_ZOMBIE this s; schedule this s }"

definition reap_dpc_func :: "cpu \<Rightarrow> sched \<Rightarrow> sched" where
  "reap_dpc_func this s = s\<lparr>tasks := (\<lambda>t. if t \<in> set (reap_list s this) then None else tasks s t),
     reap_list := (reap_list s)(this := []), reap_pending := (reap_pending s)(this := False)\<rparr>"

section \<open>The runqueue invariant\<close>

text \<open>
  The load of a processor is the number of its queued tasks and of its running task, the idle task not
  counted; a task is in at most one place.
\<close>

definition busy :: "sched \<Rightarrow> cpu \<Rightarrow> bool" where
  "busy s c = (case tasks s (running s c) of None \<Rightarrow> False | Some T \<Rightarrow> \<not> idle_flag T)"

definition load_of :: "sched \<Rightarrow> cpu \<Rightarrow> task multiset" where
  "load_of s c = mset (concat (queues (runqueue s c))) + (if busy s c then {#running s c#} else {#})"

definition queues_ok :: "(task \<Rightarrow> Task option) \<Rightarrow> sched_runqueue \<Rightarrow> bool" where
  "queues_ok ts rq \<longleftrightarrow> length (queues rq) = 21 \<and>
     (\<forall>i < 21. \<forall>t \<in> set (queues rq ! i). \<exists>T. ts t = Some T \<and> current_priority T = int i \<and> task_state T = TASK_RUNNABLE \<and> \<not> idle_flag T)"

definition idle_ok :: "(task \<Rightarrow> Task option) \<Rightarrow> sched_runqueue \<Rightarrow> bool" where
  "idle_ok ts rq \<longleftrightarrow> (\<exists>i T. idle_task rq = Some i \<and> ts i = Some T \<and> idle_flag T)"

definition tasks_ok :: "sched \<Rightarrow> bool" where
  "tasks_ok s \<longleftrightarrow> (\<forall>t T. tasks s t = Some T \<longrightarrow> (\<not> idle_flag T \<longrightarrow> 0 \<le> current_priority T \<and> current_priority T \<le> 20) \<and>
     (idle_flag T \<longrightarrow> task_state T = TASK_RUNNABLE) \<and>
     (nomigrate T \<longrightarrow> last_cpu T \<in> set (cpu_online s)))"

definition sched_ok :: "sched \<Rightarrow> bool" where
  "sched_ok s \<longleftrightarrow> 0 \<in> set (cpu_online s) \<and> tasks_ok s \<and>
     (\<forall>c \<in> set (cpu_online s). queues_ok (tasks s) (runqueue s c) \<and> idle_ok (tasks s) (runqueue s c) \<and>
        tasks s (running s c) \<noteq> None \<and> rq_load (runqueue s c) = of_nat (size (load_of s c)) \<and> (\<forall>t. count (load_of s c) t \<le> 1)) \<and>
     (\<forall>c \<in> set (cpu_online s). \<forall>d \<in> set (cpu_online s). c \<noteq> d \<longrightarrow> set_mset (load_of s c) \<inter> set_mset (load_of s d) = {})"

text \<open>The place of a task: in the load of some processor.\<close>

definition placed :: "sched \<Rightarrow> task \<Rightarrow> bool" where
  "placed s t \<longleftrightarrow> (\<exists>c \<in> set (cpu_online s). t \<in># load_of s c)"

section \<open>Queue operations\<close>

lemma concat_push:
  assumes "i < length qs"
  shows "mset (concat (qs[i := qs ! i @ [t]])) = add_mset t (mset (concat qs))"
proof -
  have "concat qs = concat (take i qs @ qs ! i # drop (Suc i) qs)" using id_take_nth_drop[OF assms] by simp
  then show ?thesis using assms by (simp add: upd_conv_take_nth_drop)
qed

lemma concat_pop:
  assumes "i < length qs" "qs ! i = t # ts"
  shows "add_mset t (mset (concat (qs[i := ts]))) = mset (concat qs)"
proof -
  have "concat qs = concat (take i qs @ qs ! i # drop (Suc i) qs)" using id_take_nth_drop[OF assms(1)] by simp
  then show ?thesis using assms by (simp add: upd_conv_take_nth_drop)
qed

lemma queue_at_ok: "queues_ok ts rq \<Longrightarrow> 0 \<le> i \<Longrightarrow> i \<le> 20 \<Longrightarrow> queue_at rq i = Some (queues rq ! nat i)"
  by (auto simp: queue_at_def queues_ok_def)

lemma queues_ok_push:
  assumes "queues_ok ts rq" "ts t = Some T" "task_state T = TASK_RUNNABLE" "\<not> idle_flag T" "0 \<le> current_priority T" "current_priority T \<le> 20"
  shows "queues_ok ts (set_queue (current_priority T) (queues rq ! nat (current_priority T) @ [t]) rq)"
  using assms by (auto simp: queues_ok_def set_queue_def nth_list_update)

lemma queues_ok_pop:
  assumes "queues_ok ts rq" "i < 21" "queues rq ! i = t # q"
  shows "queues_ok ts (set_queue (int i) q rq)"
  using assms unfolding queues_ok_def set_queue_def by (auto simp: nth_list_update)

lemma queues_ok_upd:
  assumes "queues_ok ts rq" "ts t = Some T" "current_priority T' = current_priority T" "idle_flag T' = idle_flag T"
    and "task_state T = TASK_RUNNABLE \<Longrightarrow> task_state T' = TASK_RUNNABLE"
  shows "queues_ok (ts(t \<mapsto> T')) rq"
proof -
  have "\<exists>X'. (ts(t \<mapsto> T')) x = Some X' \<and> current_priority X' = int i \<and> task_state X' = TASK_RUNNABLE \<and> \<not> idle_flag X'"
    if x: "i < 21" "x \<in> set (queues rq ! i)" for i x
  proof -
    obtain X where "ts x = Some X" "current_priority X = int i" "task_state X = TASK_RUNNABLE" "\<not> idle_flag X"
      using assms(1) x unfolding queues_ok_def by blast
    then show ?thesis using assms(2-5) by (cases "x = t") auto
  qed
  then show ?thesis using assms(1) by (simp add: queues_ok_def)
qed

lemma idle_ok_upd:
  assumes "idle_ok ts rq" "idle_task rq' = idle_task rq" "ts t = Some T" "idle_flag T' = idle_flag T"
  shows "idle_ok (ts(t \<mapsto> T')) rq'"
proof -
  obtain i I where "idle_task rq = Some i" "ts i = Some I" "idle_flag I" using assms(1) by (auto simp: idle_ok_def)
  then show ?thesis using assms(2-4) by (cases "i = t") (auto simp: idle_ok_def)
qed

lemma pick_from_Some:
  assumes "n \<le> length (queues rq)" "pick_from n rq = Some (t, rq')"
  shows "(\<exists>i q. i < n \<and> queues rq ! i = t # q \<and> (\<forall>j. i < j \<and> j < n \<longrightarrow> queues rq ! j = []) \<and> rq' = set_queue (int i) q rq) \<or>
    ((\<forall>j < n. queues rq ! j = []) \<and> idle_task rq = Some t \<and> rq' = rq)"
  using assms
proof (induction n)
  case (Suc n)
  have q: "queue_at rq (int n) = Some (queues rq ! n)" using Suc.prems(1) by (simp add: queue_at_def)
  show ?case
  proof (cases "queues rq ! n")
    case Nil
    then show ?thesis using Suc q by (auto simp: less_Suc_eq)
  next
    case (Cons a as)
    then have "t = a" "rq' = set_queue (int n) as rq" using Suc.prems q by auto
    then show ?thesis using Cons by (intro disjI1 exI[of _ n] exI[of _ as]) auto
  qed
qed auto

lemma pick_from_defined:
  assumes "n \<le> length (queues rq)" "idle_task rq \<noteq> None"
  shows "pick_from n rq \<noteq> None"
  using assms by (induction n) (auto simp: queue_at_def split: list.splits)

lemma find_least_loaded_online: "0 \<in> set (cpu_online s) \<Longrightarrow> find_least_loaded_cpu s \<in> set (cpu_online s)"
proof -
  have "fst (least_loaded s cs b) \<in> insert (fst b) (set cs)" for cs b
    by (induction s cs b rule: least_loaded.induct) auto
  then show "0 \<in> set (cpu_online s) \<Longrightarrow> find_least_loaded_cpu s \<in> set (cpu_online s)"
    unfolding find_least_loaded_cpu_def by (metis fst_conv insert_iff)
qed

section \<open>Enqueueing a task\<close>

definition enqueued :: "task \<Rightarrow> cpu \<Rightarrow> sched \<Rightarrow> sched \<Rightarrow> bool" where
  "enqueued t c s s' \<longleftrightarrow> (\<exists>T. tasks s t = Some T \<and> tasks s' = (tasks s)(t \<mapsto> T\<lparr>task_state := TASK_RUNNABLE\<rparr>) \<and>
     runqueue s' = (runqueue s)(c := set_queue (current_priority T) (queues (runqueue s c) ! nat (current_priority T) @ [t])
       ((runqueue s c)\<lparr>rq_load := rq_load (runqueue s c) + 1\<rparr>)) \<and>
     running s' = running s \<and> cpu_online s' = cpu_online s)"

lemma enqueue_on_spec:
  assumes "queues_ok ts (runqueue s c)" "tasks s t = Some T" "0 \<le> current_priority T" "current_priority T \<le> 20"
  shows "\<exists>s'. enqueue_on t this c s = Some s' \<and> enqueued t c s s'"
proof -
  have "length (queues (runqueue s c)) = 21" using assms(1) by (simp add: queues_ok_def)
  then have q: "queue_at ((runqueue s c)\<lparr>rq_load := l\<rparr>) (current_priority T) = Some (queues (runqueue s c) ! nat (current_priority T))" for l
    using assms by (auto simp: queue_at_def)
  show ?thesis
    using assms(2) q unfolding enqueue_on_def enqueue_on_this_processor_def enqueue_on_remote_processor_def enqueued_def
    by (simp add: upd_task_def upd_rq_def MIN_TASK_PRIORITY_def arm_slice_timer_def set_pending_reschedule_def
        reschedule_remote_processor_def Let_def del: bind_Some_iff split: option.split)
qed

lemma idle_flag_update [simp]:
  "idle_flag (T\<lparr>task_state := x\<rparr>) = idle_flag T" "idle_flag (T\<lparr>on_cpu := c\<rparr>) = idle_flag T"
  "idle_flag (T\<lparr>pending_wakeup := p\<rparr>) = idle_flag T" "idle_flag (T\<lparr>last_cpu := c\<rparr>) = idle_flag T"
  "idle_flag (T\<lparr>unblock_ticket := u\<rparr>) = idle_flag T"
  by (simp_all add: idle_flag_def)

lemma nomigrate_update [simp]:
  "nomigrate (T\<lparr>task_state := x\<rparr>) = nomigrate T" "nomigrate (T\<lparr>on_cpu := c\<rparr>) = nomigrate T"
  "nomigrate (T\<lparr>pending_wakeup := p\<rparr>) = nomigrate T" "nomigrate (T\<lparr>last_cpu := c\<rparr>) = nomigrate T"
  "nomigrate (T\<lparr>unblock_ticket := u\<rparr>) = nomigrate T"
  by (simp_all add: nomigrate_def)

lemma set_queue_simps [simp]:
  "rq_load (set_queue i q rq) = rq_load rq" "idle_task (set_queue i q rq) = idle_task rq" "rq_priority (set_queue i q rq) = rq_priority rq"
  "queues (set_queue i q rq) = (queues rq)[nat i := q]"
  by (simp_all add: set_queue_def)

lemma load_of_enqueued:
  assumes "enqueued t c s s'" "queues_ok (tasks s) (runqueue s c)" "tasks s t = Some T" "0 \<le> current_priority T" "current_priority T \<le> 20"
  shows "load_of s' d = (if d = c then add_mset t (load_of s c) else load_of s d)"
proof -
  have b: "busy s' d = busy s d" for d
    using assms(1,3) by (auto simp: enqueued_def busy_def)
  have "nat (current_priority T) < length (queues (runqueue s c))" using assms by (auto simp: queues_ok_def)
  from concat_push[OF this, of t] show ?thesis
    using assms(1,3) b by (auto simp: load_of_def enqueued_def)
qed

lemma enqueued_ok:
  assumes "sched_ok s" "c \<in> set (cpu_online s)" "\<not> placed s t" "tasks s t = Some T" "\<not> idle_flag T" "enqueued t c s s'"
  shows "sched_ok s'"
proof -
  have pr: "0 \<le> current_priority T" "current_priority T \<le> 20" using assms by (auto simp: sched_ok_def tasks_ok_def)
  have qc: "queues_ok (tasks s) (runqueue s c)" using assms by (simp add: sched_ok_def)
  note l = load_of_enqueued[OF assms(6) qc assms(4) pr]
  have ts: "tasks s' = (tasks s)(t \<mapsto> T\<lparr>task_state := TASK_RUNNABLE\<rparr>)" and on: "cpu_online s' = cpu_online s"
    and run: "running s' = running s" using assms(4,6) by (auto simp: enqueued_def)
  have rq: "runqueue s' = (runqueue s)(c := set_queue (current_priority T) (queues (runqueue s c) ! nat (current_priority T) @ [t])
       ((runqueue s c)\<lparr>rq_load := rq_load (runqueue s c) + 1\<rparr>))" using assms(4,6) by (auto simp: enqueued_def)
  have keep: "queues_ok (tasks s') q" if "queues_ok (tasks s) q" for q
    unfolding ts by (rule queues_ok_upd[OF that assms(4)]) simp_all
  have "queues_ok (tasks s') (runqueue s' c)"
    using queues_ok_push[OF keep[OF qc], of t "T\<lparr>task_state := TASK_RUNNABLE\<rparr>"] assms(5) pr unfolding rq ts
    by (simp add: queues_ok_def set_queue_def)
  then have 1: "queues_ok (tasks s') (runqueue s' d)" if "d \<in> set (cpu_online s)" for d
    using keep assms(1) that by (cases "d = c") (auto simp: sched_ok_def rq)
  have 2: "idle_ok (tasks s') (runqueue s' d)" if "d \<in> set (cpu_online s)" for d
    unfolding ts using assms(1,4) that
    by (intro idle_ok_upd[of "tasks s" "runqueue s d" "runqueue s' d" t T]) (auto simp: sched_ok_def rq)
  have 3: "tasks_ok s'" using assms(1,4) by (auto simp: sched_ok_def tasks_ok_def ts on)
  have new: "t \<notin># load_of s d" if "d \<in> set (cpu_online s)" for d
    using assms(3) that by (auto simp: placed_def)
  have 4: "rq_load (runqueue s' d) = of_nat (size (load_of s' d)) \<and> (\<forall>x. count (load_of s' d) x \<le> 1)" if "d \<in> set (cpu_online s)" for d
    using assms(1) that new[OF that] unfolding l by (auto simp: sched_ok_def rq not_in_iff)
  show ?thesis unfolding sched_ok_def on using 1 2 3 4 assms(1,2) new
    by (auto simp: sched_ok_def l run ts)
qed

section \<open>Updates that keep the invariant\<close>

lemma load_of_upd:
  assumes "tasks s t = Some T" "idle_flag T' = idle_flag T"
  shows "load_of (s\<lparr>tasks := (tasks s)(t \<mapsto> T')\<rparr>) c = load_of s c"
  using assms by (auto simp: load_of_def busy_def)

lemma touch_ok:
  assumes "sched_ok s" "tasks s t = Some T" "current_priority T' = current_priority T" "task_flags T' = task_flags T"
    "task_state T' = task_state T" "nomigrate T \<Longrightarrow> last_cpu T' = last_cpu T"
  shows "sched_ok (s\<lparr>tasks := (tasks s)(t \<mapsto> T')\<rparr>)"
proof -
  have f: "idle_flag T' = idle_flag T" "nomigrate T' = nomigrate T" using assms(4) by (simp_all add: idle_flag_def nomigrate_def)
  have "tasks_ok (s\<lparr>tasks := (tasks s)(t \<mapsto> T')\<rparr>)" using assms f by (auto simp: sched_ok_def tasks_ok_def)
  moreover have "queues_ok ((tasks s)(t \<mapsto> T')) (runqueue s c)" "idle_ok ((tasks s)(t \<mapsto> T')) (runqueue s c)"
    if "c \<in> set (cpu_online s)" for c
    using assms f that by (auto simp: sched_ok_def intro!: queues_ok_upd idle_ok_upd)
  ultimately show ?thesis using assms(1) unfolding sched_ok_def load_of_upd[OF assms(2) f(1)] by auto
qed

lemma placed_touch:
  assumes "tasks s t = Some T" "idle_flag T' = idle_flag T"
  shows "placed (s\<lparr>tasks := (tasks s)(t \<mapsto> T')\<rparr>) x = placed s x"
  unfolding placed_def load_of_upd[OF assms] by simp

lemma enqueue_on_ok:
  assumes "sched_ok s" "c \<in> set (cpu_online s)" "\<not> placed s t" "tasks s t = Some T" "\<not> idle_flag T"
  obtains s' where "enqueue_on t this c s = Some s'" "sched_ok s'" "enqueued t c s s'" "t \<in># load_of s' c" "cpu_online s' = cpu_online s"
proof -
  have pr: "0 \<le> current_priority T" "current_priority T \<le> 20" using assms by (auto simp: sched_ok_def tasks_ok_def)
  have qc: "queues_ok (tasks s) (runqueue s c)" using assms by (simp add: sched_ok_def)
  from enqueue_on_spec[OF qc assms(4) pr, of this] obtain s' where s': "enqueue_on t this c s = Some s'" "enqueued t c s s'" by blast
  show thesis using that[OF s'(1) enqueued_ok[OF assms s'(2)] s'(2)] load_of_enqueued[OF s'(2) qc assms(4) pr, of c] s'(2)
    by (auto simp: enqueued_def)
qed

lemma wake_off_cpu_ok:
  assumes "sched_ok s" "\<not> placed s t" "tasks s t = Some T" "\<not> idle_flag T"
  obtains s' where "wake_off_cpu t this s = Some s'" "sched_ok s'" "placed s' t" "running s' = running s" "cpu_online s' = cpu_online s"
    "tasks s' = (tasks s)(t \<mapsto> (if nomigrate T then T else T\<lparr>last_cpu := find_least_loaded_cpu s\<rparr>)\<lparr>task_state := TASK_RUNNABLE\<rparr>)"
proof (cases "nomigrate T")
  case True
  then have "last_cpu T \<in> set (cpu_online s)" using assms by (auto simp: sched_ok_def tasks_ok_def)
  from enqueue_on_ok[OF assms(1) this assms(2-4), of this] obtain s' where
    "enqueue_on t this (last_cpu T) s = Some s'" "sched_ok s'" "enqueued t (last_cpu T) s s'" "t \<in># load_of s' (last_cpu T)" "cpu_online s' = cpu_online s" .
  then show thesis using that[of s'] True assms(3) \<open>last_cpu T \<in> set (cpu_online s)\<close>
    by (auto simp: wake_off_cpu_def enqueued_def placed_def simp del: bind_Some_iff)
next
  case False
  let ?c = "find_least_loaded_cpu s" and ?T = "T\<lparr>last_cpu := find_least_loaded_cpu s\<rparr>"
  let ?s = "s\<lparr>tasks := (tasks s)(t \<mapsto> ?T)\<rparr>"
  have c: "?c \<in> set (cpu_online ?s)" using assms(1) find_least_loaded_online by (simp add: sched_ok_def)
  have ok: "sched_ok ?s" by (rule touch_ok[OF assms(1,3)]) (use False in simp_all)
  have np: "\<not> placed ?s t" using assms placed_touch[OF assms(3), of ?T] by simp
  from enqueue_on_ok[OF ok c np, of ?T this] assms(4) obtain s' where
    "enqueue_on t this ?c ?s = Some s'" "sched_ok s'" "enqueued t ?c ?s s'" "t \<in># load_of s' ?c" "cpu_online s' = cpu_online ?s"
    by auto
  then show thesis using that[of s'] False assms(3) c
    by (auto simp: wake_off_cpu_def enqueued_def placed_def upd_task_def simp del: bind_Some_iff)
qed


section \<open>Waking a task\<close>

lemma sched_wake_ok:
  assumes "sched_ok s" "tasks s t = Some T" "\<not> idle_flag T" "on_cpu T = NO_CPU \<Longrightarrow> \<not> placed s t"
  obtains s' where "sched_wake t (unblock_ticket T) this s = Some (True, s')" "sched_ok s'" "running s' = running s"
    "if on_cpu T = NO_CPU then placed s' t else runqueue s' = runqueue s \<and> (\<exists>T'. tasks s' t = Some T' \<and> pending_wakeup T' = 1)"
    "\<exists>T'. tasks s' t = Some T' \<and> unblock_ticket T' = unblock_ticket T + 1"
proof -
  define T1 where "T1 = T\<lparr>unblock_ticket := unblock_ticket T + 1, pending_wakeup := 1\<rparr>"
  define s1 where "s1 = s\<lparr>tasks := (tasks s)(t \<mapsto> T1)\<rparr>"
  have ok1: "sched_ok s1" unfolding s1_def by (rule touch_ok[OF assms(1,2)]) (simp_all add: T1_def)
  have wt: "upd_task t (\<lambda>T. T\<lparr>unblock_ticket := unblock_ticket T + 1\<rparr>) s \<noteq> None" using assms by (simp add: upd_task_def)
  show thesis
  proof (cases "on_cpu T = NO_CPU")
    case False
    then have "sched_wake t (unblock_ticket T) this s = Some (True, s1)"
      using assms(2) by (simp add: sched_wake_def sched_wake_task_def upd_task_def s1_def T1_def del: bind_Some_iff)
    then show thesis using that[of s1] ok1 False assms(2) by (simp add: s1_def T1_def)
  next
    case True
    define T2 where "T2 = T1\<lparr>pending_wakeup := 0\<rparr>"
    define s2 where "s2 = s\<lparr>tasks := (tasks s)(t \<mapsto> T2)\<rparr>"
    have ok2: "sched_ok s2" unfolding s2_def by (rule touch_ok[OF assms(1,2)]) (simp_all add: T2_def T1_def)
    have "\<not> placed s2 t" using assms True placed_touch[OF assms(2), of T2] by (simp add: s2_def T2_def T1_def)
    from wake_off_cpu_ok[OF ok2 this, of T2 this] assms(3) obtain s' where s': "wake_off_cpu t this s2 = Some s'" "sched_ok s'" "placed s' t"
      "running s' = running s2" "cpu_online s' = cpu_online s2" "tasks s' = (tasks s2)(t \<mapsto> (if nomigrate T2 then T2 else T2\<lparr>last_cpu := find_least_loaded_cpu s2\<rparr>)\<lparr>task_state := TASK_RUNNABLE\<rparr>)"
      by (auto simp: s2_def T2_def T1_def)
    have "sched_wake t (unblock_ticket T) this s = Some (True, s')"
      using assms(2) True s'(1) by (simp add: sched_wake_def sched_wake_task_def upd_task_def s2_def T2_def T1_def del: bind_Some_iff)
    then show thesis using that[of s'] s' True by (auto simp: s2_def T2_def T1_def)
  qed
qed

section \<open>Choosing the next task\<close>

lemma pick_next_ok:
  assumes "queues_ok ts rq" "idle_ok ts rq" "pick_next_task rq = Some (nxt, rq')"
  obtains (task) i q N where "i < 21" "queues rq ! i = nxt # q" "\<forall>j. i < j \<and> j < 21 \<longrightarrow> queues rq ! j = []" "rq' = set_queue (int i) q rq"
      "ts nxt = Some N" "current_priority N = int i" "task_state N = TASK_RUNNABLE" "\<not> idle_flag N"
    | (idle) N where "\<forall>j < 21. queues rq ! j = []" "idle_task rq = Some nxt" "rq' = rq" "ts nxt = Some N" "idle_flag N"
proof -
  have n: "nat (MAX_TASK_PRIORITY - MIN_TASK_PRIORITY + 1) = 21" by (simp add: MAX_TASK_PRIORITY_def MIN_TASK_PRIORITY_def)
  have l: "length (queues rq) = 21" using assms(1) by (simp add: queues_ok_def)
  from pick_from_Some[of 21 rq nxt rq'] assms(3) l n consider
    i q where "i < 21" "queues rq ! i = nxt # q" "\<forall>j. i < j \<and> j < 21 \<longrightarrow> queues rq ! j = []" "rq' = set_queue (int i) q rq"
    | "\<forall>j < 21. queues rq ! j = []" "idle_task rq = Some nxt" "rq' = rq"
    by (auto simp: pick_next_task_def)
  then show thesis
  proof cases
    case 1
    then have "nxt \<in> set (queues rq ! i)" by simp
    then show thesis using task[OF 1] assms(1) 1(1) unfolding queues_ok_def by blast
  next
    case 2
    then show thesis using idle[OF 2] assms(2) by (auto simp: idle_ok_def)
  qed
qed

lemma concat_empty: "length qs = n \<Longrightarrow> \<forall>j < n. qs ! j = [] \<Longrightarrow> concat qs = []"
  by (auto simp: in_set_conv_nth)

section \<open>Switching tasks\<close>

lemma sched_ok_frame:
  assumes "sched_ok s" "tasks s' = tasks s" "runqueue s' = runqueue s" "running s' = running s" "cpu_online s' = cpu_online s"
  shows "sched_ok s'"
proof -
  have "load_of s' = load_of s" using assms by (simp add: fun_eq_iff load_of_def busy_def)
  moreover have "tasks_ok s' = tasks_ok s" using assms by (simp add: tasks_ok_def)
  ultimately show ?thesis using assms by (simp add: sched_ok_def)
qed

lemma requeue_ok:
  assumes "sched_ok s" "c \<in> set (cpu_online s)" "me = running s c" "tasks s me = Some T"
  obtains rq where "requeue_current me T (runqueue s c) = Some rq" "queues_ok (tasks s) rq" "idle_task rq = idle_task (runqueue s c)"
    "mset (concat (queues rq)) = (if task_state T = TASK_RUNNABLE then load_of s c else load_of s c - {#me#})"
    "rq_load rq = of_nat (size (mset (concat (queues rq))))"
    "mset (concat (queues rq)) = mset (concat (queues (runqueue s c))) + (if task_state T = TASK_RUNNABLE \<and> \<not> idle_flag T then {#me#} else {#})"
proof -
  let ?rq = "runqueue s c"
  have ok: "queues_ok (tasks s) ?rq" "rq_load ?rq = of_nat (size (load_of s c))" using assms by (auto simp: sched_ok_def)
  have b: "busy s c \<longleftrightarrow> \<not> idle_flag T" using assms by (simp add: busy_def)
  have ts: "tasks_ok s" using assms by (simp add: sched_ok_def)
  consider (idle) "idle_flag T" "task_state T = TASK_RUNNABLE" | (run) "\<not> idle_flag T" "task_state T = TASK_RUNNABLE"
    | (block) "\<not> idle_flag T" "task_state T \<noteq> TASK_RUNNABLE"
    using ts assms(4) unfolding tasks_ok_def by blast
  then show thesis
  proof cases
    case idle
    then show thesis using that[of ?rq] ok b by (simp add: requeue_current_def load_of_def)
  next
    case run
    let ?p = "current_priority T"
    have p: "0 \<le> ?p" "?p \<le> 20" using ts assms(4) run(1) unfolding tasks_ok_def by blast+
    have "requeue_current me T ?rq = Some (set_queue ?p (queues ?rq ! nat ?p @ [me]) ?rq)"
      using run queue_at_ok[OF ok(1) p] by (simp add: requeue_current_def enqueue_task_def)
    moreover have "nat ?p < length (queues ?rq)" using p ok(1) by (simp add: queues_ok_def)
    ultimately show thesis
      using that[of "set_queue ?p (queues ?rq ! nat ?p @ [me]) ?rq"] queues_ok_push[OF ok(1) assms(4) run(2,1) p] run ok(2) b assms(3)
        concat_push[of "nat ?p" "queues ?rq" me] by (simp add: load_of_def)
  next
    case block
    then show thesis using that[of "?rq\<lparr>rq_load := rq_load ?rq - 1\<rparr>"] ok b assms(3)
      by (simp add: requeue_current_def load_of_def queues_ok_def)
  qed
qed

lemma switched_ok:
  assumes ok: "sched_ok s" and on: "this \<in> set (cpu_online s)" and q: "queues_ok (tasks s) rq" and i: "idle_task rq = idle_task (runqueue s this)"
    and N: "tasks s nxt = Some N" and M: "M = mset (concat (queues rq)) + (if idle_flag N then {#} else {#nxt#})"
    and sub: "M \<subseteq># load_of s this" and l: "rq_load rq = of_nat (size M)"
    and s': "tasks s' = (tasks s)(nxt \<mapsto> N\<lparr>on_cpu := x\<rparr>)" "runqueue s' = (runqueue s)(this := rq)" "running s' = (running s)(this := nxt)"
      "cpu_online s' = cpu_online s"
  shows "sched_ok s' \<and> load_of s' this = M \<and> (\<forall>d. d \<noteq> this \<longrightarrow> load_of s' d = load_of s d)"
proof -
  have o1: "load_of s' this = M" using N M s' by (simp add: load_of_def busy_def)
  have o2: "load_of s' d = load_of s d" if "d \<noteq> this" for d
    using N s' that by (auto simp: load_of_def busy_def)
  have qk: "queues_ok (tasks s') r" if "queues_ok (tasks s) r" for r
    unfolding s' by (rule queues_ok_upd[OF that N]) simp_all
  have ik: "idle_ok (tasks s') (runqueue s' d)" if "d \<in> set (cpu_online s)" for d
    unfolding s'(1) by (rule idle_ok_upd[of "tasks s" "runqueue s d" _ nxt N]) (use ok that i N in \<open>auto simp: sched_ok_def s'\<close>)
  have "tasks_ok s'" using ok N s' by (auto simp: sched_ok_def tasks_ok_def)
  moreover have "count M t \<le> 1" for t
    using ok on mset_subset_eq_count[OF sub, of t] unfolding sched_ok_def by (meson le_trans)
  moreover have "set_mset (load_of s' c) \<inter> set_mset (load_of s' d) = {}" if "c \<in> set (cpu_online s)" "d \<in> set (cpu_online s)" "c \<noteq> d" for c d
  proof -
    have "set_mset (load_of s' e) \<subseteq> set_mset (load_of s e)" for e
      using o1 o2 set_mset_mono[OF sub] by (cases "e = this") auto
    then show ?thesis using ok that unfolding sched_ok_def by fast
  qed
  ultimately have "sched_ok s'" using ok on q l ik qk o1 o2 N s'
    unfolding sched_ok_def by (auto simp: s')
  then show ?thesis using o1 o2 by blast
qed


lemma finish_context_switch_ok:
  assumes "sched_ok s" "tasks s prev = Some T" "task_state T = TASK_RUNNABLE \<or> task_state T = TASK_ZOMBIE \<or> \<not> placed s prev" "this \<in> set (cpu_online s)"
    "nomigrate T \<Longrightarrow> last_cpu T = this"
  obtains s' where "finish_context_switch prev this s = Some s'" "sched_ok s'" "running s' = running s" "cpu_online s' = cpu_online s"
proof (cases "task_state T = TASK_RUNNABLE \<or> task_state T = TASK_ZOMBIE")
  case True
  let ?s1 = "s\<lparr>tasks := (tasks s)(prev \<mapsto> T\<lparr>on_cpu := NO_CPU\<rparr>)\<rparr>"
  let ?s2 = "s\<lparr>reap_list := (reap_list s)(this := reap_list s this @ [prev]), reap_pending := (reap_pending s)(this := True)\<rparr>"
  have "sched_ok ?s1" by (rule touch_ok[OF assms(1,2)]) simp_all
  moreover have "sched_ok ?s2" by (rule sched_ok_frame[OF assms(1)]) simp_all
  ultimately show thesis using True that[of ?s1] that[of ?s2] assms(2) by (auto simp: finish_context_switch_def upd_task_def simp del: bind_Some_iff)
next
  case False
  define T1 where "T1 = T\<lparr>on_cpu := NO_CPU\<rparr>"
  define T2 where "T2 = T1\<lparr>pending_wakeup := 0\<rparr>"
  define s1 where "s1 = s\<lparr>tasks := (tasks s)(prev \<mapsto> T1)\<rparr>"
  define s2 where "s2 = s\<lparr>tasks := (tasks s)(prev \<mapsto> T2)\<rparr>"
  have ok: "sched_ok s1" "sched_ok s2" unfolding s1_def s2_def by (rule touch_ok[OF assms(1,2)]; simp add: T1_def T2_def)+
  have idle: "\<not> idle_flag T2" using assms(1,2) False by (auto simp: sched_ok_def tasks_ok_def T1_def T2_def)
  have np: "\<not> placed s2 prev" using placed_touch[OF assms(2), of T2 prev] False assms(3) by (simp add: s2_def T1_def T2_def)
  show thesis
  proof (cases "pending_wakeup T = 1")
    case pw: False
    then show thesis using that[of s1] ok False assms(2)
      by (simp add: finish_context_switch_def upd_task_def s1_def T1_def del: bind_Some_iff)
  next
    case pw: True
    have ts2: "tasks s2 prev = Some T2" by (simp add: s2_def)
    from wake_off_cpu_ok[OF ok(2) np ts2 idle, of this] obtain s' where s': "wake_off_cpu prev this s2 = Some s'" "sched_ok s'" "running s' = running s2"
      "cpu_online s' = cpu_online s2" .
    have "finish_context_switch prev this s = wake_off_cpu prev this s2"
      using False pw assms(2,5) by (simp add: finish_context_switch_def wake_off_cpu_def upd_task_def s2_def T1_def T2_def enqueue_on_def del: bind_Some_iff)
    then show thesis using that[of s'] s' by (simp add: s2_def)
  qed
qed


lemma context_switch_ok:
  assumes ok: "sched_ok s" and on: "this \<in> set (cpu_online s)" and rq: "queues_ok (tasks s) rq" "idle_task rq = idle_task (runqueue s this)"
    and me: "me = running s this" "tasks s me = Some T" "nomigrate T \<Longrightarrow> last_cpu T = this" and N: "tasks s nxt = Some N" "\<not> idle_flag N"
    and M: "mset (concat (queues rq)) + {#nxt#} = (if task_state T = TASK_RUNNABLE then load_of s this else load_of s this - {#me#})"
      "rq_load rq = of_nat (size (mset (concat (queues rq)) + {#nxt#}))"
    and neq: "me \<noteq> nxt"
  obtains s' where "context_switch me nxt this (upd_rq this (\<lambda>_. rq) s) = Some s'" "sched_ok s'" "running s' this = nxt"
proof -
  define rq1 where "rq1 = rq\<lparr>rq_priority := current_priority N, current_task := Some nxt\<rparr>"
  define base where "base = s\<lparr>tasks := (tasks s)(nxt \<mapsto> N\<lparr>on_cpu := this\<rparr>), runqueue := (runqueue s)(this := rq1), running := (running s)(this := nxt)\<rparr>"
  define s0 where "s0 = s\<lparr>runqueue := (runqueue s)(this := rq\<lparr>rq_priority := current_priority N\<rparr>), tasks := (tasks s)(nxt \<mapsto> N\<lparr>on_cpu := this\<rparr>)\<rparr>"
  define s1 where "s1 = (upd_rq this (\<lambda>rq. rq\<lparr>current_task := Some nxt\<rparr>)
    (if queues rq ! nat (current_priority N) \<noteq> [] then arm_slice_timer this s0 else s0))\<lparr>running := (running s)(this := nxt)\<rparr>"
  have eqs: "tasks s1 = tasks base" "runqueue s1 = runqueue base" "running s1 = running base" "cpu_online s1 = cpu_online base"
    by (auto simp: s1_def s0_def base_def rq1_def upd_rq_def arm_slice_timer_def split: option.split)
  have p: "0 \<le> current_priority N" "current_priority N \<le> 20" using ok N by (auto simp: sched_ok_def tasks_ok_def)
  have "sched_ok base \<and> load_of base this = mset (concat (queues rq1)) + {#nxt#} \<and> (\<forall>d. d \<noteq> this \<longrightarrow> load_of base d = load_of s d)"
    by (rule switched_ok[OF ok on, of rq1 nxt N _ base this])
      (use rq N M in \<open>auto simp: rq1_def base_def queues_ok_def\<close>)
  then have b: "sched_ok base" "load_of base this = mset (concat (queues rq)) + {#nxt#}" "\<And>d. d \<noteq> this \<Longrightarrow> load_of base d = load_of s d"
    by (simp_all add: rq1_def)
  have np: "\<not> placed s1 me" if blocked: "task_state T \<noteq> TASK_RUNNABLE"
  proof -
    have "\<not> idle_flag T" using ok me(2) blocked by (auto simp: sched_ok_def tasks_ok_def)
    then have "me \<in># load_of s this" using me by (simp add: load_of_def busy_def)
    moreover have "count (load_of s this) me \<le> 1" using ok on by (simp add: sched_ok_def)
    ultimately have "me \<notin># load_of base this" using b(2) M(1) blocked by (simp add: not_in_iff)
    moreover have "me \<notin># load_of s d" if "d \<in> set (cpu_online s)" "d \<noteq> this" for d
      using ok on that \<open>me \<in># load_of s this\<close> unfolding sched_ok_def by blast
    moreover have "load_of s1 = load_of base" by (simp add: fun_eq_iff load_of_def busy_def eqs)
    moreover have "cpu_online s1 = cpu_online s" by (simp add: eqs base_def)
    ultimately show ?thesis using b(3) unfolding placed_def by metis
  qed
  have t1: "tasks s1 me = Some T" using me neq by (simp add: eqs base_def)
  have "sched_ok s1" by (rule sched_ok_frame[OF b(1)]) (simp_all add: eqs)
  from finish_context_switch_ok[OF this t1, of this] np on me(3) eqs obtain s' where
    s': "finish_context_switch me this s1 = Some s'" "sched_ok s'" "running s' = running s1" by (auto simp: base_def)
  have "queue_at (rq\<lparr>rq_priority := current_priority N\<rparr>) (current_priority N) = Some (queues rq ! nat (current_priority N))"
    using p rq by (simp add: queue_at_def queues_ok_def)
  then have "context_switch me nxt this (upd_rq this (\<lambda>_. rq) s) = finish_context_switch me this s1"
    using N by (simp add: context_switch_def upd_rq_def upd_task_def s1_def s0_def arm_slice_timer_def Let_def del: bind_Some_iff split: option.split)
  then show thesis using that s' by (simp add: eqs base_def)
qed


lemma pick_highest:
  assumes q: "queues_ok ts rq" and i: "idle_ok ts rq" and ne: "mset (concat (queues rq)) \<noteq> {#}"
  obtains nxt rq' N where "pick_next_task rq = Some (nxt, rq')" "queues_ok ts rq'" "idle_task rq' = idle_task rq" "rq_load rq' = rq_load rq"
    "mset (concat (queues rq')) + {#nxt#} = mset (concat (queues rq))" "ts nxt = Some N" "\<not> idle_flag N" "task_state N = TASK_RUNNABLE"
    "\<And>t X. t \<in># mset (concat (queues rq)) \<Longrightarrow> ts t = Some X \<Longrightarrow> current_priority X \<le> current_priority N"
proof -
  obtain nxt rq' where pick: "pick_next_task rq = Some (nxt, rq')"
    using pick_from_defined[of 21 rq] q i by (auto simp: idle_ok_def queues_ok_def pick_next_task_def MAX_TASK_PRIORITY_def MIN_TASK_PRIORITY_def)
  have "concat (queues rq) \<noteq> []" using ne by (metis mset.simps(1))
  with pick_next_ok[OF q i pick] concat_empty[of "queues rq" 21] q obtain i q' N where
    i: "i < 21" "queues rq ! i = nxt # q'" "\<forall>j. i < j \<and> j < 21 \<longrightarrow> queues rq ! j = []" "rq' = set_queue (int i) q' rq"
      "ts nxt = Some N" "current_priority N = int i" "task_state N = TASK_RUNNABLE" "\<not> idle_flag N"
    unfolding queues_ok_def by metis
  have top: "current_priority X \<le> current_priority N" if x: "t \<in># mset (concat (queues rq))" "ts t = Some X" for t X
  proof -
    obtain j where j: "j < 21" "t \<in> set (queues rq ! j)" using x(1) q by (auto simp: queues_ok_def in_set_conv_nth[of _ "queues rq"])
    then have "j \<le> i" using i(3) by (cases "j \<le> i") auto
    then show ?thesis using j q x(2) i(6) unfolding queues_ok_def by fastforce
  qed
  have M: "mset (concat (queues rq')) + {#nxt#} = mset (concat (queues rq))"
    using concat_pop[of i "queues rq" nxt q'] i q by (simp add: queues_ok_def)
  show thesis using that[OF pick _ _ _ M i(5,8,7) top] queues_ok_pop[OF q i(1,2)] i(4) by simp
qed

lemma schedule_dispatch:
  assumes ok: "sched_ok s" and on: "this \<in> set (cpu_online s)" and T: "tasks s (running s this) = Some T" "nomigrate T \<Longrightarrow> last_cpu T = this"
    and work: "\<not> idle_flag T \<and> task_state T = TASK_RUNNABLE \<or> concat (queues (runqueue s this)) \<noteq> []"
  obtains s' N where "schedule this s = Some s'" "sched_ok s'" "tasks s (running s' this) = Some N" "\<not> idle_flag N" "task_state N = TASK_RUNNABLE"
    "\<And>t X. t \<in> set (concat (queues (runqueue s this))) \<or> t = running s this \<and> \<not> idle_flag T \<and> task_state T = TASK_RUNNABLE \<Longrightarrow>
      tasks s t = Some X \<Longrightarrow> current_priority X \<le> current_priority N"
proof -
  define me where "me = running s this"
  define s0 where "s0 = clear_pending_reschedule this (report_quiescent this s)"
  have s0: "tasks s0 = tasks s" "runqueue s0 = runqueue s" "running s0 = running s" "cpu_online s0 = cpu_online s" by (simp_all add: s0_def clear_pending_reschedule_def report_quiescent_def)
  have ok0: "sched_ok s0" by (rule sched_ok_frame[OF ok]) (simp_all add: s0)
  from requeue_ok[OF ok0, of this me T] on T obtain rq where
    rq: "requeue_current me T (runqueue s this) = Some rq" "queues_ok (tasks s) rq" "idle_task rq = idle_task (runqueue s this)"
    "mset (concat (queues rq)) = (if task_state T = TASK_RUNNABLE then load_of s0 this else load_of s0 this - {#me#})"
    "rq_load rq = of_nat (size (mset (concat (queues rq))))"
    "mset (concat (queues rq)) = mset (concat (queues (runqueue s this))) + (if task_state T = TASK_RUNNABLE \<and> \<not> idle_flag T then {#me#} else {#})"
    by (auto simp: s0 me_def)
  have iok: "idle_ok (tasks s) rq" using ok on rq(3) by (auto simp: sched_ok_def idle_ok_def)
  have "mset (concat (queues rq)) \<noteq> {#}" unfolding rq(6) using work by (auto simp del: concat_eq_Nil_conv)
  from pick_highest[OF rq(2) iok this] obtain nxt rq' N where pick: "pick_next_task rq = Some (nxt, rq')"
    and rq': "queues_ok (tasks s) rq'" "idle_task rq' = idle_task (runqueue s this)" "rq_load rq' = rq_load rq"
    and M: "mset (concat (queues rq')) + {#nxt#} = mset (concat (queues rq))" and N: "tasks s nxt = Some N" "\<not> idle_flag N" "task_state N = TASK_RUNNABLE"
    and top: "\<And>t X. t \<in># mset (concat (queues rq)) \<Longrightarrow> tasks s t = Some X \<Longrightarrow> current_priority X \<le> current_priority N"
    unfolding rq(3) by metis
  have sch: "schedule this s = (let s = upd_rq this (\<lambda>_. rq') s0 in if me \<noteq> nxt then context_switch me nxt this s else Some s)"
    using T rq(1) pick by (simp add: schedule_def me_def s0 Let_def flip: s0_def del: bind_Some_iff)
  have "\<exists>s'. schedule this s = Some s' \<and> sched_ok s' \<and> running s' this = nxt"
  proof (cases "me = nxt")
    case True
    let ?s' = "upd_rq this (\<lambda>_. rq') s0"
    have "mset (concat (queues rq)) \<subseteq># load_of s0 this" using rq(4) by (simp split: if_splits)
    then have "sched_ok ?s'"
      by (intro conjunct1[OF switched_ok[OF ok0, of this rq' nxt N "mset (concat (queues rq))" ?s' "on_cpu N"]])
        (use on rq' N M[symmetric] rq(5) True in \<open>simp_all add: s0 upd_rq_def me_def fun_upd_idem\<close>)
    then show ?thesis using True sch by (simp add: me_def upd_rq_def s0)
  next
    case False
    from context_switch_ok[OF ok0, of this rq' me T nxt N] on rq' T N False M rq obtain s' where
      "context_switch me nxt this (upd_rq this (\<lambda>_. rq') s0) = Some s'" "sched_ok s'" "running s' this = nxt" by (auto simp: s0 me_def)
    then show ?thesis using False sch by simp
  qed
  then obtain s' where s': "schedule this s = Some s'" "sched_ok s'" "running s' this = nxt" by blast
  have mem: "t \<in># mset (concat (queues rq))" if "t \<in> set (concat (queues (runqueue s this))) \<or> t = running s this \<and> \<not> idle_flag T \<and> task_state T = TASK_RUNNABLE" for t
    unfolding rq(6) using that by (auto simp: me_def)
  show thesis by (rule that[of s' N, OF s'(1,2) _ N(2,3)], simp add: s' N) (rule top[OF mem])
qed

section \<open>Round robin\<close>

fun schedules :: "cpu \<Rightarrow> nat \<Rightarrow> sched \<Rightarrow> sched option" where
  "schedules this 0 s = Some s"
| "schedules this (Suc k) s = do { s \<leftarrow> schedules this k s; schedule this s }"

text \<open>The running task and the queue behind it, in a state where no task of a higher priority is queued.\<close>

definition ring :: "cpu \<Rightarrow> nat \<Rightarrow> sched \<Rightarrow> task list \<Rightarrow> bool" where
  "ring this i s ts \<longleftrightarrow> i < 21 \<and> length (queues (runqueue s this)) = 21 \<and> ts = running s this # queues (runqueue s this) ! i \<and>
     (\<forall>j. i < j \<and> j < 21 \<longrightarrow> queues (runqueue s this) ! j = []) \<and>
     (\<forall>t \<in> set ts. \<exists>T. tasks s t = Some T \<and> current_priority T = int i \<and> task_state T = TASK_RUNNABLE \<and> \<not> idle_flag T)"

lemma pick_from_skip:
  "n \<le> length (queues rq) \<Longrightarrow> i < n \<Longrightarrow> \<forall>j. i < j \<and> j < n \<longrightarrow> queues rq ! j = [] \<Longrightarrow> queues rq ! i = t # q \<Longrightarrow>
     pick_from n rq = Some (t, set_queue (int i) q rq)"
  by (induction n) (auto simp: queue_at_def less_Suc_eq)

lemma ring_step:
  assumes "ring this i s ts"
  shows "\<exists>s'. schedule this s = Some s' \<and> ring this i s' (rotate1 ts)"
proof -
  let ?me = "running s this" and ?rq = "runqueue s this"
  let ?q = "queues ?rq ! i"
  obtain T where T: "tasks s ?me = Some T" "current_priority T = int i" "task_state T = TASK_RUNNABLE" "\<not> idle_flag T"
    using assms by (auto simp: ring_def)
  have ix: "i < 21" "length (queues ?rq) = 21" using assms by (auto simp: ring_def)
  obtain nxt q' where nq: "?q @ [?me] = nxt # q'" by (cases "?q @ [?me]") auto
  have "pick_next_task (set_queue (int i) (?q @ [?me]) ?rq) = Some (nxt, set_queue (int i) q' ?rq)"
    using pick_from_skip[of 21 "set_queue (int i) (?q @ [?me]) ?rq" i nxt q'] ix nq assms
    by (simp add: pick_next_task_def MAX_TASK_PRIORITY_def MIN_TASK_PRIORITY_def ring_def set_queue_def)
  moreover have "requeue_current ?me T ?rq = Some (set_queue (int i) (?q @ [?me]) ?rq)"
    using T ix by (simp add: requeue_current_def enqueue_task_def queue_at_def)
  ultimately have sch: "schedule this s = (let s = upd_rq this (\<lambda>_. set_queue (int i) q' ?rq) (clear_pending_reschedule this (report_quiescent this s))
      in if ?me \<noteq> nxt then context_switch ?me nxt this s else Some s)"
    using T(1) by (simp add: schedule_def clear_pending_reschedule_def report_quiescent_def Let_def del: bind_Some_iff)
  have rt: "rotate1 ts = nxt # q'" using assms nq by (simp add: ring_def)
  then have ts: "rotate1 ts = nxt # q'" "set ts = insert nxt (set q')" by (simp, metis list.simps(15) set_rotate1)
  obtain N where N: "tasks s nxt = Some N" "current_priority N = int i" using assms ts(2) by (auto simp: ring_def)
  show ?thesis
  proof (cases "?me = nxt")
    case True
    then show ?thesis using sch assms ts ix by (auto simp: ring_def upd_rq_def clear_pending_reschedule_def report_quiescent_def)
  next
    case False
    then show ?thesis using sch assms ts ix N T
      by (auto simp: context_switch_def finish_context_switch_def upd_rq_def upd_task_def queue_at_def clear_pending_reschedule_def report_quiescent_def ring_def
          arm_slice_timer_def Let_def simp del: bind_Some_iff split: option.split)
  qed
qed

lemma ring_steps:
  assumes "ring this i s ts"
  shows "\<exists>s'. schedules this k s = Some s' \<and> ring this i s' (rotate k ts)"
proof (induction k)
  case (Suc k)
  then obtain s' where "schedules this k s = Some s'" "ring this i s' (rotate k ts)" by blast
  then show ?case using ring_step[of this i s' "rotate k ts"] by (auto simp: rotate_Suc)
qed (use assms in simp)

section \<open>The race between a wakeup and the switch away from the task\<close>

text \<open>
  The fields of a blocking task that the waker and the processor it leaves touch without a lock:
  whether \<open>on_cpu\<close> is set, whether \<open>pending_wakeup\<close> is 1, where both sides are, and how often the
  task has been put on a runqueue. Every step is one sequentially consistent access.
\<close>

datatype waker_pc = W_store | W_load | W_cas | W_done

datatype switch_pc = S_store | S_cas | S_done

record handshake =
  h_on_cpu :: bool
  h_pending :: bool
  h_waker :: waker_pc
  h_switch :: switch_pc
  h_enqueued :: nat

fun waker_step :: "handshake \<Rightarrow> handshake" where
  "waker_step h = (case h_waker h of
     W_store \<Rightarrow> h\<lparr>h_pending := True, h_waker := W_load\<rparr>
   | W_load \<Rightarrow> h\<lparr>h_waker := if h_on_cpu h then W_done else W_cas\<rparr>
   | W_cas \<Rightarrow> (if h_pending h then h\<lparr>h_pending := False, h_enqueued := h_enqueued h + 1, h_waker := W_done\<rparr> else h\<lparr>h_waker := W_done\<rparr>)
   | W_done \<Rightarrow> h)"

fun switch_step :: "handshake \<Rightarrow> handshake" where
  "switch_step h = (case h_switch h of
     S_store \<Rightarrow> h\<lparr>h_on_cpu := False, h_switch := S_cas\<rparr>
   | S_cas \<Rightarrow> (if h_pending h then h\<lparr>h_pending := False, h_enqueued := h_enqueued h + 1, h_switch := S_done\<rparr> else h\<lparr>h_switch := S_done\<rparr>)
   | S_done \<Rightarrow> h)"

inductive handshake_step :: "handshake \<Rightarrow> handshake \<Rightarrow> bool" where
  waker: "h_waker h \<noteq> W_done \<Longrightarrow> handshake_step h (waker_step h)"
| switch: "h_switch h \<noteq> S_done \<Longrightarrow> handshake_step h (switch_step h)"

code_pred handshake_step .

inductive_cases handshake_stepE: "handshake_step h h'"

text \<open>A wakeup starts while the task is still on its processor, or after it has left it.\<close>

definition handshake_init :: "handshake \<Rightarrow> bool" where
  "handshake_init h \<longleftrightarrow> h_waker h = W_store \<and> \<not> h_pending h \<and> h_enqueued h = 0 \<and>
     (h_switch h = S_store \<and> h_on_cpu h \<or> h_switch h = S_done \<and> \<not> h_on_cpu h)"

definition handshake_inv :: "handshake \<Rightarrow> bool" where
  "handshake_inv h \<longleftrightarrow> (h_on_cpu h \<longleftrightarrow> h_switch h = S_store) \<and>
     (h_waker h = W_store \<longrightarrow> \<not> h_pending h \<and> h_enqueued h = 0) \<and>
     (h_waker h \<noteq> W_store \<longrightarrow> h_enqueued h = (if h_pending h then 0 else 1)) \<and>
     (h_waker h = W_done \<and> h_pending h \<longrightarrow> h_switch h \<noteq> S_done)"

lemma handshake_inv_step: "handshake_step h h' \<Longrightarrow> handshake_inv h \<Longrightarrow> handshake_inv h'"
  by (erule handshake_stepE; cases "h_waker h"; cases "h_switch h") (auto simp: handshake_inv_def split: if_splits)

lemma handshake_inv_reachable: "handshake_step\<^sup>*\<^sup>* h h' \<Longrightarrow> handshake_inv h \<Longrightarrow> handshake_inv h'"
  by (induction rule: rtranclp_induct) (auto intro: handshake_inv_step)

definition handshake_left :: "handshake \<Rightarrow> nat" where
  "handshake_left h = (case h_waker h of W_store \<Rightarrow> 3 | W_load \<Rightarrow> 2 | W_cas \<Rightarrow> 1 | W_done \<Rightarrow> 0) +
     (case h_switch h of S_store \<Rightarrow> 2 | S_cas \<Rightarrow> 1 | S_done \<Rightarrow> 0)"

lemma handshake_step_less: "handshake_step h h' \<Longrightarrow> handshake_left h' < handshake_left h"
  by (erule handshake_stepE; cases "h_waker h"; cases "h_switch h") (auto simp: handshake_left_def)

lemma handshake_finishes: "\<exists>h'. handshake_step\<^sup>*\<^sup>* h h' \<and> h_waker h' = W_done \<and> h_switch h' = S_done"
proof (induction "handshake_left h" arbitrary: h rule: less_induct)
  case less
  show ?case
  proof (cases "h_waker h = W_done \<and> h_switch h = S_done")
    case False
    then obtain h1 where "handshake_step h h1" using handshake_step.intros by blast
    then show ?thesis using less[OF handshake_step_less] by (meson converse_rtranclp_into_rtranclp)
  qed auto
qed

section \<open>Properties\<close>

text \<open>
  (C15) A wakeup is delivered exactly once: whatever the interleaving of the waker and the processor
  that switches away from the task, the task is never put on a runqueue twice, it has been put there
  once as soon as both are done, and both always get done.
\<close>

theorem wakeup_exactly_once:
  assumes "handshake_init h" "handshake_step\<^sup>*\<^sup>* h h'"
  shows "h_enqueued h' \<le> 1 \<and> (h_waker h' = W_done \<and> h_switch h' = S_done \<longrightarrow> h_enqueued h' = 1 \<and> \<not> h_pending h') \<and>
    (\<exists>h''. handshake_step\<^sup>*\<^sup>* h' h'' \<and> h_waker h'' = W_done \<and> h_switch h'' = S_done)"
proof -
  have "handshake_inv h" using assms(1) by (auto simp: handshake_init_def handshake_inv_def)
  then have "handshake_inv h'" using assms(2) handshake_inv_reachable by blast
  then show ?thesis using handshake_finishes[of h'] by (cases "h_waker h'") (auto simp: handshake_inv_def split: if_splits)
qed

definition race_start :: handshake where
  "race_start = \<lparr>h_on_cpu = True, h_pending = False, h_waker = W_store, h_switch = S_store, h_enqueued = 0\<rparr>"

theorem wakeup_exactly_once_witness:
  "h_enqueued (waker_step race_start) \<le> 1 \<and> handshake_init race_start \<and>
   (\<exists>h''. handshake_step\<^sup>*\<^sup>* (waker_step race_start) h'' \<and> h_waker h'' = W_done \<and> h_switch h'' = S_done)"
proof -
  have "handshake_step race_start (waker_step race_start)" by (rule handshake_step.waker) (simp add: race_start_def)
  then have "handshake_step\<^sup>*\<^sup>* race_start (waker_step race_start)" by (rule r_into_rtranclp)
  moreover have "handshake_init race_start" by (simp add: handshake_init_def race_start_def)
  ultimately show ?thesis using wakeup_exactly_once[of race_start "waker_step race_start"] by blast
qed

text \<open>A processor that runs a task, with a second task queued behind it and a third one blocked.\<close>

definition demo_task :: "task_status \<Rightarrow> cpu \<Rightarrow> Task" where
  "demo_task st c = (init_task_struct_fields 0)\<lparr>task_state := st, on_cpu := c, unblock_ticket := 5\<rparr>"

definition demo :: "task_status \<Rightarrow> task list \<Rightarrow> sched" where
  "demo st q = \<lparr>tasks = [0x1000 \<mapsto> idle_task_fields 0, 0x2000 \<mapsto> demo_task st 0, 0x3000 \<mapsto> demo_task TASK_RUNNABLE NO_CPU,
       0x4000 \<mapsto> demo_task TASK_UNINTERRUPTIBLE NO_CPU],
     runqueue = (\<lambda>_. \<lparr>queues = replicate 10 [] @ q # replicate 10 [], rq_priority = 10, current_task = Some 0x2000, idle_task = Some 0x1000,
       rq_load = of_nat (length q + 1)\<rparr>),
     cpu_online = [0], running = (\<lambda>_. 0x2000), pending_reschedule = (\<lambda>_. False), reschedule_ipis = [], slice_timer = (\<lambda>_. None),
     reap_list = (\<lambda>_. []), reap_pending = (\<lambda>_. False), clock = 1000, quiescent_reports = []\<rparr>"

lemmas demo_defs = demo_def demo_task_def idle_task_fields_def init_task_struct_fields_def idle_flag_def nomigrate_def TF_IDLE_def TF_NOMIGRATE_def

lemma demo_queues_ok: "q = [] \<or> q = [0x3000] \<Longrightarrow> queues_ok (tasks (demo st q)) (runqueue (demo st q) c)"
  by (auto simp: queues_ok_def nth_append nth_Cons' demo_defs)

lemma demo_load: "load_of (demo st q) c = mset q + {#0x2000#}"
  by (simp add: load_of_def busy_def) (simp add: demo_defs)

lemma demo_ok:
  assumes "q = [] \<or> q = [0x3000]"
  shows "sched_ok (demo st q)"
proof -
  have "tasks_ok (demo st q)" by (auto simp: tasks_ok_def demo_defs MIN_TASK_PRIORITY_def split: if_splits)
  moreover have "idle_ok (tasks (demo st q)) (runqueue (demo st q) c)" for c by (simp add: idle_ok_def demo_defs)
  moreover have "count (mset q + {#0x2000#}) t \<le> 1" for t using assms by auto
  moreover have "cpu_online (demo st q) = [0]" "tasks (demo st q) (running (demo st q) c) \<noteq> None"
    "rq_load (runqueue (demo st q) c) = of_nat (size (mset q + {#0x2000#}))" for c by (simp_all add: demo_def)
  ultimately show ?thesis using demo_queues_ok[OF assms] unfolding sched_ok_def demo_load by simp
qed

lemma pick_idle:
  assumes "sched_ok s" "this \<in> set (cpu_online s)" "concat (queues (runqueue s this)) = []" "idle_task (runqueue s this) = Some i"
    "queues rq = queues (runqueue s this)" "idle_task rq = idle_task (runqueue s this)"
  shows "pick_next_task rq = Some (i, rq)"
proof -
  have q: "length (queues rq) = 21" "\<forall>j < 21. queues rq ! j = []"
    using assms(1-3,5) by (auto simp: sched_ok_def queues_ok_def)
  have "pick_from n rq = Some (i, rq)" if "n \<le> 21" for n
    using that q assms(4,6) by (induction n) (simp_all add: queue_at_def)
  then show ?thesis by (simp add: pick_next_task_def MAX_TASK_PRIORITY_def MIN_TASK_PRIORITY_def)
qed

lemma context_switch_to_idle:
  assumes "tasks s i = Some (idle_task_fields c)"
  shows "context_switch me i this s = None"
  using assms by (simp add: context_switch_def MIN_TASK_PRIORITY_def upd_rq_def upd_task_def idle_task_fields_def queue_at_def Let_def del: bind_Some_iff)

lemma schedule_nothing_runnable:
  assumes "sched_ok s" "this \<in> set (cpu_online s)" "tasks s (running s this) = Some T" "idle_flag T \<or> task_state T \<noteq> TASK_RUNNABLE"
    "concat (queues (runqueue s this)) = []" "idle_task (runqueue s this) = Some i" "tasks s i = Some (idle_task_fields this)"
  shows "if running s this = i then \<exists>s'. schedule this s = Some s' \<and> sched_ok s' \<and> running s' = running s \<and> runqueue s' = runqueue s
    else schedule this s = None"
proof -
  define s0 where "s0 = clear_pending_reschedule this (report_quiescent this s)"
  have s0: "tasks s0 = tasks s" "runqueue s0 = runqueue s" "running s0 = running s" "cpu_online s0 = cpu_online s"
    by (simp_all add: s0_def clear_pending_reschedule_def report_quiescent_def)
  define rq where "rq = (if idle_flag T then runqueue s this else (runqueue s this)\<lparr>rq_load := rq_load (runqueue s this) - 1\<rparr>)"
  have "requeue_current (running s this) T (runqueue s this) = Some rq" using assms(4) by (auto simp: requeue_current_def rq_def)
  moreover have "pick_next_task rq = Some (i, rq)" by (rule pick_idle[OF assms(1,2,5,6)]) (simp_all add: rq_def)
  ultimately have sch: "schedule this s = (if running s this \<noteq> i then context_switch (running s this) i this (upd_rq this (\<lambda>_. rq) s0) else Some (upd_rq this (\<lambda>_. rq) s0))"
    using assms(3) s0 unfolding schedule_def s0_def[symmetric] by (simp add: Let_def s0_def[symmetric] del: bind_Some_iff)
  show ?thesis
  proof (cases "running s this = i")
    case True
    then have "rq = runqueue s this" using assms(3,7) by (auto simp: rq_def idle_task_fields_def idle_flag_def TF_IDLE_def TF_NOMIGRATE_def)
    then have "upd_rq this (\<lambda>_. rq) s0 = s0" using s0(2) by (simp add: upd_rq_def fun_upd_idem)
    moreover have "sched_ok s0" by (rule sched_ok_frame[OF assms(1)]) (simp_all add: s0)
    ultimately show ?thesis using True sch s0 by simp
  next
    case False
    have "tasks (upd_rq this (\<lambda>_. rq) s0) i = Some (idle_task_fields this)" using assms(7) s0 by (simp add: upd_rq_def)
    then show ?thesis using False sch context_switch_to_idle by simp
  qed
qed

text \<open>
  (C19) Every call of \<open>schedule\<close> on an online processor whose runqueues are consistent, by case. When a task is
  runnable (the current one, or one in a queue), the call is defined, keeps the runqueues consistent (every load is the
  number of tasks of its processor, and no task is in two places), and switches to a runnable task of
  the highest priority among the queued tasks and the current one. When none is, and the idle task has the fields its
  set up gives it: the idle task goes on running, with the runqueues unchanged, if it was running; if another task was, the
  call is undefined, since the switch to the idle task reads the queue of its priority, which is -1.
\<close>

theorem schedule_highest_priority:
  assumes "sched_ok s" "this \<in> set (cpu_online s)" "tasks s (running s this) = Some T" "nomigrate T \<longrightarrow> last_cpu T = this"
  shows "if \<not> idle_flag T \<and> task_state T = TASK_RUNNABLE \<or> concat (queues (runqueue s this)) \<noteq> [] then
      \<exists>s' N. schedule this s = Some s' \<and> sched_ok s' \<and> tasks s (running s' this) = Some N \<and> \<not> idle_flag N \<and> task_state N = TASK_RUNNABLE \<and>
        (\<forall>t X. t \<in> set (concat (queues (runqueue s this))) \<or> t = running s this \<and> \<not> idle_flag T \<and> task_state T = TASK_RUNNABLE \<longrightarrow>
           tasks s t = Some X \<longrightarrow> current_priority X \<le> current_priority N)
    else \<forall>i. idle_task (runqueue s this) = Some i \<and> tasks s i = Some (idle_task_fields this) \<longrightarrow>
      (if running s this = i then \<exists>s'. schedule this s = Some s' \<and> sched_ok s' \<and> running s' = running s \<and> runqueue s' = runqueue s
       else schedule this s = None)"
proof (cases "\<not> idle_flag T \<and> task_state T = TASK_RUNNABLE \<or> concat (queues (runqueue s this)) \<noteq> []")
  case True
  have "nomigrate T \<Longrightarrow> last_cpu T = this" using assms(4) by blast
  from schedule_dispatch[OF assms(1-3) this True] show ?thesis unfolding if_P[OF True] by metis
next
  case False
  then have n: "idle_flag T \<or> task_state T \<noteq> TASK_RUNNABLE" "concat (queues (runqueue s this)) = []" by blast+
  show ?thesis unfolding if_not_P[OF False] using schedule_nothing_runnable[OF assms(1-3) n] by blast
qed

theorem schedule_highest_priority_witness:
  "(\<exists>s'. schedule 0 (demo TASK_RUNNABLE [0x3000]) = Some s' \<and> sched_ok s') \<and> schedule 0 (demo TASK_INTERRUPTIBLE []) = None"
proof -
  have d: "tasks (demo st q) (running (demo st q) 0) = Some (demo_task st 0)" "cpu_online (demo st q) = [0]" for st q by (simp_all add: demo_def)
  have "\<exists>s'. schedule 0 (demo TASK_RUNNABLE [0x3000]) = Some s' \<and> sched_ok s'"
    using schedule_highest_priority[of "demo TASK_RUNNABLE [0x3000]" 0, OF demo_ok _ d(1)] d(2) by (auto simp: demo_defs)
  moreover have "schedule 0 (demo TASK_INTERRUPTIBLE []) = None"
    using schedule_highest_priority[of "demo TASK_INTERRUPTIBLE []" 0, OF demo_ok _ d(1)] d(2) by (simp add: demo_defs)
  ultimately show ?thesis ..
qed

text \<open>
  (C22) Round robin: when only tasks of the running task's priority are runnable on a processor, each of
  them runs after fewer calls of \<open>schedule\<close> than there are such tasks.
\<close>

theorem schedule_round_robin:
  assumes "ring this i s ts" "t \<in> set ts"
  shows "\<exists>k < length ts. \<exists>s'. schedules this k s = Some s' \<and> running s' this = t"
proof -
  obtain k where k: "k < length ts" "ts ! k = t" using assms(2) by (auto simp: in_set_conv_nth)
  obtain s' where s': "schedules this k s = Some s'" "ring this i s' (rotate k ts)" using ring_steps[OF assms(1)] by blast
  have "hd (rotate k ts) = t" using k hd_rotate_conv_nth[of ts k] by (cases ts) auto
  then have "running s' this = t" using s'(2) by (auto simp: ring_def)
  then show ?thesis using k(1) s'(1) by blast
qed

theorem schedule_round_robin_witness:
  "\<exists>k < 2. \<exists>s'. schedules 0 k (demo TASK_RUNNABLE [0x3000]) = Some s' \<and> running s' 0 = 0x3000"
proof -
  have "ring 0 10 (demo TASK_RUNNABLE [0x3000]) [0x2000, 0x3000]"
    by (auto simp: ring_def demo_defs nth_append nth_Cons')
  from schedule_round_robin[OF this, of "0x3000"] show ?thesis by (simp add: numeral_2_eq_2)
qed

text \<open>
  Tickets: \<open>sched_wake\<close> with an outdated ticket changes nothing and returns false; with the current one
  it returns true and invalidates the ticket. A task that has left its processor is then on a runqueue, a
  task that has not has the wakeup pending, and the runqueues stay consistent.
\<close>

theorem sched_wake_ticket:
  assumes "sched_ok s" "tasks s t = Some T" "\<not> idle_flag T" "on_cpu T = NO_CPU \<longrightarrow> \<not> placed s t"
  shows "if ticket \<noteq> unblock_ticket T then sched_wake t ticket this s = Some (False, s)
    else \<exists>s' T'. sched_wake t ticket this s = Some (True, s') \<and> sched_ok s' \<and> tasks s' t = Some T' \<and> unblock_ticket T' = ticket + 1 \<and>
      sched_wake t ticket this s' = Some (False, s') \<and>
      (if on_cpu T = NO_CPU then placed s' t else runqueue s' = runqueue s \<and> pending_wakeup T' = 1)"
proof (cases "ticket = unblock_ticket T")
  case True
  have np: "on_cpu T = NO_CPU \<Longrightarrow> \<not> placed s t" using assms(4) by blast
  obtain s' where a: "sched_wake t (unblock_ticket T) this s = Some (True, s')" "sched_ok s'"
    "if on_cpu T = NO_CPU then placed s' t else runqueue s' = runqueue s \<and> (\<exists>T'. tasks s' t = Some T' \<and> pending_wakeup T' = 1)"
    "\<exists>T'. tasks s' t = Some T' \<and> unblock_ticket T' = unblock_ticket T + 1"
    using sched_wake_ok[OF assms(1-3) np, of this] by metis
  then obtain T' where s': "tasks s' t = Some T'" "unblock_ticket T' = unblock_ticket T + 1"
      "if on_cpu T = NO_CPU then placed s' t else runqueue s' = runqueue s \<and> pending_wakeup T' = 1" by (auto split: if_splits)
  then have "sched_wake t ticket this s' = Some (False, s')" using True by (simp add: sched_wake_def)
  then show ?thesis using a(1,2) s' True by simp
qed (use assms(2) in \<open>simp add: sched_wake_def\<close>)

theorem sched_wake_ticket_witness:
  "sched_wake 0x4000 4 0 (demo TASK_RUNNABLE []) = Some (False, demo TASK_RUNNABLE []) \<and>
   (\<exists>s'. sched_wake 0x4000 5 0 (demo TASK_RUNNABLE []) = Some (True, s') \<and> placed s' 0x4000)"
proof -
  let ?s = "demo TASK_RUNNABLE []" and ?T = "demo_task TASK_UNINTERRUPTIBLE NO_CPU"
  have "\<not> placed ?s 0x4000" unfolding placed_def demo_load by simp
  moreover have "tasks ?s 0x4000 = Some ?T" "\<not> idle_flag ?T" "on_cpu ?T = NO_CPU" "unblock_ticket ?T = 5" by (simp_all add: demo_defs)
  ultimately show ?thesis
    using sched_wake_ticket[of ?s "0x4000" ?T 4 0] sched_wake_ticket[of ?s "0x4000" ?T 5 0] demo_ok[of "[]" TASK_RUNNABLE] by auto
qed

end
