(* ===== verification/Kernel_Mutex.thy ===== *)
theory Kernel_Mutex
  imports Kernel_Sched
begin

text \<open>
  Kernel mutexes (\<^verbatim>\<open>kernel/mutex.cc\<close>) as a concurrent state machine. The owner word holds the address of the
  owning task, a lock bit that protects the list of waiters, and a bit that says whether there are
  waiters. Every task has its own program counter and the local variables of the running operation; a
  step of a task is one access to shared memory together with the local computation up to the next
  one. A weak compare-and-exchange may fail spuriously, which is the boolean argument of a step. A
  sleeping task continues once the ticket it sleeps on has been used by a wakeup. Tickets are natural
  numbers: a 64-bit counter that is incremented once per sleep is taken not to wrap around.
\<close>

section \<open>The owner word\<close>

definition MUTEX_WAITER :: u64 where "MUTEX_WAITER = 1"

definition MUTEX_LOCK :: u64 where "MUTEX_LOCK = 2"

definition MUTEX_PTR :: u64 where "MUTEX_PTR = NOT (MUTEX_WAITER OR MUTEX_LOCK)"

definition ETIME :: int where "ETIME = 62"

definition EINTR :: int where "EINTR = 4"

definition NO_TIMEOUT :: u64 where "NO_TIMEOUT = - 1"

definition has_pending_signal :: bool where "has_pending_signal = False"

abbreviation own :: "u64 \<Rightarrow> task" where
  "own w \<equiv> w AND MUTEX_PTR"

abbreviation lck :: "u64 \<Rightarrow> bool" where
  "lck w \<equiv> w AND MUTEX_LOCK \<noteq> 0"

abbreviation wtr :: "u64 \<Rightarrow> bool" where
  "wtr w \<equiv> w AND MUTEX_WAITER \<noteq> 0"

text \<open>Task structures are not at address 0 and are aligned, so that the two flag bits of their address are free.\<close>

definition is_task :: "task \<Rightarrow> bool" where
  "is_task t \<longleftrightarrow> t \<noteq> 0 \<and> own t = t"

section \<open>Program counters and state\<close>

datatype mutex_pc =
    P_idle | P_held
  | P_fast | P_entry | P_spin | P_acquire | P_deadline | P_ticket | P_setlock | P_push | P_release | P_sleep
  | P_reacquire | P_respin | P_unlink | P_publish
  | P_race | P_racespin | P_recheck | P_reticket | P_unlink_err | P_publish_err
  | U_fast | U_spin | U_free | U_lock | U_peek | U_publish | U_wake

record mutex_op =
  pc :: mutex_pc
  lockval :: u64
  desired :: u64
  ns :: u64
  expiry :: u64
  interruptible :: bool
  ticket :: nat
  err :: int
  wake_task :: task
  wake_ticket :: nat
  dpc_depth :: nat

record mutex =
  owner_and_flags :: u64
  waiters :: "task list"
  op :: "task \<Rightarrow> mutex_op"
  unblock :: "task \<Rightarrow> nat"
  now :: u64

definition mutex_init :: "u64 \<Rightarrow> mutex" where
  "mutex_init t0 = \<lparr>owner_and_flags = 0, waiters = [],
     op = (\<lambda>_. \<lparr>pc = P_idle, lockval = 0, desired = 0, ns = 0, expiry = 0, interruptible = False, ticket = 0, err = 0,
       wake_task = 0, wake_ticket = 0, dpc_depth = 0\<rparr>), unblock = (\<lambda>_. 0), now = t0\<rparr>"

definition upd_op :: "task \<Rightarrow> (mutex_op \<Rightarrow> mutex_op) \<Rightarrow> mutex \<Rightarrow> mutex" where
  "upd_op t f s = s\<lparr>op := (op s)(t := f (op s t))\<rparr>"

text \<open>A weak compare-and-exchange by \<open>t\<close>: it succeeds, or stores the value it saw in \<open>lockval\<close>.\<close>

definition cmpxchg_weak :: "task \<Rightarrow> bool \<Rightarrow> u64 \<Rightarrow> (mutex_op \<Rightarrow> mutex_op) \<Rightarrow> (mutex_op \<Rightarrow> mutex_op) \<Rightarrow> mutex \<Rightarrow> mutex" where
  "cmpxchg_weak t strong new success failure s =
     (if strong \<and> owner_and_flags s = lockval (op s t)
      then (upd_op t success s)\<lparr>owner_and_flags := new\<rparr>
      else upd_op t (\<lambda>l. failure (l\<lparr>lockval := owner_and_flags s\<rparr>)) s)"

section \<open>Locking\<close>

definition fail_with :: "int \<Rightarrow> mutex_op \<Rightarrow> mutex_op" where
  "fail_with e l = l\<lparr>pc := P_idle, err := e\<rparr>"

text \<open>From the label \<open>retry\<close> of the slow path to the next access to shared memory.\<close>

definition lock_retry :: "mutex_op \<Rightarrow> mutex_op" where
  "lock_retry l =
     (if lck (lockval l) then if ns l = 0 then fail_with ETIME l else l\<lparr>pc := P_spin\<rparr>
      else if own (lockval l) = 0 then l\<lparr>pc := P_acquire\<rparr>
      else if ns l = 0 then fail_with ETIME l
      else l\<lparr>pc := P_deadline\<rparr>)"

definition spin_on_lock_bit :: "task \<Rightarrow> (mutex_op \<Rightarrow> mutex_op) \<Rightarrow> mutex \<Rightarrow> mutex" where
  "spin_on_lock_bit t k s =
     upd_op t (\<lambda>l. let l = l\<lparr>lockval := owner_and_flags s\<rparr> in if lck (lockval l) then l else k l) s"

definition lock_fastpath :: "task \<Rightarrow> bool \<Rightarrow> mutex \<Rightarrow> mutex" where
  "lock_fastpath t strong s = cmpxchg_weak t strong t (\<lambda>l. l\<lparr>pc := P_held\<rparr>) (\<lambda>l. l\<lparr>pc := P_entry\<rparr>) s"

definition lock_entry :: "task \<Rightarrow> mutex \<Rightarrow> mutex" where
  "lock_entry t s = upd_op t (\<lambda>l. lock_retry (l\<lparr>expiry := if ns l \<noteq> 0 \<and> ns l \<noteq> NO_TIMEOUT then ns l + now s else ns l\<rparr>)) s"

definition lock_acquire :: "task \<Rightarrow> bool \<Rightarrow> mutex \<Rightarrow> mutex" where
  "lock_acquire t strong s =
     cmpxchg_weak t strong (t OR (lockval (op s t) AND MUTEX_WAITER)) (\<lambda>l. l\<lparr>pc := P_held\<rparr>) lock_retry s"

definition expired :: "mutex_op \<Rightarrow> mutex \<Rightarrow> bool" where
  "expired l s \<longleftrightarrow> expiry l \<noteq> NO_TIMEOUT \<and> expiry l \<le> now s"

definition lock_deadline :: "task \<Rightarrow> mutex \<Rightarrow> mutex" where
  "lock_deadline t s = upd_op t (\<lambda>l. if expired l s then fail_with ETIME l
     else if interruptible l \<and> has_pending_signal then fail_with EINTR l else l\<lparr>pc := P_ticket\<rparr>) s"

definition blocking_ticket :: "task \<Rightarrow> mutex \<Rightarrow> mutex" where
  "blocking_ticket t s = upd_op t (\<lambda>l. l\<lparr>ticket := unblock s t + 1\<rparr>) (s\<lparr>unblock := (unblock s)(t := unblock s t + 1)\<rparr>)"

definition lock_ticket :: "task \<Rightarrow> mutex \<Rightarrow> mutex" where
  "lock_ticket t s = upd_op t (\<lambda>l. l\<lparr>dpc_depth := dpc_depth l + 1, pc := P_setlock\<rparr>) (blocking_ticket t s)"

definition lock_setlock :: "task \<Rightarrow> bool \<Rightarrow> mutex \<Rightarrow> mutex" where
  "lock_setlock t strong s = (let v = lockval (op s t) OR MUTEX_LOCK in
     cmpxchg_weak t strong v (\<lambda>l. l\<lparr>desired := v, pc := P_push\<rparr>) (\<lambda>l. lock_retry (l\<lparr>dpc_depth := dpc_depth l - 1\<rparr>)) s)"

definition lock_push :: "task \<Rightarrow> mutex \<Rightarrow> mutex" where
  "lock_push t s = upd_op t (\<lambda>l. l\<lparr>pc := P_release\<rparr>) (s\<lparr>waiters := waiters s @ [t]\<rparr>)"

definition lock_release :: "task \<Rightarrow> mutex \<Rightarrow> mutex" where
  "lock_release t s = (let v = (desired (op s t) AND NOT MUTEX_LOCK) OR MUTEX_WAITER in
     (upd_op t (\<lambda>l. l\<lparr>desired := v, pc := P_sleep\<rparr>) s)\<lparr>owner_and_flags := v\<rparr>)"

section \<open>After the sleep\<close>

definition lock_woken :: "task \<Rightarrow> mutex \<Rightarrow> mutex" where
  "lock_woken t s = upd_op t (\<lambda>l. l\<lparr>lockval := MUTEX_WAITER, pc := P_reacquire\<rparr>) s"

text \<open>The end of an iteration of the first and of the second loop, with DPCs disabled again.\<close>

definition next_attempt :: "mutex_op \<Rightarrow> mutex_op" where
  "next_attempt l = l\<lparr>dpc_depth := dpc_depth l + 1, pc := if own (lockval l) = 0 then P_reacquire else P_race\<rparr>"

definition attempt_failed :: "mutex_pc \<Rightarrow> mutex_op \<Rightarrow> mutex_op" where
  "attempt_failed spin l = (let l = l\<lparr>dpc_depth := dpc_depth l - 1\<rparr> in if lck (lockval l) then l\<lparr>pc := spin\<rparr> else next_attempt l)"

definition lock_reacquire :: "task \<Rightarrow> bool \<Rightarrow> mutex \<Rightarrow> mutex" where
  "lock_reacquire t strong s = (let v = t OR MUTEX_LOCK OR MUTEX_WAITER in
     cmpxchg_weak t strong v (\<lambda>l. l\<lparr>desired := v, pc := P_unlink\<rparr>) (attempt_failed P_respin) s)"

definition lock_race :: "task \<Rightarrow> bool \<Rightarrow> mutex \<Rightarrow> mutex" where
  "lock_race t strong s = (let v = lockval (op s t) OR MUTEX_LOCK in
     cmpxchg_weak t strong v (\<lambda>l. l\<lparr>desired := v, pc := P_recheck\<rparr>) (attempt_failed P_racespin) s)"

definition lock_recheck :: "task \<Rightarrow> mutex \<Rightarrow> mutex" where
  "lock_recheck t s = upd_op t (\<lambda>l. if expired l s then l\<lparr>err := ETIME, pc := P_unlink_err\<rparr>
     else if interruptible l \<and> has_pending_signal then l\<lparr>err := EINTR, pc := P_unlink_err\<rparr> else l\<lparr>pc := P_reticket\<rparr>) s"

definition lock_reticket :: "task \<Rightarrow> mutex \<Rightarrow> mutex" where
  "lock_reticket t s = upd_op t (\<lambda>l. l\<lparr>pc := P_release\<rparr>) (blocking_ticket t s)"

definition lock_unlink :: "task \<Rightarrow> mutex_pc \<Rightarrow> mutex \<Rightarrow> mutex" where
  "lock_unlink t nxt s = (let ws = remove1 t (waiters s); v = desired (op s t) AND NOT MUTEX_LOCK in
     upd_op t (\<lambda>l. l\<lparr>desired := if ws = [] then v AND NOT MUTEX_WAITER else v, pc := nxt\<rparr>) (s\<lparr>waiters := ws\<rparr>))"

definition lock_publish :: "task \<Rightarrow> mutex_pc \<Rightarrow> mutex \<Rightarrow> mutex" where
  "lock_publish t nxt s = (upd_op t (\<lambda>l. l\<lparr>dpc_depth := dpc_depth l - 1, pc := nxt\<rparr>) s)\<lparr>owner_and_flags := desired (op s t)\<rparr>"

section \<open>Unlocking\<close>

definition unlock_retry :: "mutex_op \<Rightarrow> mutex_op" where
  "unlock_retry l =
     (if lck (lockval l) then l\<lparr>pc := U_spin\<rparr>
      else if \<not> wtr (lockval l) then l\<lparr>pc := U_free\<rparr>
      else l\<lparr>dpc_depth := dpc_depth l + 1, pc := U_lock\<rparr>)"

definition unlock_fastpath :: "task \<Rightarrow> bool \<Rightarrow> mutex \<Rightarrow> mutex" where
  "unlock_fastpath t strong s = cmpxchg_weak t strong 0 (\<lambda>l. l\<lparr>pc := P_idle\<rparr>) unlock_retry s"

definition unlock_free :: "task \<Rightarrow> bool \<Rightarrow> mutex \<Rightarrow> mutex" where
  "unlock_free t strong s = cmpxchg_weak t strong 0 (\<lambda>l. l\<lparr>pc := P_idle\<rparr>) unlock_retry s"

definition unlock_lock :: "task \<Rightarrow> bool \<Rightarrow> mutex \<Rightarrow> mutex" where
  "unlock_lock t strong s = cmpxchg_weak t strong (MUTEX_WAITER OR MUTEX_LOCK) (\<lambda>l. l\<lparr>pc := U_peek\<rparr>)
     (\<lambda>l. unlock_retry (l\<lparr>dpc_depth := dpc_depth l - 1\<rparr>)) s"

definition unlock_peek :: "task \<Rightarrow> mutex \<Rightarrow> mutex option" where
  "unlock_peek t s = (case waiters s of
     [] \<Rightarrow> None
   | w # _ \<Rightarrow> Some (upd_op t (\<lambda>l. l\<lparr>wake_task := w, wake_ticket := ticket (op s w), pc := U_publish\<rparr>) s))"

definition unlock_publish :: "task \<Rightarrow> mutex \<Rightarrow> mutex" where
  "unlock_publish t s = (upd_op t (\<lambda>l. l\<lparr>pc := U_wake\<rparr>) s)\<lparr>owner_and_flags := MUTEX_WAITER\<rparr>"

definition wake_ticket_of :: "task \<Rightarrow> nat \<Rightarrow> mutex \<Rightarrow> mutex" where
  "wake_ticket_of w k s = (if unblock s w = k then s\<lparr>unblock := (unblock s)(w := k + 1)\<rparr> else s)"

definition unlock_wake :: "task \<Rightarrow> mutex \<Rightarrow> mutex" where
  "unlock_wake t s = upd_op t (\<lambda>l. l\<lparr>dpc_depth := dpc_depth l - 1, pc := P_idle\<rparr>)
     (wake_ticket_of (wake_task (op s t)) (wake_ticket (op s t)) s)"

section \<open>Steps\<close>

definition start_lock :: "u64 \<Rightarrow> bool \<Rightarrow> task \<Rightarrow> mutex \<Rightarrow> mutex" where
  "start_lock timeout intr t s = upd_op t (\<lambda>l. l\<lparr>pc := P_fast, lockval := 0, ns := timeout, interruptible := intr, err := 0\<rparr>) s"

definition Mutex_trylock :: "task \<Rightarrow> mutex \<Rightarrow> mutex" where "Mutex_trylock = start_lock 0 False"

definition Mutex_lock :: "task \<Rightarrow> mutex \<Rightarrow> mutex" where "Mutex_lock = start_lock NO_TIMEOUT False"

definition Mutex_lock_interruptible :: "task \<Rightarrow> mutex \<Rightarrow> mutex" where "Mutex_lock_interruptible = start_lock NO_TIMEOUT True"

definition Mutex_lock_timeout :: "u64 \<Rightarrow> task \<Rightarrow> mutex \<Rightarrow> mutex" where "Mutex_lock_timeout timeout = start_lock timeout False"

definition Mutex_lock_timeout_interruptible :: "u64 \<Rightarrow> task \<Rightarrow> mutex \<Rightarrow> mutex" where
  "Mutex_lock_timeout_interruptible timeout = start_lock timeout True"

definition Mutex_unlock :: "task \<Rightarrow> mutex \<Rightarrow> mutex" where
  "Mutex_unlock t s = upd_op t (\<lambda>l. l\<lparr>pc := U_fast, lockval := t\<rparr>) s"

definition mutex_exec :: "task \<Rightarrow> bool \<Rightarrow> mutex \<Rightarrow> mutex option" where
  "mutex_exec t strong s = (case pc (op s t) of
     P_idle \<Rightarrow> None | P_held \<Rightarrow> None
   | P_fast \<Rightarrow> Some (lock_fastpath t strong s)
   | P_entry \<Rightarrow> Some (lock_entry t s)
   | P_spin \<Rightarrow> Some (spin_on_lock_bit t lock_retry s)
   | P_acquire \<Rightarrow> Some (lock_acquire t strong s)
   | P_deadline \<Rightarrow> Some (lock_deadline t s)
   | P_ticket \<Rightarrow> Some (lock_ticket t s)
   | P_setlock \<Rightarrow> Some (lock_setlock t strong s)
   | P_push \<Rightarrow> Some (lock_push t s)
   | P_release \<Rightarrow> Some (lock_release t s)
   | P_sleep \<Rightarrow> (if unblock s t \<noteq> ticket (op s t) then Some (lock_woken t s) else None)
   | P_reacquire \<Rightarrow> Some (lock_reacquire t strong s)
   | P_respin \<Rightarrow> Some (spin_on_lock_bit t next_attempt s)
   | P_unlink \<Rightarrow> Some (lock_unlink t P_publish s)
   | P_publish \<Rightarrow> Some (lock_publish t P_held s)
   | P_race \<Rightarrow> Some (lock_race t strong s)
   | P_racespin \<Rightarrow> Some (spin_on_lock_bit t next_attempt s)
   | P_recheck \<Rightarrow> Some (lock_recheck t s)
   | P_reticket \<Rightarrow> Some (lock_reticket t s)
   | P_unlink_err \<Rightarrow> Some (lock_unlink t P_publish_err s)
   | P_publish_err \<Rightarrow> Some (lock_publish t P_idle s)
   | U_fast \<Rightarrow> Some (unlock_fastpath t strong s)
   | U_spin \<Rightarrow> Some (spin_on_lock_bit t unlock_retry s)
   | U_free \<Rightarrow> Some (unlock_free t strong s)
   | U_lock \<Rightarrow> Some (unlock_lock t strong s)
   | U_peek \<Rightarrow> unlock_peek t s
   | U_publish \<Rightarrow> Some (unlock_publish t s)
   | U_wake \<Rightarrow> Some (unlock_wake t s))"

text \<open>
  A system step: a task calls an operation, it executes one access, the clock advances, or the timeout
  of a sleeping task fires and wakes it with its ticket.
\<close>

inductive mutex_step :: "mutex \<Rightarrow> mutex \<Rightarrow> bool" where
  call_lock: "pc (op s t) = P_idle \<Longrightarrow> is_task t \<Longrightarrow> mutex_step s (start_lock timeout intr t s)"
| call_unlock: "pc (op s t) = P_held \<Longrightarrow> mutex_step s (Mutex_unlock t s)"
| exec: "mutex_exec t strong s = Some s' \<Longrightarrow> mutex_step s s'"
| tick: "now s \<le> n \<Longrightarrow> mutex_step s (s\<lparr>now := n\<rparr>)"
| timer: "pc (op s t) = P_sleep \<Longrightarrow> expiry (op s t) \<le> now s \<Longrightarrow> mutex_step s (wake_ticket_of t (ticket (op s t)) s)"

inductive mutex_reachable :: "mutex \<Rightarrow> bool" where
  init: "mutex_reachable (mutex_init t0)"
| step: "mutex_reachable s \<Longrightarrow> mutex_step s s' \<Longrightarrow> mutex_reachable s'"

end
