(* ===== verification/Kernel_Mutex_Inv.thy ===== *)
theory Kernel_Mutex_Inv
  imports Kernel_Mutex
begin

text \<open>
  The invariant of the mutex and its preservation by every step. The owner word is read through three
  observers (owner, lock bit, waiter bit); a program counter says whether its task owns the mutex, holds
  the lock bit or is in the list of waiters, and the invariant ties these to the word and to the list.
\<close>

section \<open>Reading the owner word\<close>

lemma ptr_lock: "MUTEX_PTR AND MUTEX_LOCK = 0" "MUTEX_PTR AND MUTEX_WAITER = 0" "MUTEX_WAITER AND MUTEX_LOCK = 0" "MUTEX_LOCK AND MUTEX_WAITER = 0"
  "MUTEX_WAITER AND MUTEX_PTR = 0" "MUTEX_LOCK AND MUTEX_PTR = 0" "MUTEX_WAITER \<noteq> 0" "MUTEX_LOCK \<noteq> 0"
  by (simp_all add: MUTEX_PTR_def MUTEX_LOCK_def MUTEX_WAITER_def)

lemma word_or_eq_0: "(a OR b = (0 :: u64)) \<longleftrightarrow> a = 0 \<and> b = 0"
  by (rule or_eq_0_iff)

named_theorems word_reads \<open>owner, lock bit and waiter bit of the words the mutex stores\<close>

lemmas flags_nz [word_reads] = ptr_lock(7,8)

lemma own_or [word_reads]: "own (a OR b) = own a OR own b" "lck (a OR b) \<longleftrightarrow> lck a \<or> lck b" "wtr (a OR b) \<longleftrightarrow> wtr a \<or> wtr b"
  by (auto simp: bit.conj_disj_distrib2 or_eq_0_iff)

lemma own_flags [word_reads]: "own MUTEX_LOCK = 0" "lck MUTEX_LOCK" "MUTEX_LOCK AND MUTEX_WAITER = 0" "own MUTEX_WAITER = 0" "MUTEX_WAITER AND MUTEX_LOCK = 0" "wtr MUTEX_WAITER"
  "own (v AND MUTEX_WAITER) = 0" "(v AND MUTEX_WAITER) AND MUTEX_LOCK = 0" "(v AND MUTEX_WAITER) AND MUTEX_WAITER = v AND MUTEX_WAITER"
  by (simp_all add: ptr_lock and.assoc)

lemma own_clear [word_reads]: "own (v AND NOT MUTEX_LOCK) = own v" "(v AND NOT MUTEX_LOCK) AND MUTEX_LOCK = 0" "(v AND NOT MUTEX_LOCK) AND MUTEX_WAITER = v AND MUTEX_WAITER"
  "own (v AND NOT MUTEX_WAITER) = own v" "(v AND NOT MUTEX_WAITER) AND MUTEX_LOCK = v AND MUTEX_LOCK" "(v AND NOT MUTEX_WAITER) AND MUTEX_WAITER = 0"
  by (simp_all add: and.assoc MUTEX_PTR_def MUTEX_LOCK_def MUTEX_WAITER_def)

lemma own_task [word_reads]: "is_task t \<Longrightarrow> own t = t" "is_task t \<Longrightarrow> t AND MUTEX_LOCK = 0" "is_task t \<Longrightarrow> t AND MUTEX_WAITER = 0"
proof -
  assume "is_task t"
  then have t: "own t = t" by (simp add: is_task_def)
  then show "own t = t" .
  have "t AND MUTEX_LOCK = t AND (MUTEX_PTR AND MUTEX_LOCK)" by (metis t and.assoc)
  then show "t AND MUTEX_LOCK = 0" by (simp add: ptr_lock)
  have "t AND MUTEX_WAITER = t AND (MUTEX_PTR AND MUTEX_WAITER)" by (metis t and.assoc)
  then show "t AND MUTEX_WAITER = 0" by (simp add: ptr_lock)
qed

lemma is_task_nz: "is_task t \<Longrightarrow> t \<noteq> 0"
  by (simp add: is_task_def)

lemma own_own [simp]: "own (own w) = own w"
  by (simp add: and.assoc)


section \<open>The invariant\<close>

text \<open>
  What a program counter says: the task owns the mutex, it holds the lock bit, it is in the list of
  waiters, DPCs are disabled.
\<close>

definition owns :: "mutex_pc \<Rightarrow> bool" where
  "owns p \<longleftrightarrow> p \<in> {P_held, P_unlink, P_publish, U_fast, U_spin, U_free, U_lock}"

definition locks :: "mutex_pc \<Rightarrow> bool" where
  "locks p \<longleftrightarrow> p \<in> {P_push, P_release, P_unlink, P_publish, P_recheck, P_reticket, P_unlink_err, P_publish_err, U_peek, U_publish}"

definition waits :: "mutex_pc \<Rightarrow> bool" where
  "waits p \<longleftrightarrow> p \<in> {P_release, P_sleep, P_reacquire, P_respin, P_unlink, P_race, P_racespin, P_recheck, P_reticket, P_unlink_err}"

definition no_dpc :: "mutex_pc \<Rightarrow> bool" where
  "no_dpc p \<longleftrightarrow> p \<in> {P_setlock, P_push, P_release, P_sleep, P_reacquire, P_unlink, P_publish, P_race, P_recheck, P_reticket, P_unlink_err,
     P_publish_err, U_lock, U_peek, U_publish, U_wake}"

definition op_ok :: "task \<Rightarrow> mutex_op \<Rightarrow> bool" where
  "op_ok t l \<longleftrightarrow> (pc l \<noteq> P_idle \<longrightarrow> is_task t) \<and> dpc_depth l = (if no_dpc (pc l) then 1 else 0) \<and>
     (pc l = P_fast \<longrightarrow> lockval l = 0) \<and> (pc l = U_fast \<longrightarrow> lockval l = t) \<and>
     (pc l \<in> {P_acquire, P_reacquire} \<longrightarrow> \<not> lck (lockval l) \<and> own (lockval l) = 0) \<and>
     (pc l \<in> {P_deadline, P_ticket, P_setlock, P_race} \<longrightarrow> \<not> lck (lockval l) \<and> own (lockval l) \<noteq> 0) \<and>
     (pc l = U_free \<longrightarrow> \<not> lck (lockval l) \<and> \<not> wtr (lockval l)) \<and> (pc l = U_lock \<longrightarrow> \<not> lck (lockval l) \<and> wtr (lockval l))"

text \<open>The holder \<open>h\<close> of the lock bit, and what it knows about the owner word and the list.\<close>

definition holder_ok :: "mutex \<Rightarrow> task option \<Rightarrow> bool" where
  "holder_ok s h \<longleftrightarrow> (case h of
     None \<Rightarrow> \<not> lck (owner_and_flags s) \<and> (wtr (owner_and_flags s) \<longleftrightarrow> waiters s \<noteq> [])
   | Some t \<Rightarrow> lck (owner_and_flags s) \<and> (let l = op s t in
       (pc l \<notin> {U_peek, U_publish} \<longrightarrow> own (desired l) = own (owner_and_flags s) \<and> own (owner_and_flags s) \<noteq> 0) \<and>
       (pc l \<in> {U_peek, U_publish} \<longrightarrow> own (owner_and_flags s) = 0 \<and> waiters s \<noteq> []) \<and>
       (pc l \<in> {P_publish, P_publish_err} \<longrightarrow> \<not> lck (desired l) \<and> (wtr (desired l) \<longleftrightarrow> waiters s \<noteq> [])) \<and>
       (pc l \<in> {P_recheck, P_unlink, P_unlink_err} \<longrightarrow> wtr (desired l))))"

definition tickets_ok :: "mutex \<Rightarrow> bool" where
  "tickets_ok s \<longleftrightarrow> (\<forall>t. ticket (op s t) \<le> unblock s t \<and>
     (pc (op s t) \<in> {U_publish, U_wake} \<longrightarrow> wake_ticket (op s t) \<le> ticket (op s (wake_task (op s t)))))"

text \<open>A free mutex has no waiter, or its first waiter runs, or has been woken, or is about to be.\<close>

definition will_wake :: "mutex \<Rightarrow> task \<Rightarrow> bool" where
  "will_wake s w \<longleftrightarrow> pc (op s w) \<noteq> P_sleep \<or> unblock s w \<noteq> ticket (op s w) \<or>
     (\<exists>u. pc (op s u) = U_peek \<or> pc (op s u) \<in> {U_publish, U_wake} \<and> wake_task (op s u) = w \<and> wake_ticket (op s u) = ticket (op s w))"

definition wake_ok :: "mutex \<Rightarrow> bool" where
  "wake_ok s \<longleftrightarrow> own (owner_and_flags s) = 0 \<longrightarrow> waiters s \<noteq> [] \<longrightarrow> will_wake s (hd (waiters s))"

definition mutex_inv :: "mutex \<Rightarrow> task option \<Rightarrow> bool" where
  "mutex_inv s h \<longleftrightarrow> (\<forall>t. op_ok t (op s t)) \<and>
     (\<forall>t. owns (pc (op s t)) \<longleftrightarrow> t \<noteq> 0 \<and> own (owner_and_flags s) = t) \<and>
     (\<forall>t. locks (pc (op s t)) \<longleftrightarrow> h = Some t) \<and>
     distinct (waiters s) \<and> (\<forall>t. t \<in> set (waiters s) \<longleftrightarrow> waits (pc (op s t))) \<and>
     holder_ok s h \<and> tickets_ok s \<and> wake_ok s"

lemmas pc_sets = owns_def locks_def waits_def no_dpc_def

section \<open>Steps outside the lock bit\<close>

lemma inv_local:
  assumes "mutex_inv s h" "\<not> locks (pc (op s t))" "\<not> locks (pc l)" "owns (pc l) = owns (pc (op s t))" "waits (pc l) = waits (pc (op s t))"
    "op_ok t l" "ticket l = ticket (op s t)" "pc l \<noteq> P_sleep" "pc l \<notin> {U_publish, U_wake}" "pc (op s t) \<notin> {U_publish, U_wake}"
  shows "mutex_inv (s\<lparr>op := (op s)(t := l)\<rparr>) h"
proof -
  let ?s = "s\<lparr>op := (op s)(t := l)\<rparr>"
  have h: "h \<noteq> Some t" using assms by (auto simp: mutex_inv_def)
  have "holder_ok ?s h" using assms(1) h by (cases h) (auto simp: mutex_inv_def holder_ok_def)
  moreover have "tickets_ok ?s" using assms by (auto simp: mutex_inv_def tickets_ok_def)
  moreover have "will_wake ?s w" if "will_wake s w" for w
  proof -
    have "pc (op s u) = U_peek \<or> pc (op s u) \<in> {U_publish, U_wake} \<Longrightarrow> u \<noteq> t" for u using assms(2,10) by (auto simp: locks_def)
    then show ?thesis using that assms(7,8) unfolding will_wake_def by (auto simp: fun_upd_def)
  qed
  ultimately show ?thesis using assms by (auto simp: mutex_inv_def wake_ok_def)
qed

section \<open>Steps that change the shared state\<close>

lemma inv_op_ok: "mutex_inv s h \<Longrightarrow> op_ok t (op s t)"
  and inv_owns: "mutex_inv s h \<Longrightarrow> owns (pc (op s t)) \<longleftrightarrow> t \<noteq> 0 \<and> own (owner_and_flags s) = t"
  and inv_locks: "mutex_inv s h \<Longrightarrow> locks (pc (op s t)) \<longleftrightarrow> h = Some t"
  and inv_distinct: "mutex_inv s h \<Longrightarrow> distinct (waiters s)"
  and inv_waits: "mutex_inv s h \<Longrightarrow> t \<in> set (waiters s) \<longleftrightarrow> waits (pc (op s t))"
  and inv_holder_ok: "mutex_inv s h \<Longrightarrow> holder_ok s h"
  and inv_tickets: "mutex_inv s h \<Longrightarrow> tickets_ok s"
  and inv_wake: "mutex_inv s h \<Longrightarrow> wake_ok s"
  unfolding mutex_inv_def by blast+

lemma inv_no_holder:
  assumes "mutex_inv s h" "\<not> lck (owner_and_flags s)"
  shows "h = None" "wtr (owner_and_flags s) \<longleftrightarrow> waiters s \<noteq> []"
  using inv_holder_ok[OF assms(1)] assms(2) by (cases h; simp add: holder_ok_def)+

text \<open>A step of task \<open>t\<close>: what has to be shown of its new local state and of the shared state.\<close>

lemma inv_step:
  assumes "mutex_inv s h" "op s' = (op s)(t := l)" "op_ok t l"
    "owns (pc l) \<longleftrightarrow> t \<noteq> 0 \<and> own (owner_and_flags s') = t"
    "\<And>u. u \<noteq> t \<Longrightarrow> u \<noteq> 0 \<Longrightarrow> own (owner_and_flags s') = u \<longleftrightarrow> own (owner_and_flags s) = u"
    "locks (pc l) \<longleftrightarrow> h' = Some t" "\<And>u. u \<noteq> t \<Longrightarrow> h' = Some u \<longleftrightarrow> h = Some u"
    "distinct (waiters s')" "t \<in> set (waiters s') \<longleftrightarrow> waits (pc l)" "\<And>u. u \<noteq> t \<Longrightarrow> u \<in> set (waiters s') \<longleftrightarrow> u \<in> set (waiters s)"
    "holder_ok s' h'" "tickets_ok s'" "wake_ok s'"
  shows "mutex_inv s' h'"
proof -
  note inv = assms(1)
  have "owns (pc (op s' u)) \<longleftrightarrow> u \<noteq> 0 \<and> own (owner_and_flags s') = u" for u
    using inv_owns[OF inv, of u] assms(2,4,5) by (cases "u = t") auto
  moreover have "locks (pc (op s' u)) \<longleftrightarrow> h' = Some u" for u
    using inv_locks[OF inv, of u] assms(2,6,7) by (cases "u = t") auto
  moreover have "u \<in> set (waiters s') \<longleftrightarrow> waits (pc (op s' u))" for u
    using inv_waits[OF inv, of u] assms(2,9,10) by (cases "u = t") auto
  moreover have "op_ok u (op s' u)" for u
    using inv_op_ok[OF inv, of u] assms(2,3) by (cases "u = t") auto
  ultimately show ?thesis using assms(8,11-13) unfolding mutex_inv_def by blast
qed

lemma tickets_ok_upd:
  assumes "tickets_ok s" "op s' = (op s)(t := l)" "unblock s' = unblock s" "ticket l = ticket (op s t)" "pc l \<notin> {U_publish, U_wake}"
  shows "tickets_ok s'"
proof -
  have tk: "ticket (op s' u) = ticket (op s u)" for u using assms by simp
  have "op s' u = op s u" if "pc (op s' u) \<in> {U_publish, U_wake}" for u using assms that by (cases "u = t") auto
  then show ?thesis using assms(1,3) tk unfolding tickets_ok_def by metis
qed

lemma wake_ok_owned: "own (owner_and_flags s) \<noteq> 0 \<Longrightarrow> wake_ok s"
  by (simp add: wake_ok_def)

lemma inv_gain:
  assumes "mutex_inv s h" "\<not> lck (owner_and_flags s)" "own (owner_and_flags s) = 0" "pc (op s t) = P_fast \<or> pc (op s t) = P_acquire"
    "own v = t" "\<not> lck v" "wtr v = wtr (owner_and_flags s)"
  shows "mutex_inv (s\<lparr>op := (op s)(t := (op s t)\<lparr>pc := P_held\<rparr>), owner_and_flags := v\<rparr>) h"
proof -
  note ok = inv_op_ok[OF assms(1), of t] and h = inv_no_holder[OF assms(1,2)]
  have t: "is_task t" "op_ok t ((op s t)\<lparr>pc := P_held\<rparr>)" using ok assms(4)
    by (elim disjE; simp add: op_ok_def no_dpc_def)+
  have w: "t \<notin> set (waiters s)" using inv_waits[OF assms(1), of t] assms(4) by (auto simp: waits_def)
  show ?thesis
    by (rule inv_step[OF assms(1), of _ t "(op s t)\<lparr>pc := P_held\<rparr>"])
      (use assms t h w is_task_nz[OF t(1)] inv_distinct[OF assms(1)] tickets_ok_upd[OF inv_tickets[OF assms(1)]] in
        \<open>simp_all add: owns_def locks_def waits_def holder_ok_def wake_ok_owned\<close>)
qed

lemma inv_take_lock:
  assumes "mutex_inv s h" "\<not> lck (owner_and_flags s)" "own (owner_and_flags s) \<noteq> 0"
    "pc (op s t) = P_setlock \<and> p = P_push \<or> pc (op s t) = P_race \<and> p = P_recheck" "v = owner_and_flags s OR MUTEX_LOCK"
  shows "mutex_inv (s\<lparr>op := (op s)(t := (op s t)\<lparr>desired := v, pc := p\<rparr>), owner_and_flags := v\<rparr>) (Some t)"
proof -
  note ok = inv_op_ok[OF assms(1), of t] and h = inv_no_holder[OF assms(1,2)]
  have v: "own v = own (owner_and_flags s)" "lck v" using assms(5) by (simp_all add: word_reads)
  have t: "op_ok t ((op s t)\<lparr>desired := v, pc := p\<rparr>)" using ok assms(4) by (elim disjE conjE; simp add: op_ok_def no_dpc_def)
  have c: "owns p = owns (pc (op s t))" "locks p" "waits p = waits (pc (op s t))" "p \<notin> {U_publish, U_wake, U_peek, P_publish, P_publish_err, P_unlink, P_unlink_err}"
    using assms(4) by (elim disjE conjE; simp add: pc_sets)+
  have wv: "wtr v" if "p = P_recheck"
    using that assms(4,5) h inv_waits[OF assms(1), of t] by (auto simp: waits_def word_reads)
  show ?thesis
    by (rule inv_step[OF assms(1), of _ t "(op s t)\<lparr>desired := v, pc := p\<rparr>"])
      (use c t h v wv assms(3) inv_distinct[OF assms(1)] inv_owns[OF assms(1), of t] inv_waits[OF assms(1), of t]
          tickets_ok_upd[OF inv_tickets[OF assms(1)]] in \<open>simp_all add: holder_ok_def wake_ok_owned\<close>)
qed

lemma inv_holds:
  assumes "mutex_inv s h" "locks (pc (op s t))"
  shows "h = Some t" "holder_ok s (Some t)"
  using inv_locks[OF assms(1), of t] inv_holder_ok[OF assms(1)] assms(2) by simp_all

text \<open>A step of the holder of the lock bit that keeps the owner word.\<close>

lemma inv_holder_step:
  assumes "mutex_inv s h" "locks (pc (op s t))" "op s' = (op s)(t := l)" "owner_and_flags s' = owner_and_flags s" "op_ok t l" "locks (pc l)"
    "owns (pc l) = owns (pc (op s t))" "distinct (waiters s')" "t \<in> set (waiters s') \<longleftrightarrow> waits (pc l)"
    "\<And>u. u \<noteq> t \<Longrightarrow> u \<in> set (waiters s') \<longleftrightarrow> u \<in> set (waiters s)" "holder_ok s' (Some t)" "tickets_ok s'" "wake_ok s'"
  shows "mutex_inv s' h"
  by (rule inv_step[OF assms(1,3,5)])
    (use assms(4-13) inv_holds[OF assms(1,2)] inv_owns[OF assms(1), of t] in \<open>simp_all\<close>)

lemma inv_push:
  assumes "mutex_inv s h" "pc (op s t) = P_push"
  shows "mutex_inv (lock_push t s) h"
proof -
  have l: "locks (pc (op s t))" using assms(2) by (simp add: locks_def)
  note h = inv_holds[OF assms(1) l] and ok = inv_op_ok[OF assms(1), of t]
  have w: "t \<notin> set (waiters s)" using inv_waits[OF assms(1), of t] assms(2) by (simp add: waits_def)
  show ?thesis
    by (rule inv_holder_step[OF assms(1) l, of _ "(op s t)\<lparr>pc := P_release\<rparr>"])
      (use assms(2) h ok w inv_distinct[OF assms(1)] in
        \<open>simp_all add: lock_push_def upd_op_def pc_sets op_ok_def holder_ok_def Let_def wake_ok_owned tickets_ok_upd[OF inv_tickets[OF assms(1)]]\<close>)
qed

lemma inv_recheck:
  assumes "mutex_inv s h" "pc (op s t) = P_recheck"
  shows "mutex_inv (lock_recheck t s) h"
proof -
  have l: "locks (pc (op s t))" using assms(2) by (simp add: locks_def)
  note h = inv_holds[OF assms(1) l] and ok = inv_op_ok[OF assms(1), of t]
  have w: "t \<in> set (waiters s)" using inv_waits[OF assms(1), of t] assms(2) by (simp add: waits_def)
  define k where "k = (if expired (op s t) s then (op s t)\<lparr>err := ETIME, pc := P_unlink_err\<rparr> else (op s t)\<lparr>pc := P_reticket\<rparr>)"
  have "lock_recheck t s = s\<lparr>op := (op s)(t := k)\<rparr>"
    by (simp add: k_def lock_recheck_def upd_op_def has_pending_signal_def)
  moreover have "mutex_inv (s\<lparr>op := (op s)(t := k)\<rparr>) h"
    by (rule inv_holder_step[OF assms(1) l, of _ k])
      (use assms(2) h ok w inv_distinct[OF assms(1)] in
        \<open>simp_all add: k_def pc_sets op_ok_def holder_ok_def Let_def wake_ok_owned tickets_ok_upd[OF inv_tickets[OF assms(1)]]\<close>)
  ultimately show ?thesis by simp
qed


lemma tickets_ok_ticket:
  assumes "tickets_ok s" "op s' = (op s)(t := l)" "unblock s' = (unblock s)(t := unblock s t + 1)" "ticket l = unblock s t + 1" "pc l \<notin> {U_publish, U_wake}"
  shows "tickets_ok s'"
proof -
  have tk: "ticket (op s u) \<le> ticket (op s' u)" "ticket (op s' u) \<le> unblock s' u" for u
    using assms(1-4) by (cases "u = t"; simp add: tickets_ok_def le_SucI)+
  have eq: "op s' u = op s u" if "pc (op s' u) \<in> {U_publish, U_wake}" for u using assms that by (cases "u = t") auto
  have "wake_ticket (op s' u) \<le> ticket (op s' (wake_task (op s' u)))" if "pc (op s' u) \<in> {U_publish, U_wake}" for u
    using eq[OF that] that assms(1) tk(1) unfolding tickets_ok_def by (metis le_trans)
  then show ?thesis using tk(2) unfolding tickets_ok_def by blast
qed

lemma inv_reticket:
  assumes "mutex_inv s h" "pc (op s t) = P_reticket"
  shows "mutex_inv (lock_reticket t s) h"
proof -
  have l: "locks (pc (op s t))" using assms(2) by (simp add: locks_def)
  note h = inv_holds[OF assms(1) l] and ok = inv_op_ok[OF assms(1), of t]
  have w: "t \<in> set (waiters s)" using inv_waits[OF assms(1), of t] assms(2) by (simp add: waits_def)
  show ?thesis
    by (rule inv_holder_step[OF assms(1) l, of _ "(op s t)\<lparr>ticket := unblock s t + 1, pc := P_release\<rparr>"])
      (use assms(2) h ok w inv_distinct[OF assms(1)] in
        \<open>simp_all add: lock_reticket_def blocking_ticket_def upd_op_def pc_sets op_ok_def holder_ok_def Let_def wake_ok_owned
          tickets_ok_ticket[OF inv_tickets[OF assms(1)]]\<close>)
qed

lemma will_wake_upd:
  assumes "will_wake s w" "op s' = (op s)(t := l)" "w \<noteq> t" "unblock s' w = unblock s w" "pc (op s t) \<notin> {U_peek, U_publish, U_wake}"
  shows "will_wake s' w"
proof -
  have "op s' u = op s u" if "pc (op s u) = U_peek \<or> pc (op s u) \<in> {U_publish, U_wake}" for u using that assms(2,5) by (cases "u = t") auto
  then show ?thesis using assms(1-4) unfolding will_wake_def by (metis fun_upd_other)
qed

lemma inv_ticket:
  assumes "mutex_inv s h" "pc (op s t) = P_ticket"
  shows "mutex_inv (lock_ticket t s) h"
proof -
  let ?l = "(op s t)\<lparr>ticket := unblock s t + 1, dpc_depth := dpc_depth (op s t) + 1, pc := P_setlock\<rparr>"
  note ok = inv_op_ok[OF assms(1), of t]
  have w: "t \<notin> set (waiters s)" using inv_waits[OF assms(1), of t] assms(2) by (simp add: waits_def)
  have ht: "h \<noteq> Some t" using inv_locks[OF assms(1), of t] assms(2) by (simp add: locks_def)
  have o: "op (lock_ticket t s) = (op s)(t := ?l)" "owner_and_flags (lock_ticket t s) = owner_and_flags s" "waiters (lock_ticket t s) = waiters s"
    "unblock (lock_ticket t s) = (unblock s)(t := unblock s t + 1)"
    by (simp_all add: lock_ticket_def blocking_ticket_def upd_op_def)
  have "holder_ok (lock_ticket t s) h"
    using inv_holder_ok[OF assms(1)] ht by (cases h) (simp_all add: holder_ok_def o)
  moreover have "will_wake (lock_ticket t s) x" if "will_wake s x" "x \<noteq> t" for x
    by (rule will_wake_upd[OF that(1) o(1) that(2)]) (use that(2) assms(2) in \<open>simp_all add: o\<close>)
  moreover have "hd (waiters s) \<noteq> t" if "waiters s \<noteq> []" using w that by (metis hd_in_set)
  ultimately show ?thesis
    by (intro inv_step[OF assms(1) o(1)])
      (use assms(2) ok w ht o inv_distinct[OF assms(1)] inv_owns[OF assms(1), of t] inv_wake[OF assms(1)] in
        \<open>simp_all add: pc_sets op_ok_def wake_ok_def tickets_ok_ticket[OF inv_tickets[OF assms(1)]]\<close>)
qed


text \<open>A step of the holder that gives the lock bit back with the owner unchanged.\<close>

lemma inv_drop_lock:
  assumes "mutex_inv s h" "locks (pc (op s t))" "op s' = (op s)(t := l)" "waiters s' = waiters s" "unblock s' = unblock s"
    "op_ok t l" "\<not> locks (pc l)" "owns (pc l) = owns (pc (op s t))" "waits (pc l) = waits (pc (op s t))" "pc l \<notin> {U_publish, U_wake}" "ticket l = ticket (op s t)"
    "own (owner_and_flags s') = own (owner_and_flags s)" "own (owner_and_flags s) \<noteq> 0" "\<not> lck (owner_and_flags s')" "wtr (owner_and_flags s') \<longleftrightarrow> waiters s \<noteq> []"
  shows "mutex_inv s' None"
  by (rule inv_step[OF assms(1,3,6)])
    (use assms(4-15) inv_holds[OF assms(1,2)] inv_owns[OF assms(1), of t] inv_waits[OF assms(1), of t] inv_distinct[OF assms(1)]
        tickets_ok_upd[OF inv_tickets[OF assms(1)] assms(3,5)] in \<open>simp_all add: holder_ok_def wake_ok_owned\<close>)

lemma inv_release:
  assumes "mutex_inv s h" "pc (op s t) = P_release"
  shows "mutex_inv (lock_release t s) None"
proof -
  have l: "locks (pc (op s t))" using assms(2) by (simp add: locks_def)
  note h = inv_holds[OF assms(1) l] and ok = inv_op_ok[OF assms(1), of t]
  have w: "waiters s \<noteq> []" using inv_waits[OF assms(1), of t] assms(2) by (auto simp: waits_def)
  let ?v = "(desired (op s t) AND NOT MUTEX_LOCK) OR MUTEX_WAITER"
  show ?thesis
    by (rule inv_drop_lock[OF assms(1) l, of _ "(op s t)\<lparr>desired := ?v, pc := P_sleep\<rparr>"])
      (use assms(2) h ok w in \<open>simp_all add: lock_release_def upd_op_def pc_sets op_ok_def holder_ok_def Let_def word_reads\<close>)
qed

lemma inv_publish:
  assumes "mutex_inv s h" "pc (op s t) = P_publish \<and> p = P_held \<or> pc (op s t) = P_publish_err \<and> p = P_idle"
  shows "mutex_inv (lock_publish t p s) None"
proof -
  have l: "locks (pc (op s t))" using assms(2) by (elim disjE conjE) (simp_all add: locks_def)
  note h = inv_holds[OF assms(1) l] and ok = inv_op_ok[OF assms(1), of t]
  show ?thesis
    by (rule inv_drop_lock[OF assms(1) l, of _ "(op s t)\<lparr>dpc_depth := dpc_depth (op s t) - 1, pc := p\<rparr>"]; use assms(2) in \<open>elim disjE conjE\<close>)
      (use h ok in \<open>simp_all add: lock_publish_def upd_op_def pc_sets op_ok_def holder_ok_def Let_def\<close>)
qed

lemma inv_unlink:
  assumes "mutex_inv s h" "pc (op s t) = P_unlink \<and> p = P_publish \<or> pc (op s t) = P_unlink_err \<and> p = P_publish_err"
  shows "mutex_inv (lock_unlink t p s) h"
proof -
  have l: "locks (pc (op s t))" using assms(2) by (elim disjE conjE) (simp_all add: locks_def)
  note h = inv_holds[OF assms(1) l] and ok = inv_op_ok[OF assms(1), of t]
  define v where "v = (let v = desired (op s t) AND NOT MUTEX_LOCK in if remove1 t (waiters s) = [] then v AND NOT MUTEX_WAITER else v)"
  have d: "wtr (desired (op s t))" "own (desired (op s t)) = own (owner_and_flags s)" "own (owner_and_flags s) \<noteq> 0" "lck (owner_and_flags s)"
    using h(2) assms(2) by (elim disjE conjE; simp add: holder_ok_def Let_def)+
  have v: "own v = own (owner_and_flags s)" "\<not> lck v" "wtr v \<longleftrightarrow> remove1 t (waiters s) \<noteq> []"
    using d by (simp_all add: v_def Let_def word_reads)
  have o: "op (lock_unlink t p s) = (op s)(t := (op s t)\<lparr>desired := v, pc := p\<rparr>)" "owner_and_flags (lock_unlink t p s) = owner_and_flags s"
    "waiters (lock_unlink t p s) = remove1 t (waiters s)" "unblock (lock_unlink t p s) = unblock s"
    by (simp_all add: lock_unlink_def upd_op_def v_def Let_def)
  have c: "op_ok t ((op s t)\<lparr>desired := v, pc := p\<rparr>)" "locks p" "owns p = owns (pc (op s t))" "\<not> waits p" "p \<notin> {U_publish, U_wake, U_peek, P_recheck, P_unlink, P_unlink_err}"
    using assms(2) ok by (elim disjE conjE; simp add: pc_sets op_ok_def)+
  show ?thesis
    by (rule inv_holder_step[OF assms(1) l o(1,2)])
      (use c o v d inv_distinct[OF assms(1)] in \<open>simp_all add: set_remove1_eq holder_ok_def Let_def wake_ok_owned tickets_ok_upd[OF inv_tickets[OF assms(1)] o(1)]\<close>)
qed

lemma inv_reacquire:
  assumes "mutex_inv s h" "\<not> lck (owner_and_flags s)" "own (owner_and_flags s) = 0" "pc (op s t) = P_reacquire" "v = t OR MUTEX_LOCK OR MUTEX_WAITER"
  shows "mutex_inv (s\<lparr>op := (op s)(t := (op s t)\<lparr>desired := v, pc := P_unlink\<rparr>), owner_and_flags := v\<rparr>) (Some t)"
proof -
  note ok = inv_op_ok[OF assms(1), of t] and h = inv_no_holder[OF assms(1,2)]
  have t: "is_task t" using ok assms(4) by (simp add: op_ok_def)
  have v: "own v = t" "lck v" "wtr v" using assms(5) own_task[OF t] by (simp_all add: word_reads)
  have w: "t \<in> set (waiters s)" using inv_waits[OF assms(1), of t] assms(4) by (simp add: waits_def)
  show ?thesis
    by (rule inv_step[OF assms(1), of _ t "(op s t)\<lparr>desired := v, pc := P_unlink\<rparr>"])
      (use ok t h v w assms(3,4) is_task_nz[OF t] inv_distinct[OF assms(1)] tickets_ok_upd[OF inv_tickets[OF assms(1)]] in
        \<open>simp_all add: holder_ok_def wake_ok_owned pc_sets op_ok_def\<close>)
qed

section \<open>Steps of unlocking\<close>

lemma inv_free:
  assumes "mutex_inv s h" "\<not> lck (owner_and_flags s)" "\<not> wtr (owner_and_flags s)" "pc (op s t) = U_fast \<or> pc (op s t) = U_free"
  shows "mutex_inv (s\<lparr>op := (op s)(t := (op s t)\<lparr>pc := P_idle\<rparr>), owner_and_flags := 0\<rparr>) h"
proof -
  note ok = inv_op_ok[OF assms(1), of t] and h = inv_no_holder[OF assms(1,2)]
  have own: "own (owner_and_flags s) = t" "t \<noteq> 0" using inv_owns[OF assms(1), of t] assms(4) by (auto simp: owns_def)
  have w: "waiters s = []" using h(2) assms(3) by simp
  have t: "op_ok t ((op s t)\<lparr>pc := P_idle\<rparr>)" using ok assms(4) by (elim disjE; simp add: op_ok_def no_dpc_def)
  show ?thesis
    by (rule inv_step[OF assms(1), of _ t "(op s t)\<lparr>pc := P_idle\<rparr>"])
      (use t h w own tickets_ok_upd[OF inv_tickets[OF assms(1)]] in \<open>simp_all add: owns_def locks_def waits_def holder_ok_def wake_ok_def\<close>)
qed

lemma inv_unlock_lock:
  assumes "mutex_inv s h" "\<not> lck (owner_and_flags s)" "wtr (owner_and_flags s)" "pc (op s t) = U_lock" "v = MUTEX_WAITER OR MUTEX_LOCK"
  shows "mutex_inv (s\<lparr>op := (op s)(t := (op s t)\<lparr>pc := U_peek\<rparr>), owner_and_flags := v\<rparr>) (Some t)"
proof -
  note ok = inv_op_ok[OF assms(1), of t] and h = inv_no_holder[OF assms(1,2)]
  have own: "own (owner_and_flags s) = t" "t \<noteq> 0" using inv_owns[OF assms(1), of t] assms(4) by (auto simp: owns_def)
  have v: "own v = 0" "lck v" using assms(5) by (simp_all add: word_reads)
  have w: "t \<notin> set (waiters s)" "waiters s \<noteq> []" using inv_waits[OF assms(1), of t] h(2) assms(3,4) by (simp_all add: waits_def)
  let ?s = "s\<lparr>op := (op s)(t := (op s t)\<lparr>pc := U_peek\<rparr>), owner_and_flags := v\<rparr>"
  have "pc (op ?s t) = U_peek" by simp
  then have "wake_ok ?s" unfolding wake_ok_def will_wake_def by blast
  then show ?thesis
    by (intro inv_step[OF assms(1), of _ t "(op s t)\<lparr>pc := U_peek\<rparr>"])
      (use assms(4) ok h v w own inv_distinct[OF assms(1)] tickets_ok_upd[OF inv_tickets[OF assms(1)]] in
        \<open>simp_all add: pc_sets op_ok_def holder_ok_def\<close>)
qed

lemma inv_peek:
  assumes "mutex_inv s h" "pc (op s t) = U_peek"
  shows "\<exists>s'. unlock_peek t s = Some s' \<and> mutex_inv s' h"
proof -
  have l: "locks (pc (op s t))" using assms(2) by (simp add: locks_def)
  note h = inv_holds[OF assms(1) l] and ok = inv_op_ok[OF assms(1), of t]
  have "waiters s \<noteq> []" using h(2) assms(2) by (simp add: holder_ok_def Let_def)
  then obtain w ws where ws: "waiters s = w # ws" by (cases "waiters s") auto
  define k where "k = (op s t)\<lparr>wake_task := w, wake_ticket := ticket (op s w), pc := U_publish\<rparr>"
  define s' where "s' = s\<lparr>op := (op s)(t := k)\<rparr>"
  have e: "unlock_peek t s = Some s'" by (simp add: unlock_peek_def ws s'_def k_def upd_op_def)
  have tw: "t \<notin> set (waiters s)" "w \<noteq> t" using inv_waits[OF assms(1), of t] assms(2) ws by (auto simp: waits_def)
  have tk: "ticket (op s' u) = ticket (op s u)" for u by (simp add: s'_def k_def)
  have "pc (op s' t) = U_publish" "wake_task (op s' t) = w" "wake_ticket (op s' t) = ticket (op s' w)" by (simp_all add: s'_def k_def tw)
  moreover have "hd (waiters s') = w" by (simp add: s'_def ws)
  ultimately have wk: "wake_ok s'" unfolding wake_ok_def will_wake_def by (metis insertI1)
  have "tickets_ok s'" unfolding tickets_ok_def
  proof
    fix u
    have "wake_ticket (op s' u) \<le> ticket (op s (wake_task (op s' u)))" if "pc (op s' u) \<in> {U_publish, U_wake}"
      using inv_tickets[OF assms(1)] that unfolding tickets_ok_def by (cases "u = t") (auto simp: s'_def k_def)
    then show "ticket (op s' u) \<le> unblock s' u \<and> (pc (op s' u) \<in> {U_publish, U_wake} \<longrightarrow> wake_ticket (op s' u) \<le> ticket (op s' (wake_task (op s' u))))"
      using inv_tickets[OF assms(1)] unfolding tickets_ok_def tk by (simp add: s'_def)
  qed
  then have "mutex_inv s' h"
    by (intro inv_holder_step[OF assms(1) l, of _ k])
      (use assms(2) h ok tw wk inv_distinct[OF assms(1)] in \<open>simp_all add: s'_def k_def pc_sets op_ok_def holder_ok_def Let_def\<close>)
  then show ?thesis using e by blast
qed


lemma inv_unlock_publish:
  assumes "mutex_inv s h" "pc (op s t) = U_publish"
  shows "mutex_inv (unlock_publish t s) None"
proof -
  have l: "locks (pc (op s t))" using assms(2) by (simp add: locks_def)
  note h = inv_holds[OF assms(1) l] and ok = inv_op_ok[OF assms(1), of t]
  let ?k = "(op s t)\<lparr>pc := U_wake\<rparr>"
  define s' where "s' = unlock_publish t s"
  have o: "op s' = (op s)(t := ?k)" "owner_and_flags s' = MUTEX_WAITER" "waiters s' = waiters s" "unblock s' = unblock s"
    by (simp_all add: s'_def unlock_publish_def upd_op_def)
  have own: "own (owner_and_flags s) = 0" "waiters s \<noteq> []" using h(2) assms(2) by (simp_all add: holder_ok_def Let_def)
  have tw: "t \<notin> set (waiters s)" using inv_waits[OF assms(1), of t] assms(2) by (simp add: waits_def)
  have fields: "ticket (op s' u) = ticket (op s u)" "wake_task (op s' u) = wake_task (op s u)" "wake_ticket (op s' u) = wake_ticket (op s u)"
    "pc (op s' u) \<in> {U_publish, U_wake} \<longleftrightarrow> pc (op s u) \<in> {U_publish, U_wake}" "pc (op s' u) = P_sleep \<longleftrightarrow> pc (op s u) = P_sleep" for u
    using assms(2) by (simp_all add: o)
  have "pc (op s u) \<noteq> U_peek" for u using inv_locks[OF assms(1), of u] h(1) assms(2) by (auto simp: locks_def)
  then have "wake_ok s'" using inv_wake[OF assms(1)] own unfolding wake_ok_def will_wake_def fields o(2-4) by blast
  moreover have "tickets_ok s'" using inv_tickets[OF assms(1)] unfolding tickets_ok_def fields o(2-4) by blast
  ultimately show ?thesis unfolding s'_def[symmetric]
    by (intro inv_step[OF assms(1) o(1)])
      (use assms(2) h ok own tw o inv_distinct[OF assms(1)] in \<open>simp_all add: pc_sets op_ok_def holder_ok_def Let_def word_reads\<close>)
qed

lemma inv_wake_ticket_of:
  assumes "mutex_inv s h" "k \<le> ticket (op s w)"
  shows "mutex_inv (wake_ticket_of w k s) h" "unblock (wake_ticket_of w k s) w \<noteq> k"
proof -
  define s' where "s' = wake_ticket_of w k s"
  have o: "op s' = op s" "owner_and_flags s' = owner_and_flags s" "waiters s' = waiters s" by (simp_all add: s'_def wake_ticket_of_def)
  have le: "ticket (op s w) \<le> unblock s w" using inv_tickets[OF assms(1)] by (simp add: tickets_ok_def)
  show "unblock (wake_ticket_of w k s) w \<noteq> k" by (simp add: wake_ticket_of_def)
  have ub: "unblock s u \<le> unblock s' u" "unblock s u \<noteq> ticket (op s u) \<Longrightarrow> unblock s' u \<noteq> ticket (op s u)" for u
    using le assms(2) by (auto simp: s'_def wake_ticket_of_def)
  have "will_wake s' x" if "will_wake s x" for x using that ub(2) unfolding will_wake_def o by blast
  then have "wake_ok s'" using inv_wake[OF assms(1)] unfolding wake_ok_def o by blast
  moreover have "tickets_ok s'" using inv_tickets[OF assms(1)] ub(1) unfolding tickets_ok_def o by (meson le_trans)
  moreover have "holder_ok s' h" using inv_holder_ok[OF assms(1)] unfolding holder_ok_def o .
  ultimately show "mutex_inv (wake_ticket_of w k s) h" using assms(1) unfolding mutex_inv_def s'_def[symmetric] o by blast
qed

lemma inv_unlock_wake:
  assumes "mutex_inv s h" "pc (op s t) = U_wake"
  shows "mutex_inv (unlock_wake t s) h"
proof -
  let ?w = "wake_task (op s t)" and ?k = "wake_ticket (op s t)"
  define s1 where "s1 = wake_ticket_of ?w ?k s"
  have "?k \<le> ticket (op s ?w)" using inv_tickets[OF assms(1)] assms(2) by (simp add: tickets_ok_def)
  note i = inv_wake_ticket_of[OF assms(1) this, folded s1_def]
  have o1: "op s1 = op s" by (simp add: s1_def wake_ticket_of_def)
  let ?l = "(op s t)\<lparr>dpc_depth := dpc_depth (op s t) - 1, pc := P_idle\<rparr>"
  define s' where "s' = unlock_wake t s"
  have o: "op s' = (op s1)(t := ?l)" "owner_and_flags s' = owner_and_flags s1" "waiters s' = waiters s1" "unblock s' = unblock s1"
    by (simp_all add: s'_def s1_def unlock_wake_def wake_ticket_of_def upd_op_def)
  have ht: "h \<noteq> Some t" "t \<notin> set (waiters s1)"
    using inv_locks[OF i(1), of t] inv_waits[OF i(1), of t] assms(2) by (simp_all add: pc_sets o1)
  have "will_wake s' x" if "will_wake s1 x" "x \<noteq> t" for x
  proof -
    have "op s' u = op s1 u" if "u \<noteq> t" for u using that by (simp add: o)
    moreover have "unblock s1 x \<noteq> ticket (op s1 x)" if "wake_task (op s1 t) = x" "wake_ticket (op s1 t) = ticket (op s1 x)"
      using i(2) that by (simp add: o1)
    moreover have "pc (op s1 t) \<noteq> U_peek" using assms(2) by (simp add: o1)
    ultimately show ?thesis using that unfolding will_wake_def o(4) by metis
  qed
  moreover have "hd (waiters s1) \<noteq> t" if "waiters s1 \<noteq> []" using ht(2) that by (metis hd_in_set)
  ultimately have "wake_ok s'" using inv_wake[OF i(1)] unfolding wake_ok_def o by blast
  moreover have "holder_ok s' h" using inv_holder_ok[OF i(1)] ht(1) by (cases h) (simp_all add: holder_ok_def o)
  ultimately show ?thesis unfolding s'_def[symmetric]
    by (intro inv_step[OF i(1) o(1)])
      (use assms(2) ht o inv_op_ok[OF assms(1), of t] inv_owns[OF i(1), of t] inv_distinct[OF i(1)] tickets_ok_upd[OF inv_tickets[OF i(1)] o(1,4)] in
        \<open>simp_all add: pc_sets op_ok_def o1\<close>)
qed

section \<open>Every step keeps the invariant\<close>

lemma cmpxchg_weak_cases:
  obtains (success) "owner_and_flags s = lockval (op s t)"
      "cmpxchg_weak t strong v f g s = s\<lparr>op := (op s)(t := f (op s t)), owner_and_flags := v\<rparr>"
    | (failure) "cmpxchg_weak t strong v f g s = s\<lparr>op := (op s)(t := g ((op s t)\<lparr>lockval := owner_and_flags s\<rparr>))\<rparr>"
  by (cases "strong \<and> owner_and_flags s = lockval (op s t)") (auto simp: cmpxchg_weak_def upd_op_def)

lemmas local_simps = lock_retry_def fail_with_def next_attempt_def attempt_failed_def unlock_retry_def pc_sets op_ok_def Let_def

lemma inv_lock_fastpath: "mutex_inv s h \<Longrightarrow> pc (op s t) = P_fast \<Longrightarrow> \<exists>h. mutex_inv (lock_fastpath t strong s) h"
proof -
  assume a: "mutex_inv s h" "pc (op s t) = P_fast"
  note ok = inv_op_ok[OF a(1), of t]
  then have t: "is_task t" "lockval (op s t) = 0" using a(2) by (simp_all add: op_ok_def)
  show ?thesis
  proof (cases rule: cmpxchg_weak_cases[of s t strong t "\<lambda>l. l\<lparr>pc := P_held\<rparr>" "\<lambda>l. l\<lparr>pc := P_entry\<rparr>"])
    case success
    then show ?thesis using inv_gain[OF a(1), of t t] a(2) t own_task[OF t(1)] by (auto simp: lock_fastpath_def)
  next
    case failure
    have "mutex_inv (lock_fastpath t strong s) h" unfolding lock_fastpath_def failure
      by (rule inv_local[OF a(1)]) (use a(2) ok in \<open>simp_all add: local_simps\<close>)
    then show ?thesis by blast
  qed
qed

lemma inv_lock_acquire: "mutex_inv s h \<Longrightarrow> pc (op s t) = P_acquire \<Longrightarrow> \<exists>h. mutex_inv (lock_acquire t strong s) h"
proof -
  assume a: "mutex_inv s h" "pc (op s t) = P_acquire"
  note ok = inv_op_ok[OF a(1), of t]
  then have t: "is_task t" using a(2) by (simp add: op_ok_def)
  let ?v = "t OR (lockval (op s t) AND MUTEX_WAITER)"
  have v: "own ?v = t" "?v AND MUTEX_LOCK = 0" "?v AND MUTEX_WAITER = lockval (op s t) AND MUTEX_WAITER"
    using own_task[OF t] by (simp_all add: word_reads bit.conj_disj_distrib2)
  show ?thesis
  proof (cases rule: cmpxchg_weak_cases[of s t strong ?v "\<lambda>l. l\<lparr>pc := P_held\<rparr>" lock_retry])
    case success
    then show ?thesis using inv_gain[OF a(1), of t ?v] a(2) ok v by (auto simp: lock_acquire_def op_ok_def)
  next
    case failure
    have "mutex_inv (lock_acquire t strong s) h" unfolding lock_acquire_def failure
      by (rule inv_local[OF a(1)]) (use a(2) ok in \<open>simp_all add: local_simps\<close>)
    then show ?thesis by blast
  qed
qed

lemma inv_lock_setlock: "mutex_inv s h \<Longrightarrow> pc (op s t) = P_setlock \<Longrightarrow> \<exists>h. mutex_inv (lock_setlock t strong s) h"
proof -
  assume a: "mutex_inv s h" "pc (op s t) = P_setlock"
  note ok = inv_op_ok[OF a(1), of t]
  let ?v = "lockval (op s t) OR MUTEX_LOCK"
  show ?thesis
  proof (cases rule: cmpxchg_weak_cases[of s t strong ?v "\<lambda>l. l\<lparr>desired := ?v, pc := P_push\<rparr>" "\<lambda>l. lock_retry (l\<lparr>dpc_depth := dpc_depth l - 1\<rparr>)"])
    case success
    then show ?thesis using inv_take_lock[OF a(1), of t P_push ?v] a(2) ok by (auto simp: lock_setlock_def op_ok_def Let_def)
  next
    case failure
    have "mutex_inv (lock_setlock t strong s) h" unfolding lock_setlock_def Let_def failure
      by (rule inv_local[OF a(1)]) (use a(2) ok in \<open>simp_all add: local_simps\<close>)
    then show ?thesis by blast
  qed
qed

lemma inv_lock_race: "mutex_inv s h \<Longrightarrow> pc (op s t) = P_race \<Longrightarrow> \<exists>h. mutex_inv (lock_race t strong s) h"
proof -
  assume a: "mutex_inv s h" "pc (op s t) = P_race"
  note ok = inv_op_ok[OF a(1), of t]
  let ?v = "lockval (op s t) OR MUTEX_LOCK"
  show ?thesis
  proof (cases rule: cmpxchg_weak_cases[of s t strong ?v "\<lambda>l. l\<lparr>desired := ?v, pc := P_recheck\<rparr>" "attempt_failed P_racespin"])
    case success
    then show ?thesis using inv_take_lock[OF a(1), of t P_recheck ?v] a(2) ok by (auto simp: lock_race_def op_ok_def Let_def)
  next
    case failure
    have "mutex_inv (lock_race t strong s) h" unfolding lock_race_def Let_def failure
      by (rule inv_local[OF a(1)]) (use a(2) ok in \<open>simp_all add: local_simps\<close>)
    then show ?thesis by blast
  qed
qed

lemma inv_lock_reacquire: "mutex_inv s h \<Longrightarrow> pc (op s t) = P_reacquire \<Longrightarrow> \<exists>h. mutex_inv (lock_reacquire t strong s) h"
proof -
  assume a: "mutex_inv s h" "pc (op s t) = P_reacquire"
  note ok = inv_op_ok[OF a(1), of t]
  let ?v = "t OR MUTEX_LOCK OR MUTEX_WAITER"
  show ?thesis
  proof (cases rule: cmpxchg_weak_cases[of s t strong ?v "\<lambda>l. l\<lparr>desired := ?v, pc := P_unlink\<rparr>" "attempt_failed P_respin"])
    case success
    then show ?thesis using inv_reacquire[OF a(1), of t ?v] a(2) ok by (auto simp: lock_reacquire_def op_ok_def Let_def)
  next
    case failure
    have "mutex_inv (lock_reacquire t strong s) h" unfolding lock_reacquire_def Let_def failure
      by (rule inv_local[OF a(1)]) (use a(2) ok in \<open>simp_all add: local_simps\<close>)
    then show ?thesis by blast
  qed
qed

lemma inv_unlock_free_step:
  "mutex_inv s h \<Longrightarrow> pc (op s t) = U_fast \<or> pc (op s t) = U_free \<Longrightarrow>
     \<exists>h. mutex_inv (cmpxchg_weak t strong 0 (\<lambda>l. l\<lparr>pc := P_idle\<rparr>) unlock_retry s) h"
proof -
  assume a: "mutex_inv s h" "pc (op s t) = U_fast \<or> pc (op s t) = U_free"
  note ok = inv_op_ok[OF a(1), of t]
  have t: "is_task t" using a(2) ok by (auto simp: op_ok_def)
  have lv: "\<not> lck (lockval (op s t))" "\<not> wtr (lockval (op s t))"
    using a(2) ok own_task[OF t] by (elim disjE; simp add: op_ok_def)+
  show ?thesis
  proof (cases rule: cmpxchg_weak_cases[of s t strong 0 "\<lambda>l. l\<lparr>pc := P_idle\<rparr>" unlock_retry])
    case success
    then show ?thesis using inv_free[OF a(1) _ _ a(2)] lv by auto
  next
    case failure
    have "mutex_inv (s\<lparr>op := (op s)(t := unlock_retry ((op s t)\<lparr>lockval := owner_and_flags s\<rparr>))\<rparr>) h"
      by (rule inv_local[OF a(1)]; use a(2) in \<open>elim disjE\<close>) (use ok in \<open>simp_all add: local_simps\<close>)
    then show ?thesis using failure by auto
  qed
qed

lemma inv_unlock_lock_step: "mutex_inv s h \<Longrightarrow> pc (op s t) = U_lock \<Longrightarrow> \<exists>h. mutex_inv (unlock_lock t strong s) h"
proof -
  assume a: "mutex_inv s h" "pc (op s t) = U_lock"
  note ok = inv_op_ok[OF a(1), of t]
  let ?v = "MUTEX_WAITER OR MUTEX_LOCK"
  show ?thesis
  proof (cases rule: cmpxchg_weak_cases[of s t strong ?v "\<lambda>l. l\<lparr>pc := U_peek\<rparr>" "\<lambda>l. unlock_retry (l\<lparr>dpc_depth := dpc_depth l - 1\<rparr>)"])
    case success
    then show ?thesis using inv_unlock_lock[OF a(1), of t ?v] a(2) ok by (auto simp: unlock_lock_def op_ok_def)
  next
    case failure
    have "mutex_inv (unlock_lock t strong s) h" unfolding unlock_lock_def failure
      by (rule inv_local[OF a(1)]) (use a(2) ok in \<open>simp_all add: local_simps\<close>)
    then show ?thesis by blast
  qed
qed

lemma inv_spin:
  assumes "mutex_inv s h" "pc (op s t) = P_spin \<and> k = lock_retry \<or> pc (op s t) = U_spin \<and> k = unlock_retry \<or>
    (pc (op s t) = P_respin \<or> pc (op s t) = P_racespin) \<and> k = next_attempt"
  shows "mutex_inv (spin_on_lock_bit t k s) h"
proof -
  note ok = inv_op_ok[OF assms(1), of t]
  show ?thesis unfolding spin_on_lock_bit_def upd_op_def
    by (rule inv_local[OF assms(1)]; use assms(2) in \<open>elim disjE conjE\<close>) (use ok in \<open>simp_all add: local_simps\<close>)
qed

lemma inv_entry: "mutex_inv s h \<Longrightarrow> pc (op s t) = P_entry \<Longrightarrow> mutex_inv (lock_entry t s) h"
  unfolding lock_entry_def upd_op_def
  by (rule inv_local, assumption) (use inv_op_ok[of s h t] in \<open>simp_all add: local_simps\<close>)

lemma inv_deadline: "mutex_inv s h \<Longrightarrow> pc (op s t) = P_deadline \<Longrightarrow> mutex_inv (lock_deadline t s) h"
  unfolding lock_deadline_def upd_op_def
  by (rule inv_local, assumption) (use inv_op_ok[of s h t] in \<open>simp_all add: local_simps\<close>)

lemma inv_woken: "mutex_inv s h \<Longrightarrow> pc (op s t) = P_sleep \<Longrightarrow> mutex_inv (lock_woken t s) h"
  unfolding lock_woken_def upd_op_def
  by (rule inv_local, assumption) (use inv_op_ok[of s h t] in \<open>simp_all add: local_simps word_reads\<close>)

lemma inv_exec:
  assumes "mutex_inv s h" "mutex_exec t strong s = Some s'"
  shows "\<exists>h. mutex_inv s' h"
proof (cases "pc (op s t)")
  case U_peek
  then show ?thesis using assms(2) inv_peek[OF assms(1), of t] by (auto simp: mutex_exec_def)
next
  case P_sleep
  then show ?thesis using assms(2) inv_woken[OF assms(1), of t] by (auto simp: mutex_exec_def split: if_splits)
qed (use assms in \<open>auto simp: mutex_exec_def unlock_fastpath_def unlock_free_def
      intro: inv_lock_fastpath inv_lock_acquire inv_lock_setlock inv_lock_race inv_lock_reacquire inv_unlock_free_step inv_unlock_lock_step
        inv_spin inv_ticket inv_push inv_release inv_unlink inv_publish inv_recheck inv_reticket inv_unlock_publish inv_unlock_wake
        inv_entry inv_deadline\<close>)

lemma inv_call_lock:
  assumes "mutex_inv s h" "pc (op s t) = P_idle" "is_task t"
  shows "mutex_inv (start_lock timeout intr t s) h"
  unfolding start_lock_def upd_op_def
  by (rule inv_local[OF assms(1)]) (use assms(2,3) inv_op_ok[OF assms(1), of t] in \<open>simp_all add: local_simps\<close>)

lemma inv_call_unlock:
  assumes "mutex_inv s h" "pc (op s t) = P_held"
  shows "mutex_inv (Mutex_unlock t s) h"
  unfolding Mutex_unlock_def upd_op_def
  by (rule inv_local[OF assms(1)]) (use assms(2) inv_op_ok[OF assms(1), of t] in \<open>simp_all add: local_simps\<close>)

lemma inv_now: "mutex_inv s h \<Longrightarrow> mutex_inv (s\<lparr>now := n\<rparr>) h"
proof -
  have "holder_ok (s\<lparr>now := n\<rparr>) h = holder_ok s h" by (cases h) (simp_all add: holder_ok_def)
  then show "mutex_inv s h \<Longrightarrow> mutex_inv (s\<lparr>now := n\<rparr>) h" by (simp add: mutex_inv_def tickets_ok_def wake_ok_def will_wake_def)
qed

lemma inv_init: "mutex_inv (mutex_init t0) None"
  by (simp add: mutex_init_def mutex_inv_def op_ok_def pc_sets holder_ok_def tickets_ok_def wake_ok_def)

lemma reachable_inv: "mutex_reachable s \<Longrightarrow> \<exists>h. mutex_inv s h"
proof (induction rule: mutex_reachable.induct)
  case (init t0)
  show ?case using inv_init by blast
next
  case (step s s')
  then obtain h where h: "mutex_inv s h" by blast
  from step.hyps(2) show ?case
  proof cases
    case (exec t strong)
    then show ?thesis using inv_exec[OF h] by blast
  qed (use h in \<open>auto intro: inv_call_lock inv_call_unlock inv_now inv_wake_ticket_of(1)\<close>)
qed

section \<open>Timeouts\<close>

definition op_time :: "u64 \<Rightarrow> mutex_op \<Rightarrow> bool" where
  "op_time n l \<longleftrightarrow> (pc l \<notin> {P_idle, P_held, P_fast, P_entry, P_unlink, P_publish, U_fast, U_spin, U_free, U_lock, U_peek, U_publish, U_wake} \<longrightarrow>
       ns l = NO_TIMEOUT \<longrightarrow> expiry l = NO_TIMEOUT) \<and>
     (pc l \<in> {P_unlink_err, P_publish_err} \<longrightarrow> err l \<noteq> 0) \<and> (pc l \<notin> {P_idle, P_unlink_err, P_publish_err} \<longrightarrow> err l = 0) \<and>
     (err l \<noteq> 0 \<longrightarrow> err l = ETIME \<and> (ns l = 0 \<or> ns l \<noteq> NO_TIMEOUT \<and> expiry l \<le> n))"

lemma op_time_exec:
  assumes "op_time (now s) (op s t)" "mutex_exec t strong s = Some s'"
  shows "op_time (now s') (op s' t)" "now s' = now s" "u \<noteq> t \<Longrightarrow> op s' u = op s u"
  using assms
  by (cases "pc (op s t)";
      simp add: mutex_exec_def lock_fastpath_def lock_entry_def spin_on_lock_bit_def lock_acquire_def lock_deadline_def lock_ticket_def
        blocking_ticket_def lock_setlock_def lock_push_def lock_release_def lock_woken_def lock_reacquire_def lock_unlink_def lock_publish_def
        lock_race_def lock_recheck_def lock_reticket_def unlock_fastpath_def unlock_free_def unlock_lock_def unlock_peek_def unlock_publish_def
        unlock_wake_def wake_ticket_of_def cmpxchg_weak_def upd_op_def lock_retry_def fail_with_def next_attempt_def attempt_failed_def
        unlock_retry_def expired_def has_pending_signal_def op_time_def ETIME_def Let_def split: if_splits list.splits; force?)+

end
