(* ===== verification/Kernel_Mutex_Props.thy ===== *)
theory Kernel_Mutex_Props
  imports Kernel_Mutex_Inv
begin

text \<open>
  What the mutex promises in every reachable state: mutual exclusion, steps that are always defined,
  no lost wakeup, and error results only for expired timeouts. The concrete runs at the beginning are
  the ones the witnesses use.
\<close>

section \<open>Reachable states\<close>

lemma reachable_op_time: "mutex_reachable s \<Longrightarrow> op_time (now s) (op s t)"
proof (induction arbitrary: t rule: mutex_reachable.induct)
  case (init t0)
  show ?case by (simp add: mutex_init_def op_time_def)
next
  case (step s s')
  from step.hyps(2) show ?case
  proof cases
    case (exec u strong)
    then show ?thesis using op_time_exec[OF step.IH exec] step.IH by (cases "t = u") auto
  next
    case (tick n)
    then show ?thesis using step.IH[of t] by (auto simp: op_time_def intro: order_trans)
  next
    case (call_lock u timeout intr)
    then show ?thesis using step.IH[of t] by (auto simp: start_lock_def upd_op_def op_time_def)
  next
    case (call_unlock u)
    then show ?thesis using step.IH[of t] by (auto simp: Mutex_unlock_def upd_op_def op_time_def)
  next
    case (timer u)
    then show ?thesis using step.IH[of t] by (simp add: wake_ticket_of_def)
  qed
qed

text \<open>Steps of one task alone.\<close>

definition steps_of :: "task \<Rightarrow> mutex \<Rightarrow> mutex \<Rightarrow> bool" where
  "steps_of u = (\<lambda>s s'. \<exists>strong. mutex_exec u strong s = Some s')\<^sup>*\<^sup>*"

lemma steps_of_refl: "steps_of u s s"
  by (simp add: steps_of_def)

lemma steps_of_step: "steps_of u s s' \<Longrightarrow> mutex_exec u strong s' = Some s'' \<Longrightarrow> steps_of u s s''"
  unfolding steps_of_def by (erule rtranclp.rtrancl_into_rtrancl) blast

text \<open>The task \<open>u\<close> is between taking the lock bit and waking the first waiter in \<open>unlock\<close>.\<close>

definition releasing :: "mutex \<Rightarrow> task \<Rightarrow> bool" where
  "releasing s u \<longleftrightarrow> pc (op s u) \<in> {U_peek, U_publish, U_wake}"

datatype mutex_event = Lock u64 bool task | Unlock task | Exec task bool

fun run_event :: "mutex_event \<Rightarrow> mutex \<Rightarrow> mutex option" where
  "run_event (Lock timeout intr t) s = (if pc (op s t) = P_idle \<and> is_task t then Some (start_lock timeout intr t s) else None)"
| "run_event (Unlock t) s = (if pc (op s t) = P_held then Some (Mutex_unlock t s) else None)"
| "run_event (Exec t strong) s = mutex_exec t strong s"

fun mutex_run :: "mutex_event list \<Rightarrow> mutex \<Rightarrow> mutex option" where
  "mutex_run [] s = Some s"
| "mutex_run (e # es) s = do { s \<leftarrow> run_event e s; mutex_run es s }"

lemma mutex_run_reachable: "mutex_run es s = Some s' \<Longrightarrow> mutex_reachable s \<Longrightarrow> mutex_reachable s'"
proof (induction es s rule: mutex_run.induct)
  case (2 e es s)
  then obtain s1 where "run_event e s = Some s1" "mutex_run es s1 = Some s'" by auto
  moreover have "mutex_step s s1" using calculation(1) by (cases e) (auto split: if_splits intro: mutex_step.intros)
  ultimately show ?case using 2 by (auto intro: mutex_reachable.step)
qed simp

text \<open>The definitions a concrete run unfolds.\<close>

lemmas run_defs = mutex_init_def start_lock_def Mutex_unlock_def upd_op_def is_task_def MUTEX_PTR_def MUTEX_WAITER_def MUTEX_LOCK_def NO_TIMEOUT_def
  mutex_exec_def lock_fastpath_def lock_entry_def lock_acquire_def lock_deadline_def lock_ticket_def blocking_ticket_def lock_setlock_def
  lock_push_def lock_release_def unlock_fastpath_def unlock_lock_def cmpxchg_weak_def lock_retry_def fail_with_def unlock_retry_def expired_def
  has_pending_signal_def Let_def

section \<open>Waking the first waiter\<close>

lemma woken_can_run: "pc (op s t) = P_sleep \<Longrightarrow> unblock s t \<noteq> ticket (op s t) \<Longrightarrow> mutex_exec t strong s \<noteq> None"
  by (simp add: mutex_exec_def)

lemma exec_defined:
  assumes "mutex_inv s h" "pc (op s t) \<notin> {P_idle, P_held}" "pc (op s t) = P_sleep \<Longrightarrow> unblock s t \<noteq> ticket (op s t)"
  shows "mutex_exec t strong s \<noteq> None"
proof (cases "pc (op s t) = U_peek")
  case True
  then show ?thesis using inv_peek[OF assms(1) True] by (auto simp: mutex_exec_def)
next
  case False
  then show ?thesis using assms(2,3) by (cases "pc (op s t)") (simp_all add: mutex_exec_def)
qed

lemma wake_step:
  assumes "pc (op s u) = U_wake" "wake_task (op s u) = w" "wake_ticket (op s u) = ticket (op s w)" "u \<noteq> w"
  shows "\<exists>s'. mutex_exec u strong s = Some s' \<and> op s' w = op s w \<and> unblock s' w \<noteq> ticket (op s' w)"
  using assms by (simp add: mutex_exec_def unlock_wake_def wake_ticket_of_def upd_op_def)

lemma publish_step:
  assumes "pc (op s u) = U_publish" "u \<noteq> w"
  shows "\<exists>s'. mutex_exec u strong s = Some s' \<and> op s' w = op s w \<and> pc (op s' u) = U_wake \<and>
    wake_task (op s' u) = wake_task (op s u) \<and> wake_ticket (op s' u) = wake_ticket (op s u)"
  using assms by (simp add: mutex_exec_def unlock_publish_def upd_op_def)

lemma peek_step:
  assumes "pc (op s u) = U_peek" "waiters s \<noteq> []" "u \<noteq> hd (waiters s)"
  shows "\<exists>s'. mutex_exec u strong s = Some s' \<and> op s' (hd (waiters s)) = op s (hd (waiters s)) \<and> pc (op s' u) = U_publish \<and>
    wake_task (op s' u) = hd (waiters s) \<and> wake_ticket (op s' u) = ticket (op s (hd (waiters s)))"
  using assms by (cases "waiters s") (simp_all add: mutex_exec_def unlock_peek_def upd_op_def)

lemma wake_first:
  assumes "mutex_inv s h" "waiters s \<noteq> []" "will_wake s (hd (waiters s))"
  shows "mutex_exec (hd (waiters s)) strong s \<noteq> None \<or> (\<exists>u s'. releasing s u \<and> steps_of u s s' \<and> mutex_exec (hd (waiters s)) strong s' \<noteq> None)"
proof -
  let ?w = "hd (waiters s)"
  have w: "waits (pc (op s ?w))" using assms(1,2) inv_waits hd_in_set by blast
  consider (run) "mutex_exec ?w strong s \<noteq> None" | (peek) u where "pc (op s u) = U_peek" "pc (op s ?w) = P_sleep"
    | (publish) u where "pc (op s u) = U_publish" "pc (op s ?w) = P_sleep" "wake_task (op s u) = ?w" "wake_ticket (op s u) = ticket (op s ?w)"
    | (wake) u where "pc (op s u) = U_wake" "pc (op s ?w) = P_sleep" "wake_task (op s u) = ?w" "wake_ticket (op s u) = ticket (op s ?w)"
    using assms(3) exec_defined[OF assms(1), of ?w strong] w woken_can_run[of s ?w strong] unfolding will_wake_def by (auto simp: waits_def)
  then show ?thesis
  proof cases
    case wake
    then have u: "u \<noteq> ?w" by auto
    from wake_step[OF wake(1,3,4) u, of strong] obtain s1 where "mutex_exec u strong s = Some s1" "op s1 ?w = op s ?w" "unblock s1 ?w \<noteq> ticket (op s1 ?w)" by blast
    then have "steps_of u s s1" "mutex_exec ?w strong s1 \<noteq> None" using steps_of_step[OF steps_of_refl] wake(2) woken_can_run by auto
    moreover have "releasing s u" using wake(1) by (simp add: releasing_def)
    ultimately show ?thesis by blast
  next
    case publish
    then have u: "u \<noteq> ?w" by auto
    obtain s1 where s1: "mutex_exec u strong s = Some s1" "op s1 ?w = op s ?w" "pc (op s1 u) = U_wake" "wake_task (op s1 u) = ?w"
      "wake_ticket (op s1 u) = ticket (op s1 ?w)" using publish_step[OF publish(1) u, of strong] publish by auto
    from wake_step[OF s1(3-5) u, of strong] obtain s2 where s2: "mutex_exec u strong s1 = Some s2" "op s2 ?w = op s1 ?w" "unblock s2 ?w \<noteq> ticket (op s2 ?w)" by blast
    then have "steps_of u s s2" "mutex_exec ?w strong s2 \<noteq> None"
      using steps_of_step[OF steps_of_step[OF steps_of_refl s1(1)] s2(1)] publish(2) s1(2) woken_can_run by auto
    moreover have "releasing s u" using publish(1) by (simp add: releasing_def)
    ultimately show ?thesis by blast
  next
    case peek
    then have u: "u \<noteq> ?w" by auto
    obtain s1 where s1: "mutex_exec u strong s = Some s1" "op s1 ?w = op s ?w" "pc (op s1 u) = U_publish" "wake_task (op s1 u) = ?w"
      "wake_ticket (op s1 u) = ticket (op s1 ?w)" using peek_step[OF peek(1) assms(2) u, of strong] by auto
    obtain s2 where s2: "mutex_exec u strong s1 = Some s2" "op s2 ?w = op s1 ?w" "pc (op s2 u) = U_wake" "wake_task (op s2 u) = ?w"
      "wake_ticket (op s2 u) = ticket (op s2 ?w)" using publish_step[OF s1(3) u, of strong] s1 by auto
    from wake_step[OF s2(3-5) u, of strong] obtain s3 where s3: "mutex_exec u strong s2 = Some s3" "op s3 ?w = op s2 ?w" "unblock s3 ?w \<noteq> ticket (op s3 ?w)" by blast
    then have "steps_of u s s3" "mutex_exec ?w strong s3 \<noteq> None"
      using steps_of_step[OF steps_of_step[OF steps_of_step[OF steps_of_refl s1(1)] s2(1)] s3(1)] peek(2) s1(2) s2(2) woken_can_run by auto
    moreover have "releasing s u" using peek(1) by (simp add: releasing_def)
    ultimately show ?thesis by blast
  qed simp
qed

section \<open>A call and its deadline\<close>

text \<open>The states between a call to lock in the state \<open>s0\<close> and its return.\<close>

inductive lock_call :: "u64 \<Rightarrow> bool \<Rightarrow> task \<Rightarrow> mutex \<Rightarrow> mutex \<Rightarrow> bool" for timeout intr t s0 where
  start: "lock_call timeout intr t s0 (start_lock timeout intr t s0)"
| step: "lock_call timeout intr t s0 s \<Longrightarrow> pc (op s t) \<notin> {P_idle, P_held} \<Longrightarrow> mutex_step s s' \<Longrightarrow> lock_call timeout intr t s0 s'"

text \<open>The deadline is the timeout counted from a reading of the clock during the call.\<close>

definition deadline_ok :: "u64 \<Rightarrow> u64 \<Rightarrow> u64 \<Rightarrow> u64 \<Rightarrow> bool" where
  "deadline_ok timeout n0 n e \<longleftrightarrow> (if timeout \<in> {0, NO_TIMEOUT} then e = timeout else \<exists>k. n0 \<le> k \<and> k \<le> n \<and> e = timeout + k)"

definition call_ok :: "u64 \<Rightarrow> u64 \<Rightarrow> u64 \<Rightarrow> mutex_op \<Rightarrow> bool" where
  "call_ok timeout n0 n l \<longleftrightarrow> n0 \<le> n \<and> ns l = timeout \<and> pc l \<notin> {U_fast, U_spin, U_free, U_lock, U_peek, U_publish, U_wake} \<and>
     (pc l \<in> {P_idle, P_unlink_err, P_publish_err} \<longrightarrow> err l \<noteq> 0) \<and> (pc l \<notin> {P_fast, P_entry, P_held} \<longrightarrow> deadline_ok timeout n0 n (expiry l))"

lemma call_ok_exec:
  assumes "call_ok timeout n0 (now s) (op s t)" "pc (op s t) \<notin> {P_idle, P_held}" "mutex_exec t strong s = Some s'"
  shows "call_ok timeout n0 (now s') (op s' t)"
  using assms
  by (cases "pc (op s t)";
      simp add: mutex_exec_def lock_fastpath_def lock_entry_def spin_on_lock_bit_def lock_acquire_def lock_deadline_def lock_ticket_def
        blocking_ticket_def lock_setlock_def lock_push_def lock_release_def lock_woken_def lock_reacquire_def lock_unlink_def lock_publish_def
        lock_race_def lock_recheck_def lock_reticket_def cmpxchg_weak_def upd_op_def lock_retry_def fail_with_def next_attempt_def attempt_failed_def
        expired_def has_pending_signal_def call_ok_def ETIME_def Let_def split: if_splits; force simp: deadline_ok_def)

lemma lock_call_reachable:
  assumes "lock_call timeout intr t s0 s" "mutex_reachable s0" "pc (op s0 t) = P_idle" "is_task t"
  shows "mutex_reachable s"
  using assms by induction (auto intro: mutex_reachable.step mutex_step.call_lock)

lemma deadline_ok_later: "deadline_ok timeout n0 n e \<Longrightarrow> n \<le> n' \<Longrightarrow> deadline_ok timeout n0 n' e"
  unfolding deadline_ok_def by (cases "timeout \<in> {0, NO_TIMEOUT}") (simp, meson order_trans)

lemma call_ok_later: "call_ok timeout n0 n l \<Longrightarrow> n \<le> n' \<Longrightarrow> call_ok timeout n0 n' l"
  using deadline_ok_later[of timeout n0 n "expiry l" n'] order_trans[of n0 n n'] unfolding call_ok_def by blast

lemma lock_call_ok:
  assumes "lock_call timeout intr t s0 s" "mutex_reachable s0" "pc (op s0 t) = P_idle" "is_task t"
  shows "call_ok timeout (now s0) (now s) (op s t)"
  using assms
proof induction
  case start
  show ?case by (simp add: call_ok_def start_lock_def upd_op_def)
next
  case (step s s')
  note ok = step.IH[OF step.prems] and r = lock_call_reachable[OF step.hyps(1) step.prems]
  from step.hyps(3) show ?case
  proof cases
    case (exec u strong)
    note frame = op_time_exec(2,3)[OF reachable_op_time[OF r] exec]
    show ?thesis
    proof (cases "t = u")
      case True
      then show ?thesis using call_ok_exec[OF ok step.hyps(2)] exec by blast
    next
      case False
      then show ?thesis using ok frame(1) frame(2)[of t] by simp
    qed
  next
    case (call_lock u timeout' intr')
    then have "u \<noteq> t" using step.hyps(2) by auto
    then show ?thesis using ok call_lock by (simp add: start_lock_def upd_op_def)
  next
    case (call_unlock u)
    then have "u \<noteq> t" using step.hyps(2) by auto
    then show ?thesis using ok call_unlock by (simp add: Mutex_unlock_def upd_op_def)
  next
    case (tick n)
    then show ?thesis using call_ok_later[OF ok] by simp
  next
    case (timer u)
    then show ?thesis using ok by (simp add: wake_ticket_of_def)
  qed
qed

section \<open>Properties\<close>

text \<open>
  (C6) Mutual exclusion: in every reachable state at most one task holds the mutex, the owner word names
  it, and at most one task is inside the section that the lock bit protects.
\<close>

theorem mutex_exclusion:
  assumes "mutex_reachable s"
  shows "(pc (op s t) = P_held \<longrightarrow> own (owner_and_flags s) = t) \<and> (pc (op s t) = P_held \<and> pc (op s u) = P_held \<longrightarrow> t = u) \<and>
    (locks (pc (op s t)) \<and> locks (pc (op s u)) \<longrightarrow> t = u)"
proof -
  obtain h where h: "mutex_inv s h" using reachable_inv[OF assms] by blast
  show ?thesis using inv_owns[OF h, of t] inv_owns[OF h, of u] inv_locks[OF h, of t] inv_locks[OF h, of u] by (auto simp: owns_def)
qed

definition run_held :: "mutex_event list" where
  "run_held = [Lock NO_TIMEOUT False 0x1000, Exec 0x1000 True]"

theorem mutex_exclusion_witness:
  "\<exists>s. mutex_run run_held (mutex_init 0) = Some s \<and> pc (op s 0x1000) = P_held \<and> own (owner_and_flags s) = 0x1000"
proof -
  have "\<exists>s. mutex_run run_held (mutex_init 0) = Some s \<and> pc (op s 0x1000) = P_held"
    by (simp add: run_held_def run_defs)
  then obtain s where s: "mutex_run run_held (mutex_init 0) = Some s" "pc (op s 0x1000) = P_held" by blast
  have "mutex_reachable s" using mutex_run_reachable[OF s(1)] mutex_reachable.init by blast
  then show ?thesis using mutex_exclusion[of s "0x1000" "0x1000"] s by auto
qed

text \<open>
  (C8) Progress and discipline: in every reachable state each task that is inside an operation has a
  defined next step, unless it sleeps on a ticket nobody has used; in particular the list of waiters is
  never empty where its first element is read. DPCs are disabled, once, exactly at the program counters between
  \<open>disable_dpc\<close> and \<open>enable_dpc\<close> in the code, and enabled at all others, so in particular outside of the operations.
\<close>

theorem mutex_progress:
  assumes "mutex_reachable s"
  shows "(pc (op s t) \<notin> {P_idle, P_held} \<and> \<not> (pc (op s t) = P_sleep \<and> unblock s t = ticket (op s t)) \<longrightarrow> (\<exists>s'. mutex_exec t strong s = Some s')) \<and>
    dpc_depth (op s t) = (if pc (op s t) \<in> {P_setlock, P_push, P_release, P_sleep, P_reacquire, P_unlink, P_publish, P_race, P_recheck, P_reticket,
      P_unlink_err, P_publish_err, U_lock, U_peek, U_publish, U_wake} then 1 else 0)"
proof -
  obtain h where h: "mutex_inv s h" using reachable_inv[OF assms] by blast
  show ?thesis using exec_defined[OF h, of t strong] inv_op_ok[OF h, of t] unfolding op_ok_def no_dpc_def by blast
qed

theorem mutex_progress_witness:
  "\<exists>s s'. mutex_run [Lock NO_TIMEOUT False 0x1000] (mutex_init 0) = Some s \<and> mutex_exec 0x1000 False s = Some s' \<and> dpc_depth (op s 0x1000) = 0"
proof -
  obtain s where s: "mutex_run [Lock NO_TIMEOUT False 0x1000] (mutex_init 0) = Some s" "pc (op s 0x1000) = P_fast" "dpc_depth (op s 0x1000) = 0"
    by (simp add: run_defs)
  have "mutex_reachable s" using mutex_run_reachable[OF s(1)] mutex_reachable.init by blast
  then show ?thesis using mutex_progress[of s "0x1000" False] s by auto
qed

text \<open>
  (C7) No lost wakeup: whenever the mutex is free and tasks wait for it, the first of them can run already, or
  there is a task in the middle of \<open>unlock\<close>, and steps of that task alone make the first waiter able to run.
\<close>

theorem mutex_no_lost_wakeup:
  assumes "mutex_reachable s" "own (owner_and_flags s) = 0" "waiters s \<noteq> []"
  shows "mutex_exec (hd (waiters s)) strong s \<noteq> None \<or> (\<exists>u s'. releasing s u \<and> steps_of u s s' \<and> mutex_exec (hd (waiters s)) strong s' \<noteq> None)"
proof -
  obtain h where h: "mutex_inv s h" using reachable_inv[OF assms(1)] by blast
  then have "will_wake s (hd (waiters s))" using inv_wake[OF h] assms(2,3) by (simp add: wake_ok_def)
  then show ?thesis by (rule wake_first[OF h assms(3)])
qed

text \<open>The second task goes to sleep while the first one holds the mutex, and the first one unlocks up to the lock bit.\<close>

definition run_contended :: "mutex_event list" where
  "run_contended = run_held @ [Lock NO_TIMEOUT False 0x2000] @ map (\<lambda>_. Exec 0x2000 True) [1..7] @ [Unlock 0x1000, Exec 0x1000 True, Exec 0x1000 True]"

theorem mutex_no_lost_wakeup_witness:
  "\<exists>s s'. mutex_run run_contended (mutex_init 0) = Some s \<and> pc (op s 0x2000) = P_sleep \<and> waiters s = [0x2000] \<and>
     (\<exists>u. releasing s u \<and> steps_of u s s') \<and> mutex_exec 0x2000 True s' \<noteq> None"
proof -
  have "map_option (\<lambda>s. (pc (op s 0x2000), waiters s, own (owner_and_flags s), unblock s 0x2000 = ticket (op s 0x2000))) (mutex_run run_contended (mutex_init 0)) =
      Some (P_sleep, [0x2000], 0, True)"
    by (simp add: run_contended_def run_held_def run_defs upto_rec1 del: bind_Some_iff)
  then obtain s where s: "mutex_run run_contended (mutex_init 0) = Some s" "pc (op s 0x2000) = P_sleep" "waiters s = [0x2000]"
    "own (owner_and_flags s) = 0" "unblock s 0x2000 = ticket (op s 0x2000)" by auto
  have sleeps: "mutex_exec 0x2000 True s = None" using s(2,5) by (simp add: mutex_exec_def)
  have "mutex_reachable s" using mutex_run_reachable[OF s(1)] mutex_reachable.init by blast
  then show ?thesis using mutex_no_lost_wakeup[of s True] s sleeps by auto
qed

text \<open>
  (C39) A call to lock that returns without the mutex returns \<open>ETIME\<close>, and only when its timeout is over: the timeout is 0, or
  it is not \<open>NO_TIMEOUT\<close> and the clock has reached the timeout counted from a time \<open>k\<close> during the call, in 64-bit arithmetic; unless
  that sum wraps around, at least the whole timeout has passed since the call. An interruptible call is never
  interrupted, since there are no signals yet.
\<close>

theorem mutex_errors:
  assumes "mutex_reachable s0" "pc (op s0 t) = P_idle" "is_task t" "lock_call timeout intr t s0 s" "pc (op s t) = P_idle"
  shows "err (op s t) = ETIME \<and> timeout \<noteq> NO_TIMEOUT \<and>
    (timeout = 0 \<or> (\<exists>k. now s0 \<le> k \<and> k \<le> now s \<and> timeout + k \<le> now s)) \<and>
    (unat timeout + unat (now s) < 2 ^ 64 \<longrightarrow> unat (now s0) + unat timeout \<le> unat (now s))"
proof -
  note c = lock_call_ok[OF assms(4,1-3)] and r = reachable_op_time[OF lock_call_reachable[OF assms(4,1-3)], of t]
  have e: "err (op s t) \<noteq> 0" "ns (op s t) = timeout" "deadline_ok timeout (now s0) (now s) (expiry (op s t))" "now s0 \<le> now s"
    using c assms(5) by (simp_all add: call_ok_def)
  then have f: "err (op s t) = ETIME" "timeout = 0 \<or> timeout \<noteq> NO_TIMEOUT \<and> expiry (op s t) \<le> now s" using r by (auto simp: op_time_def)
  then have nt: "timeout \<noteq> NO_TIMEOUT" by (auto simp: NO_TIMEOUT_def)
  show ?thesis
  proof (cases "timeout = 0")
    case True
    then show ?thesis using f(1) nt e(4) by (simp add: word_le_nat_alt)
  next
    case False
    then obtain k where k: "now s0 \<le> k" "k \<le> now s" "timeout + k \<le> now s" using e(3) f(2) nt by (auto simp: deadline_ok_def)
    have "unat (now s0) + unat timeout \<le> unat (now s)" if "unat timeout + unat (now s) < 2 ^ 64"
    proof -
      have "unat (timeout + k) = unat timeout + unat k" using that k(2) by (simp add: unat_add_64 word_le_nat_alt)
      then show ?thesis using k(1,3) by (simp add: word_le_nat_alt)
    qed
    then show ?thesis using f(1) nt k by blast
  qed
qed

text \<open>The second task calls with a timeout of 5 at time 3 while the first one holds the mutex, and gives up at time 9.\<close>

definition held_at_3 :: mutex where
  "held_at_3 = (the (mutex_run run_held (mutex_init 0)))\<lparr>now := 3\<rparr>"

fun execs :: "nat \<Rightarrow> task \<Rightarrow> mutex \<Rightarrow> mutex option" where
  "execs 0 t s = Some s"
| "execs (Suc n) t s = (if pc (op s t) \<in> {P_idle, P_held} then None else do { s \<leftarrow> mutex_exec t True s; execs n t s })"

lemma execs_call: "lock_call timeout intr t s0 s \<Longrightarrow> execs n t s = Some s' \<Longrightarrow> lock_call timeout intr t s0 s'"
proof (induction n arbitrary: s)
  case (Suc n)
  then obtain s1 where "pc (op s t) \<notin> {P_idle, P_held}" "mutex_exec t True s = Some s1" "execs n t s1 = Some s'" by (auto split: if_splits)
  then show ?case using Suc.IH[OF lock_call.step[OF Suc.prems(1) _ mutex_step.exec]] by blast
qed simp

lemma held_at_3: "mutex_reachable held_at_3" "pc (op held_at_3 0x2000) = P_idle" "now held_at_3 = 3"
proof -
  obtain s where s: "mutex_run run_held (mutex_init 0) = Some s" "now s = 0" "pc (op s 0x2000) = P_idle" by (simp add: run_held_def run_defs)
  have "mutex_reachable s" using mutex_run_reachable[OF s(1)] mutex_reachable.init by blast
  moreover have "mutex_step s (s\<lparr>now := 3\<rparr>)" using s(2) by (intro mutex_step.tick) simp
  ultimately show "mutex_reachable held_at_3" unfolding held_at_3_def s(1) option.sel by (rule mutex_reachable.step)
  show "pc (op held_at_3 0x2000) = P_idle" "now held_at_3 = 3" using s by (simp_all add: held_at_3_def)
qed

theorem mutex_errors_witness:
  "\<exists>s. lock_call 5 False 0x2000 held_at_3 s \<and> now s = 9 \<and> pc (op s 0x2000) = P_idle \<and> err (op s 0x2000) = ETIME \<and> unat (now held_at_3) + unat (5 :: u64) \<le> unat (now s)"
proof -
  have "\<exists>s1. execs (Suc (Suc 0)) 0x2000 (start_lock 5 False 0x2000 held_at_3) = Some s1 \<and> now s1 = 3 \<and> pc (op s1 0x2000) = P_deadline \<and>
      (\<exists>s. execs (Suc 0) 0x2000 (s1\<lparr>now := 9\<rparr>) = Some s \<and> pc (op s 0x2000) = P_idle \<and> now s = 9)"
    by (simp add: held_at_3_def run_held_def run_defs del: bind_Some_iff)
  then obtain s1 s where s: "execs (Suc (Suc 0)) 0x2000 (start_lock 5 False 0x2000 held_at_3) = Some s1" "now s1 = 3" "pc (op s1 0x2000) = P_deadline"
    "execs (Suc 0) 0x2000 (s1\<lparr>now := 9\<rparr>) = Some s" "pc (op s 0x2000) = P_idle" "now s = 9" by blast
  have "lock_call 5 False 0x2000 held_at_3 (s1\<lparr>now := 9\<rparr>)"
    using s(2,3) by (intro lock_call.step[OF execs_call[OF lock_call.start s(1)]] mutex_step.tick) simp_all
  then have c: "lock_call 5 False 0x2000 held_at_3 s" using s(4) by (rule execs_call)
  have "is_task 0x2000" by (simp add: is_task_def MUTEX_PTR_def MUTEX_WAITER_def MUTEX_LOCK_def)
  then show ?thesis using mutex_errors[OF held_at_3(1,2) _ c s(5)] c s(5,6) by auto
qed

end
