(* ===== verification/Kernel_RWMutex.thy ===== *)
theory Kernel_RWMutex
  imports Kernel_Mutex
begin

text \<open>
  The reader-writer mutex (\<^verbatim>\<open>kernel/rwmutex.cc\<close>) as a concurrent state machine. Every task has a program counter and the
  local variables of its running operation; a step of a task is one access to the reader count or one complete call
  of the underlying mutex operations. A mutex is abstracted to being locked or not: a call to lock waits until it is free, and a
  call with a timeout or an interruptible one may return an error instead. The last reader releases the common mutex and need
  not be the task that locked it; \<^verbatim>\<open>Mutex::unlock\<close> does not look at the owner, but the properties of the mutex in
  \<^verbatim>\<open>Kernel_Mutex_Props\<close> are about a release by the owner, so that a release by another task frees the mutex is an assumption
  here. The duration of a timeout only decides when a call gives up. The reader count is a 64-bit word.
\<close>

section \<open>State\<close>

datatype rw_pc =
    R_idle | R_load | R_cmpxchg | R_lock_reader | R_reload | R_recmpxchg | R_unlock_found | R_lock_common
  | R_store | R_unlock_stored | R_unlock_err | R_reading | RU_dec | RU_unlock | W_lock | W_writing | WU_unlock

datatype lock_variant = Plain | Interruptible | Timeout | Timeout_interruptible

record rw_op =
  rw_pc :: rw_pc
  rw_val :: u64
  variant :: lock_variant
  rw_err :: int

record rwmutex =
  common_mutex :: bool
  reader_count :: u64
  reader_mutex :: bool
  rw_ops :: "task \<Rightarrow> rw_op"

definition RWMutex_init :: rwmutex where
  "RWMutex_init = \<lparr>common_mutex = False, reader_count = 0, reader_mutex = False,
     rw_ops = (\<lambda>_. \<lparr>rw_pc = R_idle, rw_val = 0, variant = Plain, rw_err = 0\<rparr>)\<rparr>"

definition upd_rw :: "task \<Rightarrow> (rw_op \<Rightarrow> rw_op) \<Rightarrow> rwmutex \<Rightarrow> rwmutex" where
  "upd_rw t f s = s\<lparr>rw_ops := (rw_ops s)(t := f (rw_ops s t))\<rparr>"

definition goto :: "task \<Rightarrow> rw_pc \<Rightarrow> rwmutex \<Rightarrow> rwmutex" where
  "goto t p = upd_rw t (\<lambda>l. l\<lparr>rw_pc := p\<rparr>)"

fun lock_errors :: "lock_variant \<Rightarrow> int list" where
  "lock_errors Plain = []"
| "lock_errors Interruptible = [EINTR]"
| "lock_errors Timeout = [ETIME]"
| "lock_errors Timeout_interruptible = [EINTR, ETIME]"

text \<open>What the environment decides in a step: a weak compare-and-exchange fails, or a call to lock gives up.\<close>

datatype outcome = Proceed | Spurious | Gives_up int

section \<open>Operations\<close>

text \<open>\<open>inc_unless_zero\<close>: the load, and the loop around the compare-and-exchange.\<close>

definition inc_look :: "task \<Rightarrow> rw_pc \<Rightarrow> rw_pc \<Rightarrow> rwmutex \<Rightarrow> rwmutex" where
  "inc_look t again zero s =
     upd_rw t (\<lambda>l. l\<lparr>rw_val := reader_count s, rw_pc := if reader_count s \<noteq> 0 then again else zero\<rparr>) s"

definition inc_cmpxchg :: "task \<Rightarrow> outcome \<Rightarrow> rw_pc \<Rightarrow> rw_pc \<Rightarrow> rw_pc \<Rightarrow> rwmutex \<Rightarrow> rwmutex" where
  "inc_cmpxchg t d again zero found s =
     (if d = Proceed \<and> reader_count s = rw_val (rw_ops s t)
      then goto t found (s\<lparr>reader_count := rw_val (rw_ops s t) + 1\<rparr>)
      else inc_look t again zero s)"

text \<open>A call to lock one of the mutexes: \<^const>\<open>None\<close> while it has to wait.\<close>

definition gives_up :: "task \<Rightarrow> int \<Rightarrow> rw_pc \<Rightarrow> rwmutex \<Rightarrow> rwmutex option" where
  "gives_up t e nxt s = (if e \<in> set (lock_errors (variant (rw_ops s t)))
     then Some (upd_rw t (\<lambda>l. l\<lparr>rw_err := e, rw_pc := nxt\<rparr>) s) else None)"

definition lock_common :: "task \<Rightarrow> outcome \<Rightarrow> rw_pc \<Rightarrow> rw_pc \<Rightarrow> rwmutex \<Rightarrow> rwmutex option" where
  "lock_common t d nxt failed s = (case d of
     Gives_up e \<Rightarrow> gives_up t e failed s
   | _ \<Rightarrow> if common_mutex s then None else Some (goto t nxt (s\<lparr>common_mutex := True\<rparr>)))"

definition lock_reader :: "task \<Rightarrow> outcome \<Rightarrow> rwmutex \<Rightarrow> rwmutex option" where
  "lock_reader t d s = (case d of
     Gives_up e \<Rightarrow> gives_up t e R_idle s
   | _ \<Rightarrow> if reader_mutex s then None else Some (goto t R_reload (s\<lparr>reader_mutex := True\<rparr>)))"

definition unlock_reader :: "task \<Rightarrow> rw_pc \<Rightarrow> rwmutex \<Rightarrow> rwmutex" where
  "unlock_reader t nxt s = goto t nxt (s\<lparr>reader_mutex := False\<rparr>)"

definition unlock_common :: "task \<Rightarrow> rwmutex \<Rightarrow> rwmutex" where
  "unlock_common t s = goto t R_idle (s\<lparr>common_mutex := False\<rparr>)"

definition store_reader :: "task \<Rightarrow> rwmutex \<Rightarrow> rwmutex" where
  "store_reader t s = goto t R_unlock_stored (s\<lparr>reader_count := 1\<rparr>)"

definition dec_reader :: "task \<Rightarrow> rwmutex \<Rightarrow> rwmutex" where
  "dec_reader t s = (let n = reader_count s - 1 in
     goto t (if n = 0 then RU_unlock else R_idle) (s\<lparr>reader_count := n\<rparr>))"

definition start_read :: "lock_variant \<Rightarrow> task \<Rightarrow> rwmutex \<Rightarrow> rwmutex" where
  "start_read k t = upd_rw t (\<lambda>l. l\<lparr>rw_pc := R_load, variant := k, rw_err := 0\<rparr>)"

definition start_write :: "lock_variant \<Rightarrow> task \<Rightarrow> rwmutex \<Rightarrow> rwmutex" where
  "start_write k t = upd_rw t (\<lambda>l. l\<lparr>rw_pc := W_lock, variant := k, rw_err := 0\<rparr>)"

definition RWMutex_read_lock :: "task \<Rightarrow> rwmutex \<Rightarrow> rwmutex" where
  "RWMutex_read_lock = start_read Plain"

definition RWMutex_read_lock_interruptible :: "task \<Rightarrow> rwmutex \<Rightarrow> rwmutex" where
  "RWMutex_read_lock_interruptible = start_read Interruptible"

definition RWMutex_read_lock_timeout :: "task \<Rightarrow> rwmutex \<Rightarrow> rwmutex" where
  "RWMutex_read_lock_timeout = start_read Timeout"

definition RWMutex_read_lock_timeout_interruptible :: "task \<Rightarrow> rwmutex \<Rightarrow> rwmutex" where
  "RWMutex_read_lock_timeout_interruptible = start_read Timeout_interruptible"

definition RWMutex_write_lock :: "task \<Rightarrow> rwmutex \<Rightarrow> rwmutex" where
  "RWMutex_write_lock = start_write Plain"

definition RWMutex_write_lock_interruptible :: "task \<Rightarrow> rwmutex \<Rightarrow> rwmutex" where
  "RWMutex_write_lock_interruptible = start_write Interruptible"

definition RWMutex_write_lock_timeout :: "task \<Rightarrow> rwmutex \<Rightarrow> rwmutex" where
  "RWMutex_write_lock_timeout = start_write Timeout"

definition RWMutex_write_lock_timeout_interruptible :: "task \<Rightarrow> rwmutex \<Rightarrow> rwmutex" where
  "RWMutex_write_lock_timeout_interruptible = start_write Timeout_interruptible"

definition RWMutex_read_unlock :: "task \<Rightarrow> rwmutex \<Rightarrow> rwmutex" where
  "RWMutex_read_unlock t = goto t RU_dec"

definition RWMutex_write_unlock :: "task \<Rightarrow> rwmutex \<Rightarrow> rwmutex" where
  "RWMutex_write_unlock t = goto t WU_unlock"

section \<open>Steps\<close>

definition rw_exec :: "task \<Rightarrow> outcome \<Rightarrow> rwmutex \<Rightarrow> rwmutex option" where
  "rw_exec t d s = (case rw_pc (rw_ops s t) of
     R_idle \<Rightarrow> None | R_reading \<Rightarrow> None | W_writing \<Rightarrow> None
   | R_load \<Rightarrow> Some (inc_look t R_cmpxchg R_lock_reader s)
   | R_cmpxchg \<Rightarrow> Some (inc_cmpxchg t d R_cmpxchg R_lock_reader R_reading s)
   | R_lock_reader \<Rightarrow> lock_reader t d s
   | R_reload \<Rightarrow> Some (inc_look t R_recmpxchg R_lock_common s)
   | R_recmpxchg \<Rightarrow> Some (inc_cmpxchg t d R_recmpxchg R_lock_common R_unlock_found s)
   | R_unlock_found \<Rightarrow> Some (unlock_reader t R_reading s)
   | R_lock_common \<Rightarrow> lock_common t d R_store R_unlock_err s
   | R_store \<Rightarrow> Some (store_reader t s)
   | R_unlock_stored \<Rightarrow> Some (unlock_reader t R_reading s)
   | R_unlock_err \<Rightarrow> Some (unlock_reader t R_idle s)
   | RU_dec \<Rightarrow> Some (dec_reader t s)
   | RU_unlock \<Rightarrow> Some (unlock_common t s)
   | W_lock \<Rightarrow> lock_common t d W_writing R_idle s
   | WU_unlock \<Rightarrow> Some (unlock_common t s))"

definition rw_lock_calls :: "(task \<Rightarrow> rwmutex \<Rightarrow> rwmutex) list" where
  "rw_lock_calls =
     [RWMutex_read_lock, RWMutex_read_lock_interruptible, RWMutex_read_lock_timeout, RWMutex_read_lock_timeout_interruptible,
      RWMutex_write_lock, RWMutex_write_lock_interruptible, RWMutex_write_lock_timeout, RWMutex_write_lock_timeout_interruptible]"

text \<open>A step of one of the tasks \<open>T\<close>: it calls an operation, where only a holder calls unlock, or goes on inside one.\<close>

inductive rw_step :: "task set \<Rightarrow> rwmutex \<Rightarrow> rwmutex \<Rightarrow> bool" for T where
  call: "t \<in> T \<Longrightarrow> rw_pc (rw_ops s t) = R_idle \<Longrightarrow> f \<in> set rw_lock_calls \<Longrightarrow> rw_step T s (f t s)"
| read_unlock: "t \<in> T \<Longrightarrow> rw_pc (rw_ops s t) = R_reading \<Longrightarrow> rw_step T s (RWMutex_read_unlock t s)"
| write_unlock: "t \<in> T \<Longrightarrow> rw_pc (rw_ops s t) = W_writing \<Longrightarrow> rw_step T s (RWMutex_write_unlock t s)"
| exec: "t \<in> T \<Longrightarrow> rw_exec t d s = Some s' \<Longrightarrow> rw_step T s s'"

inductive rw_reachable :: "task set \<Rightarrow> rwmutex \<Rightarrow> bool" for T where
  init: "rw_reachable T RWMutex_init"
| step: "rw_reachable T s \<Longrightarrow> rw_step T s s' \<Longrightarrow> rw_reachable T s'"

section \<open>Invariant\<close>

text \<open>The program counters at which a task is counted as a reader, holds the reader mutex, or holds the common mutex alone.\<close>

definition counted :: "rw_pc \<Rightarrow> bool" where
  "counted p \<longleftrightarrow> p \<in> {R_reading, R_unlock_found, R_unlock_stored, RU_dec}"

definition owns_reader :: "rw_pc \<Rightarrow> bool" where
  "owns_reader p \<longleftrightarrow> p \<in> {R_reload, R_recmpxchg, R_unlock_found, R_lock_common, R_store, R_unlock_stored, R_unlock_err}"

definition owns_common :: "rw_pc \<Rightarrow> bool" where
  "owns_common p \<longleftrightarrow> p \<in> {W_writing, WU_unlock, R_store, RU_unlock}"

definition tasks_at :: "task set \<Rightarrow> (rw_pc \<Rightarrow> bool) \<Rightarrow> rwmutex \<Rightarrow> task set" where
  "tasks_at T P s = {t \<in> T. P (rw_pc (rw_ops s t))}"

definition rw_inv :: "task set \<Rightarrow> rwmutex \<Rightarrow> bool" where
  "rw_inv T s \<longleftrightarrow> card (tasks_at T counted s) = unat (reader_count s) \<and>
     card (tasks_at T owns_reader s) = of_bool (reader_mutex s) \<and>
     card (tasks_at T owns_common s) + of_bool (reader_count s \<noteq> 0) = of_bool (common_mutex s) \<and>
     (\<forall>t \<in> T. rw_pc (rw_ops s t) \<in> {R_cmpxchg, R_recmpxchg} \<longrightarrow> rw_val (rw_ops s t) \<noteq> 0)"

lemmas pc_defs = counted_def owns_reader_def owns_common_def

lemma card_filter_upd:
  assumes "finite T" "t \<in> T"
  shows "card {u \<in> T. P ((f(t := x)) u)} + of_bool (P (f t)) = card {u \<in> T. P (f u)} + of_bool (P x)"
proof -
  have split: "card {u \<in> T. P (g u)} = card {u \<in> T - {t}. P (g u)} + of_bool (P (g t))" for g
  proof -
    have "{u \<in> T. P (g u)} = {u \<in> T - {t}. P (g u)} \<union> (if P (g t) then {t} else {})" using assms(2) by auto
    then show ?thesis using assms(1) by (auto simp: card_insert_if)
  qed
  have "{u \<in> T - {t}. P ((f(t := x)) u)} = {u \<in> T - {t}. P (f u)}" by auto
  then show ?thesis using split[of f] split[of "f(t := x)"] by simp
qed

lemma rw_inv_move:
  assumes "rw_inv T s" "finite T" "t \<in> T" "rw_ops s' = (rw_ops s)(t := l)"
    and count: "unat (reader_count s') + of_bool (counted (rw_pc (rw_ops s t))) = unat (reader_count s) + of_bool (counted (rw_pc l))"
    and reader: "of_bool (reader_mutex s') + of_bool (owns_reader (rw_pc (rw_ops s t))) = (of_bool (reader_mutex s) + of_bool (owns_reader (rw_pc l)) :: nat)"
    and common: "of_bool (common_mutex s') + of_bool (reader_count s \<noteq> 0) + of_bool (owns_common (rw_pc (rw_ops s t))) =
      (of_bool (common_mutex s) + of_bool (reader_count s' \<noteq> 0) + of_bool (owns_common (rw_pc l)) :: nat)"
    and val: "rw_pc l \<in> {R_cmpxchg, R_recmpxchg} \<longrightarrow> rw_val l \<noteq> 0"
  shows "rw_inv T s'"
proof -
  have upd: "card (tasks_at T P s') + of_bool (P (rw_pc (rw_ops s t))) = card (tasks_at T P s) + of_bool (P (rw_pc l))" for P
    using card_filter_upd[OF assms(2,3), of "\<lambda>l. P (rw_pc l)" "rw_ops s" l] by (simp add: tasks_at_def assms(4))
  show ?thesis
    using assms(1) upd[of counted] upd[of owns_reader] upd[of owns_common] count reader common val assms(4)
    unfolding rw_inv_def by (intro conjI; (linarith | auto))
qed

lemma rw_inv_bound:
  assumes "rw_inv T s" "finite T" "card T < 2 ^ 64" "t \<in> T" "\<not> counted (rw_pc (rw_ops s t))"
  shows "unat (reader_count s + 1) = unat (reader_count s) + 1"
proof -
  have "tasks_at T counted s \<subset> T" using assms(4,5) by (auto simp: tasks_at_def)
  then have "card (tasks_at T counted s) < card T" by (rule psubset_card_mono[OF assms(2)])
  then have "unat (reader_count s) < card T" using assms(1) by (simp add: rw_inv_def)
  then show ?thesis using assms(3) by (simp add: unat_add_64)
qed

lemma rw_inv_one:
  assumes "rw_inv T s" "finite T" "t \<in> T"
  shows "counted (rw_pc (rw_ops s t)) \<Longrightarrow> reader_count s \<noteq> 0"
    and "owns_reader (rw_pc (rw_ops s t)) \<Longrightarrow> reader_mutex s"
    and "owns_common (rw_pc (rw_ops s t)) \<Longrightarrow> common_mutex s \<and> reader_count s = 0"
    and "reader_count s \<noteq> 0 \<Longrightarrow> common_mutex s"
proof -
  have pos: "0 < card (tasks_at T P s)" if "P (rw_pc (rw_ops s t))" for P
    using that assms(2,3) by (auto simp: tasks_at_def card_gt_0_iff)
  note inv = assms(1)[unfolded rw_inv_def]
  show "counted (rw_pc (rw_ops s t)) \<Longrightarrow> reader_count s \<noteq> 0" using pos[of counted] inv by auto
  show "owns_reader (rw_pc (rw_ops s t)) \<Longrightarrow> reader_mutex s" using pos[of owns_reader] inv by (cases "reader_mutex s") auto
  show "owns_common (rw_pc (rw_ops s t)) \<Longrightarrow> common_mutex s \<and> reader_count s = 0"
    using pos[of owns_common] inv by (cases "common_mutex s"; cases "reader_count s = 0") auto
  show "reader_count s \<noteq> 0 \<Longrightarrow> common_mutex s" using inv by (cases "common_mutex s") auto
qed

lemmas rw_defs = upd_rw_def goto_def inc_look_def inc_cmpxchg_def gives_up_def lock_common_def lock_reader_def unlock_reader_def
  unlock_common_def store_reader_def dec_reader_def start_read_def start_write_def RWMutex_read_lock_def
  RWMutex_read_lock_interruptible_def RWMutex_read_lock_timeout_def RWMutex_read_lock_timeout_interruptible_def
  RWMutex_write_lock_def RWMutex_write_lock_interruptible_def RWMutex_write_lock_timeout_def
  RWMutex_write_lock_timeout_interruptible_def RWMutex_read_unlock_def RWMutex_write_unlock_def

lemma unat_pred: "(n :: u64) \<noteq> 0 \<Longrightarrow> unat (n - 1) + 1 = unat n"
  by (simp add: unat_sub_64 Suc_leI unat_gt_0)

text \<open>What the invariant says of a program counter, and that every kind of step keeps it.\<close>

definition role :: "rw_pc \<Rightarrow> bool \<times> bool \<times> bool" where
  "role p = (counted p, owns_reader p, owns_common p)"

abbreviation in_loop :: "rw_pc \<Rightarrow> bool" where
  "in_loop p \<equiv> p \<in> {R_cmpxchg, R_recmpxchg}"

lemma role_eval:
  "role R_idle = (False, False, False)" "role R_load = (False, False, False)" "role R_cmpxchg = (False, False, False)"
  "role R_lock_reader = (False, False, False)" "role R_reload = (False, True, False)" "role R_recmpxchg = (False, True, False)"
  "role R_unlock_found = (True, True, False)" "role R_lock_common = (False, True, False)" "role R_store = (False, True, True)"
  "role R_unlock_stored = (True, True, False)" "role R_unlock_err = (False, True, False)" "role R_reading = (True, False, False)"
  "role RU_dec = (True, False, False)" "role RU_unlock = (False, False, True)" "role W_lock = (False, False, False)"
  "role W_writing = (False, False, True)" "role WU_unlock = (False, False, True)"
  by (simp_all add: role_def pc_defs)

lemma upd_rw_inv:
  assumes "rw_inv T s" "finite T" "t \<in> T"
    and "role (rw_pc (f (rw_ops s t))) = role (rw_pc (rw_ops s t))" "in_loop (rw_pc (f (rw_ops s t))) \<longrightarrow> rw_val (f (rw_ops s t)) \<noteq> 0"
  shows "rw_inv T (upd_rw t f s)"
  using assms(4) by (intro rw_inv_move[OF assms(1-3), where l = "f (rw_ops s t)"] assms(5)) (simp_all add: upd_rw_def role_def)

lemma goto_inv:
  assumes "rw_inv T s" "finite T" "t \<in> T" "rw_ops s' = rw_ops s" "\<not> in_loop p" "role (rw_pc (rw_ops s t)) = (c, r, o')" "role p = (c', r', o'')"
    and "unat (reader_count s') + of_bool c = unat (reader_count s) + of_bool c'"
    and "of_bool (reader_mutex s') + of_bool r = (of_bool (reader_mutex s) + of_bool r' :: nat)"
    and "of_bool (common_mutex s') + of_bool (reader_count s \<noteq> 0) + of_bool o' = (of_bool (common_mutex s) + of_bool (reader_count s' \<noteq> 0) + of_bool o'' :: nat)"
  shows "rw_inv T (goto t p s')"
  using assms(4-10)
  by (intro rw_inv_move[OF assms(1-3), where l = "(rw_ops s t)\<lparr>rw_pc := p\<rparr>"]) (simp_all add: goto_def upd_rw_def role_def)

lemma inc_look_inv:
  assumes "rw_inv T s" "finite T" "t \<in> T" "role again = role (rw_pc (rw_ops s t))" "role zero = role (rw_pc (rw_ops s t))" "\<not> in_loop zero"
  shows "rw_inv T (inc_look t again zero s)"
  unfolding inc_look_def using assms(4-6) by (intro upd_rw_inv[OF assms(1-3)]) auto

lemma inc_cmpxchg_inv:
  assumes inv: "rw_inv T s" "finite T" "t \<in> T" "card T < 2 ^ 64" "in_loop (rw_pc (rw_ops s t))"
    and pcs: "role again = role (rw_pc (rw_ops s t))" "role zero = role (rw_pc (rw_ops s t))" "\<not> in_loop zero" "\<not> in_loop found"
      "role (rw_pc (rw_ops s t)) = (False, r, False)" "role found = (True, r, False)"
  shows "rw_inv T (inc_cmpxchg t d again zero found s)"
proof (cases "d = Proceed \<and> reader_count s = rw_val (rw_ops s t)")
  case True
  then have nz: "reader_count s \<noteq> 0" using inv(1,3,5) by (auto simp: rw_inv_def)
  have up: "unat (reader_count s + 1) = unat (reader_count s) + 1"
    using rw_inv_bound[OF inv(1,2,4,3)] pcs(5) by (simp add: role_def)
  then have "reader_count s + 1 \<noteq> 0" by (metis add_is_0 one_neq_zero unsigned_0)
  then have "rw_inv T (goto t found (s\<lparr>reader_count := reader_count s + 1\<rparr>))"
    using up nz by (intro goto_inv[OF inv(1-3) _ pcs(4,5,6)]) simp_all
  then show ?thesis using True by (simp add: inc_cmpxchg_def)
next
  case False
  then show ?thesis using inc_look_inv[OF inv(1-3) pcs(1-3)] by (auto simp: inc_cmpxchg_def)
qed

lemma gives_up_inv:
  assumes "rw_inv T s" "finite T" "t \<in> T" "role nxt = role (rw_pc (rw_ops s t))" "\<not> in_loop nxt" "gives_up t e nxt s = Some s'"
  shows "rw_inv T s'"
  using assms(4-6) upd_rw_inv[OF assms(1-3), of "\<lambda>l. l\<lparr>rw_err := e, rw_pc := nxt\<rparr>"] by (auto simp: gives_up_def split: if_splits)

lemma lock_common_inv:
  assumes inv: "rw_inv T s" "finite T" "t \<in> T"
    and pcs: "role failed = role (rw_pc (rw_ops s t))" "\<not> in_loop failed" "\<not> in_loop nxt" "role (rw_pc (rw_ops s t)) = (False, r, False)" "role nxt = (False, r, True)"
    and "lock_common t d nxt failed s = Some s'"
  shows "rw_inv T s'"
proof (cases d)
  case (Gives_up e)
  then show ?thesis using gives_up_inv[OF inv pcs(1,2)] assms(9) by (simp add: lock_common_def)
qed (use assms(9) in \<open>auto simp: lock_common_def split: if_splits intro!: goto_inv[OF inv _ pcs(3,4,5)]\<close>)

lemma lock_reader_inv:
  assumes inv: "rw_inv T s" "finite T" "t \<in> T" and pc: "rw_pc (rw_ops s t) = R_lock_reader" and "lock_reader t d s = Some s'"
  shows "rw_inv T s'"
proof (cases d)
  case (Gives_up e)
  then show ?thesis using gives_up_inv[OF inv, of R_idle e s'] assms(5) pc by (simp add: lock_reader_def role_eval)
qed (use assms(5) pc in \<open>auto simp: lock_reader_def role_eval split: if_splits intro!: goto_inv[OF inv]\<close>)

lemma unlock_reader_inv:
  assumes inv: "rw_inv T s" "finite T" "t \<in> T" and pcs: "role (rw_pc (rw_ops s t)) = (c, True, False)" "role nxt = (c, False, False)" "\<not> in_loop nxt"
  shows "rw_inv T (unlock_reader t nxt s)"
  unfolding unlock_reader_def
  using rw_inv_one(2)[OF inv] pcs(1) by (intro goto_inv[OF inv _ pcs(3,1,2)]) (auto simp: role_def)

lemma unlock_common_inv:
  assumes inv: "rw_inv T s" "finite T" "t \<in> T" and pc: "role (rw_pc (rw_ops s t)) = (False, False, True)"
  shows "rw_inv T (unlock_common t s)"
  unfolding unlock_common_def
  using rw_inv_one(3)[OF inv] pc by (intro goto_inv[OF inv _ _ pc role_eval(1)]) (auto simp: role_def)

lemma store_reader_inv:
  assumes inv: "rw_inv T s" "finite T" "t \<in> T" and pc: "rw_pc (rw_ops s t) = R_store"
  shows "rw_inv T (store_reader t s)"
proof -
  have "common_mutex s" "reader_count s = 0" "reader_mutex s" using rw_inv_one[OF inv] pc by (simp_all add: pc_defs)
  moreover have r: "role (rw_pc (rw_ops s t)) = (False, True, True)" using pc by (simp add: role_eval)
  ultimately show ?thesis unfolding store_reader_def
    by (intro goto_inv[OF inv _ _ r role_eval(10)]) simp_all
qed

lemma dec_reader_inv:
  assumes inv: "rw_inv T s" "finite T" "t \<in> T" and pc: "rw_pc (rw_ops s t) = RU_dec"
  shows "rw_inv T (dec_reader t s)"
proof -
  have nz: "reader_count s \<noteq> 0" and cm: "common_mutex s" using rw_inv_one[OF inv] pc by (simp_all add: pc_defs)
  have "unat (reader_count s - 1) + 1 = unat (reader_count s)" using nz by (rule unat_pred)
  then show ?thesis unfolding dec_reader_def Let_def
    using pc nz cm by (cases "reader_count s = 1") (auto simp: role_eval intro!: goto_inv[OF inv])
qed

lemma rw_exec_inv:
  assumes inv: "rw_inv T s" "finite T" "t \<in> T" and card: "card T < 2 ^ 64" and ex: "rw_exec t d s = Some s'"
  shows "rw_inv T s'"
proof (cases "rw_pc (rw_ops s t)")
  case R_lock_common
  then show ?thesis using ex lock_common_inv[OF inv, of R_unlock_err R_store True d s'] by (simp add: rw_exec_def role_eval)
next
  case W_lock
  then show ?thesis using ex lock_common_inv[OF inv, of R_idle W_writing False d s'] by (simp add: rw_exec_def role_eval)
next
  case R_lock_reader
  then show ?thesis using ex lock_reader_inv[OF inv R_lock_reader, of d s'] by (simp add: rw_exec_def)
qed (use ex in \<open>auto simp: rw_exec_def role_eval intro!: inc_look_inv[OF inv] inc_cmpxchg_inv[OF inv card] unlock_reader_inv[OF inv]
  unlock_common_inv[OF inv] store_reader_inv[OF inv] dec_reader_inv[OF inv]\<close>)

lemma rw_step_inv:
  assumes "rw_step T s s'" "rw_inv T s" "finite T" "card T < 2 ^ 64"
  shows "rw_inv T s'"
  using assms(1)
proof cases
  case (call t f)
  then obtain g where f: "f t s = upd_rw t g s" "role (rw_pc (g (rw_ops s t))) = role R_idle" "\<not> in_loop (rw_pc (g (rw_ops s t)))"
    unfolding rw_lock_calls_def by (auto simp: rw_defs role_eval)
  show ?thesis unfolding call(1) f(1) using f(2,3) call(3) by (intro upd_rw_inv[OF assms(2,3) call(2)]) simp_all
next
  case (read_unlock t)
  then show ?thesis using upd_rw_inv[OF assms(2,3), of t "\<lambda>l. l\<lparr>rw_pc := RU_dec\<rparr>"] by (simp add: RWMutex_read_unlock_def goto_def role_eval)
next
  case (write_unlock t)
  then show ?thesis using upd_rw_inv[OF assms(2,3), of t "\<lambda>l. l\<lparr>rw_pc := WU_unlock\<rparr>"] by (simp add: RWMutex_write_unlock_def goto_def role_eval)
next
  case (exec t d)
  then show ?thesis using rw_exec_inv[OF assms(2,3)] assms(4) by blast
qed

lemma rw_reachable_inv: "rw_reachable T s \<Longrightarrow> finite T \<Longrightarrow> card T < 2 ^ 64 \<Longrightarrow> rw_inv T s"
proof (induction rule: rw_reachable.induct)
  case init
  then show ?case by (simp add: rw_inv_def RWMutex_init_def tasks_at_def pc_defs)
qed (blast intro: rw_step_inv)

text \<open>Two tasks that have just called \<open>write_lock\<close> and \<open>read_lock\<close>, and a run from there.\<close>

definition sample_rw :: rwmutex where
  "sample_rw = RWMutex_read_lock 16 (RWMutex_write_lock 8 RWMutex_init)"

fun rw_run :: "task list \<Rightarrow> rwmutex \<Rightarrow> rwmutex option" where
  "rw_run [] s = Some s"
| "rw_run (t # ts) s = Option.bind (rw_exec t Proceed s) (rw_run ts)"

lemma rw_run_reachable: "rw_run ts s = Some s' \<Longrightarrow> set ts \<subseteq> T \<Longrightarrow> rw_reachable T s \<Longrightarrow> rw_reachable T s'"
  by (induction ts arbitrary: s) (auto, metis rw_reachable.step rw_step.exec)

lemma sample_rw_reachable: "rw_reachable {8, 16} sample_rw"
proof -
  have calls: "RWMutex_write_lock \<in> set rw_lock_calls" "RWMutex_read_lock \<in> set rw_lock_calls" by (simp_all add: rw_lock_calls_def)
  have "rw_step {8, 16} RWMutex_init (RWMutex_write_lock 8 RWMutex_init)"
    by (rule rw_step.call[OF _ _ calls(1)]) (simp_all add: RWMutex_init_def)
  moreover have "rw_step {8, 16} (RWMutex_write_lock 8 RWMutex_init) sample_rw"
    unfolding sample_rw_def by (rule rw_step.call[OF _ _ calls(2)]) (simp_all add: RWMutex_init_def rw_defs)
  ultimately show ?thesis by (blast intro: rw_reachable.intros)
qed

lemma sample_rw_run: "\<exists>s. rw_reachable {8, 16} s \<and> rw_pc (rw_ops s 8) = W_writing \<and> rw_pc (rw_ops s 16) = R_lock_common"
proof -
  have "\<exists>s. rw_run [8, 16, 16, 16] sample_rw = Some s \<and> rw_pc (rw_ops s 8) = W_writing \<and> rw_pc (rw_ops s 16) = R_lock_common"
    by (simp add: sample_rw_def rw_defs RWMutex_init_def rw_exec_def del: bind_Some_iff)
  then show ?thesis using rw_run_reachable[OF _ _ sample_rw_reachable] by fastforce
qed

section \<open>Properties\<close>

text \<open>
  (C16) Whatever the interleaving of reading, writing and failing tasks: the reader count is the number of tasks that have
  been counted as readers and not yet left, and while a task holds the mutex for writing, no task holds it for reading and no
  other one for writing.
\<close>

theorem rwmutex_exclusion:
  assumes "rw_reachable T s" "finite T" "card T < 2 ^ 64"
  shows "unat (reader_count s) = card (tasks_at T counted s) \<and>
    (\<forall>t u. t \<in> T \<and> u \<in> T \<and> rw_pc (rw_ops s t) = W_writing \<and> rw_pc (rw_ops s u) \<in> {W_writing, R_reading} \<longrightarrow> t = u)"
proof (intro conjI allI impI)
  note inv = rw_reachable_inv[OF assms]
  show "unat (reader_count s) = card (tasks_at T counted s)" using inv by (simp add: rw_inv_def)
  fix t u
  assume "t \<in> T \<and> u \<in> T \<and> rw_pc (rw_ops s t) = W_writing \<and> rw_pc (rw_ops s u) \<in> {W_writing, R_reading}"
  then have T: "t \<in> T" "u \<in> T" and t: "rw_pc (rw_ops s t) = W_writing" and u: "rw_pc (rw_ops s u) = W_writing \<or> rw_pc (rw_ops s u) = R_reading" by auto
  have z: "reader_count s = 0" using rw_inv_one(3)[OF inv assms(2) T(1)] t by (simp add: pc_defs)
  have "rw_pc (rw_ops s u) = W_writing" using u rw_inv_one(1)[OF inv assms(2) T(2)] z by (auto simp: pc_defs)
  then have sub: "{t, u} \<subseteq> tasks_at T owns_common s" using T t by (simp add: tasks_at_def pc_defs)
  have "finite (tasks_at T owns_common s)" using assms(2) by (simp add: tasks_at_def)
  then have "card {t, u} \<le> card (tasks_at T owns_common s)" using sub by (rule card_mono)
  also have "\<dots> \<le> 1" using inv by (cases "common_mutex s") (auto simp: rw_inv_def)
  finally show "t = u" by (cases "t = u") auto
qed

theorem rwmutex_exclusion_witness:
  "\<exists>s. rw_reachable {8, 16} s \<and> rw_pc (rw_ops s 8) = W_writing \<and> rw_pc (rw_ops s 16) = R_lock_common \<and> unat (reader_count s) = card (tasks_at {8, 16} counted s)"
proof -
  obtain s where s: "rw_reachable {8, 16} s" "rw_pc (rw_ops s 8) = W_writing" "rw_pc (rw_ops s 16) = R_lock_common"
    using sample_rw_run by blast
  then show ?thesis using rwmutex_exclusion[OF s(1)] by auto
qed

text \<open>
  (C17) The reader-writer mutex does not deadlock: as long as some task waits or works inside an operation and no task holds the
  mutex for reading or writing, a task inside an operation can take its next step without giving up.
\<close>

theorem rwmutex_no_deadlock:
  assumes "rw_reachable T s" "finite T" "card T < 2 ^ 64"
    and "t \<in> T" "rw_pc (rw_ops s t) \<noteq> R_idle" "\<And>u. u \<in> T \<Longrightarrow> rw_pc (rw_ops s u) \<notin> {R_reading, W_writing}"
  shows "\<exists>u \<in> T. rw_exec u Proceed s \<noteq> None"
proof -
  note inv = rw_reachable_inv[OF assms(1-3), unfolded rw_inv_def]
  have some: "\<exists>u \<in> T. P (rw_pc (rw_ops s u))" if "card (tasks_at T P s) \<noteq> 0" for P
    using that by (auto simp: tasks_at_def card_eq_0_iff)
  have free: "rw_exec u Proceed s \<noteq> None" if "u \<in> T" "rw_pc (rw_ops s u) \<notin> {R_idle, R_lock_reader, R_lock_common, W_lock}" for u
    using that assms(6)[OF that(1)] by (cases "rw_pc (rw_ops s u)") (auto simp: rw_exec_def)
  show ?thesis
  proof (cases "common_mutex s")
    case True
    then have "card (tasks_at T owns_common s) \<noteq> 0 \<or> card (tasks_at T counted s) \<noteq> 0" using inv by (cases "reader_count s = 0") (auto simp: unat_gt_0)
    then obtain u where "u \<in> T" "owns_common (rw_pc (rw_ops s u)) \<or> counted (rw_pc (rw_ops s u))" using some by blast
    then show ?thesis using free[of u] by (auto simp: pc_defs)
  next
    case False
    then have common: "rw_exec u Proceed s \<noteq> None" if "rw_pc (rw_ops s u) \<in> {R_lock_common, W_lock}" for u
      using that by (auto simp: rw_exec_def lock_common_def)
    have nxt: "rw_exec u Proceed s \<noteq> None" if "u \<in> T" "rw_pc (rw_ops s u) \<notin> {R_idle, R_lock_reader}" for u
      using that common[of u] free[of u] by blast
    show ?thesis
    proof (cases "rw_pc (rw_ops s t) = R_lock_reader \<and> reader_mutex s")
      case True
      then have "card (tasks_at T owns_reader s) \<noteq> 0" using inv by simp
      then obtain u where "u \<in> T" "owns_reader (rw_pc (rw_ops s u))" using some by blast
      then show ?thesis using nxt[of u] by (auto simp: pc_defs)
    next
      case False
      then have "rw_exec t Proceed s \<noteq> None"
        using nxt[OF assms(4)] assms(5) by (cases "rw_pc (rw_ops s t) = R_lock_reader") (simp_all add: rw_exec_def lock_reader_def)
      then show ?thesis using assms(4) by blast
    qed
  qed
qed

theorem rwmutex_no_deadlock_witness: "\<exists>u \<in> {8, 16}. rw_exec u Proceed (sample_rw) \<noteq> None"
proof (rule rwmutex_no_deadlock[OF sample_rw_reachable, of 8])
  show "rw_pc (rw_ops sample_rw u) \<notin> {R_reading, W_writing}" if "u \<in> {8, 16}" for u
    using that by (auto simp: sample_rw_def rw_defs RWMutex_init_def)
qed (simp_all add: sample_rw_def rw_defs RWMutex_init_def)

end
