(* ===== verification/Kernel_Rcu.thy ===== *)
theory Kernel_Rcu
  imports Davix_Prelude
begin

text \<open>
  Segment tree RCU (\<^verbatim>\<open>kernel/rcu.cc\<close>). The nodes of the tree are numbered as in the source: node \<open>i\<close> has the
  children \<open>2 * i\<close> and \<open>2 * i + 1\<close>, and the leaf of a processor is at the number of processors plus its
  number. The number of processors, a constant of the build, is the argument \<open>nr\<close>. An operation of a processor is
  one atomic step; a panic is \<^const>\<open>None\<close>, as is a walk over callbacks that does not end. What a callback does
  is not modelled, only that it is called.
\<close>

unbundle bit_operations_syntax

section \<open>Operations\<close>

type_synonym cpu = nat

record rcu_st_node =
  generation :: u64
  active :: bool

record rcu_head =
  rcu_next :: nat
  rcu_function :: nat

record rcu =
  rcu_segtree :: "nat \<Rightarrow> rcu_st_node"
  global_current_generation :: u64
  callback_list :: "u64 \<Rightarrow> nat"
  rcu_heads :: "nat \<Rightarrow> rcu_head"
  rcu_cb_dispatch_ptr :: "cpu \<Rightarrow> nat"
  rcu_dpc_queued :: "cpu \<Rightarrow> bool"
  called :: "nat list"

definition rcu_boot :: "(nat \<Rightarrow> rcu_head) \<Rightarrow> rcu" where
  "rcu_boot heads = \<lparr>rcu_segtree = (\<lambda>_. \<lparr>generation = 0, active = False\<rparr>), global_current_generation = 1, callback_list = (\<lambda>_. 0),
     rcu_heads = heads, rcu_cb_dispatch_ptr = (\<lambda>_. 0), rcu_dpc_queued = (\<lambda>_. False), called = []\<rparr>"

definition rcu_call :: "nat \<Rightarrow> nat \<Rightarrow> rcu \<Rightarrow> rcu" where
  "rcu_call head function s = (
     let s = s\<lparr>rcu_heads := (rcu_heads s)(head := (rcu_heads s head)\<lparr>rcu_function := function\<rparr>)\<rparr>;
         gen = global_current_generation s + 1
     in s\<lparr>callback_list := (callback_list s)(gen AND 3 := head)\<rparr>)"

partial_function (option) run_callbacks :: "nat \<Rightarrow> rcu \<Rightarrow> rcu option" where
  "run_callbacks head s = (if head = 0 then Some s
     else run_callbacks (rcu_next (rcu_heads s head)) (s\<lparr>called := called s @ [head]\<rparr>))"

definition rcu_dispatch_dpc_func :: "cpu \<Rightarrow> rcu \<Rightarrow> rcu option" where
  "rcu_dispatch_dpc_func cpu s =
     run_callbacks (rcu_cb_dispatch_ptr s cpu) (s\<lparr>rcu_cb_dispatch_ptr := (rcu_cb_dispatch_ptr s)(cpu := 0)\<rparr>)"

definition dispatch_callbacks :: "cpu \<Rightarrow> u64 \<Rightarrow> rcu \<Rightarrow> rcu option" where
  "dispatch_callbacks cpu gen s = (
     let head = callback_list s (gen AND 3); s = s\<lparr>callback_list := (callback_list s)(gen AND 3 := 0)\<rparr> in
     if head = 0 then Some s
     else if rcu_cb_dispatch_ptr s cpu \<noteq> 0 then None
     else Some (s\<lparr>rcu_cb_dispatch_ptr := (rcu_cb_dispatch_ptr s)(cpu := head), rcu_dpc_queued := (rcu_dpc_queued s)(cpu := True)\<rparr>))"

definition rcu_begin_next_generation :: "cpu \<Rightarrow> u64 \<Rightarrow> rcu \<Rightarrow> rcu option" where
  "rcu_begin_next_generation cpu old_generation s = (
     let new_generation = old_generation + 1
     in dispatch_callbacks cpu old_generation (s\<lparr>global_current_generation := new_generation\<rparr>))"

definition upd_node :: "nat \<Rightarrow> (rcu_st_node \<Rightarrow> rcu_st_node) \<Rightarrow> rcu \<Rightarrow> rcu" where
  "upd_node i f s = s\<lparr>rcu_segtree := (rcu_segtree s)(i := f (rcu_segtree s i))\<rparr>"

text \<open>The three loops return the new state and whether they went past the root.\<close>

function quiesce_loop :: "u64 \<Rightarrow> nat \<Rightarrow> rcu \<Rightarrow> rcu \<times> bool" where
  "quiesce_loop g i s = (
     if i > 1 then
       let parent = drop_bit 1 i; buddy = i XOR 1 in
       if generation (rcu_segtree s i) = g then (s, False)
       else
         let s = upd_node i (\<lambda>n. n\<lparr>generation := g\<rparr>) s;
             buddy_active = active (rcu_segtree s buddy);
             buddy_gen = generation (rcu_segtree s buddy) in
         if buddy_active \<and> buddy_gen \<noteq> g then (s, False) else quiesce_loop g parent s
     else (s, True))"
  by pat_completeness auto
termination
  by (relation "measure (\<lambda>(_, i, _). i)") (auto simp: drop_bit_eq_div)

function enable_loop :: "u64 \<Rightarrow> nat \<Rightarrow> rcu \<Rightarrow> rcu \<times> bool" where
  "enable_loop g i s = (
     if i > 1 then
       let parent = drop_bit 1 i; buddy = i XOR 1 in
       if active (rcu_segtree s i) then (s, False)
       else
         let s = upd_node i (\<lambda>n. n\<lparr>generation := g, active := True\<rparr>) s in
         if active (rcu_segtree s buddy) then (s, False) else enable_loop g parent s
     else (s, True))"
  by pat_completeness auto
termination
  by (relation "measure (\<lambda>(_, i, _). i)") (auto simp: drop_bit_eq_div)

function disable_loop :: "nat \<Rightarrow> rcu \<Rightarrow> rcu \<times> bool" where
  "disable_loop i s = (
     if i > 1 then
       let parent = drop_bit 1 i; buddy = i XOR 1 in
       if \<not> active (rcu_segtree s i) then (s, False)
       else
         let s = upd_node i (\<lambda>n. n\<lparr>active := False\<rparr>) s in
         if active (rcu_segtree s buddy) then (s, False) else disable_loop parent s
     else (s, True))"
  by pat_completeness auto
termination
  by (relation "measure (\<lambda>(i, _). i)") (auto simp: drop_bit_eq_div)

declare quiesce_loop.simps [simp del] enable_loop.simps [simp del] disable_loop.simps [simp del]

definition rcu_quiesce :: "nat \<Rightarrow> cpu \<Rightarrow> rcu \<Rightarrow> rcu option" where
  "rcu_quiesce nr cpu s = (let g = global_current_generation s; (s, past_root) = quiesce_loop g (nr + cpu) s in
     if past_root then rcu_begin_next_generation cpu g s else Some s)"

definition rcu_enable :: "nat \<Rightarrow> cpu \<Rightarrow> rcu \<Rightarrow> rcu option" where
  "rcu_enable nr cpu s = (let g = global_current_generation s; (s, past_root) = enable_loop g (nr + cpu) s in
     if past_root then rcu_begin_next_generation cpu g s else Some s)"

definition rcu_disable :: "nat \<Rightarrow> cpu \<Rightarrow> rcu \<Rightarrow> rcu option" where
  "rcu_disable nr cpu s = (let g = global_current_generation s; (s, past_root) = disable_loop (nr + cpu) s in
     if past_root then rcu_begin_next_generation cpu g s else Some s)"

datatype rcu_op = Call nat nat | Quiesce cpu | Enable cpu | Disable cpu | Dispatch cpu

fun rcu_step :: "nat \<Rightarrow> rcu_op \<Rightarrow> rcu \<Rightarrow> rcu option" where
  "rcu_step nr (Call head function) s = Some (rcu_call head function s)"
| "rcu_step nr (Quiesce cpu) s = rcu_quiesce nr cpu s"
| "rcu_step nr (Enable cpu) s = rcu_enable nr cpu s"
| "rcu_step nr (Disable cpu) s = rcu_disable nr cpu s"
| "rcu_step nr (Dispatch cpu) s = rcu_dispatch_dpc_func cpu s"

fun rcu_run :: "nat \<Rightarrow> rcu_op list \<Rightarrow> rcu \<Rightarrow> rcu option" where
  "rcu_run nr [] s = Some s"
| "rcu_run nr (x # xs) s = do { s \<leftarrow> rcu_step nr x s; rcu_run nr xs s }"

section \<open>The tree\<close>

abbreviation gen_of :: "rcu \<Rightarrow> nat \<Rightarrow> u64" where "gen_of s i \<equiv> generation (rcu_segtree s i)"

abbreviation act :: "rcu \<Rightarrow> nat \<Rightarrow> bool" where "act s i \<equiv> active (rcu_segtree s i)"

abbreviation cur :: "rcu \<Rightarrow> u64" where "cur s \<equiv> global_current_generation s"

lemma upd_node_simps [simp]:
  "rcu_segtree (upd_node i f s) = (rcu_segtree s)(i := f (rcu_segtree s i))" "cur (upd_node i f s) = cur s"
  "callback_list (upd_node i f s) = callback_list s" "rcu_cb_dispatch_ptr (upd_node i f s) = rcu_cb_dispatch_ptr s" "called (upd_node i f s) = called s"
  "rcu_heads (upd_node i f s) = rcu_heads s"
  by (simp_all add: upd_node_def)

text \<open>
  An inner node is active when one of its children is, and it has the current generation only
  when its active children have; active nodes are at most one generation behind.
\<close>

definition act_ok :: "nat \<Rightarrow> rcu \<Rightarrow> nat \<Rightarrow> bool" where
  "act_ok nr s p \<longleftrightarrow> (act s p \<longleftrightarrow> act s (2 * p) \<or> act s (2 * p + 1))"

definition gens_ok :: "nat \<Rightarrow> rcu \<Rightarrow> nat \<Rightarrow> bool" where
  "gens_ok nr s p \<longleftrightarrow> (p < nr \<longrightarrow> (act s (2 * p) \<longrightarrow> gen_of s (2 * p) = cur s) \<and> (act s (2 * p + 1) \<longrightarrow> gen_of s (2 * p + 1) = cur s))"

definition nodes_ok :: "nat \<Rightarrow> rcu \<Rightarrow> bool" where
  "nodes_ok nr s \<longleftrightarrow> (\<forall>p. 1 < p \<and> p < nr \<longrightarrow> act s p \<and> gen_of s p = cur s \<longrightarrow> gens_ok nr s p) \<and>
     (\<forall>i. 1 < i \<and> i < 2 * nr \<longrightarrow> act s i \<longrightarrow> gen_of s i = cur s \<or> gen_of s i = cur s - 1)"

definition rcu_inv :: "nat \<Rightarrow> rcu \<Rightarrow> bool" where
  "rcu_inv nr s \<longleftrightarrow> nodes_ok nr s \<and> (\<forall>p. 1 < p \<and> p < nr \<longrightarrow> act_ok nr s p)"

definition all_current :: "nat \<Rightarrow> rcu \<Rightarrow> bool" where
  "all_current nr s \<longleftrightarrow> (\<forall>i. 1 < i \<and> i < 2 * nr \<longrightarrow> act s i \<longrightarrow> gen_of s i = cur s)"

lemma node_parent: "1 < i \<Longrightarrow> i = 2 * (i div 2) \<and> i XOR 1 = 2 * (i div 2) + 1 \<or> i = 2 * (i div 2) + 1 \<and> i XOR 1 = 2 * (i div 2)" for i :: nat
  by (cases "even i") (auto simp: xor_Suc_0_eq)

lemma gens_ok_pair:
  assumes "1 < i" "i < 2 * nr"
  shows "gens_ok nr s (i div 2) \<longleftrightarrow> (act s i \<longrightarrow> gen_of s i = cur s) \<and> (act s (i XOR 1) \<longrightarrow> gen_of s (i XOR 1) = cur s)"
  using node_parent[OF assms(1)] assms by (elim disjE) (auto simp: gens_ok_def)

lemma act_ok_pair: "1 < i \<Longrightarrow> act_ok nr s (i div 2) \<longleftrightarrow> (act s (i div 2) \<longleftrightarrow> act s i \<or> act s (i XOR 1))"
  using node_parent[of i] by (auto simp: act_ok_def)

lemma all_current_from_root:
  assumes "rcu_inv nr s" "gens_ok nr s 1"
  shows "all_current nr s"
proof -
  have "1 < i \<Longrightarrow> i < 2 * nr \<Longrightarrow> act s i \<Longrightarrow> gen_of s i = cur s" for i
  proof (induction i rule: less_induct)
    case (less i)
    show ?case
    proof (cases "i div 2 = 1")
      case True
      then show ?thesis using assms(2) gens_ok_pair[OF less.prems(1,2), of s] less.prems by simp
    next
      case False
      then have p: "1 < i div 2" "i div 2 < nr" "i div 2 < i" using less.prems by linarith+
      have "act s (i div 2)" using assms(1) p act_ok_pair[OF less.prems(1), of nr s] less.prems(3) by (auto simp: rcu_inv_def)
      moreover from this have "gen_of s (i div 2) = cur s" using less.IH[of "i div 2"] p by simp
      ultimately have "gens_ok nr s (i div 2)" using assms(1) p by (auto simp: rcu_inv_def nodes_ok_def)
      then show ?thesis using gens_ok_pair[OF less.prems(1,2), of s] less.prems(3) by simp
    qed
  qed
  then show ?thesis by (simp add: all_current_def)
qed

text \<open>What the loops leave alone: everything but the nodes from the leaf to the root.\<close>

definition same_lists :: "rcu \<Rightarrow> rcu \<Rightarrow> bool" where
  "same_lists s s' \<longleftrightarrow> cur s' = cur s \<and> callback_list s' = callback_list s \<and> rcu_heads s' = rcu_heads s \<and>
     rcu_cb_dispatch_ptr s' = rcu_cb_dispatch_ptr s \<and> called s' = called s"

definition off_path :: "nat \<Rightarrow> nat \<Rightarrow> bool" where "off_path i j \<longleftrightarrow> (\<forall>k. i div 2 ^ k \<noteq> j)"

lemma off_path_step: "off_path i j \<Longrightarrow> i \<noteq> j \<and> off_path (i div 2) j"
  unfolding off_path_def by (metis div_mult2_eq power_0 div_by_1 power_Suc)

lemma buddy_other: "i XOR 1 \<noteq> i" for i :: nat
  by (cases i) (auto simp: xor_Suc_0_eq)

lemma quiesce_loop_step:
  "\<not> 1 < i \<Longrightarrow> quiesce_loop g i s = (s, True)"
  "1 < i \<Longrightarrow> quiesce_loop g i s = (if gen_of s i = g then (s, False)
     else if act s (i XOR 1) \<and> gen_of s (i XOR 1) \<noteq> g then (upd_node i (\<lambda>n. n\<lparr>generation := g\<rparr>) s, False)
     else quiesce_loop g (i div 2) (upd_node i (\<lambda>n. n\<lparr>generation := g\<rparr>) s))"
  using buddy_other[of i] by (subst quiesce_loop.simps, simp add: Let_def drop_bit_eq_div)+

lemma enable_loop_step:
  "\<not> 1 < i \<Longrightarrow> enable_loop g i s = (s, True)"
  "1 < i \<Longrightarrow> enable_loop g i s = (if act s i then (s, False)
     else if act s (i XOR 1) then (upd_node i (\<lambda>n. n\<lparr>generation := g, active := True\<rparr>) s, False)
     else enable_loop g (i div 2) (upd_node i (\<lambda>n. n\<lparr>generation := g, active := True\<rparr>) s))"
  using buddy_other[of i] by (subst enable_loop.simps, simp add: Let_def drop_bit_eq_div)+

lemma disable_loop_step:
  "\<not> 1 < i \<Longrightarrow> disable_loop i s = (s, True)"
  "1 < i \<Longrightarrow> disable_loop i s = (if \<not> act s i then (s, False)
     else if act s (i XOR 1) then (upd_node i (\<lambda>n. n\<lparr>active := False\<rparr>) s, False)
     else disable_loop (i div 2) (upd_node i (\<lambda>n. n\<lparr>active := False\<rparr>) s))"
  using buddy_other[of i] by (subst disable_loop.simps, simp add: Let_def drop_bit_eq_div)+

definition framed :: "nat \<Rightarrow> rcu \<Rightarrow> rcu \<Rightarrow> bool" where
  "framed i s s' \<longleftrightarrow> same_lists s s' \<and> (\<forall>j. off_path i j \<longrightarrow> rcu_segtree s' j = rcu_segtree s j)"

lemma framed_refl: "framed i s s" "framed i s (upd_node i f s)"
  using off_path_step by (auto simp: framed_def same_lists_def)

lemma framed_step: "framed (i div 2) (upd_node i f s) s' \<Longrightarrow> framed i s s'"
  using off_path_step by (fastforce simp: framed_def same_lists_def)

lemma quiesce_loop_frame: "quiesce_loop g i s = (s', b) \<Longrightarrow> framed i s s'"
proof (induction i arbitrary: s rule: less_induct)
  case (less i)
  show ?case
  proof (cases "1 < i")
    case True
    then show ?thesis using less.prems less.IH[of "i div 2"] framed_step[of i]
      by (auto simp: quiesce_loop_step(2) framed_refl split: if_splits)
  qed (use less.prems in \<open>simp add: quiesce_loop_step(1) framed_refl\<close>)
qed

lemma enable_loop_frame: "enable_loop g i s = (s', b) \<Longrightarrow> framed i s s'"
proof (induction i arbitrary: s rule: less_induct)
  case (less i)
  show ?case
  proof (cases "1 < i")
    case True
    then show ?thesis using less.prems less.IH[of "i div 2"] framed_step[of i]
      by (auto simp: enable_loop_step(2) framed_refl split: if_splits)
  qed (use less.prems in \<open>simp add: enable_loop_step(1) framed_refl\<close>)
qed

lemma disable_loop_frame: "disable_loop i s = (s', b) \<Longrightarrow> framed i s s'"
proof (induction i arbitrary: s rule: less_induct)
  case (less i)
  show ?case
  proof (cases "1 < i")
    case True
    then show ?thesis using less.prems less.IH[of "i div 2"] framed_step[of i]
      by (auto simp: disable_loop_step(2) framed_refl split: if_splits)
  qed (use less.prems in \<open>simp add: disable_loop_step(1) framed_refl\<close>)
qed

lemma nodes_ok_raise:
  assumes "nodes_ok nr s" "0 < i" "gens_ok nr s i" "a = act s i \<or> a"
  shows "nodes_ok nr (upd_node i (\<lambda>n. n\<lparr>generation := cur s, active := a\<rparr>) s)" (is "nodes_ok nr ?s")
proof -
  have c: "gens_ok nr s p \<Longrightarrow> gens_ok nr ?s p" for p by (auto simp: gens_ok_def)
  show ?thesis unfolding nodes_ok_def
  proof (intro conjI allI impI)
    fix p assume p: "1 < p \<and> p < nr" "act ?s p \<and> gen_of ?s p = cur ?s"
    show "gens_ok nr ?s p"
    proof (cases "p = i")
      case False
      then have "act s p \<and> gen_of s p = cur s" using p by simp
      then show ?thesis using assms(1) p c by (simp add: nodes_ok_def)
    qed (use assms(3) c in simp)
  next
    fix j assume "1 < j \<and> j < 2 * nr" "act ?s j"
    then show "gen_of ?s j = cur ?s \<or> gen_of ?s j = cur ?s - 1" using assms(1) by (auto simp: nodes_ok_def)
  qed
qed

lemma upd_generation: "upd_node i (\<lambda>n. n\<lparr>generation := g\<rparr>) s = upd_node i (\<lambda>n. n\<lparr>generation := g, active := act s i\<rparr>) s"
  by (simp add: upd_node_def)

lemma quiesce_loop_inv:
  "rcu_inv nr s \<Longrightarrow> 0 < i \<Longrightarrow> i < 2 * nr \<Longrightarrow> gens_ok nr s i \<Longrightarrow> g = cur s \<Longrightarrow> quiesce_loop g i s = (s', b) \<Longrightarrow> rcu_inv nr s' \<and> (b \<longrightarrow> gens_ok nr s' 1)"
proof (induction i arbitrary: s rule: less_induct)
  case (less i)
  show ?case
  proof (cases "1 < i")
    case i: True
    let ?s = "upd_node i (\<lambda>n. n\<lparr>generation := g\<rparr>) s"
    have a: "act ?s j = act s j" for j by simp
    have inv: "rcu_inv nr ?s" using less.prems nodes_ok_raise[of nr s i "act s i"] upd_generation[of i g s] a by (auto simp: rcu_inv_def act_ok_def)
    show ?thesis
    proof (cases "gen_of s i = g \<or> act s (i XOR 1) \<and> gen_of s (i XOR 1) \<noteq> g")
      case True
      then show ?thesis using less.prems inv i by (auto simp: quiesce_loop_step(2) split: if_splits)
    next
      case False
      then have "gens_ok nr ?s (i div 2)" using gens_ok_pair[OF i less.prems(3), of ?s] less.prems(5) buddy_other[of i] by auto
      moreover have "quiesce_loop g (i div 2) ?s = (s', b)" using less.prems(6) False i by (simp add: quiesce_loop_step(2) split: if_splits)
      ultimately show ?thesis using less.IH[of "i div 2" ?s] less.prems inv i by simp
    qed
  next
    case False
    then have "i = 1" using less.prems(2) by linarith
    then show ?thesis using less.prems by (auto simp: quiesce_loop_step(1))
  qed
qed

lemma act_ok_other: "p \<noteq> i \<Longrightarrow> p \<noteq> i div 2 \<Longrightarrow> act_ok nr (upd_node i f s) p = act_ok nr s p"
  by (auto simp: act_ok_def)

lemma enable_loop_inv:
  "nodes_ok nr s \<Longrightarrow> \<forall>p. 1 < p \<and> p < nr \<and> p \<noteq> i \<longrightarrow> act_ok nr s p \<Longrightarrow> 0 < i \<Longrightarrow> i < 2 * nr \<Longrightarrow> gens_ok nr s i \<Longrightarrow>
     i < nr \<longrightarrow> act s (2 * i) \<or> act s (2 * i + 1) \<Longrightarrow> g = cur s \<Longrightarrow> enable_loop g i s = (s', b) \<Longrightarrow> rcu_inv nr s' \<and> (b \<longrightarrow> gens_ok nr s' 1)"
proof (induction i arbitrary: s rule: less_induct)
  case (less i)
  show ?case
  proof (cases "1 < i")
    case i: True
    let ?s = "upd_node i (\<lambda>n. n\<lparr>generation := g, active := True\<rparr>) s" and ?p = "i div 2"
    have n: "nodes_ok nr ?s" using nodes_ok_raise[OF less.prems(1,3,5), of True] less.prems(7) by simp
    have p: "0 < ?p" "?p < i" "?p < nr" using i less.prems(4) by linarith+
    have oki: "act_ok nr ?s i" if "i < nr" using that less.prems(6) i by (auto simp: act_ok_def)
    have ok: "act_ok nr ?s q" if "1 < q" "q < nr" "q \<noteq> ?p" for q
      using oki act_ok_other[of q i nr _ s] less.prems(2) that by (cases "q = i") auto
    consider "act s i" | "\<not> act s i" "act s (i XOR 1)" | "\<not> act s i" "\<not> act s (i XOR 1)" by blast
    then show ?thesis
    proof cases
      case 1
      then have "act_ok nr s i" if "i < nr" using less.prems(6) that by (simp add: act_ok_def)
      then show ?thesis using 1 less.prems i by (auto simp: enable_loop_step(2) rcu_inv_def)
    next
      case 2
      have "act_ok nr ?s ?p" if "1 < ?p" using less.prems(2) act_ok_pair[OF i, of nr s] act_ok_pair[OF i, of nr ?s] 2 buddy_other[of i] p that by simp
      then have "rcu_inv nr ?s" using n ok unfolding rcu_inv_def by metis
      then show ?thesis using 2 less.prems i by (simp add: enable_loop_step(2))
    next
      case 3
      have "gens_ok nr ?s ?p" using gens_ok_pair[OF i less.prems(4), of ?s] less.prems(7) 3 buddy_other[of i] by simp
      moreover have "act ?s (2 * ?p) \<or> act ?s (2 * ?p + 1)" using node_parent[OF i] by auto
      moreover have "enable_loop g ?p ?s = (s', b)" using less.prems(8) 3 i by (simp add: enable_loop_step(2))
      ultimately show ?thesis using less.IH[of ?p ?s] n ok p less.prems(4,7) by simp
    qed
  next
    case False
    then have "i = 1" using less.prems(3) by linarith
    then show ?thesis using less.prems by (auto simp: enable_loop_step(1) rcu_inv_def)
  qed
qed

lemma nodes_ok_lower: "nodes_ok nr s \<Longrightarrow> nodes_ok nr (upd_node i (\<lambda>n. n\<lparr>active := False\<rparr>) s)"
  unfolding nodes_ok_def gens_ok_def by simp

lemma disable_loop_inv:
  "nodes_ok nr s \<Longrightarrow> \<forall>p. 1 < p \<and> p < nr \<and> p \<noteq> i \<longrightarrow> act_ok nr s p \<Longrightarrow> 0 < i \<Longrightarrow> i < 2 * nr \<Longrightarrow>
     i < nr \<longrightarrow> \<not> act s (2 * i) \<and> \<not> act s (2 * i + 1) \<Longrightarrow> disable_loop i s = (s', b) \<Longrightarrow> rcu_inv nr s' \<and> (b \<longrightarrow> gens_ok nr s' 1)"
proof (induction i arbitrary: s rule: less_induct)
  case (less i)
  show ?case
  proof (cases "1 < i")
    case i: True
    let ?s = "upd_node i (\<lambda>n. n\<lparr>active := False\<rparr>) s" and ?p = "i div 2"
    note n = nodes_ok_lower[OF less.prems(1), of i]
    have p: "0 < ?p" "?p < i" "?p < nr" using i less.prems(4) by linarith+
    have oki: "act_ok nr ?s i" if "i < nr" using that less.prems(5) i by (auto simp: act_ok_def)
    have ok: "act_ok nr ?s q" if "1 < q" "q < nr" "q \<noteq> ?p" for q
      using oki act_ok_other[of q i nr _ s] less.prems(2) that by (cases "q = i") auto
    consider "\<not> act s i" | "act s i" "act s (i XOR 1)" | "act s i" "\<not> act s (i XOR 1)" by blast
    then show ?thesis
    proof cases
      case 1
      then have "act_ok nr s i" if "i < nr" using less.prems(5) that by (simp add: act_ok_def)
      then show ?thesis using 1 less.prems i by (auto simp: disable_loop_step(2) rcu_inv_def)
    next
      case 2
      have "act_ok nr ?s ?p" if "1 < ?p" using less.prems(2) act_ok_pair[OF i, of nr s] act_ok_pair[OF i, of nr ?s] 2 buddy_other[of i] p that by simp
      then have "rcu_inv nr ?s" using n ok unfolding rcu_inv_def by metis
      then show ?thesis using 2 less.prems i by (simp add: disable_loop_step(2))
    next
      case 3
      have "\<not> act ?s (2 * ?p) \<and> \<not> act ?s (2 * ?p + 1)" using node_parent[OF i] 3 by auto
      moreover have "disable_loop ?p ?s = (s', b)" using less.prems(6) 3 i by (simp add: disable_loop_step(2))
      ultimately show ?thesis using less.IH[of ?p ?s] n ok p less.prems(4) by simp
    qed
  next
    case False
    then have "i = 1" using less.prems(3) by linarith
    then show ?thesis using less.prems by (auto simp: disable_loop_step(1) rcu_inv_def gens_ok_def)
  qed
qed

section \<open>Operations of a processor\<close>

fun op_cpu :: "rcu_op \<Rightarrow> cpu option" where
  "op_cpu (Call h f) = None"
| "op_cpu (Quiesce c) = Some c"
| "op_cpu (Enable c) = Some c"
| "op_cpu (Disable c) = Some c"
| "op_cpu (Dispatch c) = Some c"

definition cpus_ok :: "nat \<Rightarrow> rcu_op list \<Rightarrow> bool" where
  "cpus_ok nr xs \<longleftrightarrow> (\<forall>x \<in> set xs. \<forall>c. op_cpu x = Some c \<longrightarrow> c < nr)"

lemma cpus_ok_simps [simp]: "cpus_ok nr []" "cpus_ok nr (x # xs) \<longleftrightarrow> (\<forall>c. op_cpu x = Some c \<longrightarrow> c < nr) \<and> cpus_ok nr xs"
  "cpus_ok nr (xs @ ys) \<longleftrightarrow> cpus_ok nr xs \<and> cpus_ok nr ys"
  by (auto simp: cpus_ok_def)

lemma rcu_run_append: "rcu_run nr (xs @ ys) s = Option.bind (rcu_run nr xs s) (rcu_run nr ys)"
  by (induction xs arbitrary: s) (auto split: bind_splits)

text \<open>The part of an operation before the generation ends: the loop over the tree.\<close>

fun climb :: "nat \<Rightarrow> rcu_op \<Rightarrow> rcu \<Rightarrow> (rcu \<times> bool) option" where
  "climb nr (Quiesce c) s = Some (quiesce_loop (cur s) (nr + c) s)"
| "climb nr (Enable c) s = Some (enable_loop (cur s) (nr + c) s)"
| "climb nr (Disable c) s = Some (disable_loop (nr + c) s)"
| "climb nr _ s = None"

lemma climb_step:
  assumes "climb nr x s = Some (s1, b)" "op_cpu x = Some c"
  shows "rcu_step nr x s = (if b then rcu_begin_next_generation c (cur s) s1 else Some s1)"
  using assms by (cases x) (auto simp: rcu_quiesce_def rcu_enable_def rcu_disable_def Let_def)

lemma climb_inv:
  assumes "rcu_inv nr s" "climb nr x s = Some (s1, b)" "op_cpu x = Some c" "c < nr"
  shows "rcu_inv nr s1" "b \<Longrightarrow> all_current nr s1" "framed (nr + c) s s1"
proof -
  have g: "gens_ok nr s (nr + c)" by (simp add: gens_ok_def)
  have "rcu_inv nr s1 \<and> (b \<longrightarrow> gens_ok nr s1 1) \<and> framed (nr + c) s s1"
    using assms g quiesce_loop_inv[of nr s "nr + c" "cur s" s1 b] enable_loop_inv[of nr s "nr + c" "cur s" s1 b] disable_loop_inv[of nr s "nr + c" s1 b]
      quiesce_loop_frame[of "cur s" "nr + c" s s1 b] enable_loop_frame[of "cur s" "nr + c" s s1 b] disable_loop_frame[of "nr + c" s s1 b]
    by (cases x) (auto simp: rcu_inv_def)
  then show "rcu_inv nr s1" "b \<Longrightarrow> all_current nr s1" "framed (nr + c) s s1" using all_current_from_root by auto
qed

lemma next_generation:
  assumes "rcu_begin_next_generation c (cur s) s = Some s'"
  shows "cur s' = cur s + 1" "rcu_segtree s' = rcu_segtree s" "rcu_heads s' = rcu_heads s" "called s' = called s"
    "callback_list s' = (callback_list s)(cur s AND 3 := 0)" "\<And>d. rcu_cb_dispatch_ptr s' d = rcu_cb_dispatch_ptr s d \<or> rcu_cb_dispatch_ptr s' d = callback_list s (cur s AND 3)"
  using assms by (auto simp: rcu_begin_next_generation_def dispatch_callbacks_def Let_def split: if_splits)

lemma next_generation_inv: "rcu_inv nr s \<Longrightarrow> all_current nr s \<Longrightarrow> rcu_begin_next_generation c (cur s) s = Some s' \<Longrightarrow> rcu_inv nr s'"
  using next_generation[of c s s'] by (auto simp: rcu_inv_def nodes_ok_def all_current_def act_ok_def gens_ok_def)

lemma run_callbacks_frame: "run_callbacks h s = Some s' \<Longrightarrow> rcu_segtree s' = rcu_segtree s \<and> cur s' = cur s \<and> rcu_heads s' = rcu_heads s"
  by (induction rule: run_callbacks.raw_induct[rotated 1, consumes 1]) (auto split: if_splits)

text \<open>No operation writes the link of a callback, so it stays null when it was null at first.\<close>

definition unlinked_heads :: "rcu \<Rightarrow> bool" where "unlinked_heads s \<longleftrightarrow> (\<forall>a. rcu_next (rcu_heads s a) = 0)"

lemma run_callbacks_unlinked: "unlinked_heads s \<Longrightarrow> run_callbacks h s = Some (if h = 0 then s else s\<lparr>called := called s @ [h]\<rparr>)"
  by (subst run_callbacks.simps, subst run_callbacks.simps) (simp add: unlinked_heads_def)

lemma rcu_op_cases:
  assumes "rcu_step nr x s = Some s'"
  obtains (call) h f where "x = Call h f" "s' = rcu_call h f s"
  | (dispatch) c where "x = Dispatch c" "rcu_dispatch_dpc_func c s = Some s'"
  | (stays) c s1 where "op_cpu x = Some c" "climb nr x s = Some (s1, False)" "s' = s1"
  | (advances) c s1 where "op_cpu x = Some c" "climb nr x s = Some (s1, True)" "rcu_begin_next_generation c (cur s) s1 = Some s'"
proof (cases "climb nr x s")
  case None
  then show ?thesis using assms that(1,2) by (cases x) auto
next
  case (Some r)
  obtain s1 b where r: "r = (s1, b)" by fastforce
  obtain c where c: "op_cpu x = Some c" using Some by (cases x) auto
  then show ?thesis using that(3,4) climb_step[OF Some[unfolded r] c] assms Some r by (cases b) auto
qed

lemma rcu_inv_frame: "rcu_segtree s' = rcu_segtree s \<Longrightarrow> cur s' = cur s \<Longrightarrow> rcu_inv nr s' = rcu_inv nr s"
  by (simp add: rcu_inv_def nodes_ok_def act_ok_def gens_ok_def)

lemma dispatch_frame:
  assumes "rcu_dispatch_dpc_func c s = Some s'"
  shows "rcu_segtree s' = rcu_segtree s" "cur s' = cur s" "rcu_heads s' = rcu_heads s"
  using run_callbacks_frame[OF assms[unfolded rcu_dispatch_dpc_func_def]] by simp_all

lemma dispatch_unlinked:
  assumes "rcu_dispatch_dpc_func c s = Some s'" "unlinked_heads s"
  shows "callback_list s' = callback_list s" "rcu_cb_dispatch_ptr s' = (rcu_cb_dispatch_ptr s)(c := 0)"
    "set (called s') \<subseteq> set (called s) \<union> {rcu_cb_dispatch_ptr s c}"
  using assms run_callbacks_unlinked[of "s\<lparr>rcu_cb_dispatch_ptr := (rcu_cb_dispatch_ptr s)(c := 0)\<rparr>" "rcu_cb_dispatch_ptr s c"]
  by (auto simp: rcu_dispatch_dpc_func_def unlinked_heads_def split: if_splits)

lemma rcu_call_simps [simp]:
  "rcu_segtree (rcu_call h f s) = rcu_segtree s" "cur (rcu_call h f s) = cur s" "called (rcu_call h f s) = called s"
  "rcu_cb_dispatch_ptr (rcu_call h f s) = rcu_cb_dispatch_ptr s" "callback_list (rcu_call h f s) = (callback_list s)((cur s + 1) AND 3 := h)"
  "rcu_next (rcu_heads (rcu_call h f s) a) = rcu_next (rcu_heads s a)"
  by (simp_all add: rcu_call_def Let_def)

lemma framed_lists: "framed i s s' \<Longrightarrow> cur s' = cur s \<and> callback_list s' = callback_list s \<and> rcu_heads s' = rcu_heads s \<and>
     rcu_cb_dispatch_ptr s' = rcu_cb_dispatch_ptr s \<and> called s' = called s"
  by (simp add: framed_def same_lists_def)

lemma rcu_step_inv:
  assumes "rcu_inv nr s" "rcu_step nr x s = Some s'" "\<forall>c. op_cpu x = Some c \<longrightarrow> c < nr"
  shows "rcu_inv nr s'" "unlinked_heads s \<Longrightarrow> unlinked_heads s'"
proof -
  from assms(2) have "rcu_inv nr s' \<and> (\<forall>a. rcu_next (rcu_heads s' a) = rcu_next (rcu_heads s a))"
  proof (cases rule: rcu_op_cases)
    case (call h f)
    then show ?thesis using assms(1) rcu_inv_frame[of s' s] by simp
  next
    case (dispatch c)
    then show ?thesis using assms(1) rcu_inv_frame[of s' s] dispatch_frame[OF dispatch(2)] by simp
  next
    case (stays c s1)
    then show ?thesis using climb_inv[OF assms(1) stays(2,1)] assms(3) framed_lists by auto
  next
    case (advances c s1)
    note k = climb_inv[OF assms(1) advances(2,1)]
    have "c < nr" "cur s1 = cur s" "rcu_heads s1 = rcu_heads s" using advances assms(3) k(3) framed_lists by auto
    then show ?thesis using next_generation_inv[of nr s1 c s'] next_generation(3)[of c s1 s'] k advances(3) by simp
  qed
  then show "rcu_inv nr s'" "unlinked_heads s \<Longrightarrow> unlinked_heads s'" by (simp_all add: unlinked_heads_def)
qed

section \<open>Grace periods\<close>

lemma div_pow_le: "0 < k \<Longrightarrow> i div 2 ^ k \<le> i div 2" for i :: nat
  by (cases k) (simp_all add: div_mult2_eq)

lemma leaf_off_path: "c \<noteq> d \<Longrightarrow> c < nr \<Longrightarrow> d < nr \<Longrightarrow> off_path (nr + d) (nr + c)"
  unfolding off_path_def
proof (intro allI)
  fix k assume "c \<noteq> d" "c < nr" "d < nr"
  then show "(nr + d) div 2 ^ k \<noteq> nr + c" using div_pow_le[of k "nr + d"] by (cases "k = 0") auto
qed

text \<open>A processor that does not pass a quiescent state keeps its leaf as it is.\<close>

lemma leaf_kept:
  assumes "climb nr x s = Some (s1, b)" "op_cpu x = Some d" "framed (nr + d) s s1" "act s (nr + c)" "c < nr" "d < nr" "2 \<le> nr" "x \<noteq> Quiesce c" "x \<noteq> Disable c"
  shows "rcu_segtree s1 (nr + c) = rcu_segtree s (nr + c)"
proof (cases "d = c")
  case True
  then have "x = Enable c" using assms by (cases x) auto
  then show ?thesis using assms(1,4,7) enable_loop_step(2)[of "nr + c" "cur s" s] by auto
next
  case False
  then show ?thesis using assms(3) leaf_off_path[of c d nr] assms(5,6) by (simp add: framed_def)
qed

lemma next_list_other: "(g + 1) AND 3 \<noteq> g AND 3" for g :: u64
proof
  assume "(g + 1) AND 3 = g AND 3"
  then have "even ((g + 1) AND 3) = even (g AND 3)" by simp
  then show False by (simp add: even_and_iff)
qed

definition waits_for :: "nat \<Rightarrow> cpu \<Rightarrow> nat \<Rightarrow> u64 \<Rightarrow> rcu \<Rightarrow> bool" where
  "waits_for nr c h g s \<longleftrightarrow> rcu_inv nr s \<and> unlinked_heads s \<and> act s (nr + c) \<and>
     (cur s = g \<and> callback_list s (g AND 3) \<noteq> h \<or> cur s = g + 1 \<and> gen_of s (nr + c) = g) \<and>
     (\<forall>d. rcu_cb_dispatch_ptr s d \<noteq> h) \<and> h \<notin> set (called s)"

lemma waits_for_step:
  assumes "waits_for nr c h g s" "rcu_step nr x s = Some s'" "\<forall>d. op_cpu x = Some d \<longrightarrow> d < nr" "c < nr" "2 \<le> nr" "h \<noteq> 0" "x \<noteq> Quiesce c" "x \<noteq> Disable c"
  shows "waits_for nr c h g s'"
proof -
  note w = assms(1)[unfolded waits_for_def]
  have inv: "rcu_inv nr s'" "unlinked_heads s'" using rcu_step_inv[OF _ assms(2,3)] w by auto
  from assms(2) show ?thesis
  proof (cases rule: rcu_op_cases)
    case (call h' f)
    then show ?thesis using w inv next_list_other[of g] by (auto simp: waits_for_def)
  next
    case (dispatch d)
    then show ?thesis using w inv dispatch_frame[OF dispatch(2)] dispatch_unlinked[OF dispatch(2)] assms(6) by (auto simp: waits_for_def)
  next
    case (stays d s1)
    note k = climb_inv[OF _ stays(2,1)]
    have d: "d < nr" using stays assms(3) by simp
    note f = framed_lists[OF k(3)] leaf_kept[OF stays(2,1) k(3) _ assms(4) d assms(5,7,8)]
    show ?thesis using w inv d f stays(3) by (simp add: waits_for_def)
  next
    case (advances d s1)
    note k = climb_inv[OF _ advances(2,1)]
    have d: "d < nr" using advances assms(3) by simp
    have f: "cur s1 = cur s" "callback_list s1 = callback_list s" "rcu_cb_dispatch_ptr s1 = rcu_cb_dispatch_ptr s" "called s1 = called s"
      "rcu_segtree s1 (nr + c) = rcu_segtree s (nr + c)"
      using framed_lists[OF k(3)] leaf_kept[OF advances(2,1) k(3) _ assms(4) d assms(5,7,8)] w d by auto
    note n = next_generation[OF advances(3)[folded f(1)]]
    have "all_current nr s1" using k(2) w d by simp
    then have "act s1 (nr + c) \<longrightarrow> gen_of s1 (nr + c) = cur s1" unfolding all_current_def using assms(4,5) by simp
    then have "gen_of s (nr + c) = cur s" using w f by simp
    then show ?thesis using w inv n f by (auto simp: waits_for_def) metis+
  qed
qed

end
