(* ===== verification/Kernel_Rcu_Props.thy ===== *)
theory Kernel_Rcu_Props
  imports Kernel_Rcu
begin

text \<open>
  The properties of RCU: a callback is called only after every processor that was active when it was
  registered has passed a quiescent state, a second callback of a generation drops the first, and a
  processor that becomes idle at the wrong moment stops the generations.
\<close>

section \<open>Callbacks\<close>

definition absent :: "nat \<Rightarrow> rcu \<Rightarrow> bool" where
  "absent h s \<longleftrightarrow> (\<forall>k. callback_list s k \<noteq> h) \<and> (\<forall>d. rcu_cb_dispatch_ptr s d \<noteq> h) \<and> h \<notin> set (called s)"

definition not_called :: "nat \<Rightarrow> rcu_op list \<Rightarrow> bool" where
  "not_called h xs \<longleftrightarrow> (\<forall>f. Call h f \<notin> set xs)"

lemma not_called_simps [simp]: "not_called h []" "not_called h (x # xs) \<longleftrightarrow> (\<forall>f. x \<noteq> Call h f) \<and> not_called h xs"
  by (auto simp: not_called_def)

lemma absent_step:
  assumes "absent h s" "rcu_inv nr s" "unlinked_heads s" "h \<noteq> 0" "rcu_step nr x s = Some s'" "\<forall>c. op_cpu x = Some c \<longrightarrow> c < nr" "\<forall>f. x \<noteq> Call h f"
  shows "absent h s'"
  using assms(5)
proof (cases rule: rcu_op_cases)
  case (call h' f)
  then show ?thesis using assms(1,7) by (auto simp: absent_def)
next
  case (dispatch d)
  then show ?thesis using assms(1,4) dispatch_unlinked[OF dispatch(2) assms(3)] by (auto simp: absent_def)
next
  case (stays d s1)
  then show ?thesis using assms(1,6) framed_lists[OF climb_inv(3)[OF assms(2) stays(2,1)]] by (simp add: absent_def)
next
  case (advances d s1)
  have "d < nr" using assms(6) advances by simp
  then have f: "cur s1 = cur s" "callback_list s1 = callback_list s" "rcu_cb_dispatch_ptr s1 = rcu_cb_dispatch_ptr s" "called s1 = called s"
    using framed_lists[OF climb_inv(3)[OF assms(2) advances(2,1)]] by auto
  note n = next_generation[OF advances(3)[folded f(1)]]
  have "rcu_cb_dispatch_ptr s' e \<noteq> h" for e using n(6)[of e] f assms(1) by (auto simp: absent_def)
  then show ?thesis using assms(1,4) n f by (simp add: absent_def)
qed

lemma rcu_run_inv:
  "rcu_inv nr s \<Longrightarrow> unlinked_heads s \<Longrightarrow> cpus_ok nr xs \<Longrightarrow> rcu_run nr xs s = Some s' \<Longrightarrow> rcu_inv nr s' \<and> unlinked_heads s'"
proof (induction xs arbitrary: s)
  case (Cons x xs)
  then obtain s1 where 1: "rcu_step nr x s = Some s1" "rcu_run nr xs s1 = Some s'" by auto
  then show ?case using Cons.IH[of s1] rcu_step_inv[OF Cons.prems(1) 1(1)] Cons.prems by simp
qed simp

lemma rcu_run_absent:
  "rcu_inv nr s \<Longrightarrow> unlinked_heads s \<Longrightarrow> cpus_ok nr xs \<Longrightarrow> absent h s \<Longrightarrow> h \<noteq> 0 \<Longrightarrow> not_called h xs \<Longrightarrow> rcu_run nr xs s = Some s' \<Longrightarrow> absent h s'"
proof (induction xs arbitrary: s)
  case (Cons x xs)
  then obtain s1 where 1: "rcu_step nr x s = Some s1" "rcu_run nr xs s1 = Some s'" by auto
  then show ?case using Cons.IH[of s1] rcu_step_inv[OF Cons.prems(1) 1(1)] absent_step[OF Cons.prems(4,1,2,5) 1(1)] Cons.prems by simp
qed simp

lemma rcu_run_waits:
  "waits_for nr c h g s \<Longrightarrow> cpus_ok nr xs \<Longrightarrow> c < nr \<Longrightarrow> 2 \<le> nr \<Longrightarrow> h \<noteq> 0 \<Longrightarrow> Quiesce c \<notin> set xs \<Longrightarrow> Disable c \<notin> set xs \<Longrightarrow>
     rcu_run nr xs s = Some s' \<Longrightarrow> waits_for nr c h g s'"
proof (induction xs arbitrary: s)
  case (Cons x xs)
  then obtain s1 where 1: "rcu_step nr x s = Some s1" "rcu_run nr xs s1 = Some s'" by auto
  then show ?case using Cons.IH[of s1] waits_for_step[OF Cons.prems(1) 1(1) _ Cons.prems(3,4,5)] Cons.prems by auto
qed simp

lemma rcu_boot_ok: "rcu_inv nr (rcu_boot heads)" "h \<noteq> 0 \<Longrightarrow> absent h (rcu_boot heads)" "(\<forall>a. rcu_next (heads a) = 0) \<Longrightarrow> unlinked_heads (rcu_boot heads)"
  by (simp_all add: rcu_inv_def nodes_ok_def act_ok_def absent_def unlinked_heads_def rcu_boot_def)

section \<open>Stalls\<close>

text \<open>Only an active processor reports quiescent states.\<close>

fun quiesces_active :: "nat \<Rightarrow> rcu_op list \<Rightarrow> rcu \<Rightarrow> bool" where
  "quiesces_active nr [] s = True"
| "quiesces_active nr (x # xs) s = ((case x of Quiesce c \<Rightarrow> act s (nr + c) | _ \<Rightarrow> True) \<and>
     (case rcu_step nr x s of None \<Rightarrow> True | Some s' \<Rightarrow> quiesces_active nr xs s'))"

text \<open>
  Two processors with a common parent have no quiescent state to report for the current
  generation, but their parent has not got it.
\<close>

definition stalled :: "nat \<Rightarrow> cpu \<Rightarrow> cpu \<Rightarrow> rcu \<Rightarrow> bool" where
  "stalled nr c d s \<longleftrightarrow> act s (nr + c) \<and> gen_of s (nr + c) = cur s \<and> (act s (nr + d) \<longrightarrow> gen_of s (nr + d) = cur s) \<and>
     gen_of s ((nr + c) div 2) \<noteq> cur s"

lemma parent_off_path:
  assumes "nr + d = (nr + c) XOR 1" "e \<noteq> c" "e \<noteq> d" "1 < nr + c" "e < nr" "c < nr"
  shows "off_path (nr + e) ((nr + c) div 2)"
  unfolding off_path_def
proof
  fix k :: nat
  let ?p = "(nr + c) div 2"
  have p: "nr \<le> 2 * ?p" "?p < nr" "{nr + c, nr + d} = {2 * ?p, 2 * ?p + 1}" using node_parent[OF assms(4)] assms(1,6) by auto
  consider "k = 0" | "k = 1" | "2 \<le> k" by linarith
  then show "(nr + e) div 2 ^ k \<noteq> ?p"
  proof cases
    case 2
    have "nr + e \<noteq> 2 * ?p" "nr + e \<noteq> 2 * ?p + 1" using p(3) assms(2,3) by (auto simp: doubleton_eq_iff)
    then show ?thesis using 2 by auto
  next
    case 3
    have "(2 :: nat) ^ 2 \<le> 2 ^ k" using 3 by (intro power_increasing) simp_all
    then have "(nr + e) div 2 ^ k \<le> (nr + e) div 2 ^ 2" by (intro div_le_mono2) simp_all
    moreover have "(nr + e) div 4 < ?p" using p(1) assms(5) by linarith
    ultimately show ?thesis by simp
  qed (use p assms in simp)
qed

lemma stalled_pair:
  assumes "stalled nr c d s" "nr + d = (nr + c) XOR 1" "1 < nr + c" "c < nr" "climb nr x s = Some (s1, b)" "op_cpu x = Some e" "e = c \<or> e = d"
    and "x \<noteq> Disable c" "\<forall>a. x = Quiesce a \<longrightarrow> act s (nr + a)"
  shows "\<not> b \<and> stalled nr c d s1 \<and> cur s1 = cur s"
proof -
  have xx: "(nr + d) XOR 1 = nr + c" "1 < nr + d" "nr + d \<noteq> nr + c" "(nr + c) div 2 \<noteq> nr + d"
    using node_parent[OF assms(3)] assms(2,4) by (auto simp: xor_Suc_0_eq)
  show ?thesis
  proof (cases x)
    case (Quiesce a)
    then have "gen_of s (nr + a) = cur s" using assms by (auto simp: stalled_def)
    then show ?thesis using assms(1,3,5,6,7) xx(2) Quiesce by (auto simp: quiesce_loop_step(2))
  next
    case (Enable a)
    then show ?thesis using assms xx by (cases "act s (nr + a)") (auto simp: enable_loop_step(2) stalled_def)
  next
    case (Disable a)
    then show ?thesis using assms xx by (cases "act s (nr + a)") (auto simp: disable_loop_step(2) stalled_def)
  qed (use assms(5) in auto)
qed

lemma stalled_step:
  assumes "stalled nr c d s" "rcu_inv nr s" "nr + d = (nr + c) XOR 1" "1 < (nr + c) div 2" "c < nr" "d < nr" "rcu_step nr x s = Some s'"
    and "\<forall>e. op_cpu x = Some e \<longrightarrow> e < nr" "x \<noteq> Disable c" "\<forall>a. x = Quiesce a \<longrightarrow> act s (nr + a)"
  shows "stalled nr c d s' \<and> cur s' = cur s"
proof -
  have nc: "1 < nr + c" using assms(4) by linarith
  have other: "stalled nr c d s1 \<and> \<not> b" if "climb nr x s = Some (s1, b)" "op_cpu x = Some e" "e \<noteq> c" "e \<noteq> d" for s1 b e
  proof -
    have e: "e < nr" using that assms(8) by simp
    note k = climb_inv[OF assms(2) that(1,2) e]
    have l: "rcu_segtree s1 (nr + c) = rcu_segtree s (nr + c)" "rcu_segtree s1 (nr + d) = rcu_segtree s (nr + d)"
      "rcu_segtree s1 ((nr + c) div 2) = rcu_segtree s ((nr + c) div 2)" "cur s1 = cur s"
      using k(3) leaf_off_path[of c e nr] leaf_off_path[of d e nr] parent_off_path[OF assms(3) that(3,4) nc e assms(5)] that e assms(5,6)
      by (auto simp: framed_def same_lists_def)
    have st: "stalled nr c d s1" using assms(1) l by (simp add: stalled_def)
    have "act s1 ((nr + c) div 2)" using k(1) act_ok_pair[OF nc, of nr s1] assms(4,5) st by (auto simp: rcu_inv_def stalled_def)
    then have "\<not> all_current nr s1" using st assms(4,5) unfolding all_current_def stalled_def by force
    then show ?thesis using st k(2) by blast
  qed
  from assms(7) show ?thesis
  proof (cases rule: rcu_op_cases)
    case (call h f)
    then show ?thesis using assms(1) by (simp add: stalled_def)
  next
    case (dispatch e)
    then show ?thesis using assms(1) dispatch_frame[OF dispatch(2)] by (simp add: stalled_def)
  next
    case (stays e s1)
    note k = climb_inv(3)[OF assms(2) stays(2,1)]
    show ?thesis
    proof (cases "e = c \<or> e = d")
      case True
      then show ?thesis using stalled_pair[OF assms(1,3) nc assms(5) stays(2,1) True assms(9,10)] stays(3) by simp
    next
      case False
      then show ?thesis using other[OF stays(2,1)] stays(1,3) assms(8) framed_lists[OF k] by simp
    qed
  next
    case (advances e s1)
    then show ?thesis using stalled_pair[OF assms(1,3) nc assms(5) advances(2,1) _ assms(9,10)] other[OF advances(2,1)] by blast
  qed
qed

lemma stalled_run:
  "stalled nr c d s \<Longrightarrow> rcu_inv nr s \<Longrightarrow> nr + d = (nr + c) XOR 1 \<Longrightarrow> 1 < (nr + c) div 2 \<Longrightarrow> c < nr \<Longrightarrow> d < nr \<Longrightarrow> cpus_ok nr xs \<Longrightarrow>
     Disable c \<notin> set xs \<Longrightarrow> quiesces_active nr xs s \<Longrightarrow> rcu_run nr xs s = Some s' \<Longrightarrow> cur s' = cur s"
proof (induction xs arbitrary: s)
  case (Cons x xs)
  then obtain s1 where 1: "rcu_step nr x s = Some s1" "rcu_run nr xs s1 = Some s'" by auto
  have q: "\<forall>a. x = Quiesce a \<longrightarrow> act s (nr + a)" "quiesces_active nr xs s1" using Cons.prems(9) 1(1) by auto
  have "stalled nr c d s1 \<and> cur s1 = cur s" using stalled_step[OF Cons.prems(1-6) 1(1) _ _ q(1)] Cons.prems(7,8) by auto
  moreover have "rcu_inv nr s1" using rcu_step_inv(1)[OF Cons.prems(2) 1(1)] Cons.prems by simp
  ultimately show ?case using Cons.IH[of s1] Cons.prems q(2) 1(2) by simp
qed simp

section \<open>Sample runs\<close>

definition null_heads :: "nat \<Rightarrow> rcu_head" where "null_heads = (\<lambda>_. \<lparr>rcu_next = 0, rcu_function = 0\<rparr>)"

lemmas rcu_eval = rcu_boot_def null_heads_def rcu_quiesce_def rcu_enable_def rcu_disable_def quiesce_loop_step enable_loop_step disable_loop_step
  rcu_begin_next_generation_def dispatch_callbacks_def rcu_call_def rcu_dispatch_dpc_func_def upd_node_def Let_def

lemma null_heads: "\<forall>a. rcu_next (null_heads a) = 0"
  by (simp add: null_heads_def)

lemma two_active:
  "\<exists>s s'. rcu_run 4 [Enable 0, Enable 1] (rcu_boot null_heads) = Some s \<and> act s 5 \<and>
     rcu_run 4 [Call 7 0, Quiesce 0, Quiesce 0, Quiesce 1, Dispatch 1] s = Some s' \<and> called s' = [7]"
  by (simp add: rcu_eval run_callbacks.simps del: bind_Some_iff)

section \<open>Properties\<close>

text \<open>
  (C9) The guarantee of RCU, for operations that run one after the other, in any order: from boot on, a callback
  that has not been registered before is called only after every processor that was active when it was
  registered has reported a quiescent state or has become idle. The links of all callback structures are null at
  first: no operation writes them, so a link left in memory would make another callback run along with the one registered.
  That the operations of different processors do not overlap is essential, see \<^verbatim>\<open>Kernel_Rcu_Levels\<close>.
\<close>

theorem rcu_grace_period:
  assumes "\<forall>a. rcu_next (heads a) = 0" and "2 \<le> nr" and "cpus_ok nr (before @ after)" and "h \<noteq> 0" and "not_called h before"
    and "rcu_run nr before (rcu_boot heads) = Some s" and "c < nr" and "act s (nr + c)"
    and "rcu_run nr (Call h f # after) s = Some s'" and "h \<in> set (called s')"
  shows "Quiesce c \<in> set after \<or> Disable c \<in> set after"
proof (rule ccontr)
  assume n: "\<not> ?thesis"
  note b = rcu_boot_ok(1)[of nr heads] rcu_boot_ok(3)[OF assms(1)]
  have s: "rcu_inv nr s" "unlinked_heads s" "absent h s"
    using rcu_run_inv[OF b _ assms(6)] rcu_run_absent[OF b _ rcu_boot_ok(2)[OF assms(4)] assms(4,5,6)] assms(3) by simp_all
  have "waits_for nr c h (cur s) (rcu_call h f s)"
    using s assms(8) rcu_inv_frame[of "rcu_call h f s" s] next_list_other[of "cur s"] by (auto simp: waits_for_def absent_def unlinked_heads_def)
  then have "waits_for nr c h (cur s) s'" using rcu_run_waits[of nr c h "cur s" _ after s'] n assms by auto
  then show False using assms(10) by (simp add: waits_for_def)
qed

theorem rcu_grace_period_witness:
  "\<exists>s s'. rcu_run 4 [Enable 0, Enable 1] (rcu_boot null_heads) = Some s \<and> act s 5 \<and>
     rcu_run 4 [Call 7 0, Quiesce 0, Quiesce 0, Quiesce 1, Dispatch 1] s = Some s' \<and> called s' = [7] \<and>
     (Quiesce 1 \<in> set [Quiesce 0, Quiesce 0, Quiesce 1, Dispatch 1] \<or> Disable 1 \<in> set [Quiesce 0, Quiesce 0, Quiesce 1, Dispatch 1])"
proof -
  obtain s s' where s: "rcu_run 4 [Enable 0, Enable 1] (rcu_boot null_heads) = Some s" "act s 5"
    "rcu_run 4 [Call 7 0, Quiesce 0, Quiesce 0, Quiesce 1, Dispatch 1] s = Some s'" "called s' = [7]"
    using two_active by blast
  then show ?thesis
    using rcu_grace_period[OF null_heads, of 4 "[Enable 0, Enable 1]" "[Quiesce 0, Quiesce 0, Quiesce 1, Dispatch 1]" 7 s 1 0 s'] by auto
qed

text \<open>
  A generation keeps only one callback: registering a second one before the generation ends drops the
  first, because its link is never written. Whatever follows, the first callback is not called.
\<close>

theorem rcu_call_drops:
  assumes "\<forall>a. rcu_next (heads a) = 0" and "cpus_ok nr (before @ after)" and "h \<noteq> 0" and "h' \<noteq> h" and "not_called h (before @ after)"
    and "rcu_run nr (before @ [Call h f, Call h' f'] @ after) (rcu_boot heads) = Some s'"
  shows "h \<notin> set (called s')"
proof -
  note b = rcu_boot_ok(1)[of nr heads] rcu_boot_ok(3)[OF assms(1)]
  obtain s where s: "rcu_run nr before (rcu_boot heads) = Some s" "rcu_run nr after (rcu_call h' f' (rcu_call h f s)) = Some s'"
    using assms(6) unfolding rcu_run_append by auto
  have k: "rcu_inv nr s" "unlinked_heads s" "absent h s" "cpus_ok nr after" "not_called h after"
    using rcu_run_inv[OF b _ s(1)] rcu_run_absent[OF b _ rcu_boot_ok(2)[OF assms(3)] assms(3) _ s(1)] assms(2,5) by (simp_all add: not_called_def)
  let ?s = "rcu_call h' f' (rcu_call h f s)"
  have "rcu_inv nr ?s" "unlinked_heads ?s" "absent h ?s"
    using k rcu_inv_frame[of ?s s] assms(4) by (auto simp: unlinked_heads_def absent_def)
  then have "absent h s'" using rcu_run_absent[OF _ _ k(4) _ assms(3) k(5) s(2)] by blast
  then show ?thesis by (simp add: absent_def)
qed

lemma two_callbacks:
  "\<exists>s'. rcu_run 4 ([Enable 0, Enable 1] @ [Call 7 0, Call 8 0] @ [Quiesce 0, Quiesce 0, Quiesce 1, Dispatch 1]) (rcu_boot null_heads) = Some s' \<and> called s' = [8]"
  by (simp add: rcu_eval run_callbacks.simps del: bind_Some_iff)

theorem rcu_call_drops_witness:
  "\<exists>s'. rcu_run 4 ([Enable 0, Enable 1] @ [Call 7 0, Call 8 0] @ [Quiesce 0, Quiesce 0, Quiesce 1, Dispatch 1]) (rcu_boot null_heads) = Some s' \<and>
     called s' = [8] \<and> 7 \<notin> set (called s')"
proof -
  obtain s' where s: "rcu_run 4 ([Enable 0, Enable 1] @ [Call 7 0, Call 8 0] @ [Quiesce 0, Quiesce 0, Quiesce 1, Dispatch 1]) (rcu_boot null_heads) = Some s'"
    "called s' = [8]" using two_callbacks by blast
  then show ?thesis using rcu_call_drops[OF null_heads _ _ _ _ s(1)] by (auto simp: not_called_def)
qed

lemma disable_stalls:
  assumes "rcu_inv nr s" "nr + d = (nr + c) XOR 1" "1 < (nr + c) div 2" "c < nr" "act s (nr + c)" "gen_of s (nr + c) = cur s" "act s (nr + d)" "gen_of s (nr + d) \<noteq> cur s"
    and "rcu_disable nr d s = Some s'"
  shows "stalled nr c d s' \<and> cur s' = cur s"
proof -
  have nc: "1 < nr + c" using assms(3) by linarith
  have x: "1 < nr + d" "(nr + d) XOR 1 = nr + c" "nr + d \<noteq> nr + c" "(nr + c) div 2 \<noteq> nr + d" using node_parent[OF nc] assms(2,4) by (auto simp: xor_Suc_0_eq)
  have p: "act s ((nr + c) div 2)" using assms(1,3,4,5) act_ok_pair[OF nc, of nr s] by (auto simp: rcu_inv_def)
  have "\<not> gens_ok nr s ((nr + c) div 2)" using gens_ok_pair[of "nr + c" nr s] nc assms(2,4,7,8) by simp
  then have "gen_of s ((nr + c) div 2) \<noteq> cur s" using assms(1,3,4) p by (auto simp: rcu_inv_def nodes_ok_def)
  moreover have "s' = upd_node (nr + d) (\<lambda>n. n\<lparr>active := False\<rparr>) s"
    using assms(5,7,9) x by (simp add: rcu_disable_def disable_loop_step(2))
  ultimately show ?thesis using assms(5,6) x(3,4) by (simp add: stalled_def)
qed

text \<open>
  (C40) Generations stop: two neighbouring processors, not directly below the root, are active, the first has reported a quiescent
  state of the current generation and the second has not. When the second one then becomes idle, nobody carries the report to their
  parent. As long as the first processor does not become idle itself, no sequence of operations of any processors that run one after
  the other, with quiescent states reported by active processors only, starts another generation.
\<close>

theorem rcu_generation_stalls:
  assumes "\<forall>a. rcu_next (heads a) = 0" and "cpus_ok nr (before @ Disable d # after)" and "rcu_run nr before (rcu_boot heads) = Some s"
    and "nr + d = (nr + c) XOR 1" and "1 < (nr + c) div 2" and "c < nr"
    and "act s (nr + c)" and "gen_of s (nr + c) = global_current_generation s" and "act s (nr + d)" and "gen_of s (nr + d) \<noteq> global_current_generation s"
    and "Disable c \<notin> set after" and "quiesces_active nr (Disable d # after) s" and "rcu_run nr (Disable d # after) s = Some s'"
  shows "global_current_generation s' = global_current_generation s"
proof -
  note b = rcu_boot_ok(1)[of nr heads] rcu_boot_ok(3)[OF assms(1)]
  have inv: "rcu_inv nr s" using rcu_run_inv[OF b _ assms(3)] assms(2) by simp
  have d: "d < nr" using assms(2) by simp
  obtain s1 where s1: "rcu_disable nr d s = Some s1" "rcu_run nr after s1 = Some s'" using assms(13) by auto
  note st = disable_stalls[OF inv assms(4-10) s1(1)]
  have "rcu_inv nr s1" using rcu_step_inv[OF inv, of "Disable d" s1] s1(1) d rcu_run_inv[OF b _ assms(3)] assms(2) by simp
  moreover have "quiesces_active nr after s1" using assms(12) s1(1) by simp
  ultimately have "cur s' = cur s1" using stalled_run[OF conjunct1[OF st] _ assms(4,5,6) d _ assms(11) _ s1(2)] assms(2) by simp
  then show ?thesis using st by simp
qed

lemma one_idle:
  "\<exists>s s'. rcu_run 4 [Enable 0, Enable 1, Quiesce 0, Quiesce 0] (rcu_boot null_heads) = Some s \<and> act s 4 \<and> act s 5 \<and> gen_of s 4 = cur s \<and> gen_of s 5 \<noteq> cur s \<and>
     quiesces_active 4 [Disable 1, Quiesce 0, Enable 1, Quiesce 1, Quiesce 0] s \<and> rcu_run 4 [Disable 1, Quiesce 0, Enable 1, Quiesce 1, Quiesce 0] s = Some s'"
  by (simp add: rcu_eval del: bind_Some_iff)

theorem rcu_generation_stalls_witness:
  "\<exists>s s'. rcu_run 4 [Enable 0, Enable 1, Quiesce 0, Quiesce 0] (rcu_boot null_heads) = Some s \<and>
     rcu_run 4 [Disable 1, Quiesce 0, Enable 1, Quiesce 1, Quiesce 0] s = Some s' \<and> global_current_generation s' = global_current_generation s"
proof -
  obtain s s' where s: "rcu_run 4 [Enable 0, Enable 1, Quiesce 0, Quiesce 0] (rcu_boot null_heads) = Some s"
    "act s (4 + 0)" "gen_of s (4 + 0) = cur s" "act s (4 + 1)" "gen_of s (4 + 1) \<noteq> cur s"
    "quiesces_active 4 [Disable 1, Quiesce 0, Enable 1, Quiesce 1, Quiesce 0] s" "rcu_run 4 [Disable 1, Quiesce 0, Enable 1, Quiesce 1, Quiesce 0] s = Some s'"
    using one_idle by auto
  have "global_current_generation s' = global_current_generation s"
    by (rule rcu_generation_stalls[OF null_heads _ s(1) _ _ _ s(2-5) _ s(6,7)]) simp_all
  then show ?thesis using s by blast
qed

end
