(* ===== verification/Kernel_Rcu_Levels.thy ===== *)
theory Kernel_Rcu_Levels
  imports Kernel_Rcu_Props
begin

text \<open>
  The operations of RCU with the steps the source makes atomic: one level of the tree under the lock of the parent node. Each
  processor has at most one operation in progress, with the generation it has loaded and the node it has reached. A
  processor that is left alone does what the whole operations of \<^verbatim>\<open>Kernel_Rcu\<close> do; when two processors overlap, an active
  processor can be lost, and with it the guarantee of RCU.
\<close>

section \<open>Levels\<close>

datatype climb_kind = C_quiesce | C_enable | C_disable

text \<open>One iteration of the loops, and whether the operation goes on to the parent.\<close>

fun level :: "climb_kind \<Rightarrow> u64 \<Rightarrow> nat \<Rightarrow> rcu \<Rightarrow> rcu \<times> bool" where
  "level C_quiesce g i s = (
     if generation (rcu_segtree s i) = g then (s, False)
     else
       let s = upd_node i (\<lambda>n. n\<lparr>generation := g\<rparr>) s; buddy = i XOR 1;
           buddy_active = active (rcu_segtree s buddy); buddy_gen = generation (rcu_segtree s buddy)
       in (s, \<not> (buddy_active \<and> buddy_gen \<noteq> g)))"
| "level C_enable g i s = (
     if active (rcu_segtree s i) then (s, False)
     else let s = upd_node i (\<lambda>n. n\<lparr>generation := g, active := True\<rparr>) s in (s, \<not> active (rcu_segtree s (i XOR 1))))"
| "level C_disable g i s = (
     if \<not> active (rcu_segtree s i) then (s, False)
     else let s = upd_node i (\<lambda>n. n\<lparr>active := False\<rparr>) s in (s, \<not> active (rcu_segtree s (i XOR 1))))"

record rcu_climb =
  climb_kind :: climb_kind
  climb_index :: nat
  climb_generation :: u64

datatype level_event = Begin rcu_op | Level cpu

type_synonym level_state = "rcu \<times> (cpu \<Rightarrow> rcu_climb option)"

definition begin_climb :: "nat \<Rightarrow> climb_kind \<Rightarrow> cpu \<Rightarrow> level_state \<Rightarrow> level_state option" where
  "begin_climb nr k c = (\<lambda>(s, climbs). case climbs c of
     Some _ \<Rightarrow> None
   | None \<Rightarrow> Some (s, climbs(c \<mapsto> \<lparr>climb_kind = k, climb_index = nr + c, climb_generation = global_current_generation s\<rparr>)))"

fun level_step :: "nat \<Rightarrow> level_event \<Rightarrow> level_state \<Rightarrow> level_state option" where
  "level_step nr (Begin (Quiesce c)) t = begin_climb nr C_quiesce c t"
| "level_step nr (Begin (Enable c)) t = begin_climb nr C_enable c t"
| "level_step nr (Begin (Disable c)) t = begin_climb nr C_disable c t"
| "level_step nr (Begin x) (s, climbs) = map_option (\<lambda>s. (s, climbs)) (rcu_step nr x s)"
| "level_step nr (Level c) (s, climbs) = (case climbs c of
     None \<Rightarrow> None
   | Some k \<Rightarrow>
       if climb_index k > 1 then
         let (s, up) = level (climb_kind k) (climb_generation k) (climb_index k) s
         in Some (s, climbs(c := if up then Some (k\<lparr>climb_index := drop_bit 1 (climb_index k)\<rparr>) else None))
       else map_option (\<lambda>s. (s, climbs(c := None))) (rcu_begin_next_generation c (climb_generation k) s))"

fun level_run :: "nat \<Rightarrow> level_event list \<Rightarrow> level_state \<Rightarrow> level_state option" where
  "level_run nr [] t = Some t"
| "level_run nr (x # xs) t = do { t \<leftarrow> level_step nr x t; level_run nr xs t }"

section \<open>A processor left alone\<close>

fun loop_of :: "climb_kind \<Rightarrow> u64 \<Rightarrow> nat \<Rightarrow> rcu \<Rightarrow> rcu \<times> bool" where
  "loop_of C_quiesce g i s = quiesce_loop g i s"
| "loop_of C_enable g i s = enable_loop g i s"
| "loop_of C_disable g i s = disable_loop i s"

lemma loop_level:
  "1 < i \<Longrightarrow> loop_of k g i s = (let (s', up) = level k g i s in if up then loop_of k g (i div 2) s' else (s', False))"
  using buddy_other[of i] by (cases k) (auto simp: quiesce_loop_step(2) enable_loop_step(2) disable_loop_step(2) Let_def)

definition end_climb :: "cpu \<Rightarrow> u64 \<Rightarrow> (cpu \<Rightarrow> rcu_climb option) \<Rightarrow> rcu \<times> bool \<Rightarrow> level_state option" where
  "end_climb c g climbs = (\<lambda>(s, past_root). map_option (\<lambda>s. (s, climbs(c := None))) (if past_root then rcu_begin_next_generation c g s else Some s))"

lemma end_climb_upd: "end_climb c g (climbs(c := v)) = end_climb c g climbs"
  by (simp add: end_climb_def)

lemma levels_climb:
  "climbs c = Some \<lparr>climb_kind = k, climb_index = i, climb_generation = g\<rparr> \<Longrightarrow>
     \<exists>n. level_run nr (replicate n (Level c)) (s, climbs) = end_climb c g climbs (loop_of k g i s)"
proof (induction i arbitrary: s climbs rule: less_induct)
  case (less i)
  show ?case
  proof (cases "1 < i")
    case False
    then have "loop_of k g i s = (s, True)" by (cases k) (simp_all add: quiesce_loop_step(1) enable_loop_step(1) disable_loop_step(1))
    then have "level_run nr (replicate 1 (Level c)) (s, climbs) = end_climb c g climbs (loop_of k g i s)"
      using less.prems False by (cases "rcu_begin_next_generation c g s") (simp_all add: end_climb_def)
    then show ?thesis by blast
  next
    case True
    obtain s' up where l: "level k g i s = (s', up)" by fastforce
    let ?climbs = "climbs(c := if up then Some \<lparr>climb_kind = k, climb_index = i div 2, climb_generation = g\<rparr> else None)"
    have step: "level_step nr (Level c) (s, climbs) = Some (s', ?climbs)" using less.prems True l by (simp add: drop_bit_eq_div)
    have "\<exists>n. level_run nr (replicate n (Level c)) (s', ?climbs) = end_climb c g climbs (loop_of k g i s)"
    proof (cases up)
      case True': True
      let ?next = "climbs(c \<mapsto> \<lparr>climb_kind = k, climb_index = i div 2, climb_generation = g\<rparr>)"
      have "\<exists>n. level_run nr (replicate n (Level c)) (s', ?next) = end_climb c g ?next (loop_of k g (i div 2) s')"
        using True by (intro less.IH) simp_all
      then show ?thesis using True' True l by (simp add: loop_level end_climb_upd)
    next
      case False
      then have "level_run nr (replicate 0 (Level c)) (s', ?climbs) = end_climb c g climbs (loop_of k g i s)"
        using True l by (simp add: loop_level end_climb_def)
      then show ?thesis by blast
    qed
    then obtain n where "level_run nr (replicate n (Level c)) (s', ?climbs) = end_climb c g climbs (loop_of k g i s)" by blast
    then have "level_run nr (replicate (Suc n) (Level c)) (s, climbs) = end_climb c g climbs (loop_of k g i s)" using step by simp
    then show ?thesis by blast
  qed
qed

section \<open>Properties\<close>

text \<open>
  A processor that is not disturbed performs the whole operation: after enough levels the state is the one that
  \<open>rcu_quiesce\<close>, \<open>rcu_enable\<close> or \<open>rcu_disable\<close> as one step gives, and operations in progress on other processors stay where they are.
\<close>

theorem rcu_levels_refine:
  assumes "x = Quiesce c \<or> x = Enable c \<or> x = Disable c" and "climbs c = None"
  shows "\<exists>n. level_run nr (Begin x # replicate n (Level c)) (s, climbs) = map_option (\<lambda>s'. (s', climbs)) (rcu_step nr x s)"
proof -
  let ?k = "case x of Quiesce _ \<Rightarrow> C_quiesce | Enable _ \<Rightarrow> C_enable | _ \<Rightarrow> C_disable" and ?g = "global_current_generation s"
  let ?climbs = "climbs(c \<mapsto> \<lparr>climb_kind = ?k, climb_index = nr + c, climb_generation = ?g\<rparr>)"
  have b: "level_step nr (Begin x) (s, climbs) = Some (s, ?climbs)" using assms by (auto simp: begin_climb_def)
  have e: "?climbs(c := None) = climbs" using assms(2) by auto
  have r: "end_climb c ?g ?climbs (loop_of ?k ?g (nr + c) s) = map_option (\<lambda>s'. (s', climbs)) (rcu_step nr x s)"
    using assms(1) e by (auto simp: end_climb_def rcu_quiesce_def rcu_enable_def rcu_disable_def case_prod_unfold Let_def)
  obtain n where "level_run nr (replicate n (Level c)) (s, ?climbs) = end_climb c ?g ?climbs (loop_of ?k ?g (nr + c) s)"
    using levels_climb[of ?climbs c ?k "nr + c" ?g nr s] by auto
  then show ?thesis using b r by (intro exI[of _ n]) simp
qed


theorem rcu_levels_refine_witness:
  "\<exists>n. level_run 4 (Begin (Enable 0) # replicate n (Level 0)) (rcu_boot null_heads, \<lambda>_. None) = map_option (\<lambda>s'. (s', \<lambda>_. None)) (rcu_step 4 (Enable 0) (rcu_boot null_heads))"
  using rcu_levels_refine[of "Enable 0" 0 "\<lambda>_. None" 4 "rcu_boot null_heads"] by simp

text \<open>
  Processor 2 takes part throughout. Processor 0 becomes idle and stops between its leaf and the parent; processor 1 becomes active and
  finds the parent still active; processor 0 goes on and makes the parent inactive. From then on processor 1 does nothing.
\<close>

definition race_events :: "level_event list" where
  "race_events = [Begin (Enable 2), Level 2, Level 2, Level 2, Begin (Enable 0), Level 0, Level 0,
     Begin (Disable 0), Level 0, Begin (Enable 1), Level 1, Level 1, Level 0]"

definition race_after :: "level_event list" where
  "race_after = [Begin (Call 7 0), Begin (Quiesce 2), Level 2, Level 2, Level 2, Begin (Quiesce 2), Level 2, Level 2, Level 2, Begin (Dispatch 2)]"

text \<open>
  Overlapping operations break the guarantee of RCU: there is an interleaving after which processor 1 is active with no operation in
  progress anywhere, and a callback registered then is called although processor 1 neither reports a quiescent state nor
  becomes idle.
\<close>

theorem rcu_enable_disable_race:
  "\<exists>s s'. level_run 4 race_events (rcu_boot null_heads, \<lambda>_. None) = Some (s, \<lambda>_. None) \<and> active (rcu_segtree s (4 + 1)) \<and> called s = [] \<and>
     level_run 4 race_after (s, \<lambda>_. None) = Some (s', \<lambda>_. None) \<and> called s' = [7] \<and> active (rcu_segtree s' (4 + 1)) \<and>
     Begin (Quiesce 1) \<notin> set race_after \<and> Begin (Disable 1) \<notin> set race_after"
  by (simp add: race_events_def race_after_def rcu_eval begin_climb_def run_callbacks.simps fun_upd_idem drop_bit_eq_div del: bind_Some_iff)

end
