(* ===== verification/Kernel_Dpc.thy ===== *)
theory Kernel_Dpc
  imports Dsl_List
begin

text \<open>
  Deferred procedure calls of one processor (\<^verbatim>\<open>kernel/dpc.cc\<close>) on the model of the intrusive list. What a routine
  does is not modelled, only that it is called, and likewise for the call of the scheduler.
\<close>

section \<open>Operations\<close>

record dpc_cpu =
  dpc_heap :: list_heap
  globalDpcList :: addr
  m_is_enqueued :: "addr \<Rightarrow> bool"
  pending_dpc :: bool
  pending_reschedule :: bool
  dispatched :: "addr list"
  reschedules :: nat

definition kernel_dpc_init :: "list_heap \<Rightarrow> addr \<Rightarrow> dpc_cpu option" where
  "kernel_dpc_init h l = do {
     h \<leftarrow> ListHead_init h l;
     Some \<lparr>dpc_heap = h, globalDpcList = l, m_is_enqueued = (\<lambda>_. False), pending_dpc = False, pending_reschedule = False,
       dispatched = [], reschedules = 0\<rparr>
   }"

definition DPC_init :: "addr \<Rightarrow> dpc_cpu \<Rightarrow> dpc_cpu" where
  "DPC_init d s = s\<lparr>m_is_enqueued := (m_is_enqueued s)(d := False)\<rparr>"

definition DPC_enqueue :: "addr \<Rightarrow> dpc_cpu \<Rightarrow> (bool \<times> dpc_cpu) option" where
  "DPC_enqueue d s = (
     if m_is_enqueued s d then Some (False, s)
     else do {
       h \<leftarrow> push_back (dpc_heap s) (globalDpcList s) d;
       Some (True, s\<lparr>dpc_heap := h, pending_dpc := True\<rparr>)
     })"

partial_function (option) dispatch_loop :: "dpc_cpu \<Rightarrow> dpc_cpu option" where
  "dispatch_loop s = do {
     e \<leftarrow> ListHead_empty (dpc_heap s) (globalDpcList s);
     if e then Some s
     else do {
       (d, h) \<leftarrow> pop_front (dpc_heap s) (globalDpcList s);
       dispatch_loop (s\<lparr>dpc_heap := h, m_is_enqueued := (m_is_enqueued s)(d := False), dispatched := dispatched s @ [d]\<rparr>)
     }
   }"

definition dispatch_DPCs :: "dpc_cpu \<Rightarrow> dpc_cpu option" where
  "dispatch_DPCs s = do {
     s \<leftarrow> dispatch_loop s;
     Some (if pending_reschedule s then s\<lparr>reschedules := reschedules s + 1\<rparr> else s)
   }"

definition set_pending_reschedule :: "dpc_cpu \<Rightarrow> dpc_cpu" where
  "set_pending_reschedule s = s\<lparr>pending_reschedule := True, pending_dpc := True\<rparr>"

definition clear_pending_reschedule :: "dpc_cpu \<Rightarrow> dpc_cpu" where
  "clear_pending_reschedule s = s\<lparr>pending_reschedule := False\<rparr>"

fun enqueue_all :: "addr list \<Rightarrow> dpc_cpu \<Rightarrow> dpc_cpu option" where
  "enqueue_all [] s = Some s"
| "enqueue_all (d # ds) s = do { (_, s) \<leftarrow> DPC_enqueue d s; enqueue_all ds s }"

section \<open>Dispatching\<close>

definition dpc_ring :: "dpc_cpu \<Rightarrow> addr list \<Rightarrow> bool" where
  "dpc_ring s xs \<longleftrightarrow> ring (dpc_heap s) (globalDpcList s) xs"

lemma enqueue_all_ring:
  "dpc_ring s xs \<Longrightarrow> \<forall>d \<in> set ds. d \<in> dom (dpc_heap s) \<and> \<not> m_is_enqueued s d \<Longrightarrow> distinct (globalDpcList s # xs @ ds) \<Longrightarrow>
     \<exists>s'. enqueue_all ds s = Some s' \<and> dpc_ring s' (xs @ ds) \<and> dispatched s' = dispatched s \<and> m_is_enqueued s' = m_is_enqueued s"
proof (induction ds arbitrary: s xs)
  case (Cons d ds)
  obtain h where h: "push_back (dpc_heap s) (globalDpcList s) d = Some h" "ring h (globalDpcList s) (xs @ [d])" "dom h = dom (dpc_heap s)"
    using push_back_ring[of "dpc_heap s" "globalDpcList s" xs d] Cons.prems by (auto simp: dpc_ring_def)
  let ?s = "s\<lparr>dpc_heap := h, pending_dpc := True\<rparr>"
  have "DPC_enqueue d s = Some (True, ?s)" using h(1) Cons.prems by (simp add: DPC_enqueue_def)
  moreover have "\<exists>s'. enqueue_all ds ?s = Some s' \<and> dpc_ring s' ((xs @ [d]) @ ds) \<and> dispatched s' = dispatched ?s \<and> m_is_enqueued s' = m_is_enqueued ?s"
    by (rule Cons.IH) (use h Cons.prems in \<open>auto simp: dpc_ring_def\<close>)
  ultimately show ?case by simp
qed simp

lemma dispatch_loop_ring: "dpc_ring s xs \<Longrightarrow> \<exists>s'. dispatch_loop s = Some s' \<and> dpc_ring s' [] \<and> dispatched s' = dispatched s @ xs"
proof (induction xs arbitrary: s)
  case Nil
  then show ?case using ListHead_empty_ring[of "dpc_heap s" "globalDpcList s" "[]"] by (subst dispatch_loop.simps) (simp add: dpc_ring_def)
next
  case (Cons x xs)
  obtain h where h: "pop_front (dpc_heap s) (globalDpcList s) = Some (x, h)" "ring h (globalDpcList s) xs"
    using pop_front_ring[of "dpc_heap s" "globalDpcList s" x xs] Cons.prems by (auto simp: dpc_ring_def)
  let ?s = "s\<lparr>dpc_heap := h, m_is_enqueued := (m_is_enqueued s)(x := False), dispatched := dispatched s @ [x]\<rparr>"
  have "dispatch_loop s = dispatch_loop ?s"
    using ListHead_empty_ring[of "dpc_heap s" "globalDpcList s" "x # xs"] h(1) Cons.prems by (subst dispatch_loop.simps) (simp add: dpc_ring_def del: bind_Some_iff)
  then show ?case using Cons.IH[of ?s] h(2) by (simp add: dpc_ring_def)
qed

section \<open>Properties\<close>

text \<open>
  (C38) DPCs that are enqueued once are dispatched once, in the order in which they were enqueued, and the
  list is empty afterwards.
\<close>

theorem dpc_dispatch_order:
  assumes "dpc_ring s []" and "\<forall>d \<in> set ds. d \<in> dom (dpc_heap s) \<and> \<not> m_is_enqueued s d" and "distinct (globalDpcList s # ds)"
  shows "\<exists>s' s''. enqueue_all ds s = Some s' \<and> dispatch_DPCs s' = Some s'' \<and> dispatched s'' = dispatched s @ ds \<and>
    list_elements (dpc_heap s'') (globalDpcList s'') = Some []"
proof -
  obtain s' where s': "enqueue_all ds s = Some s'" "dpc_ring s' ds" "dispatched s' = dispatched s"
    using enqueue_all_ring[OF assms(1,2)] assms(3) by auto
  obtain s1 where "dispatch_loop s' = Some s1" "dpc_ring s1 []" "dispatched s1 = dispatched s' @ ds" using dispatch_loop_ring[OF s'(2)] by blast
  then show ?thesis using s' list_elements_ring by (cases "pending_reschedule s1") (auto simp: dispatch_DPCs_def dpc_ring_def)
qed

definition sample_dpcs :: dpc_cpu where
  "sample_dpcs = \<lparr>dpc_heap = sample_list_heap, globalDpcList = 0, m_is_enqueued = (\<lambda>_. False), pending_dpc = False, pending_reschedule = False,
     dispatched = [], reschedules = 0\<rparr>"

lemma sample_dpcs: "dpc_ring sample_dpcs []" "\<forall>d \<in> set [1, 2]. d \<in> dom (dpc_heap sample_dpcs) \<and> \<not> m_is_enqueued sample_dpcs d"
  "distinct (globalDpcList sample_dpcs # [1, 2])"
  by (simp_all add: sample_dpcs_def sample_list_heap_def dpc_ring_def ring_def link_def get_next_def get_prev_def)

theorem dpc_dispatch_order_witness:
  "\<exists>s' s''. enqueue_all [1, 2] sample_dpcs = Some s' \<and> dispatch_DPCs s' = Some s'' \<and> dispatched s'' = [1, 2]"
proof -
  have "dispatched sample_dpcs = []" by (simp add: sample_dpcs_def)
  then show ?thesis using dpc_dispatch_order[OF sample_dpcs] by (simp only: append_Nil) blast
qed

text \<open>
  The mark that is to keep a DPC from being enqueued twice is never set: enqueueing the first DPC of the list once
  more succeeds, and the list then holds that DPC alone; all others are lost.
\<close>

theorem dpc_enqueue_twice:
  assumes "dpc_ring s (x # y # ys)" and "\<not> m_is_enqueued s x"
  shows "\<exists>s'. DPC_enqueue x s = Some (True, s') \<and> \<not> m_is_enqueued s' x \<and> list_elements (dpc_heap s') (globalDpcList s') = Some [x]"
proof -
  let ?l = "globalDpcList s" and ?h = "dpc_heap s"
  obtain zs z where z: "y # ys = zs @ [z]" by (metis append_butlast_last_id list.distinct(1))
  have r: "distinct (?l # x # zs @ [z])" "link ?h ?l x" "link ?h z ?l" "x \<in> dom ?h"
    using assms(1) chain_append[of ?h "?l # x # zs" z "[?l]"] z by (auto simp: dpc_ring_def ring_def link_def get_prev_def get_next_def)
  obtain nl nx nz where n: "?h ?l = Some nl" "l_next nl = x" "l_prev nl = z" "?h x = Some nx" "?h z = Some nz"
    using r by (auto simp: link_def get_next_def get_prev_def)
  let ?h' = "?h(x \<mapsto> nx\<lparr>l_prev := z, l_next := ?l\<rparr>, z \<mapsto> nz\<lparr>l_next := x\<rparr>, ?l \<mapsto> nl\<lparr>l_prev := x\<rparr>)"
  have "push_back ?h ?l x = Some ?h'" using n r(1) by (simp add: push_back_def get_prev_def set_prev_def set_next_def del: bind_Some_iff)
  moreover have "list_elements ?h' ?l = Some [x]"
    using n r(1) by (simp add: list_elements_def get_next_def list_iterate.simps[of _ _ x] list_iterate.simps[of _ _ ?l] del: bind_Some_iff)
  ultimately show ?thesis using assms(2) by (simp add: DPC_enqueue_def)
qed

theorem dpc_enqueue_twice_witness:
  "\<exists>s s'. enqueue_all [1, 2] sample_dpcs = Some s \<and> dpc_ring s [1, 2] \<and> DPC_enqueue 1 s = Some (True, s') \<and>
     list_elements (dpc_heap s') (globalDpcList s') = Some [1]"
proof -
  obtain s where s: "enqueue_all [1, 2] sample_dpcs = Some s" "dpc_ring s ([] @ [1, 2])" "m_is_enqueued s = m_is_enqueued sample_dpcs"
    using enqueue_all_ring[OF sample_dpcs(1,2)] sample_dpcs(3) by (simp only: append_Nil) blast
  then show ?thesis using dpc_enqueue_twice[of s 1 2 "[]"] sample_dpcs(2) by (simp only: append_Nil) (metis list.set_intros(1))
qed

end
