(* ===== verification/Kernel_Ktimer.thy ===== *)
theory Kernel_Ktimer
  imports Dsl_AVL Kernel_Dpc
begin

text \<open>
  The timer queue of a processor (\<^verbatim>\<open>kernel/ktimer.cc\<close>): timers in an AVL tree ordered by their expiry time, the
  time of the next interrupt that matters, and the DPC that runs the callbacks, on the list of pending DPCs of
  \<^verbatim>\<open>Kernel_Dpc\<close>. The object of a tree node is the expiry time of its timer. The clock is an argument: its \<open>n\<close>-th
  reading; what a callback does is not modelled, only that it is called, and likewise for DPCs other than the timer DPC.
\<close>

section \<open>Operations\<close>

definition expire_never :: u64 where "expire_never = - 1"

record ktimer_queue =
  timer_tree :: "u64 avl_tree"
  next_expiry :: u64
  timer_dpc :: addr
  dpcs :: dpc_cpu
  on_queue :: "addr \<Rightarrow> bool"
  reads :: nat
  fired :: "addr list"

definition ktimer_percpu_init :: "u64 avl_heap \<Rightarrow> addr \<Rightarrow> dpc_cpu \<Rightarrow> ktimer_queue" where
  "ktimer_percpu_init h d p = \<lparr>timer_tree = \<lparr>m_root = nullptr, nodes = h\<rparr>, next_expiry = expire_never, timer_dpc = d, dpcs = DPC_init d p,
     on_queue = (\<lambda>_. False), reads = 0, fired = []\<rparr>"

definition ns_since_boot :: "(nat \<Rightarrow> u64) \<Rightarrow> ktimer_queue \<Rightarrow> u64 \<times> ktimer_queue" where
  "ns_since_boot clock s = (clock (reads s), s\<lparr>reads := reads s + 1\<rparr>)"

definition ktimer_handle_timer_interrupt :: "(nat \<Rightarrow> u64) \<Rightarrow> ktimer_queue \<Rightarrow> ktimer_queue option" where
  "ktimer_handle_timer_interrupt clock s = (let e = next_expiry s; (now, s) = ns_since_boot clock s in
     if now \<ge> e then do {
       let s = s\<lparr>next_expiry := expire_never\<rparr>;
       (_, p) \<leftarrow> DPC_enqueue (timer_dpc s) (dpcs s);
       Some (s\<lparr>dpcs := p\<rparr>)
     } else Some s)"

partial_function (option) timer_loop :: "(nat \<Rightarrow> u64) \<Rightarrow> u64 \<Rightarrow> ktimer_queue \<Rightarrow> ktimer_queue option" where
  "timer_loop clock now s = do {
     timer \<leftarrow> TypedAVLTree_first (timer_tree s);
     case timer of
       None \<Rightarrow> Some s
     | Some timer \<Rightarrow> do {
         t \<leftarrow> get_object (nodes (timer_tree s)) timer;
         let (now, s) = (if now < t then ns_since_boot clock s else (now, s));
         if now < t then Some (if t < next_expiry s then s\<lparr>next_expiry := t\<rparr> else s)
         else do {
           tr \<leftarrow> AVLTree_remove (timer_tree s) timer;
           timer_loop clock now (s\<lparr>timer_tree := tr, on_queue := (on_queue s)(timer := False), fired := fired s @ [timer]\<rparr>)
         }
       }
   }"

definition timer_dpc_func :: "(nat \<Rightarrow> u64) \<Rightarrow> ktimer_queue \<Rightarrow> ktimer_queue option" where
  "timer_dpc_func clock s = (let (now, s) = ns_since_boot clock s in timer_loop clock now s)"

text \<open>
  \<open>dispatch_DPCs\<close>, with the routine of the timer DPC: each DPC is taken off the list before its routine is called.
\<close>

definition pop_dpc :: "dpc_cpu \<Rightarrow> (addr \<times> dpc_cpu) option" where
  "pop_dpc p = do {
     (d, h) \<leftarrow> pop_front (dpc_heap p) (globalDpcList p);
     Some (d, p\<lparr>dpc_heap := h, m_is_enqueued := (m_is_enqueued p)(d := False), dispatched := dispatched p @ [d]\<rparr>)
   }"

partial_function (option) timer_dispatch_loop :: "(nat \<Rightarrow> u64) \<Rightarrow> ktimer_queue \<Rightarrow> ktimer_queue option" where
  "timer_dispatch_loop clock s = do {
     e \<leftarrow> ListHead_empty (dpc_heap (dpcs s)) (globalDpcList (dpcs s));
     if e then Some s
     else do {
       (d, p) \<leftarrow> pop_dpc (dpcs s);
       s \<leftarrow> (if d = timer_dpc s then timer_dpc_func clock (s\<lparr>dpcs := p\<rparr>) else Some (s\<lparr>dpcs := p\<rparr>));
       timer_dispatch_loop clock s
     }
   }"

definition run_timer_dpc :: "(nat \<Rightarrow> u64) \<Rightarrow> ktimer_queue \<Rightarrow> ktimer_queue option" where
  "run_timer_dpc clock s = do {
     s \<leftarrow> timer_dispatch_loop clock s;
     Some (if pending_reschedule (dpcs s) then s\<lparr>dpcs := (dpcs s)\<lparr>reschedules := reschedules (dpcs s) + 1\<rparr>\<rparr> else s)
   }"

definition KTimer_enqueue :: "addr \<Rightarrow> u64 \<Rightarrow> ktimer_queue \<Rightarrow> (bool \<times> ktimer_queue) option" where
  "KTimer_enqueue a t s = (
     if on_queue s a then Some (False, s)
     else do {
       h \<leftarrow> set_object (nodes (timer_tree s)) a t;
       let s = s\<lparr>on_queue := (on_queue s)(a := True), timer_tree := (timer_tree s)\<lparr>nodes := h\<rparr>\<rparr>;
       let s = (if t < next_expiry s then s\<lparr>next_expiry := t\<rparr> else s);
       tr \<leftarrow> TypedAVLTree_insert (<) (timer_tree s) a;
       Some (True, s\<lparr>timer_tree := tr\<rparr>)
     })"

definition KTimer_remove :: "addr \<Rightarrow> ktimer_queue \<Rightarrow> (bool \<times> ktimer_queue) option" where
  "KTimer_remove a s = (
     if \<not> on_queue s a then Some (False, s)
     else do {
       let s = s\<lparr>on_queue := (on_queue s)(a := False)\<rparr>;
       tr \<leftarrow> AVLTree_remove (timer_tree s) a;
       let s = s\<lparr>timer_tree := tr\<rparr>;
       e \<leftarrow> get_object (nodes (timer_tree s)) a;
       if e = next_expiry s then do {
         first \<leftarrow> TypedAVLTree_first (timer_tree s);
         t \<leftarrow> (case first of Some f \<Rightarrow> get_object (nodes (timer_tree s)) f | None \<Rightarrow> Some expire_never);
         Some (True, s\<lparr>next_expiry := t\<rparr>)
       } else Some (True, s)
     })"

datatype ktimer_op = Enqueue_timer addr u64 | Remove_timer addr | Timer_interrupt | Timer_dpc

fun ktimer_step :: "(nat \<Rightarrow> u64) \<Rightarrow> ktimer_op \<Rightarrow> ktimer_queue \<Rightarrow> ktimer_queue option" where
  "ktimer_step clock (Enqueue_timer a t) s = map_option snd (KTimer_enqueue a t s)"
| "ktimer_step clock (Remove_timer a) s = map_option snd (KTimer_remove a s)"
| "ktimer_step clock Timer_interrupt s = ktimer_handle_timer_interrupt clock s"
| "ktimer_step clock Timer_dpc s = run_timer_dpc clock s"

fun ktimer_run :: "(nat \<Rightarrow> u64) \<Rightarrow> ktimer_op list \<Rightarrow> ktimer_queue \<Rightarrow> ktimer_queue option" where
  "ktimer_run clock [] s = Some s"
| "ktimer_run clock (x # xs) s = do { s \<leftarrow> ktimer_step clock x s; ktimer_run clock xs s }"

section \<open>The queue\<close>

interpretation timers: strict_weak_order "(<) :: u64 \<Rightarrow> u64 \<Rightarrow> bool"
  by unfold_locales auto

abbreviation by_expiry :: "(addr \<times> u64) list \<Rightarrow> bool" where
  "by_expiry xs \<equiv> sorted_wrt (\<lambda>x y. \<not> snd y < snd x) xs"

text \<open>
  The tree holds exactly the timers that are marked as queued, in the order of their expiry, and no timer is
  forgotten: the next interrupt that matters is not after its expiry, or the DPC is pending.
\<close>

definition queue_ok :: "ktimer_queue \<Rightarrow> (addr \<times> u64) list \<Rightarrow> bool" where
  "queue_ok s xs \<longleftrightarrow> linked (timer_tree s) xs \<and> by_expiry xs \<and> distinct (map fst xs) \<and> (\<forall>a. on_queue s a \<longleftrightarrow> a \<in> fst ` set xs)"

definition armed :: "ktimer_queue \<Rightarrow> addr list \<Rightarrow> (addr \<times> u64) list \<Rightarrow> bool" where
  "armed s ds xs \<longleftrightarrow> timer_dpc s \<in> set ds \<or> (\<forall>x \<in> set xs. next_expiry s \<le> snd x)"

text \<open>The pending DPCs are \<open>ds\<close>, each of them once, and there is a structure for the timer DPC.\<close>

definition dpcs_ok :: "ktimer_queue \<Rightarrow> addr list \<Rightarrow> bool" where
  "dpcs_ok s ds \<longleftrightarrow> dpc_ring (dpcs s) ds \<and> (\<forall>d. \<not> m_is_enqueued (dpcs s) d) \<and> timer_dpc s \<in> dom (dpc_heap (dpcs s)) \<and> timer_dpc s \<noteq> globalDpcList (dpcs s)"

definition same_dpcs :: "ktimer_queue \<Rightarrow> ktimer_queue \<Rightarrow> bool" where
  "same_dpcs s s' \<longleftrightarrow> dpcs s' = dpcs s \<and> timer_dpc s' = timer_dpc s"

abbreviation live :: "ktimer_queue \<Rightarrow> addr \<Rightarrow> u64 option" where "live s \<equiv> get_object (nodes (timer_tree s))"

lemma linked_object: "linked s xs \<Longrightarrow> (a, k) \<in> set xs \<Longrightarrow> get_object (nodes s) a = Some k"
  using tree_at_object by (fastforce simp: linked_def represents_def)

lemma linked_set_object:
  assumes "linked s xs" "set_object (nodes s) a v = Some h" "a \<notin> fst ` set xs"
  shows "linked (s\<lparr>nodes := h\<rparr>) xs" "get_object h a = Some v" "\<forall>x. x \<noteq> a \<longrightarrow> get_object h x = get_object (nodes s) x"
proof -
  obtain t where t: "represents s t" "hpos t" "contents self t = xs" using assms(1) by (auto simp: linked_def)
  have "a \<notin> set (addrs t)" using assms(3) t(3) addrs_contents[of t self] by simp
  then have "tree_at h None t = tree_at (nodes s) None t" using assms(2) by (intro tree_at_cong) (auto simp: set_object_def)
  then show "linked (s\<lparr>nodes := h\<rparr>) xs" using t by (auto simp: linked_def represents_def)
  show "get_object h a = Some v" "\<forall>x. x \<noteq> a \<longrightarrow> get_object h x = get_object (nodes s) x" using assms(2) by (auto simp: set_object_def get_object_def)
qed

definition same_timers :: "ktimer_queue \<Rightarrow> ktimer_queue \<Rightarrow> bool" where
  "same_timers s s' \<longleftrightarrow> (\<forall>x. live s' x = None \<longleftrightarrow> live s x = None)"

lemma enqueue_ok:
  assumes "queue_ok s xs" "armed s ds xs" "\<not> on_queue s a" "live s a \<noteq> None"
  shows "\<exists>s'. KTimer_enqueue a t s = Some (True, s') \<and> queue_ok s' (insert_sorted (<) (a, t) xs) \<and> armed s' ds (insert_sorted (<) (a, t) xs) \<and> same_timers s s' \<and> same_dpcs s s'"
proof -
  note q = assms(1)[unfolded queue_ok_def]
  obtain h where h: "set_object (nodes (timer_tree s)) a t = Some h" using assms(4) by (auto simp: set_object_def get_object_def)
  have a: "a \<notin> fst ` set xs" using q assms(3) by blast
  note l = linked_set_object[OF conjunct1[OF q] h a]
  obtain tr where tr: "TypedAVLTree_insert (<) ((timer_tree s)\<lparr>nodes := h\<rparr>) a = Some tr" "linked tr (insert_sorted (<) (a, t) xs)"
    "\<forall>x. get_object (nodes tr) x = get_object h x"
    using timers.avlq.ins[OF l(1) _ _ a, of t] q l(2) by auto
  let ?e = "if t < next_expiry s then t else next_expiry s"
  let ?s = "s\<lparr>on_queue := (on_queue s)(a := True), timer_tree := tr, next_expiry := ?e\<rparr>"
  have "KTimer_enqueue a t s = Some (True, ?s)" using assms(3) h tr(1) by (simp add: KTimer_enqueue_def Let_def del: bind_Some_iff)
  moreover have "queue_ok ?s (insert_sorted (<) (a, t) xs)"
    using q tr(2) timers.insert_sorted_sorted[of xs "(a, t)"] insert_sorted_distinct[of xs "(a, t)" "(<)"] a by (auto simp: queue_ok_def insert_sorted_set)
  moreover have "same_dpcs s ?s" by (simp add: same_dpcs_def)
  moreover have "armed ?s ds (insert_sorted (<) (a, t) xs)" using assms(2) by (fastforce simp: armed_def insert_sorted_set)
  moreover have "live ?s x = None \<longleftrightarrow> live s x = None" for x using tr(3) l(2,3) assms(4) by (cases "x = a") auto
  moreover from this have "same_timers s ?s" by (simp add: same_timers_def)
  ultimately show ?thesis by blast
qed

lemma remove_ok:
  assumes "queue_ok s (xs @ (a, t) # ys)" "armed s ds (xs @ (a, t) # ys)"
  shows "\<exists>s'. KTimer_remove a s = Some (True, s') \<and> queue_ok s' (xs @ ys) \<and> armed s' ds (xs @ ys) \<and> same_timers s s' \<and> same_dpcs s s'"
proof -
  note q = assms(1)[unfolded queue_ok_def]
  have on: "on_queue s a" using q by auto
  obtain tr where tr: "AVLTree_remove (timer_tree s) a = Some tr" "linked tr (xs @ ys)" "\<forall>x. get_object (nodes tr) x = live s x"
    using timers.avlq.del[OF conjunct1[OF q]] by blast
  have e: "get_object (nodes tr) a = Some t" using linked_object[OF conjunct1[OF q], of a t] tr(3) by simp
  have st: "by_expiry (xs @ ys)" using q by (auto simp: sorted_wrt_append)
  obtain n where n: "(case (case xs @ ys of [] \<Rightarrow> nullptr | x # _ \<Rightarrow> Some (fst x)) of Some f \<Rightarrow> get_object (nodes tr) f | None \<Rightarrow> Some expire_never) = Some n"
    "\<forall>x \<in> set (xs @ ys). n \<le> snd x"
  proof (cases "xs @ ys")
    case (Cons x zs)
    then have "get_object (nodes tr) (fst x) = Some (snd x)" using linked_object[OF tr(2), of "fst x" "snd x"] by simp
    moreover have "\<forall>y \<in> set (xs @ ys). snd x \<le> snd y" using st unfolding Cons by auto
    ultimately show thesis using that Cons by simp
  qed (use that in simp)
  let ?e = "if t = next_expiry s then n else next_expiry s"
  let ?s = "s\<lparr>on_queue := (on_queue s)(a := False), timer_tree := tr, next_expiry := ?e\<rparr>"
  have "KTimer_remove a s = Some (True, ?s)"
    using on tr(1) e timers.avlq.first[OF tr(2)] n(1) by (simp add: KTimer_remove_def Let_def cong: option.case_cong del: bind_Some_iff)
  moreover have "queue_ok ?s (xs @ ys)" using q tr(2) st by (auto simp: queue_ok_def)
  moreover have "same_dpcs s ?s" by (simp add: same_dpcs_def)
  moreover have "armed ?s ds (xs @ ys)" using assms(2) n(2) by (auto simp: armed_def)
  moreover have "same_timers s ?s" using tr(3) by (simp add: same_timers_def)
  ultimately show ?thesis by blast
qed

lemma timer_loop_ok:
  "queue_ok s xs \<Longrightarrow> \<exists>s' n. timer_loop clock now s = Some s' \<and> n \<le> length xs \<and> queue_ok s' (drop n xs) \<and> (\<forall>x \<in> set (drop n xs). next_expiry s' \<le> snd x) \<and>
     fired s' = fired s @ map fst (take n xs) \<and> reads s \<le> reads s' \<and> same_dpcs s s' \<and> same_timers s s' \<and>
     (\<forall>x \<in> set (take n xs). snd x \<le> now \<or> (\<exists>r. reads s \<le> r \<and> r < reads s' \<and> snd x \<le> clock r)) \<and>
     (\<forall>x \<in> set (drop n xs). reads s < reads s' \<and> clock (reads s' - 1) < snd x)"
proof (induction xs arbitrary: s now)
  case Nil
  have "TypedAVLTree_first (timer_tree s) = Some None" using timers.avlq.first[of "timer_tree s" "[]"] Nil by (simp add: queue_ok_def)
  then show ?case using Nil by (subst timer_loop.simps) (simp add: same_timers_def same_dpcs_def)
next
  case (Cons x xs)
  obtain a t where x: "x = (a, t)" by fastforce
  note q = Cons.prems[unfolded queue_ok_def x]
  have f: "TypedAVLTree_first (timer_tree s) = Some (Some a)" "live s a = Some t"
    using timers.avlq.first[OF conjunct1[OF q]] linked_object[OF conjunct1[OF q], of a t] by simp_all
  define s0 where "s0 = (if now < t then snd (ns_since_boot clock s) else s)"
  define now0 where "now0 = (if now < t then clock (reads s) else now)"
  have s0: "timer_tree s0 = timer_tree s" "on_queue s0 = on_queue s" "fired s0 = fired s" "same_dpcs s s0" "reads s0 = (if now < t then Suc (reads s) else reads s)"
    by (simp_all add: s0_def ns_since_boot_def same_dpcs_def)
  have st: "timer_loop clock now s = (if now0 < t then Some (if t < next_expiry s0 then s0\<lparr>next_expiry := t\<rparr> else s0)
      else do { tr \<leftarrow> AVLTree_remove (timer_tree s0) a;
           timer_loop clock now0 (s0\<lparr>timer_tree := tr, on_queue := (on_queue s0)(a := False), fired := fired s0 @ [a]\<rparr>) })"
    using f by (subst timer_loop.simps) (simp add: s0_def now0_def ns_since_boot_def Let_def del: bind_Some_iff)
  show ?case
  proof (cases "now0 < t")
    case True
    then have "now < t" "clock (reads s) < t" by (simp_all add: now0_def split: if_splits)
    moreover have "\<forall>y \<in> set (x # xs). t \<le> snd y" using q by (auto simp: x)
    ultimately show ?thesis using st True q s0 unfolding queue_ok_def
      by (intro exI[of _ "if t < next_expiry s0 then s0\<lparr>next_expiry := t\<rparr> else s0"] exI[of _ 0]) (auto simp: x same_timers_def same_dpcs_def)
  next
    case False
    obtain tr where tr: "AVLTree_remove (timer_tree s0) a = Some tr" "linked tr xs" "\<forall>y. get_object (nodes tr) y = live s0 y"
      using timers.avlq.del[of "timer_tree s0" "[]" a t xs] q s0(1) by auto
    let ?s = "s0\<lparr>timer_tree := tr, on_queue := (on_queue s0)(a := False), fired := fired s0 @ [a]\<rparr>"
    have "queue_ok ?s xs" using q tr(2) s0 by (auto simp: queue_ok_def)
    from Cons.IH[OF this, of now0] obtain s' n where s': "timer_loop clock now0 ?s = Some s'" "n \<le> length xs" "queue_ok s' (drop n xs)"
      "\<forall>y \<in> set (drop n xs). next_expiry s' \<le> snd y" "fired s' = fired s @ a # map fst (take n xs)" "reads s0 \<le> reads s'" "same_dpcs s s'"
      "same_timers ?s s'" "\<forall>y \<in> set (take n xs). snd y \<le> now0 \<or> (\<exists>r. reads s0 \<le> r \<and> r < reads s' \<and> snd y \<le> clock r)"
      "\<forall>y \<in> set (drop n xs). reads s0 < reads s' \<and> clock (reads s' - 1) < snd y" using s0 by (auto simp: same_dpcs_def)
    have r: "reads s \<le> reads s0" "reads s \<le> reads s'" using s0(5) s'(6) by (auto split: if_splits)
    have due: "u \<le> now \<or> (\<exists>r. reads s \<le> r \<and> r < reads s' \<and> u \<le> clock r)" if "u \<le> now0" for u
      using that s0(5) s'(6) by (cases "now < t") (auto simp: now0_def intro!: exI[of _ "reads s"])
    have "snd y \<le> now \<or> (\<exists>r. reads s \<le> r \<and> r < reads s' \<and> snd y \<le> clock r)" if y: "y \<in> set (take (Suc n) (x # xs))" for y
    proof (cases "snd y \<le> now0")
      case True
      then show ?thesis by (rule due)
    next
      case nd: False
      then have "y \<in> set (take n xs)" using y False by (auto simp: x)
      then obtain r' where "reads s0 \<le> r'" "r' < reads s'" "snd y \<le> clock r'" using nd s'(9) by blast
      then show ?thesis using le_trans[OF r(1)] by blast
    qed
    then have "\<forall>y \<in> set (take (Suc n) (x # xs)). snd y \<le> now \<or> (\<exists>r. reads s \<le> r \<and> r < reads s' \<and> snd y \<le> clock r)" by blast
    moreover have "same_timers s s'" using s'(8) tr(3) s0(1) by (simp add: same_timers_def)
    moreover have "timer_loop clock now s = Some s'" using st False tr(1) s'(1) by (simp del: bind_Some_iff)
    moreover have "\<forall>y \<in> set (drop (Suc n) (x # xs)). reads s < reads s' \<and> clock (reads s' - 1) < snd y" using s'(10) r(1) by auto
    moreover have "fired s' = fired s @ map fst (take (Suc n) (x # xs))" "Suc n \<le> length (x # xs)" using s'(2,5) by (simp_all add: x)
    ultimately show ?thesis using s'(3,4,7) r(2) by (intro exI[of _ s'] exI[of _ "Suc n"]) (simp only: drop_Suc_Cons simp_thms)
  qed
qed

section \<open>The timer DPC\<close>

lemma pop_dpc_ok:
  assumes "dpcs_ok s (d # ds)"
  shows "\<exists>p. pop_dpc (dpcs s) = Some (d, p) \<and> dpcs_ok (s\<lparr>dpcs := p\<rparr>) ds \<and> dispatched p = dispatched (dpcs s) @ [d]"
proof -
  obtain h where "pop_front (dpc_heap (dpcs s)) (globalDpcList (dpcs s)) = Some (d, h)" "ring h (globalDpcList (dpcs s)) ds" "dom h = dom (dpc_heap (dpcs s))"
    using pop_front_ring[of "dpc_heap (dpcs s)" "globalDpcList (dpcs s)" d ds] assms by (auto simp: dpcs_ok_def dpc_ring_def)
  then show ?thesis using assms by (auto simp: pop_dpc_def dpcs_ok_def dpc_ring_def)
qed

lemma dispatch_step:
  assumes "dpcs_ok s (d # ds)" "pop_dpc (dpcs s) = Some (d, p)"
  shows "timer_dispatch_loop clock s = Option.bind (if d = timer_dpc s then timer_dpc_func clock (s\<lparr>dpcs := p\<rparr>) else Some (s\<lparr>dpcs := p\<rparr>)) (timer_dispatch_loop clock)"
  using assms ListHead_empty_ring[of "dpc_heap (dpcs s)" "globalDpcList (dpcs s)" "d # ds"]
  by (subst timer_dispatch_loop.simps) (simp add: dpcs_ok_def dpc_ring_def del: bind_Some_iff)

lemma dispatch_others:
  "queue_ok s xs \<Longrightarrow> dpcs_ok s ds \<Longrightarrow> timer_dpc s \<notin> set ds \<Longrightarrow>
     \<exists>p. timer_dispatch_loop clock s = Some (s\<lparr>dpcs := p\<rparr>) \<and> dpcs_ok (s\<lparr>dpcs := p\<rparr>) [] \<and> dispatched p = dispatched (dpcs s) @ ds"
proof (induction ds arbitrary: s)
  case Nil
  then have "timer_dispatch_loop clock s = Some (s\<lparr>dpcs := dpcs s\<rparr>)"
    using ListHead_empty_ring[of "dpc_heap (dpcs s)" "globalDpcList (dpcs s)" "[]"] by (subst timer_dispatch_loop.simps) (simp add: dpcs_ok_def dpc_ring_def)
  then show ?case using Nil by (intro exI[of _ "dpcs s"]) simp
next
  case (Cons d ds)
  obtain p where p: "pop_dpc (dpcs s) = Some (d, p)" "dpcs_ok (s\<lparr>dpcs := p\<rparr>) ds" "dispatched p = dispatched (dpcs s) @ [d]" using pop_dpc_ok[OF Cons.prems(2)] by blast
  have "queue_ok (s\<lparr>dpcs := p\<rparr>) xs" using Cons.prems(1) by (simp add: queue_ok_def)
  then show ?case using Cons.IH[OF _ p(2)] Cons.prems(3) dispatch_step[OF Cons.prems(2) p(1), of clock] p(3) by auto
qed

lemma timer_dpc_func_ok:
  assumes "queue_ok s xs"
  shows "\<exists>s' n. timer_dpc_func clock s = Some s' \<and> n \<le> length xs \<and> queue_ok s' (drop n xs) \<and> same_dpcs s s' \<and> same_timers s s' \<and>
    fired s' = fired s @ map fst (take n xs) \<and> (\<forall>x \<in> set (take n xs). \<exists>r. reads s \<le> r \<and> r < reads s' \<and> snd x \<le> clock r) \<and>
    (\<forall>x \<in> set (drop n xs). clock (reads s' - 1) < snd x \<and> next_expiry s' \<le> snd x)"
proof -
  let ?s = "s\<lparr>reads := Suc (reads s)\<rparr>"
  have "queue_ok ?s xs" using assms(1) by (simp add: queue_ok_def)
  from timer_loop_ok[OF this, of clock "clock (reads s)"] obtain s' n where s': "timer_loop clock (clock (reads s)) ?s = Some s'" "n \<le> length xs"
    "queue_ok s' (drop n xs)" "\<forall>x \<in> set (drop n xs). next_expiry s' \<le> snd x" "fired s' = fired s @ map fst (take n xs)" "Suc (reads s) \<le> reads s'"
    "same_dpcs ?s s'" "same_timers ?s s'" "\<forall>x \<in> set (take n xs). snd x \<le> clock (reads s) \<or> (\<exists>r. Suc (reads s) \<le> r \<and> r < reads s' \<and> snd x \<le> clock r)"
    "\<forall>x \<in> set (drop n xs). clock (reads s' - 1) < snd x" by auto
  have "\<exists>r. reads s \<le> r \<and> r < reads s' \<and> snd x \<le> clock r" if "x \<in> set (take n xs)" for x
    using s'(9)[rule_format, OF that] s'(6) by (metis Suc_leD le_refl less_eq_Suc_le)
  then show ?thesis using s'
    by (intro exI[of _ s'] exI[of _ n]) (simp add: timer_dpc_func_def ns_since_boot_def same_timers_def same_dpcs_def)
qed

lemma dpcs_ok_same: "same_dpcs s s' \<Longrightarrow> dpcs_ok s' ds = dpcs_ok s ds"
  by (simp add: same_dpcs_def dpcs_ok_def)

lemma same_timers_trans: "same_timers s s1 \<Longrightarrow> same_timers s1 s2 \<Longrightarrow> same_timers s s2"
  by (simp add: same_timers_def)

text \<open>Dispatching the pending DPCs \<open>ds\<close>, among them the timer DPC.\<close>

definition dispatch_result :: "(nat \<Rightarrow> u64) \<Rightarrow> ktimer_queue \<Rightarrow> addr list \<Rightarrow> (addr \<times> u64) list \<Rightarrow> ktimer_queue \<Rightarrow> nat \<Rightarrow> bool" where
  "dispatch_result clock s ds xs s' n \<longleftrightarrow> n \<le> length xs \<and> queue_ok s' (drop n xs) \<and> dpcs_ok s' [] \<and> same_timers s s' \<and> timer_dpc s' = timer_dpc s \<and>
     dispatched (dpcs s') = dispatched (dpcs s) @ ds \<and> fired s' = fired s @ map fst (take n xs) \<and>
     (\<forall>x \<in> set (take n xs). \<exists>r. reads s \<le> r \<and> r < reads s' \<and> snd x \<le> clock r) \<and>
     (\<forall>x \<in> set (drop n xs). clock (reads s' - 1) < snd x \<and> next_expiry s' \<le> snd x)"

lemma dispatch_timer:
  "queue_ok s xs \<Longrightarrow> dpcs_ok s ds \<Longrightarrow> timer_dpc s \<in> set ds \<Longrightarrow> \<exists>s' n. timer_dispatch_loop clock s = Some s' \<and> dispatch_result clock s ds xs s' n"
proof (induction ds arbitrary: s)
  case (Cons d ds)
  obtain p where p: "pop_dpc (dpcs s) = Some (d, p)" "dpcs_ok (s\<lparr>dpcs := p\<rparr>) ds" "dispatched p = dispatched (dpcs s) @ [d]" using pop_dpc_ok[OF Cons.prems(2)] by blast
  let ?s = "s\<lparr>dpcs := p\<rparr>"
  note st = dispatch_step[OF Cons.prems(2) p(1), of clock]
  have q: "queue_ok ?s xs" using Cons.prems(1) by (simp add: queue_ok_def)
  show ?case
  proof (cases "d = timer_dpc s")
    case False
    obtain s' n where "timer_dispatch_loop clock ?s = Some s'" "dispatch_result clock ?s ds xs s' n" using Cons.IH[OF q p(2)] Cons.prems(3) False by auto
    then show ?thesis using st False p(3) by (intro exI[of _ s'] exI[of _ n]) (simp add: dispatch_result_def same_timers_def)
  next
    case True
    obtain s1 n where s1: "timer_dpc_func clock ?s = Some s1" "n \<le> length xs" "queue_ok s1 (drop n xs)" "same_dpcs ?s s1" "same_timers ?s s1"
      "fired s1 = fired s @ map fst (take n xs)" "\<forall>x \<in> set (take n xs). \<exists>r. reads s \<le> r \<and> r < reads s1 \<and> snd x \<le> clock r"
      "\<forall>x \<in> set (drop n xs). clock (reads s1 - 1) < snd x \<and> next_expiry s1 \<le> snd x" using timer_dpc_func_ok[OF q, of clock] by auto
    have o: "dpcs_ok s1 ds" "timer_dpc s1 = timer_dpc s" "dpcs s1 = p" using p(2) dpcs_ok_same[OF s1(4)] s1(4) by (simp_all add: same_dpcs_def)
    have "timer_dpc s1 \<notin> set ds" using Cons.prems(2) True o(2) by (auto simp: dpcs_ok_def dpc_ring_def ring_def)
    then obtain p' where p': "timer_dispatch_loop clock s1 = Some (s1\<lparr>dpcs := p'\<rparr>)" "dpcs_ok (s1\<lparr>dpcs := p'\<rparr>) []" "dispatched p' = dispatched (dpcs s1) @ ds"
      using dispatch_others[OF s1(3) o(1)] by blast
    have "queue_ok (s1\<lparr>dpcs := p'\<rparr>) (drop n xs)" using s1(3) by (simp add: queue_ok_def)
    then show ?thesis using st True s1 p' o p(3)
      by (intro exI[of _ "s1\<lparr>dpcs := p'\<rparr>"] exI[of _ n]) (simp add: dispatch_result_def same_timers_def)
  qed
qed simp

lemma run_dpc_ok:
  assumes "queue_ok s xs" "dpcs_ok s ds" "timer_dpc s \<in> set ds"
  shows "\<exists>s' n. run_timer_dpc clock s = Some s' \<and> dispatch_result clock s ds xs s' n"
proof -
  obtain s' n where s': "timer_dispatch_loop clock s = Some s'" "dispatch_result clock s ds xs s' n" using dispatch_timer[OF assms] by blast
  let ?s = "s'\<lparr>dpcs := (dpcs s')\<lparr>reschedules := reschedules (dpcs s') + 1\<rparr>\<rparr>"
  have "queue_ok ?s (drop n xs) = queue_ok s' (drop n xs)" "dpcs_ok ?s [] = dpcs_ok s' []" by (simp_all add: queue_ok_def dpcs_ok_def dpc_ring_def)
  then have "dispatch_result clock s ds xs ?s n" using s'(2) by (simp add: dispatch_result_def same_timers_def)
  then show ?thesis using s' by (auto simp: run_timer_dpc_def)
qed

lemma run_others_ok:
  assumes "queue_ok s xs" "dpcs_ok s ds" "timer_dpc s \<notin> set ds"
  shows "\<exists>p. run_timer_dpc clock s = Some (s\<lparr>dpcs := p\<rparr>) \<and> dpcs_ok (s\<lparr>dpcs := p\<rparr>) []"
proof -
  obtain p where p: "timer_dispatch_loop clock s = Some (s\<lparr>dpcs := p\<rparr>)" "dpcs_ok (s\<lparr>dpcs := p\<rparr>) []" using dispatch_others[OF assms] by blast
  then show ?thesis
    by (intro exI[of _ "if pending_reschedule p then p\<lparr>reschedules := reschedules p + 1\<rparr> else p"]) (simp add: run_timer_dpc_def dpcs_ok_def dpc_ring_def)
qed

section \<open>Interrupts\<close>

lemma enqueue_dpc_ok:
  assumes "dpcs_ok s ds" "timer_dpc s \<notin> set ds"
  shows "\<exists>p. DPC_enqueue (timer_dpc s) (dpcs s) = Some (True, p) \<and> dpcs_ok (s\<lparr>dpcs := p\<rparr>) (ds @ [timer_dpc s])"
proof -
  obtain h where "push_back (dpc_heap (dpcs s)) (globalDpcList (dpcs s)) (timer_dpc s) = Some h" "ring h (globalDpcList (dpcs s)) (ds @ [timer_dpc s])"
    "dom h = dom (dpc_heap (dpcs s))"
    using push_back_ring[of "dpc_heap (dpcs s)" "globalDpcList (dpcs s)" ds "timer_dpc s"] assms by (auto simp: dpcs_ok_def dpc_ring_def)
  then show ?thesis using assms by (simp add: DPC_enqueue_def dpcs_ok_def dpc_ring_def)
qed

lemma interrupt_ok:
  assumes "queue_ok s xs" "dpcs_ok s ds" "timer_dpc s \<notin> set ds" "armed s ds xs"
  shows "\<exists>s' ds'. ktimer_handle_timer_interrupt clock s = Some s' \<and> queue_ok s' xs \<and> dpcs_ok s' ds' \<and> armed s' ds' xs \<and> same_timers s s' \<and>
    ds' = (if next_expiry s \<le> clock (reads s) then ds @ [timer_dpc s] else ds)"
proof (cases "next_expiry s \<le> clock (reads s)")
  case True
  obtain p where p: "DPC_enqueue (timer_dpc s) (dpcs s) = Some (True, p)" "dpcs_ok (s\<lparr>dpcs := p\<rparr>) (ds @ [timer_dpc s])" using enqueue_dpc_ok[OF assms(2,3)] by blast
  then show ?thesis using True assms by (auto simp: ktimer_handle_timer_interrupt_def ns_since_boot_def queue_ok_def dpcs_ok_def armed_def same_timers_def Let_def)
next
  case False
  then show ?thesis using assms by (auto simp: ktimer_handle_timer_interrupt_def ns_since_boot_def queue_ok_def dpcs_ok_def armed_def same_timers_def Let_def)
qed

text \<open>Between two timer interrupts the pending DPCs are dispatched; \<open>p\<close> says whether there was an interrupt since.\<close>

fun interrupts_apart :: "bool \<Rightarrow> ktimer_op list \<Rightarrow> bool" where
  "interrupts_apart p [] \<longleftrightarrow> True"
| "interrupts_apart p (Timer_interrupt # xs) \<longleftrightarrow> \<not> p \<and> interrupts_apart True xs"
| "interrupts_apart p (Timer_dpc # xs) \<longleftrightarrow> interrupts_apart False xs"
| "interrupts_apart p (_ # xs) \<longleftrightarrow> interrupts_apart p xs"

definition timers_ok :: "bool \<Rightarrow> ktimer_queue \<Rightarrow> (addr \<times> u64) list \<Rightarrow> addr list \<Rightarrow> bool" where
  "timers_ok p s xs ds \<longleftrightarrow> queue_ok s xs \<and> dpcs_ok s ds \<and> armed s ds xs \<and> (timer_dpc s \<in> set ds \<longrightarrow> p)"

lemma timers_ok_same: "queue_ok s' xs' \<Longrightarrow> armed s' ds xs' \<Longrightarrow> same_dpcs s s' \<Longrightarrow> timers_ok p s xs ds \<Longrightarrow> timers_ok p s' xs' ds"
  using dpcs_ok_same[of s s' ds] by (simp add: timers_ok_def same_dpcs_def)

lemma step_ok:
  assumes ok: "timers_ok p s xs ds" and "\<forall>a t. x = Enqueue_timer a t \<longrightarrow> live s a \<noteq> None" and "interrupts_apart p (x # ops)"
  shows "\<exists>s' xs' ds' p'. ktimer_step clock x s = Some s' \<and> timers_ok p' s' xs' ds' \<and> same_timers s s' \<and> interrupts_apart p' ops"
proof (cases x)
  case (Enqueue_timer a t)
  then have ap: "interrupts_apart p ops" using assms(3) by simp
  show ?thesis
  proof (cases "on_queue s a")
    case True
    then show ?thesis using ok ap Enqueue_timer by (auto simp: KTimer_enqueue_def same_timers_def)
  next
    case False
    then obtain s' xs' where "KTimer_enqueue a t s = Some (True, s')" "queue_ok s' xs'" "armed s' ds xs'" "same_timers s s'" "same_dpcs s s'"
      using enqueue_ok[of s xs ds a t] ok assms(2) Enqueue_timer unfolding timers_ok_def by blast
    moreover from this have "timers_ok p s' xs' ds" using timers_ok_same[OF _ _ _ ok] by blast
    ultimately show ?thesis using ap Enqueue_timer by auto
  qed
next
  case (Remove_timer a)
  then have ap: "interrupts_apart p ops" using assms(3) by simp
  show ?thesis
  proof (cases "on_queue s a")
    case True
    then obtain t where "(a, t) \<in> set xs" using ok by (auto simp: timers_ok_def queue_ok_def)
    then obtain ys zs where "xs = ys @ (a, t) # zs" using split_list by metis
    then obtain s' xs' where "KTimer_remove a s = Some (True, s')" "queue_ok s' xs'" "armed s' ds xs'" "same_timers s s'" "same_dpcs s s'"
      using remove_ok[of s ys a t zs ds] ok unfolding timers_ok_def by blast
    moreover from this have "timers_ok p s' xs' ds" using timers_ok_same[OF _ _ _ ok] by blast
    ultimately show ?thesis using ap Remove_timer by auto
  next
    case False
    then show ?thesis using ok ap Remove_timer by (auto simp: KTimer_remove_def same_timers_def)
  qed
next
  case Timer_interrupt
  then have i: "timer_dpc s \<notin> set ds" "interrupts_apart True ops" using assms(3) ok by (auto simp: timers_ok_def)
  then obtain s' ds' where "ktimer_handle_timer_interrupt clock s = Some s'" "queue_ok s' xs" "dpcs_ok s' ds'" "armed s' ds' xs" "same_timers s s'"
    using interrupt_ok[of s xs ds clock] ok unfolding timers_ok_def by blast
  moreover from this have "timers_ok True s' xs ds'" by (simp add: timers_ok_def)
  ultimately show ?thesis using i(2) Timer_interrupt by auto
next
  case Timer_dpc
  then have ap: "interrupts_apart False ops" using assms(3) by simp
  show ?thesis
  proof (cases "timer_dpc s \<in> set ds")
    case True
    then obtain s' n where "run_timer_dpc clock s = Some s'" "dispatch_result clock s ds xs s' n" using run_dpc_ok[of s xs ds clock] ok unfolding timers_ok_def by blast
    moreover from this(2) have "timers_ok False s' (drop n xs) []" "same_timers s s'" by (simp_all add: dispatch_result_def timers_ok_def armed_def)
    ultimately show ?thesis using ap Timer_dpc by auto
  next
    case False
    then obtain q where "run_timer_dpc clock s = Some (s\<lparr>dpcs := q\<rparr>)" "dpcs_ok (s\<lparr>dpcs := q\<rparr>) []" using run_others_ok[of s xs ds clock] ok unfolding timers_ok_def by blast
    moreover have "timers_ok False (s\<lparr>dpcs := q\<rparr>) xs []" "same_timers s (s\<lparr>dpcs := q\<rparr>)"
      using ok False calculation(2) by (simp_all add: timers_ok_def queue_ok_def armed_def same_timers_def)
    ultimately show ?thesis using ap Timer_dpc by auto
  qed
qed

lemma run_ok:
  "timers_ok p s xs ds \<Longrightarrow> \<forall>a t. Enqueue_timer a t \<in> set ops \<longrightarrow> live s a \<noteq> None \<Longrightarrow> interrupts_apart p ops \<Longrightarrow>
     \<exists>s' xs' ds' p'. ktimer_run clock ops s = Some s' \<and> timers_ok p' s' xs' ds'"
proof (induction ops arbitrary: p s xs ds)
  case (Cons x ops)
  have en: "\<forall>a t. x = Enqueue_timer a t \<longrightarrow> live s a \<noteq> None" using Cons.prems(2) by (metis list.set_intros(1))
  obtain s1 xs1 ds1 p1 where 1: "ktimer_step clock x s = Some s1" "timers_ok p1 s1 xs1 ds1" "same_timers s s1" "interrupts_apart p1 ops"
    using step_ok[OF Cons.prems(1) en Cons.prems(3), of clock] by blast
  have "\<forall>a t. Enqueue_timer a t \<in> set ops \<longrightarrow> live s1 a \<noteq> None" using Cons.prems(2) 1(3) by (auto simp: same_timers_def)
  then show ?case using Cons.IH[OF 1(2) _ 1(4)] 1(1) by simp
qed auto

section \<open>Properties\<close>

text \<open>
  (C20) Dispatching the pending DPCs, each of which is pending once and among which is the timer DPC, runs all of them in order. The
  timer DPC calls exactly the timers at the front of the queue, in the order of their expiry, each not before the clock has reached its
  expiry; those that stay have not expired at the last reading of the clock, and the next interrupt is set for them.
\<close>

theorem ktimer_fires_due:
  assumes "queue_ok s xs" and "dpcs_ok s ds" and "timer_dpc s \<in> set ds"
  shows "\<exists>s' n. run_timer_dpc clock s = Some s' \<and> queue_ok s' (drop n xs) \<and> dpcs_ok s' [] \<and> dispatched (dpcs s') = dispatched (dpcs s) @ ds \<and>
    fired s' = fired s @ map fst (take n xs) \<and>
    (\<forall>x \<in> set (take n xs). \<exists>r. reads s \<le> r \<and> r < reads s' \<and> snd x \<le> clock r) \<and>
    (\<forall>x \<in> set (drop n xs). clock (reads s' - 1) < snd x \<and> next_expiry s' \<le> snd x)"
  using run_dpc_ok[OF assms, of clock] unfolding dispatch_result_def by blast

definition two_timers :: "u64 avl_heap" where
  "two_timers = [1 \<mapsto> \<lparr>child = case_dir nullptr nullptr, parent = nullptr, avl_height = 1, \<dots> = 5\<rparr>,
     2 \<mapsto> \<lparr>child = case_dir nullptr nullptr, parent = nullptr, avl_height = 1, \<dots> = 0\<rparr>]"

lemma init_dpcs_ok: "dpcs_ok (ktimer_percpu_init h 1 sample_dpcs) []"
  by (simp add: dpcs_ok_def ktimer_percpu_init_def DPC_init_def sample_dpcs_def dpc_ring_def sample_list_heap_def ring_def link_def get_next_def get_prev_def)

definition one_queued :: ktimer_queue where
  "one_queued = (ktimer_percpu_init two_timers 1 sample_dpcs)\<lparr>timer_tree := \<lparr>m_root = Some 1, nodes = two_timers\<rparr>, on_queue := (\<lambda>a. a = 1), next_expiry := 5\<rparr>"

lemma one_queued_ok: "queue_ok one_queued [(1, 5)]" "dpcs_ok one_queued []" "fired one_queued = []" "timer_dpc one_queued = 1" "reads one_queued = 0" "next_expiry one_queued = 5"
proof -
  have "linked \<lparr>m_root = Some 1, nodes = two_timers\<rparr> [(1, 5)]" unfolding linked_def
    by (rule exI[of _ "\<langle>\<langle>\<rangle>, (1, 1, 5), \<langle>\<rangle>\<rangle>"]) (simp add: represents_def two_timers_def)
  then show "queue_ok one_queued [(1, 5)]" by (auto simp: queue_ok_def one_queued_def)
  show "dpcs_ok one_queued []" using init_dpcs_ok[of two_timers] by (simp add: dpcs_ok_def one_queued_def)
qed (simp_all add: one_queued_def ktimer_percpu_init_def)

text \<open>After an interrupt at time 10 the timer DPC is pending.\<close>

lemma one_pending: "\<exists>s. ktimer_handle_timer_interrupt (\<lambda>_. 10) one_queued = Some s \<and> queue_ok s [(1, 5)] \<and> dpcs_ok s [1] \<and> timer_dpc s = 1 \<and> fired s = [] \<and>
   live s 2 \<noteq> None \<and> 0xcafebabe \<notin> dom (dpc_heap (dpcs s))"
proof -
  obtain p where p: "DPC_enqueue 1 (dpcs one_queued) = Some (True, p)" "dpcs_ok (one_queued\<lparr>dpcs := p\<rparr>) [1]"
    using enqueue_dpc_ok[OF one_queued_ok(2)] one_queued_ok(4) by auto
  have dom: "0xcafebabe \<notin> dom (dpc_heap p)" "live one_queued 2 \<noteq> None"
    using p(1) by (auto simp: DPC_enqueue_def one_queued_def ktimer_percpu_init_def DPC_init_def sample_dpcs_def sample_list_heap_def two_timers_def get_object_def
        push_back_def get_prev_def set_prev_def set_next_def)
  let ?s = "one_queued\<lparr>reads := 1, next_expiry := expire_never, dpcs := p\<rparr>"
  have "ktimer_handle_timer_interrupt (\<lambda>_. 10) one_queued = Some ?s"
    using p(1) one_queued_ok(4-6) by (simp add: ktimer_handle_timer_interrupt_def ns_since_boot_def Let_def del: bind_Some_iff)
  moreover have "queue_ok ?s [(1, 5)]" "dpcs_ok ?s [1]" using one_queued_ok(1) p(2) by (simp_all add: queue_ok_def dpcs_ok_def)
  ultimately show ?thesis using one_queued_ok(3,4) dom by simp
qed

theorem ktimer_fires_due_witness:
  "\<exists>s s'. ktimer_handle_timer_interrupt (\<lambda>_. 10) one_queued = Some s \<and> run_timer_dpc (\<lambda>_. 10) s = Some s' \<and> fired s' = [1] \<and> queue_ok s' []"
proof -
  let ?xs = "[(1, 5)] :: (addr \<times> u64) list"
  obtain s where s: "ktimer_handle_timer_interrupt (\<lambda>_. 10) one_queued = Some s" "queue_ok s ?xs" "dpcs_ok s [1]" "timer_dpc s = 1" "fired s = []" using one_pending by blast
  have "timer_dpc s \<in> set [1]" using s(4) by simp
  from ktimer_fires_due[OF s(2,3) this, of "\<lambda>_. 10"] obtain s' n where s': "run_timer_dpc (\<lambda>_. 10) s = Some s'" "queue_ok s' (drop n ?xs)"
    "fired s' = fired s @ map fst (take n ?xs)" "\<forall>x \<in> set (drop n ?xs). 10 < snd x \<and> next_expiry s' \<le> snd x" by blast
  have "n \<noteq> 0" using s'(4) by (cases n) auto
  then show ?thesis using s' s(1,5) by (cases n) auto
qed

text \<open>
  (C21) No timer is missed as long as the pending DPCs are dispatched between any two timer interrupts: after any such sequence of operations on the
  queue, interrupts and dispatches, which is always defined, the pending DPCs form a proper list, and whenever some queued timer has
  expired, the timer DPC is pending or the next interrupt makes it pending.
\<close>

theorem ktimer_never_missed:
  assumes "\<forall>a t. Enqueue_timer a t \<in> set ops \<longrightarrow> get_object h a \<noteq> None" and "interrupts_apart False ops"
    and "dpcs_ok (ktimer_percpu_init h d p) []"
  shows "\<exists>s xs ds. ktimer_run clock ops (ktimer_percpu_init h d p) = Some s \<and> queue_ok s xs \<and> dpcs_ok s ds \<and>
    ((\<exists>x \<in> set xs. snd x \<le> clock (reads s)) \<longrightarrow>
       timer_dpc s \<in> set ds \<or> (\<exists>s'. ktimer_handle_timer_interrupt clock s = Some s' \<and> dpcs_ok s' (ds @ [timer_dpc s'])))"
proof -
  have "linked \<lparr>m_root = nullptr, nodes = h\<rparr> []" unfolding linked_def by (rule exI[of _ "\<langle>\<rangle>"]) (simp add: represents_def)
  then have "timers_ok False (ktimer_percpu_init h d p) [] []" using assms(3) by (simp add: timers_ok_def queue_ok_def armed_def ktimer_percpu_init_def)
  from run_ok[OF this _ assms(2), of clock] assms(1) obtain s xs ds q where s: "ktimer_run clock ops (ktimer_percpu_init h d p) = Some s" "timers_ok q s xs ds"
    by (auto simp: ktimer_percpu_init_def)
  have "\<exists>s'. ktimer_handle_timer_interrupt clock s = Some s' \<and> dpcs_ok s' (ds @ [timer_dpc s'])"
    if x: "x \<in> set xs" "snd x \<le> clock (reads s)" and n: "timer_dpc s \<notin> set ds" for x
  proof -
    have "next_expiry s \<le> clock (reads s)" using s(2) x n order_trans unfolding timers_ok_def armed_def by blast
    moreover obtain p' where p': "DPC_enqueue (timer_dpc s) (dpcs s) = Some (True, p')" "dpcs_ok (s\<lparr>dpcs := p'\<rparr>) (ds @ [timer_dpc s])"
      using enqueue_dpc_ok[of s ds] s(2) n by (auto simp: timers_ok_def)
    ultimately show ?thesis by (simp add: ktimer_handle_timer_interrupt_def ns_since_boot_def Let_def dpcs_ok_def)
  qed
  then show ?thesis using s unfolding timers_ok_def by blast
qed

theorem ktimer_never_missed_witness:
  "\<exists>s xs ds. ktimer_run (\<lambda>_. 10) [Enqueue_timer 1 7, Timer_interrupt, Timer_dpc, Enqueue_timer 1 8, Timer_interrupt] (ktimer_percpu_init two_timers 1 sample_dpcs) = Some s \<and>
     queue_ok s xs \<and> dpcs_ok s ds"
proof -
  have "\<forall>a t. Enqueue_timer a t \<in> set [Enqueue_timer 1 7, Timer_interrupt, Timer_dpc, Enqueue_timer 1 8, Timer_interrupt] \<longrightarrow> get_object two_timers a \<noteq> None"
    by (simp add: two_timers_def get_object_def)
  from ktimer_never_missed[OF this _ init_dpcs_ok, of "\<lambda>_. 10"] show ?thesis by auto
qed

text \<open>
  The timer DPC must not be enqueued twice: when it is the only pending DPC and another interrupt finds a timer expired, as happens when a timer
  is enqueued between two interrupts while DPCs are disabled, the interrupt links it into the list once more. The dispatcher then
  runs it, finds the list still not empty, and removes the entry a second time, writing through its poisoned links.
\<close>

theorem ktimer_second_interrupt:
  assumes "queue_ok s xs" and "dpcs_ok s [timer_dpc s]" and "next_expiry s \<le> clock (reads s)" and "0xcafebabe \<notin> dom (dpc_heap (dpcs s))"
  shows "\<exists>s'. ktimer_handle_timer_interrupt clock s = Some s' \<and> run_timer_dpc clock s' = None"
proof -
  let ?x = "timer_dpc s" and ?l = "globalDpcList (dpcs s)" and ?h = "dpc_heap (dpcs s)"
  obtain nl nx where n: "?h ?l = Some nl" "l_next nl = ?x" "l_prev nl = ?x" "?h ?x = Some nx" "?l \<noteq> ?x"
    using assms(2) by (auto simp: dpcs_ok_def dpc_ring_def ring_def link_def get_next_def get_prev_def)
  let ?h1 = "?h(?x \<mapsto> nx\<lparr>l_prev := ?x, l_next := ?x\<rparr>, ?l \<mapsto> nl\<lparr>l_prev := ?x\<rparr>)"
  let ?p1 = "(dpcs s)\<lparr>dpc_heap := ?h1, pending_dpc := True\<rparr>"
  let ?s1 = "s\<lparr>reads := Suc (reads s), next_expiry := expire_never, dpcs := ?p1\<rparr>"
  have "push_back ?h ?l ?x = Some ?h1" using n by (simp add: push_back_def get_prev_def set_prev_def set_next_def fun_upd_twist del: bind_Some_iff)
  then have int: "ktimer_handle_timer_interrupt clock s = Some ?s1"
    using assms(2,3) by (simp add: ktimer_handle_timer_interrupt_def ns_since_boot_def DPC_enqueue_def dpcs_ok_def Let_def del: bind_Some_iff)
  let ?h2 = "?h1(?x \<mapsto> nx\<lparr>l_prev := 0xdeadbeef, l_next := 0xcafebabe\<rparr>)"
  let ?p2 = "?p1\<lparr>dpc_heap := ?h2, m_is_enqueued := (m_is_enqueued ?p1)(?x := False), dispatched := dispatched ?p1 @ [?x]\<rparr>"
  have pop1: "pop_dpc ?p1 = Some (?x, ?p2)" and e1: "ListHead_empty ?h1 ?l = Some False"
    using n by (simp_all add: pop_dpc_def pop_front_def ListHead_remove_def ListHead_empty_def get_prev_def get_next_def set_prev_def set_next_def del: bind_Some_iff)
  have "queue_ok (?s1\<lparr>dpcs := ?p2\<rparr>) xs" using assms(1) by (simp add: queue_ok_def)
  then obtain s2 where s2: "timer_dpc_func clock (?s1\<lparr>dpcs := ?p2\<rparr>) = Some s2" "same_dpcs (?s1\<lparr>dpcs := ?p2\<rparr>) s2" using timer_dpc_func_ok by blast
  have d2: "dpcs s2 = ?p2" using s2(2) by (simp add: same_dpcs_def)
  have "ListHead_empty ?h2 ?l = Some False" "pop_dpc ?p2 = None"
    using n assms(4) by (auto simp: pop_dpc_def pop_front_def ListHead_remove_def ListHead_empty_def get_prev_def get_next_def set_prev_def set_next_def dom_def)
  then have "timer_dispatch_loop clock s2 = None" using d2 by (subst timer_dispatch_loop.simps) simp
  moreover have "timer_dispatch_loop clock ?s1 = timer_dispatch_loop clock s2"
    using pop1 e1 s2(1) by (subst timer_dispatch_loop.simps) (simp del: bind_Some_iff)
  ultimately show ?thesis using int by (simp add: run_timer_dpc_def)
qed

lemma enqueue_expiry: "KTimer_enqueue a t s = Some (True, s') \<Longrightarrow> next_expiry s' \<le> t"
  by (cases "t < next_expiry s") (auto simp: KTimer_enqueue_def Let_def not_less split: if_splits)

theorem ktimer_second_interrupt_witness:
  "\<exists>s1 s2 s3. ktimer_handle_timer_interrupt (\<lambda>_. 10) one_queued = Some s1 \<and> KTimer_enqueue 2 7 s1 = Some (True, s2) \<and>
     ktimer_handle_timer_interrupt (\<lambda>_. 10) s2 = Some s3 \<and> run_timer_dpc (\<lambda>_. 10) s3 = None"
proof -
  obtain s where s: "ktimer_handle_timer_interrupt (\<lambda>_. 10) one_queued = Some s" "queue_ok s [(1, 5)]" "dpcs_ok s [1]" "timer_dpc s = 1" "live s 2 \<noteq> None"
    "0xcafebabe \<notin> dom (dpc_heap (dpcs s))" using one_pending by blast
  have "\<not> on_queue s 2" "armed s [1] [(1, 5)]" using s(2,4) by (simp_all add: queue_ok_def armed_def)
  then obtain s2 xs where s2: "KTimer_enqueue 2 7 s = Some (True, s2)" "queue_ok s2 xs" "same_dpcs s s2" using enqueue_ok[OF s(2) _ _ s(5)] by blast
  have "dpcs_ok s2 [timer_dpc s2]" "0xcafebabe \<notin> dom (dpc_heap (dpcs s2))" using s(3,4,6) dpcs_ok_same[OF s2(3)] s2(3) by (simp_all add: same_dpcs_def)
  moreover have "next_expiry s2 \<le> 10" using enqueue_expiry[OF s2(1)] by (rule order_trans) simp
  ultimately show ?thesis using ktimer_second_interrupt[OF s2(2), of "\<lambda>_. 10"] s(1) s2(1) by blast
qed

end
