(* ===== verification/Kernel_Cpuset.thy ===== *)
theory Kernel_Cpuset
  imports Davix_Prelude
begin

text \<open>
  Sets of processors (\<^verbatim>\<open>include/davix/cpuset.h\<close>, \<^verbatim>\<open>kernel/cpuset.cc\<close>): bitmaps of 64-bit words. The number of words, a constant
  of the build, is the length of the list; an access behind the bitmap is undefined (\<^const>\<open>None\<close>). Processor
  numbers are 32-bit, and \<open>no_cpu\<close> is the number that marks the end of an iteration.
\<close>

unbundle bit_operations_syntax

section \<open>Operations\<close>

type_synonym cpuset = "u64 list"

definition cpu_word :: "nat \<Rightarrow> nat" where "cpu_word cpu = cpu div 64"

definition cpu_bit :: "nat \<Rightarrow> u64" where "cpu_bit cpu = push_bit (cpu mod 64) 1"

definition cpuset_set :: "cpuset \<Rightarrow> nat \<Rightarrow> cpuset option" where
  "cpuset_set b cpu = (if cpu_word cpu < length b then Some (b[cpu_word cpu := b ! cpu_word cpu OR cpu_bit cpu]) else None)"

definition cpuset_clear :: "cpuset \<Rightarrow> nat \<Rightarrow> cpuset option" where
  "cpuset_clear b cpu = (if cpu_word cpu < length b then Some (b[cpu_word cpu := b ! cpu_word cpu AND NOT (cpu_bit cpu)]) else None)"

definition cpuset_get :: "cpuset \<Rightarrow> nat \<Rightarrow> bool option" where
  "cpuset_get b cpu = (if cpu_word cpu < length b then Some (b ! cpu_word cpu AND cpu_bit cpu \<noteq> 0) else None)"

definition no_cpu :: nat where "no_cpu = 2 ^ 32 - 1"

function cpuset_next :: "nat \<Rightarrow> cpuset \<Rightarrow> nat \<Rightarrow> nat option" where
  "cpuset_next nr_cpus b cpu = (
     if cpu < nr_cpus then do {
       g \<leftarrow> cpuset_get b cpu;
       if g then Some cpu else cpuset_next nr_cpus b (cpu + 1)
     } else Some no_cpu)"
  by pat_completeness auto
termination
  by (relation "measure (\<lambda>(nr_cpus, b, cpu). nr_cpus - cpu)") auto

declare cpuset_next.simps [simp del]

definition cpuset_advance :: "nat \<Rightarrow> cpuset \<Rightarrow> nat \<Rightarrow> nat option" where
  "cpuset_advance nr_cpus b cpu = cpuset_next nr_cpus b ((cpu + 1) mod 2 ^ 32)"

text \<open>The loop over a set, collecting the processors it visits.\<close>

partial_function (option) cpuset_iterate :: "nat \<Rightarrow> cpuset \<Rightarrow> nat \<Rightarrow> nat list option" where
  "cpuset_iterate nr_cpus b cpu = (
     if cpu = no_cpu then Some []
     else do {
       n \<leftarrow> cpuset_advance nr_cpus b cpu;
       rest \<leftarrow> cpuset_iterate nr_cpus b n;
       Some (cpu # rest)
     })"

definition cpuset_elements :: "nat \<Rightarrow> cpuset \<Rightarrow> nat list option" where
  "cpuset_elements nr_cpus b = do { n \<leftarrow> cpuset_next nr_cpus b 0; cpuset_iterate nr_cpus b n }"

record cpusets =
  nr_cpus :: nat
  cpu_online :: cpuset
  cpu_present :: cpuset

definition cpuset_init :: "cpusets \<Rightarrow> cpusets option" where
  "cpuset_init s = do {
     p \<leftarrow> cpuset_set (cpu_present s) 0;
     let s = s\<lparr>cpu_present := p\<rparr>;
     l \<leftarrow> cpuset_set (cpu_online s) 0;
     Some (s\<lparr>cpu_online := l\<rparr>)
   }"

definition set_nr_cpus :: "nat \<Rightarrow> cpusets \<Rightarrow> cpusets" where
  "set_nr_cpus cpus s = s\<lparr>nr_cpus := cpus\<rparr>"

section \<open>Membership\<close>

definition mem :: "cpuset \<Rightarrow> nat \<Rightarrow> bool" where
  "mem b cpu \<longleftrightarrow> cpu div 64 < length b \<and> bit (b ! (cpu div 64)) (cpu mod 64)"

lemma bit_cpu_bit: "bit (cpu_bit cpu) n \<longleftrightarrow> n = cpu mod 64"
  by (auto simp: cpu_bit_def bit_exp_iff)

lemma and_cpu_bit: "w AND cpu_bit cpu \<noteq> 0 \<longleftrightarrow> bit w (cpu mod 64)" for w :: u64
proof -
  have "w AND cpu_bit cpu \<noteq> 0 \<longleftrightarrow> (\<exists>n. bit (w AND cpu_bit cpu) n)" by (metis bit_0_eq bit_eqI bot_apply bot_bool_def)
  then show ?thesis by (auto simp: bit_and_iff bit_cpu_bit)
qed

lemma get_mem: "cpu div 64 < length b \<Longrightarrow> cpuset_get b cpu = Some (mem b cpu)"
  by (simp add: cpuset_get_def cpu_word_def and_cpu_bit mem_def)

lemma other_cpu: "c div 64 = cpu div 64 \<Longrightarrow> c mod 64 = cpu mod 64 \<longleftrightarrow> c = cpu" for c cpu :: nat
  by (metis mult_div_mod_eq)

lemma set_mem: "cpu div 64 < length b \<Longrightarrow> \<exists>b'. cpuset_set b cpu = Some b' \<and> length b' = length b \<and> (\<forall>c. mem b' c \<longleftrightarrow> c = cpu \<or> mem b c)"
  using other_cpu by (auto simp: cpuset_set_def cpu_word_def mem_def nth_list_update bit_or_iff bit_cpu_bit)

lemma clear_mem: "cpu div 64 < length b \<Longrightarrow> \<exists>b'. cpuset_clear b cpu = Some b' \<and> length b' = length b \<and> (\<forall>c. mem b' c \<longleftrightarrow> c \<noteq> cpu \<and> mem b c)"
  using other_cpu by (auto simp: cpuset_clear_def cpu_word_def mem_def nth_list_update bit_and_iff bit_not_iff bit_cpu_bit)

lemma next_mem:
  "nr \<le> 64 * length b \<Longrightarrow> cpu \<le> nr \<Longrightarrow> cpuset_next nr b cpu = Some (case filter (mem b) [cpu ..< nr] of [] \<Rightarrow> no_cpu | c # _ \<Rightarrow> c)"
proof (induction "nr - cpu" arbitrary: cpu)
  case 0
  then show ?case by (subst cpuset_next.simps) simp
next
  case (Suc n)
  then have c: "cpu < nr" "cpu div 64 < length b" by auto
  then show ?case using Suc.hyps(1)[of "cpu + 1"] Suc.hyps(2) Suc.prems get_mem[OF c(2)]
    by (subst cpuset_next.simps) (simp add: upt_conv_Cons)
qed

lemma filter_next: "filter P [i ..< n] = c # cs \<Longrightarrow> i \<le> c \<and> c < n \<and> filter P [Suc c ..< n] = cs"
proof (induction "n - i" arbitrary: i)
  case (Suc k)
  then have "i < n" "k = n - Suc i" by linarith+
  then show ?case using Suc.hyps(1)[of "Suc i"] Suc.prems by (cases "P i") (auto simp: upt_conv_Cons)
qed simp

lemma iterate_mem:
  "nr \<le> 64 * length b \<Longrightarrow> nr < 2 ^ 32 \<Longrightarrow> cs = filter (mem b) [i ..< nr] \<Longrightarrow>
     cpuset_iterate nr b (case cs of [] \<Rightarrow> no_cpu | c # _ \<Rightarrow> c) = Some cs"
proof (induction cs arbitrary: i)
  case Nil
  then show ?case by (subst cpuset_iterate.simps) simp
next
  case (Cons c cs)
  note f = filter_next[OF Cons.prems(3)[symmetric]]
  have "c \<noteq> no_cpu" "(c + 1) mod 2 ^ 32 = Suc c" using f Cons.prems(2) by (auto simp: no_cpu_def)
  moreover have "cpuset_next nr b (Suc c) = Some (case cs of [] \<Rightarrow> no_cpu | c # _ \<Rightarrow> c)" using next_mem[OF Cons.prems(1), of "Suc c"] f by simp
  moreover have "cpuset_iterate nr b (case cs of [] \<Rightarrow> no_cpu | c # _ \<Rightarrow> c) = Some cs" by (rule Cons.IH[OF Cons.prems(1,2), of "Suc c"]) (use f in simp)
  ultimately show ?case by (subst cpuset_iterate.simps) (simp add: cpuset_advance_def)
qed

section \<open>Properties\<close>

text \<open>
  (C37) Iterating over a set of processors ends and visits exactly the members below the number of processors, in
  ascending order; adding and removing a processor change the membership of that processor only.
\<close>

theorem cpuset_iteration:
  assumes "nr \<le> 64 * length b" and "nr < 2 ^ 32" and "cpu < nr"
  shows "cpuset_elements nr b = Some (filter (\<lambda>c. cpuset_get b c = Some True) [0 ..< nr]) \<and>
    (\<exists>b'. cpuset_set b cpu = Some b' \<and> cpuset_elements nr b' = Some (filter (\<lambda>c. c = cpu \<or> cpuset_get b c = Some True) [0 ..< nr])) \<and>
    (\<exists>b'. cpuset_clear b cpu = Some b' \<and> cpuset_elements nr b' = Some (filter (\<lambda>c. c \<noteq> cpu \<and> cpuset_get b c = Some True) [0 ..< nr]))"
proof -
  have w: "c div 64 < length b" if "c < nr" for c using assms(1) that by auto
  have el: "cpuset_elements nr a = Some (filter (mem a) [0 ..< nr])" if "length a = length b" for a
    using next_mem[of nr a 0] iterate_mem[of nr a _ 0] assms that by (simp add: cpuset_elements_def)
  have g: "cpuset_get b c = Some True \<longleftrightarrow> mem b c" if "c < nr" for c using get_mem[OF w[OF that]] by simp
  have f: "filter P [0 ..< nr] = filter Q [0 ..< nr]" if "\<And>c. c < nr \<Longrightarrow> P c = Q c" for P Q using that by (intro filter_cong) auto
  obtain b1 where b1: "cpuset_set b cpu = Some b1" "length b1 = length b" "\<forall>c. mem b1 c \<longleftrightarrow> c = cpu \<or> mem b c" using set_mem[OF w[OF assms(3)]] by blast
  obtain b2 where b2: "cpuset_clear b cpu = Some b2" "length b2 = length b" "\<forall>c. mem b2 c \<longleftrightarrow> c \<noteq> cpu \<and> mem b c" using clear_mem[OF w[OF assms(3)]] by blast
  show ?thesis using el[OF refl] el[OF b1(2)] el[OF b2(2)] b1(1,3) b2(1,3) g by (auto intro!: f)
qed

theorem cpuset_iteration_witness:
  "cpuset_elements 4 [5] = Some [0, 2] \<and> (\<exists>b'. cpuset_set [5] 3 = Some b' \<and> cpuset_elements 4 b' = Some [0, 2, 3])"
proof -
  have "[0 ..< 4] = [0, 1, 2, 3 :: nat]" by (simp add: upt_rec numeral_2_eq_2 numeral_3_eq_3)
  then show ?thesis using cpuset_iteration[of 4 "[5]" 3] by (simp add: cpuset_get_def cpu_word_def cpu_bit_def)
qed

end
