(* ===== verification/Kernel_Cmdline.thy ===== *)
theory Kernel_Cmdline
  imports Davix_Prelude
begin

text \<open>
  The kernel command line (\<^verbatim>\<open>kernel/main.cc\<close>): the search for a parameter and the comparison of its value. A
  line is the text before its terminating zero; a pointer into it is a position, and reading behind the
  terminating zero is undefined (\<^const>\<open>None\<close>), as is a search that does not end.
\<close>

section \<open>The search\<close>

definition nul :: char where "nul = CHR 0x00"

record cmdline_state =
  kernel_cmdline :: string

definition set_command_line :: "string \<Rightarrow> cmdline_state \<Rightarrow> cmdline_state" where
  "set_command_line cmdline s = s\<lparr>kernel_cmdline := cmdline\<rparr>"

definition deref :: "string \<Rightarrow> char" where
  "deref p = (case p of [] \<Rightarrow> nul | c # _ \<Rightarrow> c)"

definition char_at :: "string \<Rightarrow> nat \<Rightarrow> char option" where
  "char_at line i = (if i < length line then Some (line ! i) else if i = length line then Some nul else None)"

text \<open>\<open>match_loop\<close> is the loop over the text between the two pointers, \<open>at\<close> the first of them.\<close>

fun match_loop :: "bool \<Rightarrow> bool \<Rightarrow> bool \<Rightarrow> string \<Rightarrow> nat \<Rightarrow> string \<Rightarrow> nat option" where
  "match_loop squote dquote backslash param at [] = (if deref param \<noteq> nul then None else Some at)"
| "match_loop squote dquote backslash param at (c # text) = (
     if \<not> backslash \<and> c = CHR 0x5C \<and> \<not> squote then match_loop squote dquote True param (at + 1) text
     else if \<not> backslash \<and> c = CHR 0x27 \<and> \<not> dquote then match_loop (\<not> squote) dquote False param (at + 1) text
     else if \<not> backslash \<and> c = CHR 0x22 \<and> \<not> squote then match_loop squote (\<not> dquote) False param (at + 1) text
     else if \<not> backslash \<and> c = CHR ''='' \<and> \<not> squote \<and> \<not> dquote then (if deref param \<noteq> nul then None else Some at)
     else if deref param = c then match_loop squote dquote False (tl param) (at + 1) text
     else None)"

definition match_param :: "string \<Rightarrow> string \<Rightarrow> nat \<Rightarrow> nat \<Rightarrow> nat option" where
  "match_param line param at fin = (if at = fin then None else match_loop False False False param at (take (fin - at) (drop at line)))"

definition isspace :: "char \<Rightarrow> bool" where
  "isspace c \<longleftrightarrow> c \<in> {CHR 0x20, CHR 0x09, CHR 0x0A, CHR 0x0B, CHR 0x0D}"

text \<open>The code at the label \<open>do_match\<close>: the result, or the number of matches that are still to be skipped.\<close>

definition do_match :: "string \<Rightarrow> string \<Rightarrow> int \<Rightarrow> nat \<Rightarrow> nat \<Rightarrow> char \<Rightarrow> nat option + int" where
  "do_match line param idx at fin c = (
     let matching = match_param line param at fin in
     if matching \<noteq> None \<and> idx = 0 then Inl matching
     else let idx = (if matching \<noteq> None then idx - 1 else idx) in
     if c = nul then Inl None else Inr idx)"

partial_function (option) scan :: "string \<Rightarrow> string \<Rightarrow> int \<Rightarrow> nat \<Rightarrow> nat \<Rightarrow> bool \<Rightarrow> bool \<Rightarrow> nat option option" where
  "scan line param idx at fin squote dquote = Option.bind (char_at line fin) (\<lambda>c.
     if isspace c \<or> c = nul then
       (if c \<noteq> nul \<and> (squote \<or> dquote) then scan line param idx at (fin + 1) squote dquote
        else (case do_match line param idx at fin c of
            Inl r \<Rightarrow> Some r
          | Inr idx \<Rightarrow> scan line param idx (fin + 1) (fin + 2) squote dquote))
     else if c = CHR 0x27 \<and> \<not> dquote then scan line param idx at (fin + 1) (\<not> squote) dquote
     else if c = CHR 0x22 \<and> \<not> squote then scan line param idx at (fin + 1) squote (\<not> dquote)
     else if c = CHR 0x5C \<and> \<not> squote then
       Option.bind (char_at line (fin + 1)) (\<lambda>c.
         if c = nul then (case do_match line param idx at (fin + 1) c of
             Inl r \<Rightarrow> Some r
           | Inr idx \<Rightarrow> scan line param idx (fin + 2) (fin + 3) squote dquote)
         else scan line param idx at (fin + 2) squote dquote)
     else scan line param idx at (fin + 1) squote dquote)"

definition get_early_param :: "string option \<Rightarrow> int \<Rightarrow> cmdline_state \<Rightarrow> nat option option" where
  "get_early_param param idx s = (case param of
     None \<Rightarrow> Some None
   | Some param \<Rightarrow> if deref param = nul then Some None else if idx < 0 then Some None
       else scan (kernel_cmdline s) param idx 0 0 False False)"

section \<open>Values\<close>

fun value_loop :: "bool \<Rightarrow> bool \<Rightarrow> bool \<Rightarrow> string \<Rightarrow> string \<Rightarrow> bool" where
  "value_loop squote dquote backslash expected [] = (deref expected = nul)"
| "value_loop squote dquote backslash expected (c # val) = (
     if \<not> backslash \<and> c = CHR 0x5C \<and> \<not> squote then value_loop squote dquote True expected val
     else if \<not> backslash \<and> c = CHR 0x27 \<and> \<not> dquote then value_loop (\<not> squote) dquote False expected val
     else if \<not> backslash \<and> c = CHR 0x22 \<and> \<not> squote then value_loop squote (\<not> dquote) False expected val
     else if deref expected = c then value_loop squote dquote False (tl expected) val
     else False)"

definition early_param_matches :: "string option \<Rightarrow> string \<Rightarrow> bool" where
  "early_param_matches expected val = (
     let expected = (case expected of None \<Rightarrow> [] | Some e \<Rightarrow> e) in
     if deref val \<noteq> CHR ''='' then deref expected = nul
     else value_loop False False False expected (tl val))"

section \<open>Lines without quoting\<close>

definition text_ok :: "string \<Rightarrow> bool" where "text_ok t \<longleftrightarrow> nul \<notin> set t"

lemma text_ok_simps [simp]: "text_ok []" "text_ok (c # t) \<longleftrightarrow> c \<noteq> nul \<and> text_ok t" "text_ok (s @ t) \<longleftrightarrow> text_ok s \<and> text_ok t"
  by (auto simp: text_ok_def)

lemma deref_simps [simp]: "deref [] = nul" "deref (c # t) = c"
  by (simp_all add: deref_def)

lemma char_at_simps: "char_at line (length line) = Some nul" "i < length line \<Longrightarrow> char_at line i = Some (line ! i)"
  by (simp_all add: char_at_def)

lemma do_match_nul: "\<exists>r. do_match line param idx at fin nul = Inl r"
  by (simp add: do_match_def Let_def)

text \<open>A search that still has to see at least the last character of the line, which is no separator, ends.\<close>

lemma scan_returns:
  "text_ok line \<Longrightarrow> line \<noteq> [] \<longrightarrow> \<not> isspace (last line) \<Longrightarrow> fin \<le> length line \<Longrightarrow> \<exists>r. scan line param idx at fin sq dq = Some r"
proof (induction "length line - fin" arbitrary: fin at idx sq dq rule: less_induct)
  case less
  show ?case
  proof (cases "fin = length line")
    case True
    then show ?thesis using do_match_nul[of line param idx at fin] by (subst scan.simps) (auto simp: char_at_simps)
  next
    case False
    then have l: "fin < length line" using less.prems(3) by simp
    have IH: "\<exists>r. scan line param idx' at' f' sq' dq' = Some r" if "fin < f'" "f' \<le> length line" for idx' at' f' sq' dq'
      using less.hyps[of f'] less.prems(1,2) that l by simp
    have c: "char_at line fin = Some (line ! fin)" "line ! fin \<noteq> nul" using l less.prems(1) nth_mem[of fin line] by (auto simp: char_at_simps text_ok_def simp del: nth_mem)
    have sp: "fin + 2 \<le> length line" if "isspace (line ! fin)"
      using l that less.prems(2) by (cases "fin = length line - 1") (auto simp: last_conv_nth)
    show ?thesis
    proof (cases "isspace (line ! fin)")
      case True
      then show ?thesis using IH[of "fin + 1" idx at sq dq] IH[of "fin + 2" _ "fin + 1" sq dq] sp c l
        by (subst scan.simps) (auto split: sum.split)
    next
      case ns: False
      have "\<exists>r. Option.bind (char_at line (fin + 1)) (\<lambda>c. if c = nul then (case do_match line param idx at (fin + 1) c of
             Inl r \<Rightarrow> Some r | Inr idx \<Rightarrow> scan line param idx (fin + 2) (fin + 3) sq dq)
         else scan line param idx at (fin + 2) sq dq) = Some r"
        using do_match_nul[of line param idx at "fin + 1"] IH[of "fin + 2"] l
        by (cases "fin + 1 = length line") (auto simp: char_at_def)
      then show ?thesis using ns c IH[of "fin + 1"] l by (subst scan.simps) (simp del: bind_Some_iff)
    qed
  qed
qed

text \<open>A line of words with one separator between two of them, and the word that a search is to find.\<close>

definition plain :: "string \<Rightarrow> bool" where
  "plain w \<longleftrightarrow> w \<noteq> [] \<and> (\<forall>c \<in> set w. c \<noteq> nul \<and> \<not> isspace c \<and> c \<noteq> CHR 0x27 \<and> c \<noteq> CHR 0x22 \<and> c \<noteq> CHR 0x5C)"


definition param_name :: "string \<Rightarrow> string" where "param_name w = takeWhile (\<lambda>c. c \<noteq> CHR ''='') w"


lemma match_loop_plain:
  "\<forall>c \<in> set w. c \<noteq> nul \<and> c \<noteq> CHR 0x27 \<and> c \<noteq> CHR 0x22 \<and> c \<noteq> CHR 0x5C \<Longrightarrow> text_ok param \<Longrightarrow>
     match_loop False False False param at w = (if param_name w = param then Some (at + length param) else None)"
proof (induction w arbitrary: param at)
  case Nil
  then show ?case by (cases param) (simp_all add: param_name_def)
next
  case (Cons c w)
  then show ?case by (cases param) (auto simp: param_name_def)
qed

text \<open>Over a plain word the search advances to its end.\<close>

lemma scan_word:
  "\<forall>i < n. fin + i < length line \<and> line ! (fin + i) \<noteq> nul \<and> \<not> isspace (line ! (fin + i)) \<and> line ! (fin + i) \<noteq> CHR 0x27 \<and>
     line ! (fin + i) \<noteq> CHR 0x22 \<and> line ! (fin + i) \<noteq> CHR 0x5C \<Longrightarrow>
   scan line param idx at fin False False = scan line param idx at (fin + n) False False"
proof (induction n arbitrary: fin)
  case (Suc n)
  have "scan line param idx at fin False False = scan line param idx at (fin + 1) False False"
    using Suc.prems[rule_format, of 0] by (subst scan.simps) (simp add: char_at_simps)
  also have "\<dots> = scan line param idx at (fin + 1 + n) False False"
  proof (rule Suc.IH, intro allI impI)
    fix i assume "i < n"
    then show "fin + 1 + i < length line \<and> line ! (fin + 1 + i) \<noteq> nul \<and> \<not> isspace (line ! (fin + 1 + i)) \<and> line ! (fin + 1 + i) \<noteq> CHR 0x27 \<and>
     line ! (fin + 1 + i) \<noteq> CHR 0x22 \<and> line ! (fin + 1 + i) \<noteq> CHR 0x5C" using Suc.prems[rule_format, of "Suc i"] by simp
  qed
  finally show ?case by simp
qed simp

lemma scan_plain:
  assumes "plain w" "k \<le> length w"
  shows "scan (pre @ w @ post) param idx at (length pre + k) False False = scan (pre @ w @ post) param idx at (length pre + length w) False False"
proof -
  have "scan (pre @ w @ post) param idx at (length pre + k) False False = scan (pre @ w @ post) param idx at (length pre + k + (length w - k)) False False"
  proof (intro scan_word allI impI)
    fix i assume i: "i < length w - k"
    then have "k + i < length w" by simp
    then have "(pre @ w @ post) ! (length pre + k + i) = w ! (k + i)" "w ! (k + i) \<in> set w" by (simp_all add: nth_append)
    then show "length pre + k + i < length (pre @ w @ post) \<and> (pre @ w @ post) ! (length pre + k + i) \<noteq> nul \<and> \<not> isspace ((pre @ w @ post) ! (length pre + k + i)) \<and>
      (pre @ w @ post) ! (length pre + k + i) \<noteq> CHR 0x27 \<and> (pre @ w @ post) ! (length pre + k + i) \<noteq> CHR 0x22 \<and> (pre @ w @ post) ! (length pre + k + i) \<noteq> CHR 0x5C"
      using i assms(1) unfolding plain_def by simp
  qed
  then show ?thesis using assms(2) by simp
qed

lemma match_param_plain:
  assumes "plain w" "text_ok param"
  shows "match_param (pre @ w @ post) param (length pre) (length pre + length w) = (if param_name w = param then Some (length pre + length param) else None)"
  using assms match_loop_plain[of w param "length pre"] by (simp add: match_param_def plain_def)


lemma value_loop_plain:
  "\<forall>c \<in> set val. c \<noteq> nul \<and> c \<noteq> CHR 0x27 \<and> c \<noteq> CHR 0x22 \<and> c \<noteq> CHR 0x5C \<Longrightarrow> text_ok expected \<Longrightarrow>
     value_loop False False False expected (val @ rest) \<longleftrightarrow> take (length val) expected = val \<and> value_loop False False False (drop (length val) expected) rest"
proof (induction val arbitrary: expected)
  case (Cons c val)
  then show ?case by (cases expected) auto
qed simp

section \<open>Properties\<close>

text \<open>
  (C34) The search for a parameter ends, with a result, on every command line that does not end in a
  separator, whatever its quoting: no character behind the terminating zero is read.
\<close>

theorem get_early_param_returns:
  assumes "text_ok (kernel_cmdline s)" and "kernel_cmdline s \<noteq> [] \<longrightarrow> \<not> isspace (last (kernel_cmdline s))"
  shows "\<exists>r. get_early_param param idx s = Some r"
  using scan_returns[OF assms, of 0] by (simp add: get_early_param_def split: option.split)

theorem get_early_param_returns_witness:
  "\<exists>r. get_early_param (Some ''log'') 1 \<lparr>kernel_cmdline = ''a  b='' @ CHR 0x22 # '' c''\<rparr> = Some r"
  by (rule get_early_param_returns) (simp_all add: text_ok_def nul_def isspace_def)



text \<open>
  A single space at the end of the line makes the search run past the terminating zero: the character
  after a separator is skipped, also when it is the end of the line. The search is undefined for
  every parameter that it has not found before.
\<close>

theorem get_early_param_overruns:
  assumes "plain w" and "text_ok param" and "param \<noteq> []" and "0 \<le> idx" and "param_name w \<noteq> param \<or> 0 < idx"
  shows "get_early_param (Some param) idx \<lparr>kernel_cmdline = w @ '' ''\<rparr> = None"
proof -
  let ?line = "[] @ w @ '' ''"
  have "char_at ?line (length w) = Some (CHR 0x20)" by (simp add: char_at_def)
  moreover have "scan ?line param i (length w + 1) (length w + 2) False False = None" for i
    by (subst scan.simps) (simp add: char_at_def)
  ultimately have "scan ?line param idx 0 (length w) False False = None"
    using match_param_plain[OF assms(1,2), of "[]" "'' ''"] assms(4,5)
    by (subst scan.simps) (auto simp: do_match_def isspace_def nul_def)
  then show ?thesis using scan_plain[OF assms(1), of 0 "[]" "'' ''" param idx 0] assms(2-4)
    by (cases param) (simp_all add: get_early_param_def)
qed

theorem get_early_param_overruns_witness: "get_early_param (Some ''console'') 0 \<lparr>kernel_cmdline = ''quiet '' \<rparr> = None"
  using get_early_param_overruns[of "''quiet''" "''console''" 0] by (simp add: plain_def nul_def isspace_def param_name_def)

text \<open>
  The comparison of a value does not stop at the end of the parameter: a value is accepted when the
  parameter is the last one of the line, and refused as soon as another parameter follows.
\<close>

theorem early_param_matches_last_only:
  assumes "\<forall>c \<in> set val. c \<noteq> nul \<and> c \<noteq> CHR 0x27 \<and> c \<noteq> CHR 0x22 \<and> c \<noteq> CHR 0x5C"
  shows "early_param_matches (Some val) (CHR ''='' # val) \<and> \<not> early_param_matches (Some val) (CHR ''='' # val @ CHR 0x20 # rest)"
proof -
  have "text_ok val" using assms by (auto simp: text_ok_def)
  then show ?thesis using value_loop_plain[OF assms, of val "[]"] value_loop_plain[OF assms, of val "CHR 0x20 # rest"]
    by (simp add: early_param_matches_def nul_def)
qed

theorem early_param_matches_last_only_witness:
  "early_param_matches (Some ''0xe9'') ''=0xe9'' \<and> \<not> early_param_matches (Some ''0xe9'') ''=0xe9 quiet''"
  using early_param_matches_last_only[of "''0xe9''" "''quiet''"] by (simp add: nul_def)

end
