(* ===== verification/Mm_Page_Alloc.thy ===== *)
theory Mm_Page_Alloc
  imports Davix_Prelude
begin

text \<open>
  The zoned page allocator (\<^verbatim>\<open>mm/page_alloc.cc\<close>, \<^verbatim>\<open>arch/x86/include/asm/zone.h\<close>). A page is named by its frame
  number; the free list of a zone is the list of its pages, in order. Every operation runs under
  \<open>freelist_lock\<close>, so it is one transition. Page contents are words with the one fact that matters here,
  whether the page has been zeroed since it was allocated.
\<close>

section \<open>Zones\<close>

type_synonym pfn = nat

definition PAGE_SIZE :: nat where "PAGE_SIZE = 0x1000"

definition phys_to_pfn :: "nat \<Rightarrow> pfn" where "phys_to_pfn phys = phys div PAGE_SIZE"

definition pfn_to_phys :: "pfn \<Rightarrow> nat" where "pfn_to_phys p = p * PAGE_SIZE"

definition ALLOC_ZERO :: u32 where "ALLOC_ZERO = 1"

definition ALLOC_HIGHPRIO :: u32 where "ALLOC_HIGHPRIO = 4"

definition ALLOC_LOW4G :: u32 where "ALLOC_LOW4G = 2 ^ 30"

definition ALLOC_LOW1M :: u32 where "ALLOC_LOW1M = 2 ^ 31"

definition ALLOC_KERNEL :: u32 where "ALLOC_KERNEL = 0"

definition ZONE_DEFAULT :: nat where "ZONE_DEFAULT = 0"

definition ZONE_LOW4G :: nat where "ZONE_LOW4G = 1"

definition ZONE_LOW1M :: nat where "ZONE_LOW1M = 2"

definition num_page_zones :: nat where "num_page_zones = 3"

definition allocation_zone :: "u32 \<Rightarrow> nat" where
  "allocation_zone aclass =
     (if aclass AND ALLOC_LOW1M \<noteq> 0 then ZONE_LOW1M else if aclass AND ALLOC_LOW4G \<noteq> 0 then ZONE_LOW4G else ZONE_DEFAULT)"

definition phys_to_zone :: "nat \<Rightarrow> nat" where
  "phys_to_zone phys =
     (if phys < 1024 * 1024 then ZONE_LOW1M else if phys < 4 * 1024 * 1024 * 1024 then ZONE_LOW4G else ZONE_DEFAULT)"

definition zone_minaddr :: "nat \<Rightarrow> u64" where
  "zone_minaddr zone =
     (if zone = ZONE_DEFAULT then 4 * 1024 * 1024 * 1024 else if zone = ZONE_LOW4G then 1024 * 1024 else 0)"

definition zone_maxaddr :: "nat \<Rightarrow> u64" where
  "zone_maxaddr zone =
     (if zone = ZONE_DEFAULT then - 1 else if zone = ZONE_LOW4G then 4 * 1024 * 1024 * 1024 - 1 else 1024 * 1024 - 1)"

definition zone_has_fallback :: "nat \<Rightarrow> bool" where
  "zone_has_fallback zone \<longleftrightarrow> zone \<noteq> ZONE_LOW1M"

definition fallback_zone :: "nat \<Rightarrow> nat" where
  "fallback_zone zone = (if zone = ZONE_DEFAULT then ZONE_LOW4G else ZONE_LOW1M)"

lemmas zone_defs = ZONE_DEFAULT_def ZONE_LOW4G_def ZONE_LOW1M_def num_page_zones_def zone_has_fallback_def fallback_zone_def

section \<open>The allocator\<close>

record Zone =
  free_list :: "pfn list"
  zone_count :: nat

record pgalloc =
  zone_list :: "nat \<Rightarrow> Zone"
  total_free_pages :: nat
  page_flags :: "pfn \<Rightarrow> nat"
  page_zeroed :: "pfn \<Rightarrow> bool"

definition pgalloc_init :: "pgalloc \<Rightarrow> pgalloc" where
  "pgalloc_init s = s\<lparr>zone_list := (\<lambda>z. if z < num_page_zones then \<lparr>free_list = [], zone_count = 0\<rparr> else zone_list s z)\<rparr>"

definition page_zone :: "pfn \<Rightarrow> nat" where
  "page_zone p = phys_to_zone (pfn_to_phys p)"

definition zone_rank :: "nat \<Rightarrow> nat" where
  "zone_rank zone = (if zone = ZONE_LOW1M then 0 else if zone = ZONE_DEFAULT then 2 else 1)"

function alloc_from_zone :: "nat \<Rightarrow> pgalloc \<Rightarrow> (pfn \<times> pgalloc) option" where
  "alloc_from_zone zone s = (case free_list (zone_list s zone) of
     p # ps \<Rightarrow> Some (p, s\<lparr>zone_list := (zone_list s)(zone := \<lparr>free_list = ps, zone_count = zone_count (zone_list s zone) - 1\<rparr>),
       total_free_pages := total_free_pages s - 1\<rparr>)
   | [] \<Rightarrow> if zone_has_fallback zone then alloc_from_zone (fallback_zone zone) s else None)"
  by pat_completeness auto
termination
  by (relation "measure (\<lambda>(zone, s). zone_rank zone)") (auto simp: zone_rank_def zone_defs)

declare alloc_from_zone.simps [simp del]

definition alloc_page :: "u32 \<Rightarrow> pgalloc \<Rightarrow> (pfn \<times> pgalloc) option" where
  "alloc_page aclass s = do {
     (p, s) \<leftarrow> alloc_from_zone (allocation_zone aclass) s;
     Some (p, if aclass AND ALLOC_ZERO \<noteq> 0 then s\<lparr>page_zeroed := (page_zeroed s)(p := True)\<rparr> else s)
   }"

definition free_page :: "pfn \<Rightarrow> pgalloc \<Rightarrow> pgalloc" where
  "free_page p s = (let zone = page_zone p in
     s\<lparr>page_flags := (page_flags s)(p := 0),
       zone_list := (zone_list s)(zone := \<lparr>free_list = p # free_list (zone_list s zone), zone_count = zone_count (zone_list s zone) + 1\<rparr>),
       total_free_pages := total_free_pages s + 1\<rparr>)"

section \<open>Invariant\<close>

definition free_pages :: "pgalloc \<Rightarrow> pfn set" where
  "free_pages s = (\<Union>z < num_page_zones. set (free_list (zone_list s z)))"

definition pgalloc_ok :: "pgalloc \<Rightarrow> bool" where
  "pgalloc_ok s \<longleftrightarrow> (\<forall>z < num_page_zones. distinct (free_list (zone_list s z)) \<and> zone_count (zone_list s z) = length (free_list (zone_list s z)) \<and>
       (\<forall>p \<in> set (free_list (zone_list s z)). page_zone p = z)) \<and>
     total_free_pages s = card (free_pages s)"

lemma page_zone_less: "page_zone p < num_page_zones"
  by (simp add: page_zone_def phys_to_zone_def zone_defs)

lemma less_zones: "z < num_page_zones \<longleftrightarrow> z = 0 \<or> z = 1 \<or> z = 2"
  by (auto simp: num_page_zones_def)

lemma finite_free_pages [simp]: "finite (free_pages s)"
  by (simp add: free_pages_def)

lemma alloc_from_zone_ok:
  assumes "alloc_from_zone zone s = Some (p, s')" "pgalloc_ok s" "zone < num_page_zones"
  shows "p \<in> free_pages s \<and> free_pages s' = free_pages s - {p} \<and> pgalloc_ok s' \<and> page_flags s' = page_flags s \<and> page_zeroed s' = page_zeroed s"
  using assms
proof (induction zone s rule: alloc_from_zone.induct)
  case (1 zone s)
  show ?case
  proof (cases "free_list (zone_list s zone)")
    case Nil
    then have "zone_has_fallback zone" "alloc_from_zone (fallback_zone zone) s = Some (p, s')" "fallback_zone zone < num_page_zones"
      using "1.prems"(1) by (auto simp: alloc_from_zone.simps[of zone] zone_defs split: if_splits)
    then show ?thesis using 1 Nil by blast
  next
    case (Cons q ps)
    then have p: "q = p" and s': "s' = s\<lparr>zone_list := (zone_list s)(zone := \<lparr>free_list = ps, zone_count = zone_count (zone_list s zone) - 1\<rparr>),
       total_free_pages := total_free_pages s - 1\<rparr>" using "1.prems"(1) by (auto simp: alloc_from_zone.simps[of zone])
    have z: "page_zone p = zone" "p \<notin> set ps" using "1.prems"(2,3) Cons p by (auto simp: pgalloc_ok_def)
    have mem: "p \<in> free_pages s" unfolding free_pages_def
      by (rule UN_I[of zone]) (use "1.prems"(3) Cons p in simp_all)
    have other: "p \<notin> set (free_list (zone_list s y))" if "y \<noteq> zone" "y < num_page_zones" for y
      using "1.prems"(2) z(1) that by (auto simp: pgalloc_ok_def)
    have f: "free_pages s' = free_pages s - {p}"
    proof (intro equalityI subsetI)
      fix x assume "x \<in> free_pages s'"
      then obtain y where "y < num_page_zones" "x \<in> set (free_list (zone_list s' y))" by (auto simp: free_pages_def)
      then have "x \<in> set (free_list (zone_list s y))" "x \<noteq> p" using Cons p z(2) other by (cases "y = zone"; auto simp: s')+
      then show "x \<in> free_pages s - {p}" using \<open>y < num_page_zones\<close> by (auto simp: free_pages_def)
    next
      fix x assume "x \<in> free_pages s - {p}"
      then obtain y where y: "y < num_page_zones" "x \<in> set (free_list (zone_list s y))" "x \<noteq> p" by (auto simp: free_pages_def)
      then have "x \<in> set (free_list (zone_list s' y))" using Cons p by (cases "y = zone") (auto simp: s')
      then show "x \<in> free_pages s'" using y(1) by (auto simp: free_pages_def)
    qed
    then have "total_free_pages s' = card (free_pages s')"
      using "1.prems"(2) mem by (simp add: s' pgalloc_ok_def)
    then have "pgalloc_ok s'" using "1.prems"(2,3) Cons unfolding pgalloc_ok_def s' by auto
    then show ?thesis using f mem s' by simp
  qed
qed

lemma alloc_from_zone_None:
  "alloc_from_zone zone s = None \<Longrightarrow> zone < num_page_zones \<Longrightarrow> zone \<le> z \<Longrightarrow> z < num_page_zones \<Longrightarrow> free_list (zone_list s z) = []"
proof (induction zone s rule: alloc_from_zone.induct)
  case (1 zone s)
  have nil: "free_list (zone_list s zone) = []" and fb: "zone_has_fallback zone \<Longrightarrow> alloc_from_zone (fallback_zone zone) s = None"
    using "1.prems"(1) by (auto simp: alloc_from_zone.simps[of zone] split: list.splits)
  show ?case
  proof (cases "z = zone")
    case False
    then have "zone_has_fallback zone" "fallback_zone zone < num_page_zones" "fallback_zone zone \<le> z" using "1.prems"(2-4) by (auto simp: zone_defs)
    then show ?thesis using "1.IH"[OF nil] fb "1.prems"(4) by simp
  qed (use nil in simp)
qed

lemma alloc_from_zone_ge: "alloc_from_zone zone s = Some (p, s') \<Longrightarrow> pgalloc_ok s \<Longrightarrow> zone < num_page_zones \<Longrightarrow> zone \<le> page_zone p"
proof (induction zone s rule: alloc_from_zone.induct)
  case (1 zone s)
  show ?case
  proof (cases "free_list (zone_list s zone)")
    case Nil
    then have "zone_has_fallback zone" "alloc_from_zone (fallback_zone zone) s = Some (p, s')" "fallback_zone zone < num_page_zones"
      "zone \<le> fallback_zone zone" using "1.prems"(1,3) by (auto simp: alloc_from_zone.simps[of zone] zone_defs split: if_splits)
    then show ?thesis using "1.IH"[OF Nil] "1.prems"(2) by auto
  next
    case (Cons q ps)
    then have "q = p" using "1.prems"(1) by (auto simp: alloc_from_zone.simps[of zone])
    then show ?thesis using "1.prems"(2,3) Cons unfolding pgalloc_ok_def by force
  qed
qed

lemma alloc_from_zone_undo:
  "alloc_from_zone zone s = Some (p, s') \<Longrightarrow> pgalloc_ok s \<Longrightarrow> zone < num_page_zones \<Longrightarrow>
     zone_list (free_page p s') = zone_list s \<and> total_free_pages (free_page p s') = total_free_pages s"
proof (induction zone s rule: alloc_from_zone.induct)
  case (1 zone s)
  show ?case
  proof (cases "free_list (zone_list s zone)")
    case Nil
    then have "zone_has_fallback zone" "alloc_from_zone (fallback_zone zone) s = Some (p, s')" "fallback_zone zone < num_page_zones"
      using "1.prems"(1) by (auto simp: alloc_from_zone.simps[of zone] zone_defs split: if_splits)
    then show ?thesis using "1.IH"[OF Nil] "1.prems"(2) by blast
  next
    case (Cons q ps)
    then have p: "q = p" and s': "s' = s\<lparr>zone_list := (zone_list s)(zone := \<lparr>free_list = ps, zone_count = zone_count (zone_list s zone) - 1\<rparr>),
       total_free_pages := total_free_pages s - 1\<rparr>" using "1.prems"(1) by (auto simp: alloc_from_zone.simps[of zone])
    have z: "page_zone p = zone" "zone_count (zone_list s zone) = Suc (length ps)" using "1.prems"(2,3) Cons p by (auto simp: pgalloc_ok_def)
    have "p \<in> free_pages s" unfolding free_pages_def by (rule UN_I[of zone]) (use "1.prems"(3) Cons p in simp_all)
    then have "0 < total_free_pages s" using "1.prems"(2) by (auto simp: pgalloc_ok_def card_gt_0_iff)
    moreover have "\<lparr>free_list = p # ps, zone_count = Suc (length ps)\<rparr> = zone_list s zone" using Cons p z(2) by simp
    ultimately show ?thesis using z by (simp add: free_page_def s' Let_def fun_upd_idem)
  qed
qed

lemma allocation_zone_less: "allocation_zone aclass < num_page_zones"
  by (simp add: allocation_zone_def zone_defs)

lemma free_page_ok:
  assumes "pgalloc_ok s" "p \<notin> free_pages s"
  shows "pgalloc_ok (free_page p s)" "free_pages (free_page p s) = insert p (free_pages s)"
proof -
  have f: "free_pages (free_page p s) = insert p (free_pages s)"
    using page_zone_less[of p] by (auto simp: free_pages_def free_page_def Let_def split: if_splits)
  show "free_pages (free_page p s) = insert p (free_pages s)" by (rule f)
  have "total_free_pages (free_page p s) = card (free_pages (free_page p s))"
    using assms unfolding f by (simp add: free_page_def pgalloc_ok_def Let_def)
  moreover have "p \<notin> set (free_list (zone_list s (page_zone p)))"
    using assms(2) page_zone_less[of p] by (auto simp: free_pages_def)
  ultimately show "pgalloc_ok (free_page p s)"
    using assms(1) unfolding pgalloc_ok_def by (auto simp: free_page_def Let_def)
qed

section \<open>The contract of a source of pages\<close>

locale page_source =
  fixes alloc :: "'s \<Rightarrow> (pfn \<times> 's) option" and release :: "pfn \<Rightarrow> 's \<Rightarrow> 's" and free :: "'s \<Rightarrow> pfn set" and ok :: "'s \<Rightarrow> bool"
  assumes alloc_law: "ok s \<Longrightarrow> alloc s = Some (p, s') \<Longrightarrow> ok s' \<and> p \<in> free s \<and> free s' = free s - {p}"
    and release_law: "ok s \<Longrightarrow> p \<notin> free s \<Longrightarrow> ok (release p s) \<and> free (release p s) = insert p (free s)"
begin

text \<open>A client that owns the pages \<open>U\<close> gets a page it does not own, and may give one of its pages back.\<close>

lemma take_page:
  assumes "ok s" "U \<inter> free s = {}" "alloc s = Some (p, s')"
  shows "ok s' \<and> p \<notin> U \<and> insert p U \<inter> free s' = {}"
  using alloc_law[OF assms(1,3)] assms(2) by blast

lemma give_page:
  assumes "ok s" "U \<inter> free s = {}" "p \<in> U"
  shows "ok (release p s) \<and> (U - {p}) \<inter> free (release p s) = {}"
  using release_law[OF assms(1), of p] assms(2,3) by blast

lemma alloc_release:
  assumes "ok s" "alloc s = Some (p, s')"
  shows "ok (release p s') \<and> free (release p s') = free s"
  using alloc_law[OF assms] release_law[of s' p] by auto

end

lemma alloc_page_from_zone:
  "alloc_page aclass s = Some (p, s') \<Longrightarrow> \<exists>s1. alloc_from_zone (allocation_zone aclass) s = Some (p, s1) \<and>
     s' = (if aclass AND ALLOC_ZERO \<noteq> 0 then s1\<lparr>page_zeroed := (page_zeroed s1)(p := True)\<rparr> else s1)"
  by (auto simp: alloc_page_def)

lemma alloc_page_ok:
  assumes "pgalloc_ok s" "alloc_page aclass s = Some (p, s')"
  shows "pgalloc_ok s' \<and> p \<in> free_pages s \<and> free_pages s' = free_pages s - {p}"
proof -
  from alloc_page_from_zone[OF assms(2)] obtain s1 where s1: "alloc_from_zone (allocation_zone aclass) s = Some (p, s1)"
    "s' = (if aclass AND ALLOC_ZERO \<noteq> 0 then s1\<lparr>page_zeroed := (page_zeroed s1)(p := True)\<rparr> else s1)" by blast
  then show ?thesis using alloc_from_zone_ok[OF s1(1) assms(1) allocation_zone_less] by (simp add: pgalloc_ok_def free_pages_def)
qed

interpretation pages: page_source "alloc_page aclass" free_page free_pages pgalloc_ok
  by unfold_locales (use alloc_page_ok free_page_ok in blast)+

section \<open>Properties\<close>

text \<open>The pages an allocation class may be served with.\<close>

definition acceptable :: "u32 \<Rightarrow> pfn \<Rightarrow> bool" where
  "acceptable aclass p \<longleftrightarrow> (aclass AND ALLOC_LOW1M \<noteq> 0 \<longrightarrow> pfn_to_phys p < 2 ^ 20) \<and> (aclass AND ALLOC_LOW4G \<noteq> 0 \<longrightarrow> pfn_to_phys p < 2 ^ 32)"

lemma acceptable_zone: "acceptable aclass p \<longleftrightarrow> allocation_zone aclass \<le> page_zone p"
  by (auto simp: acceptable_def allocation_zone_def page_zone_def phys_to_zone_def zone_defs)

text \<open>
  (C24) Page allocation searches the zones to the end: it fails only when no free page satisfies the
  address limit of the allocation class, and otherwise takes exactly one free page that does, zeroed if
  asked for; the free lists and their counters stay consistent.
\<close>

theorem alloc_page_exact:
  assumes "pgalloc_ok s"
  shows "case alloc_page aclass s of
      None \<Rightarrow> \<forall>p \<in> free_pages s. \<not> acceptable aclass p
    | Some (p, s') \<Rightarrow> p \<in> free_pages s \<and> acceptable aclass p \<and> free_pages s' = free_pages s - {p} \<and> pgalloc_ok s' \<and>
        (aclass AND ALLOC_ZERO \<noteq> 0 \<longrightarrow> page_zeroed s' p)"
proof (cases "alloc_page aclass s")
  case None
  then have "alloc_from_zone (allocation_zone aclass) s = None" by (auto simp: alloc_page_def bind_None_iff)
  then have "free_list (zone_list s z) = []" if "allocation_zone aclass \<le> z" "z < num_page_zones" for z
    using alloc_from_zone_None allocation_zone_less that by blast
  then have "\<not> acceptable aclass p" if "p \<in> free_pages s" for p
    using that assms unfolding acceptable_zone free_pages_def pgalloc_ok_def by fastforce
  then show ?thesis using None by simp
next
  case (Some r)
  obtain p s' where r: "r = (p, s')" by (cases r)
  note a = alloc_page_ok[OF assms, of aclass p s']
  from alloc_page_from_zone[of aclass s p s'] Some r obtain s1 where s1: "alloc_from_zone (allocation_zone aclass) s = Some (p, s1)"
    "s' = (if aclass AND ALLOC_ZERO \<noteq> 0 then s1\<lparr>page_zeroed := (page_zeroed s1)(p := True)\<rparr> else s1)" by auto
  then show ?thesis using a alloc_from_zone_ge[OF s1(1) assms allocation_zone_less] Some r by (simp add: acceptable_zone)
qed

text \<open>One free page below 1 MiB and one above 4 GiB.\<close>

definition two_pages :: pgalloc where
  "two_pages = \<lparr>zone_list = (\<lambda>z. if z = 0 then \<lparr>free_list = [0x100000], zone_count = 1\<rparr> else if z = 2 then \<lparr>free_list = [0x10], zone_count = 1\<rparr>
       else \<lparr>free_list = [], zone_count = 0\<rparr>), total_free_pages = 2, page_flags = (\<lambda>_. 0), page_zeroed = (\<lambda>_. False)\<rparr>"

lemma two_pages_free: "free_pages two_pages = {0x100000, 0x10}"
proof -
  have "{..<num_page_zones} = {0, 1, 2}" by (auto simp: less_zones)
  then show ?thesis by (simp add: two_pages_def free_pages_def insert_commute)
qed

lemma two_pages_ok: "pgalloc_ok two_pages"
  unfolding pgalloc_ok_def two_pages_free
  by (auto simp: two_pages_def less_zones page_zone_def phys_to_zone_def pfn_to_phys_def PAGE_SIZE_def zone_defs)

theorem alloc_page_exact_witness:
  "\<exists>s'. alloc_page ALLOC_LOW4G two_pages = Some (0x10, s') \<and> free_pages s' = {0x100000}"
proof -
  obtain s' where s': "alloc_page ALLOC_LOW4G two_pages = Some (0x10, s')"
    by (simp add: alloc_page_def alloc_from_zone.simps allocation_zone_def ALLOC_LOW4G_def ALLOC_LOW1M_def ALLOC_ZERO_def zone_defs two_pages_def)
  then have "free_pages s' = free_pages two_pages - {0x10}" using alloc_page_exact[OF two_pages_ok, of ALLOC_LOW4G] by simp
  then show ?thesis using s' by (simp add: two_pages_free insert_Diff_if)
qed

text \<open>
  Freeing a page that was just allocated restores the free lists and counters exactly: the page goes
  back to the front of the list of the zone it came from, also when it was taken from a fallback zone.
\<close>

theorem alloc_free_roundtrip:
  assumes "pgalloc_ok s" "alloc_page aclass s = Some (p, s')"
  shows "zone_list (free_page p s') = zone_list s \<and> total_free_pages (free_page p s') = total_free_pages s"
proof -
  from alloc_page_from_zone[OF assms(2)] obtain s1 where s1: "alloc_from_zone (allocation_zone aclass) s = Some (p, s1)"
    "zone_list s' = zone_list s1" "total_free_pages s' = total_free_pages s1" by auto
  have "zone_list (free_page p s1) = zone_list s \<and> total_free_pages (free_page p s1) = total_free_pages s"
    by (rule alloc_from_zone_undo[OF s1(1) assms(1) allocation_zone_less])
  then show ?thesis using s1(2,3) by (simp add: free_page_def Let_def)
qed

theorem alloc_free_roundtrip_witness:
  "\<exists>s'. alloc_page ALLOC_KERNEL two_pages = Some (0x100000, s') \<and> zone_list (free_page 0x100000 s') = zone_list two_pages"
proof -
  obtain s' where s': "alloc_page ALLOC_KERNEL two_pages = Some (0x100000, s')"
    by (simp add: alloc_page_def alloc_from_zone.simps allocation_zone_def ALLOC_KERNEL_def ALLOC_LOW4G_def ALLOC_LOW1M_def ALLOC_ZERO_def zone_defs two_pages_def)
  then show ?thesis using alloc_free_roundtrip[OF two_pages_ok s'] by blast
qed

end
