(* ===== verification/Mm_Early_Alloc.thy ===== *)
theory Mm_Early_Alloc
  imports Mm_Page_Alloc Dsl_Align
begin

text \<open>
  The boot-time allocator (\<^verbatim>\<open>mm/early_alloc.cc\<close>). A free block is its physical address and its size, both 64-bit
  words; the free list is the list of the blocks. The block headers live inside the free memory, at the
  addresses of the blocks, and physical memory is mapped at a fixed offset.
\<close>

section \<open>Definitions\<close>

type_synonym block = "u64 \<times> u64"

definition minalign :: u64 where "minalign = 4 * 8"

text \<open>What is left of a block and the list after \<open>sz\<close> bytes at \<open>aligned\<close> were taken from \<open>[start, fin]\<close>.\<close>

definition carve :: "u64 \<Rightarrow> u64 \<Rightarrow> u64 \<Rightarrow> u64 \<Rightarrow> block list \<Rightarrow> block \<Rightarrow> block list \<Rightarrow> block list" where
  "carve start fin aligned sz pre blk post = (
     let fl = pre @ (if aligned = start then [] else [(fst blk, aligned - start)]) @ post;
         alloc_end = aligned + sz
     in if alloc_end \<noteq> fin then (alloc_end, fin - alloc_end) # fl else fl)"

fun early_scan :: "u64 \<Rightarrow> u64 \<Rightarrow> u64 \<Rightarrow> u64 \<Rightarrow> block list \<Rightarrow> block list \<Rightarrow> u64 \<times> block list" where
  "early_scan sz align low high pre [] = (0, pre)"
| "early_scan sz align low high pre (blk # post) = (
     let start = dsl_max (fst blk) low; fin = dsl_min (fst blk + snd blk - 1) high; aligned = align_up start align in
     if fin < start then early_scan sz align low high (pre @ [blk]) post
     else if fin < aligned \<or> aligned < start then early_scan sz align low high (pre @ [blk]) post
     else if fin - aligned + 1 < sz then early_scan sz align low high (pre @ [blk]) post
     else (aligned, carve start fin aligned sz pre blk post))"

definition early_alloc_phys_range :: "u64 \<Rightarrow> u64 \<Rightarrow> u64 \<Rightarrow> u64 \<Rightarrow> block list \<Rightarrow> u64 \<times> block list" where
  "early_alloc_phys_range sz align low high fl = (
     let low = align_up (dsl_max low minalign) minalign; high = align_down (high + 1) minalign - 1 in
     if low = 0 then (0, fl)
     else let sz = align_up sz minalign in
       if sz = 0 then (0, fl)
       else early_scan sz (dsl_max align minalign) low high [] fl)"

definition early_free_phys :: "u64 \<Rightarrow> u64 \<Rightarrow> block list \<Rightarrow> block list" where
  "early_free_phys addr sz fl = (
     let tmp = align_up (dsl_max addr minalign) minalign - addr in
     if sz \<le> tmp then fl
     else let addr = addr + tmp; sz = align_down (sz - tmp) minalign in
       if sz = 0 then fl else (addr, sz) # fl)"

definition early_alloc_phys_zone :: "u64 \<Rightarrow> u64 \<Rightarrow> nat \<Rightarrow> block list \<Rightarrow> u64 \<times> block list" where
  "early_alloc_phys_zone sz align zone fl = early_alloc_phys_range sz align (zone_minaddr zone) (zone_maxaddr zone) fl"

function early_alloc_zones :: "u64 \<Rightarrow> u64 \<Rightarrow> nat \<Rightarrow> block list \<Rightarrow> u64 \<times> block list" where
  "early_alloc_zones sz align zone fl = (case early_alloc_phys_zone sz align zone fl of (phys, fl) \<Rightarrow>
     if phys \<noteq> 0 then (phys, fl)
     else if zone_has_fallback zone then early_alloc_zones sz align (fallback_zone zone) fl else (0, fl))"
  by pat_completeness auto
termination
  by (relation "measure (\<lambda>(sz, align, zone, fl). zone_rank zone)") (auto simp: zone_rank_def zone_defs)

declare early_alloc_zones.simps [simp del]

definition early_alloc_phys :: "u64 \<Rightarrow> u64 \<Rightarrow> block list \<Rightarrow> u64 \<times> block list" where
  "early_alloc_phys sz align fl = early_alloc_zones sz align (allocation_zone ALLOC_KERNEL) fl"

text \<open>Pointers into the mapping of physical memory.\<close>

definition early_alloc_virt_zone :: "u64 \<Rightarrow> u64 \<Rightarrow> u64 \<Rightarrow> nat \<Rightarrow> block list \<Rightarrow> u64 option \<times> block list" where
  "early_alloc_virt_zone hhdm sz align zone fl = (case early_alloc_phys_zone sz align zone fl of (phys, fl) \<Rightarrow>
     (if phys \<noteq> 0 then Some (phys + hhdm) else None, fl))"

definition early_alloc_virt :: "u64 \<Rightarrow> u64 \<Rightarrow> u64 \<Rightarrow> block list \<Rightarrow> u64 option \<times> block list" where
  "early_alloc_virt hhdm sz align fl = (case early_alloc_phys sz align fl of (phys, fl) \<Rightarrow>
     (if phys \<noteq> 0 then Some (phys + hhdm) else None, fl))"

definition early_free_virt :: "u64 \<Rightarrow> u64 \<Rightarrow> u64 \<Rightarrow> block list \<Rightarrow> block list" where
  "early_free_virt hhdm ptr sz fl = early_free_phys (ptr - hhdm) sz fl"

fun free_run :: "pfn \<Rightarrow> nat \<Rightarrow> pgalloc \<Rightarrow> pgalloc" where
  "free_run p 0 s = s"
| "free_run p (Suc n) s = free_run (p + 1) n (free_page p s)"

fun early_free_everything_to_pgalloc :: "block list \<Rightarrow> pgalloc \<Rightarrow> pgalloc" where
  "early_free_everything_to_pgalloc [] s = s"
| "early_free_everything_to_pgalloc ((addr, sz) # fl) s = (
     let n = align_up addr (0x1000 :: u64) - addr in
     if sz \<le> n then early_free_everything_to_pgalloc fl s
     else early_free_everything_to_pgalloc fl
       (free_run (phys_to_pfn (unat (addr + n))) (unat ((sz - n) div 0x1000)) s))"

section \<open>Ranges of blocks\<close>

definition range_of :: "block \<Rightarrow> nat set" where
  "range_of b = {unat (fst b) ..< unat (fst b) + unat (snd b)}"

definition block_ok :: "block \<Rightarrow> bool" where
  "block_ok b \<longleftrightarrow> 0 < snd b \<and> unat (fst b) + unat (snd b) \<le> 18446744073709551616"

fun blocks_ok :: "block list \<Rightarrow> bool" where
  "blocks_ok [] = True"
| "blocks_ok (b # bs) \<longleftrightarrow> block_ok b \<and> (\<forall>c \<in> set bs. range_of b \<inter> range_of c = {}) \<and> blocks_ok bs"

definition free_bytes :: "block list \<Rightarrow> nat set" where
  "free_bytes bs = (\<Union>b \<in> set bs. range_of b)"

lemma blocks_ok_append:
  "blocks_ok (bs @ cs) \<longleftrightarrow> blocks_ok bs \<and> blocks_ok cs \<and> (\<forall>b \<in> set bs. \<forall>c \<in> set cs. range_of b \<inter> range_of c = {})"
  by (induction bs) auto

lemma free_bytes_simps [simp]: "free_bytes [] = {}" "free_bytes (b # bs) = range_of b \<union> free_bytes bs" "free_bytes (bs @ cs) = free_bytes bs \<union> free_bytes cs"
  by (auto simp: free_bytes_def)

text \<open>The block the scan takes, and its position.\<close>

definition chosen :: "u64 \<Rightarrow> u64 \<Rightarrow> u64 \<Rightarrow> u64 \<Rightarrow> block \<Rightarrow> bool" where
  "chosen sz align low high blk = (
     let start = dsl_max (fst blk) low; fin = dsl_min (fst blk + snd blk - 1) high; aligned = align_up start align in
     start \<le> fin \<and> aligned \<le> fin \<and> start \<le> aligned \<and> sz \<le> fin - aligned + 1)"

lemma early_scan_Cons:
  "early_scan sz align low high pre (blk # post) = (
     if chosen sz align low high blk
     then let start = dsl_max (fst blk) low; aligned = align_up start align in
       (aligned, carve start (dsl_min (fst blk + snd blk - 1) high) aligned sz pre blk post)
     else early_scan sz align low high (pre @ [blk]) post)"
  by (simp add: chosen_def Let_def not_less[symmetric])

lemma early_scan_found:
  assumes "early_scan sz align low high pre fl = (a, fl')" "a \<noteq> 0"
  shows "\<exists>pre' blk post. pre @ fl = pre' @ blk # post \<and> chosen sz align low high blk \<and> a = align_up (dsl_max (fst blk) low) align \<and>
    fl' = carve (dsl_max (fst blk) low) (dsl_min (fst blk + snd blk - 1) high) a sz pre' blk post"
  using assms
proof (induction fl arbitrary: pre)
  case (Cons blk post)
  show ?case
  proof (cases "chosen sz align low high blk")
    case True
    then show ?thesis using Cons.prems
      by - (rule exI[of _ pre], rule exI[of _ blk], rule exI[of _ post], auto simp: early_scan_Cons Let_def simp del: early_scan.simps)
  next
    case False
    then show ?thesis using Cons.IH[of "pre @ [blk]"] Cons.prems by (simp add: early_scan_Cons del: early_scan.simps)
  qed
qed simp

text \<open>Splitting a block: what is left is a part of it outside the allocated range, except that an exact fit adds a phantom block.\<close>

definition taken :: "u64 \<Rightarrow> u64 \<Rightarrow> nat set" where
  "taken a sz = {unat a ..< unat a + unat sz}"

definition head_part :: "u64 \<Rightarrow> u64 \<Rightarrow> block \<Rightarrow> block list" where
  "head_part start a blk = (if a = start then [] else [(fst blk, a - start)])"

definition tail_part :: "u64 \<Rightarrow> u64 \<Rightarrow> block list" where
  "tail_part alloc_end fin = (if alloc_end \<noteq> fin then [(alloc_end, fin - alloc_end)] else [])"

lemma carve_parts: "carve start fin a sz pre blk post = tail_part (a + sz) fin @ pre @ head_part start a blk @ post"
  by (simp add: carve_def head_part_def tail_part_def Let_def)

lemma taken_inside:
  assumes "block_ok blk" "dsl_max (fst blk) low \<le> a" "a \<le> dsl_min (fst blk + snd blk - 1) high" "a \<noteq> 0"
    "sz \<le> dsl_min (fst blk + snd blk - 1) high - a + 1"
  shows "taken a sz \<subseteq> range_of blk \<inter> {unat low .. unat high}"
    "unat a + unat sz \<le> unat (dsl_min (fst blk + snd blk - 1) high) + 1"
    "unat (dsl_min (fst blk + snd blk - 1) high) < unat (fst blk) + unat (snd blk)"
proof -
  let ?f = "dsl_min (fst blk + snd blk - 1) high"
  have e: "unat (fst blk + snd blk - 1) = unat (fst blk) + unat (snd blk) - 1"
    using assms(1) by (auto simp: block_ok_def unat_arith_64 split: if_splits)
  then have f: "unat ?f = min (unat (fst blk) + unat (snd blk) - 1) (unat high)" by (simp add: unat_dsl_min)
  have a: "unat a \<le> unat ?f" "0 < unat a" using assms(3,4) by (simp_all add: word_le_nat_alt unat_gt_0)
  then have "unat (?f - a + 1) = unat ?f - unat a + 1" using unat_lt_64[of ?f] by (simp add: unat_arith_64)
  then show s: "unat a + unat sz \<le> unat ?f + 1" using assms(5) a by (simp add: word_le_nat_alt)
  have "0 < unat (snd blk)" using assms(1) by (simp add: block_ok_def word_less_nat_alt)
  then show "unat ?f < unat (fst blk) + unat (snd blk)" using f by linarith
  then show "taken a sz \<subseteq> range_of blk \<inter> {unat low .. unat high}"
    using s f assms(2) by (auto simp: taken_def range_of_def word_le_nat_alt unat_dsl_max)
qed

lemma head_part_inside:
  assumes "block_ok blk" "start = dsl_max (fst blk) low" "start \<le> a" "unat a < unat (fst blk) + unat (snd blk)"
  shows "blocks_ok (head_part start a blk)" "free_bytes (head_part start a blk) \<subseteq> range_of blk \<inter> {..< unat a}"
  using assms
  by (auto simp: head_part_def block_ok_def range_of_def word_le_nat_alt word_less_nat_alt unat_sub_64 unat_dsl_max order_le_less word_unat_eq_iff)

lemma tail_part_inside:
  assumes "unat a + unat sz \<le> unat fin" "unat (a :: u64) + unat sz < 18446744073709551616"
  shows "blocks_ok (tail_part (a + sz) fin)" "free_bytes (tail_part (a + sz) fin) \<subseteq> {unat a + unat sz ..< unat fin}"
  using assms unat_lt_64[of fin]
  by (auto simp: tail_part_def block_ok_def range_of_def word_less_nat_alt unat_sub_64 unat_add_64 word_unat_eq_iff)

lemma phantom_part:
  assumes "unat a + unat sz = unat fin + 1" "(0::u64) < sz"
  shows "tail_part (a + sz) fin = [(a + sz, - 1)]"
proof -
  have "(of_nat (unat a + unat sz) :: u64) = of_nat (unat fin + 1)" using assms(1) by (rule arg_cong)
  then have "a + sz = fin + 1" by simp
  then show ?thesis by (simp add: tail_part_def)
qed

lemma blocks_ok_replace:
  assumes "blocks_ok (pre @ blk # post)" "blocks_ok mid" "free_bytes mid \<subseteq> range_of blk"
  shows "blocks_ok (pre @ mid @ post)"
proof -
  have sub: "\<And>m. m \<in> set mid \<Longrightarrow> range_of m \<subseteq> range_of blk" using assms(3) by (auto simp: free_bytes_def)
  then show ?thesis using assms(1,2) unfolding blocks_ok_append by (auto simp: blocks_ok_append dest!: sub) blast+
qed

lemma tail_part_disjoint_ok:
  assumes "blocks_ok bs" "blocks_ok cs" "free_bytes bs \<inter> free_bytes cs = {}"
  shows "blocks_ok (bs @ cs)"
  using assms unfolding blocks_ok_append free_bytes_def by blast

lemma carve_ok:
  assumes ok: "blocks_ok (pre @ blk # post)" and c: "chosen sz align low high blk" "a = align_up start align" "a \<noteq> 0" "0 < sz"
    and st: "start = dsl_max (fst blk) low" "fin = dsl_min (fst blk + snd blk - 1) high"
  shows "\<exists>rest. blocks_ok rest \<and> free_bytes rest \<subseteq> free_bytes (pre @ blk # post) - taken a sz \<and>
    (carve start fin a sz pre blk post = rest \<or>
     carve start fin a sz pre blk post = (a + sz, - 1) # rest \<and> unat a + unat sz = unat fin + 1)"
proof -
  have b: "block_ok blk" using ok by (simp add: blocks_ok_append)
  have le: "start \<le> a" "a \<le> fin" "sz \<le> fin - a + 1" using c st by (simp_all add: chosen_def Let_def)
  note t = taken_inside[OF b le(1)[unfolded st(1)] le(2)[unfolded st(2)] c(3) le(3)[unfolded st(2)], folded st(2)]
  have "unat a < unat (fst blk) + unat (snd blk)" using t(3) le(2) by (simp add: word_le_nat_alt)
  note h = head_part_inside[OF b st(1) le(1) this]
  let ?mid = "pre @ head_part start a blk @ post"
  have m: "blocks_ok ?mid" by (rule blocks_ok_replace[OF ok h(1)]) (use h(2) in auto)
  have other: "free_bytes pre \<inter> range_of blk = {}" "free_bytes post \<inter> range_of blk = {}"
    using ok by (auto simp: blocks_ok_append free_bytes_def)
  have mid: "free_bytes ?mid \<subseteq> free_bytes (pre @ blk # post) - taken a sz" "free_bytes ?mid \<inter> {unat a ..< unat fin} = {}"
  proof -
    have r: "taken a sz \<subseteq> range_of blk" "{unat a ..< unat fin} \<subseteq> range_of blk" "taken a sz \<inter> {..< unat a} = {}"
      using t(1,3) le(1) st(1) by (auto simp: range_of_def taken_def word_le_nat_alt unat_dsl_max)
    show "free_bytes ?mid \<subseteq> free_bytes (pre @ blk # post) - taken a sz" using r h(2) other by auto
    show "free_bytes ?mid \<inter> {unat a ..< unat fin} = {}" using r(2) h(2) other by auto
  qed
  show ?thesis
  proof (cases "unat a + unat sz = unat fin + 1")
    case True
    show ?thesis unfolding carve_parts phantom_part[OF True c(4)] by (rule exI[of _ ?mid]) (use m mid(1) True in simp)
  next
    case False
    then have s: "unat a + unat sz \<le> unat fin" "unat a + unat sz < 18446744073709551616" using t(2) unat_lt_64[of fin] by linarith+
    note u = tail_part_inside[OF s]
    have "{unat a + unat sz ..< unat fin} \<subseteq> {unat a ..< unat fin}" by auto
    then have "blocks_ok (tail_part (a + sz) fin @ ?mid)" by - (rule tail_part_disjoint_ok[OF u(1) m], use u(2) mid(2) in blast)
    moreover have "free_bytes (tail_part (a + sz) fin) \<subseteq> range_of blk - taken a sz"
      using u(2) t(3) le(1) st(1) by (auto simp: range_of_def taken_def word_le_nat_alt unat_dsl_max)
    ultimately show ?thesis unfolding carve_parts by - (rule exI[of _ "tail_part (a + sz) fin @ ?mid"], use mid(1) in auto)
  qed
qed

lemma minalign_pow: "minalign = 2 ^ 5" by (simp add: minalign_def)

lemma pow2_max_minalign: "\<exists>j < 64. dsl_max (2 ^ k) minalign = 2 ^ j \<and> k \<le> j" if "k < 64"
proof (cases "k < 5")
  case True
  then have "dsl_max (2 ^ k) minalign = 2 ^ 5" using that power_strict_increasing[OF True, of "2::nat"]
    by (simp add: dsl_max_def word_less_nat_alt unat_pow2 minalign_def)
  then show ?thesis using True by (intro exI[of _ 5]) simp
next
  case False
  then have "dsl_max (2 ^ k) minalign = 2 ^ k" using that power_increasing[of 5 k "2::nat"]
    by (auto simp: dsl_max_def word_less_nat_alt unat_pow2 minalign_def word_unat_eq_iff)
  then show ?thesis using that by auto
qed

text \<open>The bounds after rounding lie inside the bounds asked for.\<close>

lemma low_rounded: "align_up (dsl_max low minalign) minalign \<noteq> 0 \<Longrightarrow> low \<le> align_up (dsl_max low minalign) minalign"
proof -
  assume nz: "align_up (dsl_max low minalign) minalign \<noteq> 0"
  then have "dsl_max low minalign \<le> align_up (dsl_max low minalign) minalign"
    using align_up_wraps[of 5 "dsl_max low minalign"] align_up_ge_iff[of 5 "dsl_max low minalign"] by (auto simp: minalign_pow)
  then show ?thesis by (auto simp: word_le_nat_alt unat_dsl_max)
qed

lemma unat_minus_1_64: "unat (- 1 :: u64) = 18446744073709551615"
  by (simp add: unsigned_minus_1_eq_mask mask_eq_exp_minus_1)

lemma high_rounded:
  assumes "31 \<le> (high :: u64)"
  shows "align_down (high + 1) minalign - 1 \<le> high"
proof (cases "high = - 1")
  case False
  then have "unat (high + 1) = unat high + 1" using unat_lt_64[of high]
    by (auto simp: unat_arith_64 word_unat_eq_iff unat_minus_1_64)
  then have "unat (align_down (high + 1) minalign) = (unat high + 1) div 32 * 32" by (simp add: minalign_pow unat_align_down[of 5, simplified])
  moreover have "32 \<le> unat high + 1" using assms by (simp add: word_le_nat_alt)
  then have "1 \<le> (unat high + 1) div 32" by simp
  ultimately show ?thesis by (simp add: word_le_nat_alt unat_sub_64)
qed (simp add: align_down_def)

section \<open>Freeing\<close>

text \<open>The cells of \<open>m\<close> bytes that lie wholly inside a range are the run the code computes by rounding.\<close>

definition cells :: "nat \<Rightarrow> nat \<Rightarrow> nat \<Rightarrow> nat set" where
  "cells m addr sz = {p. addr \<le> p * m \<and> (p + 1) * m \<le> addr + sz}"

lemma sum_le_iff: "P = U + D \<Longrightarrow> \<not> sz \<le> U - addr \<Longrightarrow> addr \<le> U \<Longrightarrow> P \<le> addr + sz \<longleftrightarrow> D \<le> sz - (U - addr)" for P :: nat
  by linarith

lemma cells_run:
  assumes "0 < m" "u = (addr + m - Suc 0) div m"
  shows "cells m addr sz = (if sz \<le> u * m - addr then {} else {u ..< u + (sz - (u * m - addr)) div m})"
proof -
  have u: "addr \<le> u * m" using round_up_ge[OF assms(1), of addr] assms(2) by simp
  have ge: "addr \<le> p * m \<longleftrightarrow> u \<le> p" for p
  proof
    assume "addr \<le> p * m"
    then have "u * m \<le> p * m" unfolding assms(2) by (rule round_up_least[OF assms(1), rotated]) simp
    then show "u \<le> p" using assms(1) by simp
  next
    assume "u \<le> p"
    then show "addr \<le> p * m" using u mult_le_mono1 le_trans by blast
  qed
  show ?thesis
  proof (cases "sz \<le> u * m - addr")
    case True
    have "\<not> (p + 1) * m \<le> addr + sz" if "u \<le> p" for p
      using mult_le_mono1[OF that, of m] True u assms(1) unfolding distrib_right mult_1 by linarith
    then have "cells m addr sz = {}" unfolding cells_def ge by blast
    then show ?thesis unfolding if_P[OF True] .
  next
    case False
    have lt: "(p + 1) * m \<le> addr + sz \<longleftrightarrow> p < u + (sz - (u * m - addr)) div m" if "u \<le> p" for p
    proof -
      from that obtain d where d: "p = u + d" by (rule less_eqE)
      have "(p + 1) * m = u * m + (d + 1) * m" by (simp add: d add_mult_distrib)
      then have "(p + 1) * m \<le> addr + sz \<longleftrightarrow> (d + 1) * m \<le> sz - (u * m - addr)" by (rule sum_le_iff[OF _ False u])
      also have "\<dots> \<longleftrightarrow> d + 1 \<le> (sz - (u * m - addr)) div m" using less_eq_div_iff_mult_less_eq[OF assms(1)] by blast
      finally show ?thesis by (auto simp: d)
    qed
    have "cells m addr sz = {p. u \<le> p \<and> p < u + (sz - (u * m - addr)) div m}" unfolding cells_def ge by (intro Collect_cong conj_cong refl lt)
    also have "\<dots> = {u ..< u + (sz - (u * m - addr)) div m}" by (rule set_eqI) (simp only: mem_Collect_eq atLeastLessThan_iff)
    finally show ?thesis unfolding if_not_P[OF False] .
  qed
qed

text \<open>The rounding of the code, in words: what is left of a range after rounding its start up.\<close>

lemma round_start:
  assumes k: "k < 64" and e: "unat (addr :: u64) + unat sz \<le> 18446744073709551616"
  defines "n \<equiv> align_up addr (2 ^ k :: u64) - addr" and "u \<equiv> (unat addr + 2 ^ k - Suc 0) div 2 ^ k"
  shows "(sz \<le> n) = (unat sz \<le> u * 2 ^ k - unat addr)"
    "\<not> sz \<le> n \<Longrightarrow> unat (addr + n) = u * 2 ^ k \<and> unat (sz - n) = unat sz - (u * 2 ^ k - unat addr)"
proof -
  have u: "unat addr \<le> u * 2 ^ k" unfolding u_def by (rule round_up_ge) simp
  have "(sz \<le> n) = (unat sz \<le> u * 2 ^ k - unat addr) \<and>
    (\<not> sz \<le> n \<longrightarrow> unat (addr + n) = u * 2 ^ k \<and> unat (sz - n) = unat sz - (u * 2 ^ k - unat addr))"
  proof (cases "unat addr + 2 ^ k \<le> 18446744073709551616")
    case True
    then have a: "unat (align_up addr (2 ^ k :: u64)) = u * 2 ^ k" unfolding u_def by (rule unat_align_up[OF k])
    then have n: "unat n = u * 2 ^ k - unat addr" using u by (simp add: n_def unat_sub_64)
    moreover have "addr + n = align_up addr (2 ^ k :: u64)" by (simp add: n_def)
    ultimately show ?thesis using a by (auto simp: word_le_nat_alt unat_sub_64)
  next
    case False
    then have a: "align_up addr (2 ^ k :: u64) = (0::u64)" by (rule align_up_wraps[OF k])
    have p: "unat addr > 0" using False pow2_lt_64[OF k] by (intro gr0I) simp
    then have n: "unat n = 18446744073709551616 - unat addr" unfolding n_def a unat_sub_64 by simp
    have "u * 2 ^ k \<ge> 18446744073709551616"
    proof (rule ccontr)
      assume "\<not> u * 2 ^ k \<ge> 18446744073709551616"
      then obtain w :: u64 where w: "unat w = u * 2 ^ k"
        by (intro that[of "of_nat (u * 2 ^ k)"]) (simp only: unsigned_of_nat take_bit_eq_mod, simp)
      then show False using no_multiple_near_top[OF k False, of w] u by (simp add: word_le_nat_alt)
    qed
    then show ?thesis using n e unat_lt_64[of addr] by (auto simp: word_le_nat_alt)
  qed
  then show "(sz \<le> n) = (unat sz \<le> u * 2 ^ k - unat addr)"
    "\<not> sz \<le> n \<Longrightarrow> unat (addr + n) = u * 2 ^ k \<and> unat (sz - n) = unat sz - (u * 2 ^ k - unat addr)" by blast+
qed

lemma free_run_ok:
  "pgalloc_ok s \<Longrightarrow> {p ..< p + n} \<inter> free_pages s = {} \<Longrightarrow>
     pgalloc_ok (free_run p n s) \<and> free_pages (free_run p n s) = {p ..< p + n} \<union> free_pages s"
proof (induction n arbitrary: p s)
  case (Suc n)
  have r: "{p ..< p + Suc n} = insert p {p + 1 ..< p + 1 + n}" "p \<notin> {p + 1 ..< p + 1 + n}" by auto
  note f = free_page_ok[OF Suc.prems(1), of p]
  show ?case using Suc.IH[of "free_page p s" "p + 1"] f Suc.prems(2) unfolding r(1) using r(2) by simp
qed simp

definition pages_in :: "block \<Rightarrow> pfn set" where
  "pages_in b = {p. {pfn_to_phys p ..< pfn_to_phys (p + 1)} \<subseteq> range_of b}"

lemma pages_in_cells: "pages_in b = cells PAGE_SIZE (unat (fst b)) (unat (snd b))"
  by (auto simp: pages_in_def cells_def range_of_def pfn_to_phys_def PAGE_SIZE_def)

lemma pages_in_disjoint:
  assumes "range_of b \<inter> range_of c = {}"
  shows "pages_in b \<inter> pages_in c = {}"
proof -
  have "pfn_to_phys p \<in> range_of b" if "p \<in> pages_in b" for p b
    using that by (auto simp: pages_in_def pfn_to_phys_def PAGE_SIZE_def)
  then show ?thesis using assms by blast
qed

lemma hand_over_block:
  assumes "block_ok b" "pgalloc_ok s" "pages_in b \<inter> free_pages s = {}"
  obtains s' where "pgalloc_ok s'" "free_pages s' = pages_in b \<union> free_pages s"
    "early_free_everything_to_pgalloc (b # fl) s = early_free_everything_to_pgalloc fl s'"
proof -
  obtain addr sz where b: "b = (addr, sz)" by (cases b)
  let ?n = "align_up addr (0x1000 :: u64) - addr" and ?u = "(unat addr + 2 ^ 12 - Suc 0) div 2 ^ 12"
  have e: "unat addr + unat sz \<le> 18446744073709551616" using assms(1) by (simp add: block_ok_def b)
  note r = round_start[of 12, OF _ e, simplified]
  have c: "pages_in b = (if unat sz \<le> ?u * 2 ^ 12 - unat addr then {} else {?u ..< ?u + (unat sz - (?u * 2 ^ 12 - unat addr)) div 2 ^ 12})"
    unfolding pages_in_cells b using cells_run[of "2 ^ 12" ?u "unat addr" "unat sz"] by (simp add: PAGE_SIZE_def)
  show ?thesis
  proof (cases "sz \<le> ?n")
    case True
    then show ?thesis using c r(1) assms(2) by (intro that[of s]) (simp_all add: b Let_def)
  next
    case False
    then have "phys_to_pfn (unat (addr + ?n)) = ?u" "unat ((sz - ?n) div 0x1000) = (unat sz - (?u * 2 ^ 12 - unat addr)) div 2 ^ 12"
      using r(2) by (simp_all add: phys_to_pfn_def PAGE_SIZE_def unat_div)
    moreover from this have "pages_in b = {?u ..< ?u + unat ((sz - ?n) div 0x1000)}" using c r(1) False by simp
    ultimately show ?thesis using False free_run_ok[OF assms(2), of ?u "unat ((sz - ?n) div 0x1000)"] assms(3)
      by (intro that[of "free_run ?u (unat ((sz - ?n) div 0x1000)) s"]) (simp_all add: b Let_def)
  qed
qed

lemma align_up_id: "k < 64 \<Longrightarrow> 2 ^ k dvd unat v \<Longrightarrow> align_up v (2 ^ k :: u64) = (v :: u64)"
proof -
  assume k: "k < 64" and d: "2 ^ k dvd unat v"
  then have le: "unat v + 2 ^ k \<le> 18446744073709551616" using no_multiple_near_top[OF k, of v v] by auto
  have "(unat v + 2 ^ k - Suc 0) div 2 ^ k * 2 ^ k = unat v"
    using round_up_least[OF _ d le_refl] round_up_ge[of "2 ^ k" "unat v"] by (intro antisym) simp_all
  then have "unat (align_up v (2 ^ k :: u64)) = unat v" using unat_align_up[OF k le] by simp
  then show ?thesis by (simp add: word_unat_eq_iff)
qed

lemma align_down_id: "k < 64 \<Longrightarrow> 2 ^ k dvd unat v \<Longrightarrow> align_down v (2 ^ k :: u64) = (v :: u64)"
  by (simp add: word_unat_eq_iff unat_align_down)

section \<open>Properties\<close>

text \<open>
  (C32) An early allocation is sound: the range lies in free memory and not below the lower bound asked for, is
  aligned and as large as asked for, and does not reach above the upper bound when that is at least 31 (rounding a lower one wraps around, and
  the allocation is then not bounded above). The blocks that stay on the list are disjoint free memory without
  it. The only other thing that may be on the list afterwards is a block of \<open>2 ^ 64 - 1\<close> bytes right behind the
  range, and that only when the range ends at the end of its block or at the upper bound.
\<close>

theorem early_alloc_sound:
  assumes "blocks_ok fl" "k < 64" "early_alloc_phys_range sz (2 ^ k) low high fl = (a, fl')" "a \<noteq> 0"
  shows "let n = align_up sz minalign in
    sz \<le> n \<and> 2 ^ k dvd unat a \<and> taken a n \<subseteq> free_bytes fl \<inter> {unat low ..} \<and> (31 \<le> high \<longrightarrow> taken a n \<subseteq> {.. unat high}) \<and>
    (\<exists>rest. blocks_ok rest \<and> free_bytes rest \<subseteq> free_bytes fl - taken a n \<and>
      (fl' = rest \<or> fl' = (a + n, - 1) # rest \<and>
         (unat a + unat n = unat (align_down (high + 1) minalign - 1) + 1 \<or>
          (\<exists>b \<in> set fl. unat a + unat n = unat (fst b) + unat (snd b)))))"
proof -
  let ?n = "align_up sz minalign" and ?l = "align_up (dsl_max low minalign) minalign" and ?h = "align_down (high + 1) minalign - 1"
  obtain j where j: "j < 64" "dsl_max (2 ^ k) minalign = 2 ^ j" "k \<le> j" using pow2_max_minalign[OF assms(2)] by blast
  have nz: "?l \<noteq> 0" "?n \<noteq> 0" and scan: "early_scan ?n (2 ^ j) ?l ?h [] fl = (a, fl')"
    using assms(3,4) by (auto simp: early_alloc_phys_range_def Let_def j(2) split: if_splits)
  from early_scan_found[OF scan assms(4), unfolded append_Nil] obtain pre blk post where f: "fl = pre @ blk # post" "chosen ?n (2 ^ j) ?l ?h blk"
    "a = align_up (dsl_max (fst blk) ?l) (2 ^ j :: u64)" "fl' = carve (dsl_max (fst blk) ?l) (dsl_min (fst blk + snd blk - 1) ?h) a ?n pre blk post"
    by blast
  have b: "block_ok blk" using assms(1) f(1) by (simp add: blocks_ok_append)
  note c = f(2)[unfolded chosen_def Let_def, folded f(3)]
  note t = taken_inside[OF b, of ?l a ?h ?n] 
  have n: "sz \<le> ?n" using nz(2) align_up_wraps[of 5 sz] align_up_ge_iff[of 5 sz] by (auto simp: minalign_pow)
  have dvd: "2 ^ k dvd unat a" using dvd_align_up[OF j(1)] power_le_dvd[OF _ j(3)] unfolding f(3) by blast
  have tk: "taken a ?n \<subseteq> free_bytes fl \<inter> {unat low ..}" using t(1) c assms(4) low_rounded[OF nz(1)] by (fastforce simp: f(1) word_le_nat_alt)
  have th: "taken a ?n \<subseteq> {.. unat high}" if "31 \<le> high" using t(1) c assms(4) high_rounded[OF that] by (fastforce simp: f(1) word_le_nat_alt)
  have e: "unat (dsl_min (fst blk + snd blk - 1) ?h) + 1 = unat ?h + 1 \<or> unat (dsl_min (fst blk + snd blk - 1) ?h) + 1 = unat (fst blk) + unat (snd blk)"
    using b by (auto simp: unat_dsl_min min_def block_ok_def unat_arith_64 split: if_splits)
  from carve_ok[OF assms(1)[unfolded f(1)] f(2,3) assms(4) _ refl refl] nz(2)
  show ?thesis unfolding Let_def using n dvd tk th e by (auto simp: f(1,4) word_neq_0_conv)
qed

text \<open>A page and a half of memory at 8 KiB.\<close>

definition some_memory :: "block list" where "some_memory = [(0x2000, 0x1800)]"

lemma some_memory_ok: "blocks_ok some_memory"
  by (simp add: some_memory_def block_ok_def)

theorem early_alloc_sound_witness:
  "early_alloc_phys_range 100 (2 ^ 6) 0 0xfffff some_memory = (0x2000, [(0x2080, 0x177f)]) \<and> (0x37ff :: nat) \<in> free_bytes some_memory \<and>
   taken 0x2000 128 \<subseteq> free_bytes some_memory"
proof -
  have r: "early_alloc_phys_range 100 (2 ^ 6) 0 0xfffff some_memory = (0x2000, [(0x2080, 0x177f)])"
    by (simp add: early_alloc_phys_range_def Let_def some_memory_def minalign_def align_up_def align_down_def align_mask_def dsl_max_def dsl_min_def carve_def)
  have "align_up (100 :: u64) minalign = (128 :: u64)" by (simp add: minalign_def align_up_def align_mask_def)
  then have "taken 0x2000 128 \<subseteq> free_bytes some_memory"
    using early_alloc_sound[OF some_memory_ok _ r] by (simp add: Let_def)
  then show ?thesis using r by (simp add: some_memory_def range_of_def)
qed

text \<open>
  An early allocation that uses up a whole block corrupts the free list: whenever memory of a multiple
  of 32 bytes is freed and exactly that much is allocated again, the memory comes back, and the list then
  holds a block of \<open>2 ^ 64 - 1\<close> bytes that starts right behind it and is not free memory.
\<close>

theorem early_alloc_exact_fit:
  assumes "32 dvd unat addr" "32 dvd unat sz" "0 < addr" "0 < sz" "unat addr + unat sz \<le> 18446744073709551616"
  shows "early_free_phys addr sz [] = [(addr, sz)] \<and>
    early_alloc_phys_range sz 1 0 (- 1) (early_free_phys addr sz []) = (addr, [(addr + sz, - 1)])"
proof -
  have ge: "32 \<le> unat addr" "0 < unat sz" using assms by (auto simp: word_less_nat_alt dvd_imp_le)
  have id: "align_up addr minalign = addr" "align_up sz minalign = sz" "align_down sz minalign = sz"
    using assms(1,2) align_up_id[of 5] align_down_id[of 5] by (simp_all add: minalign_def)
  have mx: "dsl_max addr minalign = addr" "dsl_max addr 32 = addr" using ge by (auto simp: dsl_max_def minalign_def word_less_nat_alt word_unat_eq_iff)
  have f: "early_free_phys addr sz [] = [(addr, sz)]" using ge assms(4) by (simp add: early_free_phys_def Let_def mx id word_neq_0_conv)
  have l: "align_up (dsl_max 0 minalign) minalign = (32 :: u64)" "align_down (0 :: u64) minalign = 0" "dsl_max 1 minalign = minalign"
    by (simp_all add: minalign_def align_up_def align_down_def align_mask_def dsl_max_def)
  have e: "unat (addr + sz - 1) = unat addr + unat sz - 1" using assms(5) ge by (auto simp: unat_arith_64)
  have m: "dsl_min (addr + sz - 1) (- 1) = addr + sz - 1" by (auto simp: dsl_min_def not_less word_order.extremum_unique)
  have ne: "addr + sz \<noteq> addr + sz - 1" by (simp add: eq_diff_eq)
  have "\<not> addr + sz - 1 < addr" using e ge by (simp add: word_less_nat_alt)
  then have "early_alloc_phys_range sz 1 0 (- 1) [(addr, sz)] = (addr, [(addr + sz, - 1)])"
    using assms(4) ne by (simp add: early_alloc_phys_range_def Let_def l mx id m carve_def word_neq_0_conv)
  then show ?thesis using f by simp
qed

theorem early_alloc_exact_fit_witness:
  "early_alloc_phys_range 0x1000 1 0 (- 1) (early_free_phys 0x100000 0x1000 []) = (0x100000, [(0x101000, - 1)])"
proof -
  have "early_free_phys 0x100000 0x1000 [] = [(0x100000, 0x1000)] \<and>
    early_alloc_phys_range 0x1000 1 0 (- 1) (early_free_phys 0x100000 0x1000 []) = (0x100000, [(0x100000 + 0x1000, - 1)])"
    by (rule early_alloc_exact_fit) simp_all
  from conjunct2[OF this] show ?thesis by simp
qed

text \<open>
  When the page allocator takes over, it gets exactly the pages that lie wholly inside a free block,
  each once, and its free lists and counters stay consistent.
\<close>

theorem early_hand_over:
  assumes "blocks_ok fl" "pgalloc_ok s" "\<forall>b \<in> set fl. pages_in b \<inter> free_pages s = {}"
  shows "pgalloc_ok (early_free_everything_to_pgalloc fl s) \<and>
    free_pages (early_free_everything_to_pgalloc fl s) = (\<Union>b \<in> set fl. pages_in b) \<union> free_pages s"
  using assms
proof (induction fl arbitrary: s)
  case (Cons b fl)
  obtain s' where s': "pgalloc_ok s'" "free_pages s' = pages_in b \<union> free_pages s"
    "early_free_everything_to_pgalloc (b # fl) s = early_free_everything_to_pgalloc fl s'"
    using hand_over_block[of b s] Cons.prems by auto
  have d: "\<forall>c \<in> set fl. pages_in c \<inter> free_pages s' = {}" using Cons.prems pages_in_disjoint[of b] unfolding s'(2) by fastforce
  show ?case using Cons.IH[OF _ s'(1) d] Cons.prems s'(2,3) by auto
qed simp

theorem early_hand_over_witness:
  "free_pages (early_free_everything_to_pgalloc some_memory two_pages) = {2, 0x10, 0x100000}"
proof -
  have p: "pages_in (0x2000, 0x1800) = {2}" unfolding pages_in_cells cells_def PAGE_SIZE_def by auto
  then have "\<forall>b \<in> set some_memory. pages_in b \<inter> free_pages two_pages = {}" by (simp add: some_memory_def two_pages_free)
  from early_hand_over[OF some_memory_ok two_pages_ok this] show ?thesis by (auto simp: some_memory_def p two_pages_free)
qed

end
