(* ===== verification/Mm_Slab.thy ===== *)
theory Mm_Slab
  imports Mm_Page_Alloc Dsl_Align
begin

text \<open>
  The slab allocator and kmalloc (\<^verbatim>\<open>mm/slab.cc\<close>), on top of the page allocator. Addresses are natural numbers,
  0 is the null pointer. The memory of slab pages is a map from addresses to the object whose lifetime has
  begun there: a free object holds the link of the free list of its page, an object handed out holds the
  client's bytes. Reading a link from an address where no link was stored is the value \<^const>\<open>None\<close>. Each
  operation runs under the lock of its allocator. Counters that count pages or objects in memory do not
  overflow; decrements wrap. The name of an allocator only labels printed statistics and is left out.
\<close>

section \<open>Definitions\<close>

type_synonym vaddr = nat

datatype object = Free_link vaddr | Bytes nat bool

record SlabAllocator =
  nr_full :: nat
  nr_partial :: nat
  page_full :: "pfn list"
  page_partial :: "pfn list"
  nr_empty :: nat
  sa_nfree :: nat
  inp_obj_size :: nat
  inp_obj_align :: nat
  real_obj_size :: nat
  objs_per_page :: nat

record slab_page =
  nfree :: nat
  pobj :: vaddr
  allocator :: vaddr

record mm =
  pg :: pgalloc
  HHDM_OFFSET :: nat
  slab :: "pfn \<Rightarrow> slab_page"
  mem :: "vaddr \<Rightarrow> object option"
  allocators :: "vaddr \<Rightarrow> SlabAllocator option"
  slab_allocator :: vaddr
  globalSlabList :: "vaddr list"
  kmalloc_slabs :: "vaddr list"

definition PAGE_SLAB :: nat where "PAGE_SLAB = 1"

definition page_to_virt :: "mm \<Rightarrow> pfn \<Rightarrow> vaddr" where "page_to_virt s p = pfn_to_phys p + HHDM_OFFSET s"

definition virt_to_page :: "mm \<Rightarrow> vaddr \<Rightarrow> pfn" where "virt_to_page s x = phys_to_pfn (x - HHDM_OFFSET s)"

definition ptr_is_slab :: "mm \<Rightarrow> vaddr \<Rightarrow> bool" where
  "ptr_is_slab s x \<longleftrightarrow> page_flags (pg s) (virt_to_page s x) AND PAGE_SLAB = PAGE_SLAB"

text \<open>Unsigned subtraction at 32 and 64 bits.\<close>

definition dec32 :: "nat \<Rightarrow> nat" where "dec32 n = (if n = 0 then 2 ^ 32 - 1 else n - 1)"

definition sub64 :: "nat \<Rightarrow> nat \<Rightarrow> nat" where "sub64 n k = (if n < k then n + 2 ^ 64 - k else n - k)"

definition dec64 :: "nat \<Rightarrow> nat" where "dec64 n = sub64 n 1"

definition wrap :: "SlabAllocator \<Rightarrow> u32 \<Rightarrow> vaddr \<Rightarrow> mm \<Rightarrow> mm" where
  "wrap a aclass x s = s\<lparr>mem := (mem s)(x \<mapsto> Bytes (inp_obj_size a) (aclass AND ALLOC_ZERO \<noteq> 0))\<rparr>"

definition load_link :: "vaddr \<Rightarrow> mm \<Rightarrow> vaddr option" where
  "load_link x s = (case mem s x of Some (Free_link y) \<Rightarrow> Some y | _ \<Rightarrow> None)"

definition take_slab_page :: "SlabAllocator \<Rightarrow> (pfn option \<times> SlabAllocator) option" where
  "take_slab_page a = (
     if nr_partial a \<noteq> 0 then (case page_partial a of
         p # ps \<Rightarrow> Some (Some p, a\<lparr>page_partial := ps, nr_partial := dec64 (nr_partial a)\<rparr>) | [] \<Rightarrow> None)
     else if nr_full a \<noteq> 0 then (case page_full a of
         p # ps \<Rightarrow> Some (Some p, a\<lparr>page_full := ps, nr_full := dec64 (nr_full a)\<rparr>) | [] \<Rightarrow> None)
     else Some (None, a))"

definition pop_object :: "vaddr \<Rightarrow> u32 \<Rightarrow> pfn \<Rightarrow> SlabAllocator \<Rightarrow> mm \<Rightarrow> (vaddr \<times> mm) option" where
  "pop_object al aclass p a s = (let obj = pobj (slab s p) in do {
     next \<leftarrow> load_link obj s;
     let n = dec32 (nfree (slab s p));
     let s = s\<lparr>slab := (slab s)(p := (slab s p)\<lparr>pobj := next, nfree := n\<rparr>)\<rparr>;
     let a = (if n = 0 then a\<lparr>nr_empty := nr_empty a + 1\<rparr>
       else a\<lparr>nr_partial := nr_partial a + 1, page_partial := p # page_partial a\<rparr>);
     let a = a\<lparr>sa_nfree := dec64 (sa_nfree a)\<rparr>;
     Some (obj, wrap a aclass obj (s\<lparr>allocators := (allocators s)(al \<mapsto> a)\<rparr>))
   })"

text \<open>Threading the free list through a new page; \<open>head\<close> is the pointer to be written next.\<close>

datatype link_head = Page_field | In_object vaddr

fun store_head :: "link_head \<Rightarrow> pfn \<Rightarrow> vaddr \<Rightarrow> mm \<Rightarrow> mm" where
  "store_head Page_field p v s = s\<lparr>slab := (slab s)(p := (slab s p)\<lparr>pobj := v\<rparr>)\<rparr>"
| "store_head (In_object x) p v s = s\<lparr>mem := (mem s)(x \<mapsto> Free_link v)\<rparr>"

function thread_objects :: "nat \<Rightarrow> SlabAllocator \<Rightarrow> pfn \<Rightarrow> link_head \<Rightarrow> mm \<Rightarrow> mm" where
  "thread_objects i a p head s = (
     if i < objs_per_page a then
       let obj = page_to_virt s p + i * real_obj_size a
       in thread_objects (i + 1) a p (In_object obj) (store_head head p obj s)
     else store_head head p 0 s)"
  by pat_completeness auto
termination
  by (relation "measure (\<lambda>(i, a, p, head, s). objs_per_page a - i)") auto

declare thread_objects.simps [simp del]

definition slab_alloc :: "vaddr \<Rightarrow> u32 \<Rightarrow> mm \<Rightarrow> (vaddr \<times> mm) option" where
  "slab_alloc al aclass s = (let aclass = ALLOC_KERNEL OR (aclass AND (ALLOC_HIGHPRIO OR ALLOC_ZERO)) in do {
     a \<leftarrow> allocators s al;
     (page, a) \<leftarrow> take_slab_page a;
     (case page of
       Some p \<Rightarrow> pop_object al aclass p a s
     | None \<Rightarrow> (case alloc_page aclass (pg s) of
         None \<Rightarrow> Some (0, s)
       | Some (p, pgs) \<Rightarrow>
           let s = s\<lparr>pg := pgs\<lparr>page_flags := (page_flags pgs)(p := PAGE_SLAB)\<rparr>,
                 slab := (slab s)(p := (slab s p)\<lparr>allocator := al, nfree := objs_per_page a - 1\<rparr>)\<rparr>;
               addr = page_to_virt s p;
               s = thread_objects 1 a p Page_field s;
               a = a\<lparr>sa_nfree := sa_nfree a + (objs_per_page a - 1), nr_partial := nr_partial a + 1, page_partial := p # page_partial a\<rparr>
           in Some (addr, wrap a aclass addr (s\<lparr>allocators := (allocators s)(al \<mapsto> a)\<rparr>))))
   })"

text \<open>Unlinking a page from the list it is on.\<close>

definition unlink_page :: "pfn \<Rightarrow> SlabAllocator \<Rightarrow> SlabAllocator option" where
  "unlink_page p a = (if p \<in> set (page_partial a) then Some (a\<lparr>page_partial := remove1 p (page_partial a)\<rparr>)
     else if p \<in> set (page_full a) then Some (a\<lparr>page_full := remove1 p (page_full a)\<rparr>) else None)"

definition slab_free :: "vaddr \<Rightarrow> mm \<Rightarrow> mm option" where
  "slab_free x s = (let p = virt_to_page s x; al = allocator (slab s p) in do {
     a \<leftarrow> allocators s al;
     let a = a\<lparr>sa_nfree := sa_nfree a + 1\<rparr>;
     let s = s\<lparr>mem := (mem s)(x \<mapsto> Free_link (pobj (slab s p))),
       slab := (slab s)(p := (slab s p)\<lparr>pobj := x, nfree := nfree (slab s p) + 1\<rparr>)\<rparr>;
     if nfree (slab s p) = 1 then
       let a = a\<lparr>nr_empty := dec64 (nr_empty a), nr_partial := nr_partial a + 1, page_partial := p # page_partial a\<rparr>
       in Some (s\<lparr>allocators := (allocators s)(al \<mapsto> a)\<rparr>)
     else if nfree (slab s p) \<noteq> objs_per_page a then Some (s\<lparr>allocators := (allocators s)(al \<mapsto> a)\<rparr>)
     else do {
       a \<leftarrow> unlink_page p a;
       let a = a\<lparr>nr_partial := dec64 (nr_partial a)\<rparr>;
       if nr_full a < 1 then
         let a = a\<lparr>nr_full := nr_full a + 1, page_full := p # page_full a\<rparr>
         in Some (s\<lparr>allocators := (allocators s)(al \<mapsto> a)\<rparr>)
       else
         let a = a\<lparr>sa_nfree := sub64 (sa_nfree a) (objs_per_page a)\<rparr>
         in Some (s\<lparr>allocators := (allocators s)(al \<mapsto> a), pg := free_page p (pg s)\<rparr>)
     }
   })"

definition init_new_allocator :: "vaddr \<Rightarrow> nat \<Rightarrow> nat \<Rightarrow> nat \<Rightarrow> mm \<Rightarrow> mm" where
  "init_new_allocator al sz align real s = s\<lparr>allocators := (allocators s)(al \<mapsto>
     \<lparr>nr_full = 0, nr_partial = 0, page_full = [], page_partial = [], nr_empty = 0, sa_nfree = 0,
      inp_obj_size = sz, inp_obj_align = align, real_obj_size = real, objs_per_page = PAGE_SIZE div real\<rparr>)\<rparr>"

definition slab_create :: "u64 \<Rightarrow> u64 \<Rightarrow> mm \<Rightarrow> (vaddr \<times> mm) option" where
  "slab_create sz align s = (
     if align AND (align - 1) \<noteq> 0 then Some (0, s)
     else if sz > 0x1000 div 2 \<or> align > 0x1000 div 2 then Some (0, s)
     else if sz = 0 then Some (0, s)
     else let align = (if 8 > align then 8 else align); realsize = align_up sz align in do {
       (al, s) \<leftarrow> slab_alloc (slab_allocator s) ALLOC_KERNEL s;
       if al = 0 then Some (0, s)
       else
         let s = init_new_allocator al (unat sz) (unat align) (unat realsize) s
         in Some (al, s\<lparr>globalSlabList := globalSlabList s @ [al]\<rparr>)
     })"

definition kmalloc_sizes :: "u64 list" where "kmalloc_sizes = [8, 16, 32, 64, 128, 256, 512, 1024, 2048]"

fun kmalloc_scan :: "u64 list \<Rightarrow> vaddr list \<Rightarrow> u64 \<Rightarrow> u32 \<Rightarrow> mm \<Rightarrow> (vaddr \<times> mm) option" where
  "kmalloc_scan (k # ks) (al # als) sz aclass s = (if k \<ge> sz then slab_alloc al aclass s else kmalloc_scan ks als sz aclass s)"
| "kmalloc_scan _ _ sz aclass s = Some (0, s)"

definition kmalloc :: "u64 \<Rightarrow> u32 \<Rightarrow> mm \<Rightarrow> (vaddr \<times> mm) option" where
  "kmalloc sz aclass s = kmalloc_scan kmalloc_sizes (kmalloc_slabs s) sz aclass s"

definition kfree :: "vaddr \<Rightarrow> mm \<Rightarrow> mm option" where
  "kfree x s = (if x = 0 then Some s else slab_free x s)"

text \<open>The panic of a failed creation is the result \<^const>\<open>False\<close>.\<close>

fun create_kmalloc_slabs :: "nat \<Rightarrow> u64 list \<Rightarrow> mm \<Rightarrow> (bool \<times> mm) option" where
  "create_kmalloc_slabs i [] s = Some (True, s)"
| "create_kmalloc_slabs i (k # ks) s = do {
     (al, s) \<leftarrow> slab_create k k s;
     let s = s\<lparr>kmalloc_slabs := (kmalloc_slabs s)[i := al]\<rparr>;
     if al = 0 then Some (False, s) else create_kmalloc_slabs (i + 1) ks s
   }"

definition sizeof_SlabAllocator :: u64 where "sizeof_SlabAllocator = 8 + 2 * 8 + 2 * 16 + 2 * 8 + 4 * 8 + 16 + 32"

definition kmalloc_init :: "mm \<Rightarrow> (bool \<times> mm) option" where
  "kmalloc_init s = create_kmalloc_slabs 0 kmalloc_sizes
     (init_new_allocator (slab_allocator s) (unat sizeof_SlabAllocator) 8 (unat (align_up sizeof_SlabAllocator (8 * 8 :: u64) :: u64)) s)"

end
