(* ===== verification/Mm_Slab_Inv.thy ===== *)
theory Mm_Slab_Inv
  imports Mm_Slab
begin

text \<open>
  The invariant of the slab allocator, and that every operation keeps it: an allocation returns an object nobody holds, and
  freeing an object that is held is defined and gives up exactly that object.
\<close>

section \<open>Invariant\<close>

definition in_page :: "mm \<Rightarrow> pfn \<Rightarrow> vaddr set" where
  "in_page s p = {page_to_virt s p ..< page_to_virt s p + PAGE_SIZE}"

definition slots :: "SlabAllocator \<Rightarrow> vaddr \<Rightarrow> vaddr set" where
  "slots a base = (\<lambda>i. base + i * real_obj_size a) ` {..< objs_per_page a}"

text \<open>The free list of a page.\<close>

fun free_chain :: "(vaddr \<Rightarrow> object option) \<Rightarrow> vaddr \<Rightarrow> vaddr list \<Rightarrow> bool" where
  "free_chain m q [] \<longleftrightarrow> q = 0"
| "free_chain m q (x # xs) \<longleftrightarrow> q = x \<and> (case m x of Some (Free_link r) \<Rightarrow> free_chain m r xs | _ \<Rightarrow> False)"

definition is_bytes :: "SlabAllocator \<Rightarrow> object option \<Rightarrow> bool" where
  "is_bytes a v = (case v of Some (Bytes n z) \<Rightarrow> n = inp_obj_size a | _ \<Rightarrow> False)"

definition objects_ok :: "SlabAllocator \<Rightarrow> slab_page \<Rightarrow> (vaddr \<Rightarrow> object option) \<Rightarrow> vaddr \<Rightarrow> bool" where
  "objects_ok a g m base \<longleftrightarrow> (\<exists>objs. free_chain m (pobj g) objs \<and> distinct objs \<and> length objs = nfree g \<and> set objs \<subseteq> slots a base \<and>
     (\<forall>x \<in> slots a base - set objs. is_bytes a (m x)))"

definition listed_ok :: "SlabAllocator \<Rightarrow> slab_page \<Rightarrow> pfn \<Rightarrow> bool" where
  "listed_ok a g p \<longleftrightarrow> (p \<in> set (page_partial a) \<longleftrightarrow> 0 < nfree g \<and> nfree g < objs_per_page a) \<and>
     (p \<in> set (page_full a) \<longleftrightarrow> nfree g = objs_per_page a)"

definition shape_ok :: "SlabAllocator \<Rightarrow> bool" where
  "shape_ok a \<longleftrightarrow> 0 < real_obj_size a \<and> objs_per_page a = PAGE_SIZE div real_obj_size a \<and> 2 \<le> objs_per_page a \<and>
     inp_obj_size a \<le> real_obj_size a \<and> 0 < inp_obj_size a \<and> inp_obj_align a dvd real_obj_size a \<and> inp_obj_align a dvd PAGE_SIZE"

definition lists_ok :: "SlabAllocator \<Rightarrow> bool" where
  "lists_ok a \<longleftrightarrow> distinct (page_partial a) \<and> distinct (page_full a) \<and> nr_partial a = length (page_partial a) \<and> nr_full a = length (page_full a)"

definition slab_pages :: "mm \<Rightarrow> pfn set" where
  "slab_pages s = {p. page_flags (pg s) p = PAGE_SLAB}"

definition page_ok :: "mm \<Rightarrow> pfn \<Rightarrow> bool" where
  "page_ok s p \<longleftrightarrow> (\<exists>a. allocators s (allocator (slab s p)) = Some a \<and> objects_ok a (slab s p) (mem s) (page_to_virt s p) \<and> listed_ok a (slab s p) p)"

definition alloc_ok :: "mm \<Rightarrow> vaddr \<Rightarrow> SlabAllocator \<Rightarrow> bool" where
  "alloc_ok s al a \<longleftrightarrow> shape_ok a \<and> lists_ok a \<and>
     (\<forall>p \<in> set (page_partial a) \<union> set (page_full a). p \<in> slab_pages s \<and> allocator (slab s p) = al)"

definition slab_inv :: "mm \<Rightarrow> bool" where
  "slab_inv s \<longleftrightarrow> pgalloc_ok (pg s) \<and> slab_pages s \<inter> free_pages (pg s) = {} \<and> 0 < HHDM_OFFSET s \<and> PAGE_SIZE dvd HHDM_OFFSET s \<and>
     (\<forall>p \<in> slab_pages s. page_ok s p) \<and> (\<forall>al a. allocators s al = Some a \<longrightarrow> alloc_ok s al a)"

text \<open>The objects in the hands of clients, with the allocator they came from.\<close>

definition live :: "mm \<Rightarrow> (vaddr \<times> vaddr) set" where
  "live s = {(x, al). \<exists>p a. p \<in> slab_pages s \<and> allocator (slab s p) = al \<and> allocators s al = Some a \<and>
     x \<in> slots a (page_to_virt s p) \<and> is_bytes a (mem s x)}"

section \<open>Geometry\<close>

lemma PAGE_SIZE_pos [simp]: "0 < PAGE_SIZE" by (simp add: PAGE_SIZE_def)

lemma in_page_unique: "x \<in> in_page s p \<Longrightarrow> virt_to_page s x = p"
proof -
  assume x: "x \<in> in_page s p"
  then have "p * PAGE_SIZE \<le> x - HHDM_OFFSET s" "x - HHDM_OFFSET s < Suc p * PAGE_SIZE"
    by (auto simp: in_page_def page_to_virt_def pfn_to_phys_def)
  then show ?thesis unfolding virt_to_page_def phys_to_pfn_def by (intro div_nat_eqI) (simp_all add: mult.commute)
qed

lemma in_page_disjoint: "p \<noteq> q \<Longrightarrow> in_page s p \<inter> in_page s q = {}"
  using in_page_unique[of _ s p] in_page_unique[of _ s q] by blast

lemma slot_in_page:
  assumes "shape_ok a" "x \<in> slots a (page_to_virt s p)"
  shows "x \<in> in_page s p" "x + real_obj_size a \<le> page_to_virt s p + PAGE_SIZE"
proof -
  obtain i where i: "i < objs_per_page a" "x = page_to_virt s p + i * real_obj_size a" using assms(2) by (auto simp: slots_def)
  have "(i + 1) * real_obj_size a \<le> objs_per_page a * real_obj_size a" using i(1) by (intro mult_le_mono1) simp
  also have "\<dots> \<le> PAGE_SIZE" using assms(1) by (simp add: shape_ok_def)
  finally show "x + real_obj_size a \<le> page_to_virt s p + PAGE_SIZE" using i(2) by simp
  then show "x \<in> in_page s p" using assms(1) i(2) by (auto simp: in_page_def shape_ok_def)
qed

lemma slot_aligned:
  assumes "shape_ok a" "PAGE_SIZE dvd HHDM_OFFSET s" "x \<in> slots a (page_to_virt s p)"
  shows "inp_obj_align a dvd x"
proof -
  obtain i where i: "x = page_to_virt s p + i * real_obj_size a" using assms(3) by (auto simp: slots_def)
  have "inp_obj_align a dvd page_to_virt s p" unfolding page_to_virt_def pfn_to_phys_def
    using assms(1,2) by (auto simp: shape_ok_def intro!: dvd_add dvd_mult intro: dvd_trans)
  then show ?thesis unfolding i using assms(1) by (simp add: shape_ok_def)
qed

lemma slots_finite [simp]: "finite (slots a b)" by (simp add: slots_def)

lemma card_slots: "shape_ok a \<Longrightarrow> card (slots a b) = objs_per_page a"
  unfolding slots_def by (subst card_image) (auto simp: inj_on_def shape_ok_def)

definition same_shape :: "SlabAllocator \<Rightarrow> SlabAllocator \<Rightarrow> bool" where
  "same_shape a' a \<longleftrightarrow> real_obj_size a' = real_obj_size a \<and> objs_per_page a' = objs_per_page a \<and> inp_obj_size a' = inp_obj_size a \<and>
     inp_obj_align a' = inp_obj_align a"

lemma same_shape_eqs:
  assumes "same_shape a' a"
  shows "slots a' = slots a" "is_bytes a' = is_bytes a" "objects_ok a' = objects_ok a" "shape_ok a' = shape_ok a"
proof -
  show 1: "slots a' = slots a" "is_bytes a' = is_bytes a" using assms by (auto simp: slots_def is_bytes_def same_shape_def fun_eq_iff split: option.splits object.splits)
  show "objects_ok a' = objects_ok a" by (simp add: objects_ok_def 1 fun_eq_iff)
  show "shape_ok a' = shape_ok a" using assms by (simp add: shape_ok_def same_shape_def)
qed

lemma free_chain_cong: "(\<And>x. x \<in> set xs \<Longrightarrow> m' x = m x) \<Longrightarrow> free_chain m' q xs = free_chain m q xs"
  by (induction xs arbitrary: q) (auto split: option.splits object.splits)

lemma free_chain_links: "free_chain m q xs \<Longrightarrow> x \<in> set xs \<Longrightarrow> \<exists>r. m x = Some (Free_link r)"
  by (induction xs arbitrary: q) (auto split: option.splits object.splits)

lemma objects_ok_frame:
  assumes "objects_ok a g m b" "\<And>x. x \<in> slots a b \<Longrightarrow> m' x = m x"
  shows "objects_ok a g m' b"
proof -
  obtain objs where o: "free_chain m (pobj g) objs" "distinct objs" "length objs = nfree g" "set objs \<subseteq> slots a b" "\<forall>x \<in> slots a b - set objs. is_bytes a (m x)"
    using assms(1) by (auto simp: objects_ok_def)
  have "free_chain m' (pobj g) objs" using o(1,4) assms(2) free_chain_cong[of objs m' m] by blast
  then show ?thesis unfolding objects_ok_def using o assms(2) by (intro exI[of _ objs]) simp
qed

section \<open>Changing one page of one allocator\<close>

text \<open>
  The common part of all operations: the page \<open>p\<close>, the memory of that page and the allocator \<open>al\<close> that owns it
  change; the page may come from or go to the page allocator.
\<close>

definition changes_page :: "pfn \<Rightarrow> vaddr \<Rightarrow> SlabAllocator \<Rightarrow> mm \<Rightarrow> mm \<Rightarrow> bool" where
  "changes_page p al a' s s' \<longleftrightarrow> HHDM_OFFSET s' = HHDM_OFFSET s \<and> allocators s' = (allocators s)(al \<mapsto> a') \<and>
     (\<forall>q. q \<noteq> p \<longrightarrow> slab s' q = slab s q \<and> page_flags (pg s') q = page_flags (pg s) q) \<and>
     (\<forall>x. x \<notin> in_page s p \<longrightarrow> mem s' x = mem s x)"

lemma page_ok_frame:
  assumes "slab_inv s" "allocators s al = Some a" "same_shape a' a" "changes_page p al a' s s'" "q \<noteq> p" "q \<in> slab_pages s"
    and lists: "q \<in> set (page_partial a') \<longleftrightarrow> q \<in> set (page_partial a)" "q \<in> set (page_full a') \<longleftrightarrow> q \<in> set (page_full a)"
  shows "page_ok s' q"
proof -
  obtain b where b: "allocators s (allocator (slab s q)) = Some b" "objects_ok b (slab s q) (mem s) (page_to_virt s q)" "listed_ok b (slab s q) q"
    using assms(1,6) by (auto simp: slab_inv_def page_ok_def)
  have sh: "shape_ok b" using assms(1) b(1) by (auto simp: slab_inv_def alloc_ok_def)
  have v: "page_to_virt s' q = page_to_virt s q" using assms(4) by (simp add: changes_page_def page_to_virt_def)
  have m: "mem s' x = mem s x" if "x \<in> slots b (page_to_virt s q)" for x
    using slot_in_page(1)[OF sh that] in_page_disjoint[OF assms(5), of s] assms(4) by (auto simp: changes_page_def)
  have ob: "objects_ok b (slab s q) (mem s') (page_to_virt s q)"
    by (rule objects_ok_frame[OF b(2) m])
  obtain b' where b': "allocators s' (allocator (slab s q)) = Some b'" "same_shape b' b" "listed_ok b' (slab s q) q"
  proof (cases "allocator (slab s q) = al")
    case True
    then show ?thesis using that[of a'] assms(2-4) b lists by (auto simp: changes_page_def listed_ok_def same_shape_def)
  next
    case False
    then show ?thesis using that[of b] assms(4) b by (auto simp: changes_page_def same_shape_def)
  qed
  have "objects_ok b' (slab s q) (mem s') (page_to_virt s q)"
    using ob same_shape_eqs(3)[OF b'(2)] by simp
  moreover have "slab s' q = slab s q" using assms(4,5) by (simp add: changes_page_def)
  ultimately show ?thesis using b' v by (auto simp: page_ok_def)
qed

lemma slab_inv_update:
  assumes inv: "slab_inv s" and al: "allocators s al = Some a" "same_shape a' a" "lists_ok a'" and ch: "changes_page p al a' s s'"
    and own: "p \<in> slab_pages s \<Longrightarrow> allocator (slab s p) = al"
    and lists: "set (page_partial a') - {p} = set (page_partial a) - {p}" "set (page_full a') - {p} = set (page_full a) - {p}"
    and pg: "pgalloc_ok (pg s')" "slab_pages s' \<inter> free_pages (pg s') = {}"
    and page: "p \<in> slab_pages s' \<Longrightarrow> allocator (slab s' p) = al \<and> objects_ok a' (slab s' p) (mem s') (page_to_virt s p) \<and> listed_ok a' (slab s' p) p"
    and gone: "p \<notin> slab_pages s' \<Longrightarrow> p \<notin> set (page_partial a') \<union> set (page_full a')"
  shows "slab_inv s'"
proof -
  have v: "page_to_virt s' q = page_to_virt s q" for q using ch by (simp add: changes_page_def page_to_virt_def)
  have sp: "q \<in> slab_pages s' \<longleftrightarrow> q \<in> slab_pages s" if "q \<noteq> p" for q using ch that by (simp add: changes_page_def slab_pages_def)
  have "page_ok s' q" if "q \<in> slab_pages s'" for q
  proof (cases "q = p")
    case True
    then show ?thesis using page that ch by (auto simp: page_ok_def changes_page_def v)
  next
    case False
    then show ?thesis using page_ok_frame[OF inv al(1,2) ch False] sp that lists by blast
  qed
  moreover have "alloc_ok s' l b" if l: "allocators s' l = Some b" for l b
  proof (cases "l = al")
    case True
    then have b: "b = a'" using l ch by (simp add: changes_page_def)
    have "alloc_ok s al a" using inv al(1) by (simp add: slab_inv_def)
    then have "shape_ok a'" "\<And>q. q \<in> set (page_partial a') \<union> set (page_full a') \<Longrightarrow> q \<noteq> p \<Longrightarrow> q \<in> slab_pages s \<and> allocator (slab s q) = al"
      using same_shape_eqs(4)[OF al(2)] lists by (auto simp: alloc_ok_def)
    then show ?thesis using True b al(3) sp ch gone page unfolding alloc_ok_def changes_page_def by metis
  next
    case False
    then have "allocators s l = Some b" using l ch by (simp add: changes_page_def)
    then have b: "alloc_ok s l b" using inv by (simp add: slab_inv_def)
    then have "p \<notin> set (page_partial b) \<union> set (page_full b)" using own False by (auto simp: alloc_ok_def)
    then show ?thesis using b sp ch unfolding alloc_ok_def changes_page_def by metis
  qed
  ultimately show ?thesis using inv ch pg by (simp add: slab_inv_def changes_page_def)
qed

lemma live_update:
  assumes inv: "slab_inv s" and al: "allocators s al = Some a" "same_shape a' a" and ch: "changes_page p al a' s s'"
    and own: "p \<in> slab_pages s' \<Longrightarrow> allocator (slab s' p) = al"
  shows "(x, l) \<in> live s' \<longleftrightarrow> (if x \<in> in_page s p then p \<in> slab_pages s' \<and> l = al \<and> x \<in> slots a (page_to_virt s p) \<and> is_bytes a (mem s' x)
     else (x, l) \<in> live s)"
proof -
  have v: "page_to_virt s' q = page_to_virt s q" for q using ch by (simp add: changes_page_def page_to_virt_def)
  have shape: "shape_ok b" if "allocators s k = Some b" for k b using inv that by (auto simp: slab_inv_def alloc_ok_def)
  have sp: "q \<in> slab_pages s' \<longleftrightarrow> q \<in> slab_pages s" "slab s' q = slab s q" if "q \<noteq> p" for q using ch that by (simp_all add: changes_page_def slab_pages_def)
  have at: "(\<exists>b'. allocators s' k = Some b' \<and> x \<in> slots b' c \<and> is_bytes b' w) \<longleftrightarrow> (\<exists>b. allocators s k = Some b \<and> x \<in> slots b c \<and> is_bytes b w)" for k c w
    using ch al same_shape_eqs[OF al(2)] by (auto simp: changes_page_def)
  have l': "(x, l) \<in> live s' \<longleftrightarrow> (\<exists>q b. q \<in> slab_pages s' \<and> allocator (slab s' q) = l \<and> allocators s l = Some b \<and> x \<in> slots b (page_to_virt s q) \<and> is_bytes b (mem s' x))"
    unfolding live_def using at v by auto
  have inp: "x \<in> in_page s q" if "allocators s l = Some b" "x \<in> slots b (page_to_virt s q)" for q b
    using slot_in_page(1)[OF shape] that by blast
  show ?thesis
  proof (cases "x \<in> in_page s p")
    case True
    then have up: "q = p" if "x \<in> in_page s q" for q using that in_page_unique by blast
    have "(x, l) \<in> live s' \<longleftrightarrow> p \<in> slab_pages s' \<and> l = al \<and> x \<in> slots a (page_to_virt s p) \<and> is_bytes a (mem s' x)"
    proof
      assume "(x, l) \<in> live s'"
      then obtain q b where q: "q \<in> slab_pages s'" "allocator (slab s' q) = l" "allocators s l = Some b" "x \<in> slots b (page_to_virt s q)"
        "is_bytes b (mem s' x)" unfolding l' by blast
      then have "q = p" using up inp by blast
      then show "p \<in> slab_pages s' \<and> l = al \<and> x \<in> slots a (page_to_virt s p) \<and> is_bytes a (mem s' x)" using q own al(1) by simp
    qed (use own al(1) l' in blast)
    then show ?thesis using True by simp
  next
    case False
    then have m: "mem s' x = mem s x" using ch by (simp add: changes_page_def)
    have "(q \<in> slab_pages s' \<and> allocator (slab s' q) = l \<and> allocators s l = Some b \<and> x \<in> slots b (page_to_virt s q) \<and> is_bytes b (mem s' x)) \<longleftrightarrow>
      (q \<in> slab_pages s \<and> allocator (slab s q) = l \<and> allocators s l = Some b \<and> x \<in> slots b (page_to_virt s q) \<and> is_bytes b (mem s x))" for q b
      using False inp[of b q] sp[of q] m by (cases "q = p") auto
    then show ?thesis unfolding l' using False by (simp add: live_def)
  qed
qed

section \<open>The objects of one page\<close>

lemma objects_free_bound: "shape_ok a \<Longrightarrow> objects_ok a g m b \<Longrightarrow> nfree g \<le> objs_per_page a"
  unfolding objects_ok_def using card_slots[of a b] by (metis card_mono distinct_card slots_finite)

lemma objects_pop:
  assumes "objects_ok a g m b" "0 < nfree g"
  shows "\<exists>nx. m (pobj g) = Some (Free_link nx) \<and> pobj g \<in> slots a b \<and>
    objects_ok a (g\<lparr>pobj := nx, nfree := nfree g - 1\<rparr>) (m(pobj g \<mapsto> Bytes (inp_obj_size a) z)) b"
proof -
  obtain objs where o: "free_chain m (pobj g) objs" "distinct objs" "length objs = nfree g" "set objs \<subseteq> slots a b" "\<forall>x \<in> slots a b - set objs. is_bytes a (m x)"
    using assms(1) by (auto simp: objects_ok_def)
  then obtain rest where r: "objs = pobj g # rest" using assms(2) by (cases objs) auto
  obtain nx where n: "m (pobj g) = Some (Free_link nx)" "free_chain m nx rest"
    using o(1) r by (auto split: option.splits object.splits)
  have "free_chain (m(pobj g \<mapsto> Bytes (inp_obj_size a) z)) nx rest" using n(2) o(2) r by (subst free_chain_cong) auto
  moreover have "\<forall>x \<in> slots a b - set rest. is_bytes a ((m(pobj g \<mapsto> Bytes (inp_obj_size a) z)) x)" using o(5) r by (auto simp: is_bytes_def)
  ultimately have "objects_ok a (g\<lparr>pobj := nx, nfree := nfree g - 1\<rparr>) (m(pobj g \<mapsto> Bytes (inp_obj_size a) z)) b"
    unfolding objects_ok_def using o r by (intro exI[of _ rest]) auto
  then show ?thesis using n(1) o(4) r by auto
qed

lemma objects_push:
  assumes "objects_ok a g m b" "x \<in> slots a b" "is_bytes a (m x)" "shape_ok a"
  shows "objects_ok a (g\<lparr>pobj := x, nfree := nfree g + 1\<rparr>) (m(x \<mapsto> Free_link (pobj g))) b" "nfree g < objs_per_page a"
proof -
  obtain objs where o: "free_chain m (pobj g) objs" "distinct objs" "length objs = nfree g" "set objs \<subseteq> slots a b" "\<forall>x \<in> slots a b - set objs. is_bytes a (m x)"
    using assms(1) by (auto simp: objects_ok_def)
  have x: "x \<notin> set objs" using free_chain_links[OF o(1), of x] assms(3) by (auto simp: is_bytes_def)
  have "free_chain (m(x \<mapsto> Free_link (pobj g))) (pobj g) objs" using o(1) x by (subst free_chain_cong) auto
  then show ob: "objects_ok a (g\<lparr>pobj := x, nfree := nfree g + 1\<rparr>) (m(x \<mapsto> Free_link (pobj g))) b"
    unfolding objects_ok_def using o x assms(2) by (intro exI[of _ "x # objs"]) auto
  from objects_free_bound[OF assms(4) this] show "nfree g < objs_per_page a" by simp
qed

text \<open>Threading a new page.\<close>

fun head_is :: "link_head \<Rightarrow> pfn \<Rightarrow> vaddr \<Rightarrow> mm \<Rightarrow> bool" where
  "head_is Page_field p q s \<longleftrightarrow> pobj (slab s p) = q"
| "head_is (In_object y) p q s \<longleftrightarrow> mem s y = Some (Free_link q)"

definition threaded :: "pfn \<Rightarrow> link_head \<Rightarrow> vaddr set \<Rightarrow> mm \<Rightarrow> mm \<Rightarrow> bool" where
  "threaded p head X s s' \<longleftrightarrow> pg s' = pg s \<and> HHDM_OFFSET s' = HHDM_OFFSET s \<and> allocators s' = allocators s \<and>
     slab_allocator s' = slab_allocator s \<and> globalSlabList s' = globalSlabList s \<and> kmalloc_slabs s' = kmalloc_slabs s \<and>
     (\<forall>q. q \<noteq> p \<longrightarrow> slab s' q = slab s q) \<and> allocator (slab s' p) = allocator (slab s p) \<and> nfree (slab s' p) = nfree (slab s p) \<and>
     (\<forall>x. x \<notin> X \<and> head \<noteq> In_object x \<longrightarrow> mem s' x = mem s x) \<and> (head \<noteq> Page_field \<longrightarrow> pobj (slab s' p) = pobj (slab s p))"

lemma thread_objects_spec:
  assumes "0 < real_obj_size a" "\<forall>j \<ge> i. head \<noteq> In_object (page_to_virt s p + j * real_obj_size a)"
  shows "\<exists>q. head_is head p q (thread_objects i a p head s) \<and>
      free_chain (mem (thread_objects i a p head s)) q (map (\<lambda>j. page_to_virt s p + j * real_obj_size a) [i ..< objs_per_page a])"
    and "threaded p head ((\<lambda>j. page_to_virt s p + j * real_obj_size a) ` {i ..< objs_per_page a}) s (thread_objects i a p head s)"
proof -
  let ?o = "\<lambda>j. page_to_virt s p + j * real_obj_size a"
  have "(\<exists>q. head_is head p q (thread_objects i a p head s) \<and> free_chain (mem (thread_objects i a p head s)) q (map ?o [i ..< objs_per_page a])) \<and>
     threaded p head (?o ` {i ..< objs_per_page a}) s (thread_objects i a p head s)"
    using assms
  proof (induction i a p head s rule: thread_objects.induct)
    case (1 i a p head s)
    let ?o = "\<lambda>j. page_to_virt s p + j * real_obj_size a"
    show ?case
    proof (cases "i < objs_per_page a")
      case False
      then have e: "thread_objects i a p head s = store_head head p 0 s" by (simp add: thread_objects.simps)
      show ?thesis unfolding e using False by (cases head) (auto simp: threaded_def)
    next
      case True
      let ?s1 = "store_head head p (?o i) s"
      let ?s2 = "thread_objects (i + 1) a p (In_object (?o i)) ?s1"
      have e: "thread_objects i a p head s = ?s2" using True by (simp add: thread_objects.simps[of i] Let_def)
      have v: "page_to_virt ?s1 p = page_to_virt s p" by (cases head) (simp_all add: page_to_virt_def)
      have ne: "\<forall>j \<ge> i + 1. In_object (?o i) \<noteq> In_object (page_to_virt ?s1 p + j * real_obj_size a)" using "1.prems"(1) by (auto simp: v)
      from "1.IH"[OF True refl "1.prems"(1) ne] obtain q where q: "mem ?s2 (?o i) = Some (Free_link q)"
          "free_chain (mem ?s2) q (map ?o [i + 1 ..< objs_per_page a])"
        and t: "threaded p (In_object (?o i)) (?o ` {i + 1 ..< objs_per_page a}) ?s1 ?s2" by (auto simp: v)
      define s2 where "s2 = ?s2"
      note q = q[folded s2_def] and t = t[folded s2_def]
      have c: "free_chain (mem s2) (?o i) (map ?o [i ..< objs_per_page a])" using q True by (simp add: upt_conv_Cons)
      have y: "y \<notin> ?o ` {i + 1 ..< objs_per_page a}" "?o i \<noteq> y" if "head = In_object y" for y
      proof -
        have ne: "y \<noteq> ?o j" if "i \<le> j" for j using "1.prems"(2) \<open>head = In_object y\<close> that by blast
        show "y \<notin> ?o ` {i + 1 ..< objs_per_page a}"
        proof
          assume "y \<in> ?o ` {i + 1 ..< objs_per_page a}"
          then obtain j where "y = ?o j" "j \<in> {i + 1 ..< objs_per_page a}" by (rule imageE)
          then show False using ne[of j] by simp
        qed
        show "?o i \<noteq> y" using ne[of i] by simp
      qed
      have h: "head_is head p (?o i) s2"
      proof (cases head)
        case Page_field
        then show ?thesis using t by (simp add: threaded_def)
      next
        case (In_object y)
        then have "mem s2 y = mem ?s1 y" using t y[OF In_object] unfolding threaded_def by blast
        then show ?thesis using In_object by simp
      qed
      have im: "?o ` {i ..< objs_per_page a} = insert (?o i) (?o ` {i + 1 ..< objs_per_page a})"
      proof -
        have "{i ..< objs_per_page a} = insert i {i + 1 ..< objs_per_page a}" using True by auto
        then show ?thesis by (simp only: image_insert)
      qed
      have "threaded p head (?o ` {i ..< objs_per_page a}) s s2"
        unfolding im using t by (cases head) (simp_all add: threaded_def)
      then show ?thesis unfolding e s2_def[symmetric] using c h by blast
    qed
  qed
  then show "\<exists>q. head_is head p q (thread_objects i a p head s) \<and>
      free_chain (mem (thread_objects i a p head s)) q (map ?o [i ..< objs_per_page a])"
    "threaded p head (?o ` {i ..< objs_per_page a}) s (thread_objects i a p head s)" by blast+
qed

section \<open>Allocation\<close>

text \<open>The pages the page allocator and the slab allocator have between them.\<close>

definition managed :: "mm \<Rightarrow> pfn set" where
  "managed s = slab_pages s \<union> free_pages (pg s)"

definition keeps :: "mm \<Rightarrow> mm \<Rightarrow> bool" where
  "keeps s s' \<longleftrightarrow> HHDM_OFFSET s' = HHDM_OFFSET s \<and> slab_allocator s' = slab_allocator s \<and> globalSlabList s' = globalSlabList s \<and>
     kmalloc_slabs s' = kmalloc_slabs s \<and> managed s' = managed s \<and> (\<forall>l. rel_option same_shape (allocators s' l) (allocators s l))"

text \<open>What an allocation promises: an object nobody holds, for the caller, and nothing else changes hands.\<close>

definition gives :: "vaddr \<Rightarrow> SlabAllocator \<Rightarrow> u32 \<Rightarrow> mm \<Rightarrow> vaddr \<Rightarrow> mm \<Rightarrow> bool" where
  "gives al a aclass s x s' \<longleftrightarrow> slab_inv s' \<and> keeps s s' \<and> x \<noteq> 0 \<and> inp_obj_align a dvd x \<and> (\<forall>l. (x, l) \<notin> live s) \<and>
     live s' = insert (x, al) (live s) \<and> mem s' x = Some (Bytes (inp_obj_size a) (aclass AND ALLOC_ZERO \<noteq> 0))"

lemma same_shape_refl [simp]: "same_shape a a" by (simp add: same_shape_def)

lemma rel_option_same [simp]: "rel_option same_shape v v" by (cases v) simp_all

lemma slab_inv_shape: "slab_inv s \<Longrightarrow> allocators s al = Some a \<Longrightarrow> shape_ok a"
  by (auto simp: slab_inv_def alloc_ok_def)

lemma slab_inv_page:
  assumes "slab_inv s" "p \<in> slab_pages s" "allocator (slab s p) = al" "allocators s al = Some a"
  shows "objects_ok a (slab s p) (mem s) (page_to_virt s p)" "listed_ok a (slab s p) p"
  using assms by (auto simp: slab_inv_def page_ok_def)

lemma slot_nonzero: "slab_inv s \<Longrightarrow> allocators s al = Some a \<Longrightarrow> x \<in> slots a (page_to_virt s p) \<Longrightarrow> x \<noteq> 0"
  by (auto simp: slots_def page_to_virt_def slab_inv_def)

lemma live_holder: "slab_inv s \<Longrightarrow> (x, l) \<in> live s \<Longrightarrow> x \<in> in_page s p \<Longrightarrow> allocator (slab s p) = l \<and> p \<in> slab_pages s"
proof -
  assume inv: "slab_inv s" and x: "(x, l) \<in> live s" "x \<in> in_page s p"
  from x(1) obtain q a where q: "q \<in> slab_pages s" "allocator (slab s q) = l" "allocators s l = Some a" "x \<in> slots a (page_to_virt s q)"
    by (auto simp: live_def)
  then have "x \<in> in_page s q" using slot_in_page(1) slab_inv_shape[OF inv q(3)] by blast
  then have "q = p" using x(2) in_page_unique by blast
  then show ?thesis using q by simp
qed

text \<open>When one slot of the page changes from free to held, exactly that object changes hands.\<close>

lemma live_insert:
  assumes inv: "slab_inv s" and al: "allocators s al = Some a" "same_shape a' a" and ch: "changes_page p al a' s s'"
    and own: "p \<in> slab_pages s'" "allocator (slab s' p) = al" and x: "x \<in> slots a (page_to_virt s p)" "is_bytes a (mem s' x)" "\<forall>l. (x, l) \<notin> live s"
    and same: "\<And>y. y \<in> slots a (page_to_virt s p) \<Longrightarrow> y \<noteq> x \<Longrightarrow> is_bytes a (mem s' y) \<longleftrightarrow> (y, al) \<in> live s"
    and new: "\<And>y l. y \<in> in_page s p \<Longrightarrow> (y, l) \<in> live s \<Longrightarrow> l = al \<and> y \<in> slots a (page_to_virt s p)"
  shows "live s' = insert (x, al) (live s)"
proof -
  have xp: "x \<in> in_page s p" by (rule slot_in_page(1)[OF slab_inv_shape[OF inv al(1)] x(1)])
  have "(y, l) \<in> live s' \<longleftrightarrow> (y, l) \<in> insert (x, al) (live s)" for y l
    unfolding live_update[OF inv al ch own(2)] using own(1) x(1,2) xp same[of y] new[of y l] x(3)
    by (cases "y \<in> in_page s p"; cases "y = x") auto
  then show ?thesis by auto
qed

lemma page_holders:
  assumes "slab_inv s" "p \<in> slab_pages s" "allocator (slab s p) = al" "allocators s al = Some a"
  shows "y \<in> in_page s p \<Longrightarrow> (y, l) \<in> live s \<longleftrightarrow> l = al \<and> y \<in> slots a (page_to_virt s p) \<and> is_bytes a (mem s y)"
proof -
  assume y: "y \<in> in_page s p"
  show ?thesis
  proof
    assume l: "(y, l) \<in> live s"
    then obtain q b where q: "q \<in> slab_pages s" "allocator (slab s q) = l" "allocators s l = Some b" "y \<in> slots b (page_to_virt s q)" "is_bytes b (mem s y)"
      by (auto simp: live_def)
    then have "q = p" using y in_page_unique slot_in_page(1)[OF slab_inv_shape[OF assms(1) q(3)] q(4)] by blast
    then show "l = al \<and> y \<in> slots a (page_to_virt s p) \<and> is_bytes a (mem s y)" using q assms(3,4) by simp
  qed (use assms(2-4) in \<open>auto simp: live_def\<close>)
qed

lemma pop_object_gives:
  assumes inv: "slab_inv s" and al: "allocators s al = Some a" and p: "p \<in> slab_pages s" "allocator (slab s p) = al" "0 < nfree (slab s p)"
    and a1: "same_shape a1 a" "lists_ok a1" "p \<notin> set (page_partial a1)" "p \<notin> set (page_full a1)"
      "set (page_partial a1) - {p} = set (page_partial a) - {p}" "set (page_full a1) - {p} = set (page_full a) - {p}"
  shows "\<exists>x s'. pop_object al aclass p a1 s = Some (x, s') \<and> gives al a aclass s x s'"
proof -
  note sh = slab_inv_shape[OF inv al] and pk = slab_inv_page[OF inv p(1,2) al]
  let ?g = "slab s p" and ?z = "aclass AND ALLOC_ZERO \<noteq> 0" and ?b = "page_to_virt s p"
  obtain nx where nx: "mem s (pobj ?g) = Some (Free_link nx)" "pobj ?g \<in> slots a ?b"
    "objects_ok a (?g\<lparr>pobj := nx, nfree := nfree ?g - 1\<rparr>) ((mem s)(pobj ?g \<mapsto> Bytes (inp_obj_size a) ?z)) ?b"
    using objects_pop[OF pk(1) p(3), of ?z] by blast
  define n where "n = nfree ?g - 1"
  define a2 where "a2 = (if n = 0 then a1\<lparr>nr_empty := nr_empty a1 + 1\<rparr> else a1\<lparr>nr_partial := nr_partial a1 + 1, page_partial := p # page_partial a1\<rparr>)\<lparr>sa_nfree := dec64 (sa_nfree a1)\<rparr>"
  define s' where "s' = s\<lparr>slab := (slab s)(p := ?g\<lparr>pobj := nx, nfree := n\<rparr>), allocators := (allocators s)(al \<mapsto> a2),
    mem := (mem s)(pobj ?g \<mapsto> Bytes (inp_obj_size a) ?z)\<rparr>"
  have e: "pop_object al aclass p a1 s = Some (pobj ?g, s')"
    using p(3) a1(1) by (simp add: pop_object_def Let_def load_link_def nx(1) dec32_def wrap_def s'_def a2_def n_def same_shape_def)
  have sh2: "same_shape a2 a" "lists_ok a2" using a1(1,2,3) by (auto simp: a2_def same_shape_def lists_ok_def)
  have xp: "pobj ?g \<in> in_page s p" by (rule slot_in_page(1)[OF sh nx(2)])
  have ch: "changes_page p al a2 s s'" using xp by (auto simp: changes_page_def s'_def)
  have bound: "nfree ?g \<le> objs_per_page a" by (rule objects_free_bound[OF sh pk(1)])
  have li: "listed_ok a2 (slab s' p) p" using a1(1,3,4) bound p(3) by (auto simp: listed_ok_def s'_def a2_def n_def same_shape_def)
  have ob: "objects_ok a2 (slab s' p) (mem s') ?b" unfolding same_shape_eqs(3)[OF sh2(1)] using nx(3) by (simp add: s'_def n_def)
  have pgs: "pg s' = pg s" "slab_pages s' = slab_pages s" by (simp_all add: s'_def slab_pages_def)
  have inv': "slab_inv s'"
    by (rule slab_inv_update[OF inv al sh2 ch]) (use p(1,2) a1(5,6) inv ob li pgs in \<open>auto simp: a2_def slab_inv_def s'_def\<close>)
  have free: "\<not> is_bytes a (mem s (pobj ?g))" by (simp add: nx(1) is_bytes_def)
  note ph = page_holders[OF inv p(1,2) al]
  have "live s' = insert (pobj ?g, al) (live s)"
    by (rule live_insert[OF inv al sh2(1) ch])
      (use p(1,2) nx(2) free ph xp slot_in_page(1)[OF sh] in \<open>auto simp: s'_def is_bytes_def slab_pages_def\<close>)
  moreover have "\<forall>l. (pobj ?g, l) \<notin> live s" using free ph[OF xp] by simp
  moreover have "keeps s s'" using sh2(1) al by (simp add: keeps_def managed_def slab_pages_def s'_def)
  ultimately have "gives al a aclass s (pobj ?g) s'" unfolding gives_def
    using inv' slot_nonzero[OF inv al nx(2)] slot_aligned[OF sh _ nx(2)] inv by (simp add: s'_def slab_inv_def)
  then show ?thesis using e by blast
qed

text \<open>A page taken from the page allocator.\<close>

lemma objects_new:
  assumes sh: "shape_ok a" and g: "nfree (slab s p) = objs_per_page a - 1"
  defines "s' \<equiv> thread_objects 1 a p Page_field s" and "b \<equiv> page_to_virt s p"
  shows "objects_ok a (slab s' p) ((mem s')(b \<mapsto> Bytes (inp_obj_size a) z)) b"
    and "\<forall>x. x \<notin> slots a b \<longrightarrow> mem s' x = mem s x"
    and "x \<in> slots a b \<Longrightarrow> x \<noteq> b \<Longrightarrow> \<not> is_bytes a (mem s' x)"
    and "b \<in> slots a b"
proof -
  let ?o = "\<lambda>j. b + j * real_obj_size a" and ?n = "objs_per_page a"
  have r: "0 < real_obj_size a" "2 \<le> ?n" using sh by (simp_all add: shape_ok_def)
  note t = thread_objects_spec[of a 1 Page_field s p, OF r(1), folded s'_def b_def, simplified]
  have c: "free_chain (mem s') (pobj (slab s' p)) (map ?o [1 ..< ?n])" using t(1) by simp
  have nb: "b \<notin> set (map ?o [1 ..< ?n])" using r(1) by auto
  have sl: "slots a b = insert b (set (map ?o [1 ..< ?n]))"
  proof -
    have "{..< ?n} = insert 0 {1 ..< ?n}" using r(2) by auto
    then show ?thesis by (simp add: slots_def)
  qed
  show "b \<in> slots a b" unfolding sl by simp
  have "free_chain ((mem s')(b \<mapsto> Bytes (inp_obj_size a) z)) (pobj (slab s' p)) (map ?o [1 ..< ?n])"
    using c nb by (subst free_chain_cong) auto
  moreover have "distinct (map ?o [1 ..< ?n])" using r(1) by (auto simp: distinct_map inj_on_def)
  moreover have "nfree (slab s' p) = ?n - 1" using t(2) g by (simp add: threaded_def)
  ultimately show "objects_ok a (slab s' p) ((mem s')(b \<mapsto> Bytes (inp_obj_size a) z)) b"
    unfolding objects_ok_def using nb sl by (intro exI[of _ "map ?o [1 ..< ?n]"]) (auto simp: is_bytes_def)
  show "\<forall>x. x \<notin> slots a b \<longrightarrow> mem s' x = mem s x" using t(2) unfolding sl by (auto simp: threaded_def)
  show "\<not> is_bytes a (mem s' x)" if "x \<in> slots a b" "x \<noteq> b"
    using that free_chain_links[OF c, of x] unfolding sl by (auto simp: is_bytes_def)
qed

lemma new_page_gives:
  assumes inv: "slab_inv s" and al: "allocators s al = Some a" and p: "alloc_page c (pg s) = Some (p, pgs)"
  defines "s1 \<equiv> s\<lparr>pg := pgs\<lparr>page_flags := (page_flags pgs)(p := PAGE_SLAB)\<rparr>, slab := (slab s)(p := (slab s p)\<lparr>allocator := al, nfree := objs_per_page a - 1\<rparr>)\<rparr>"
    and "a2 \<equiv> a\<lparr>sa_nfree := sa_nfree a + (objs_per_page a - 1), nr_partial := nr_partial a + 1, page_partial := p # page_partial a\<rparr>"
  shows "gives al a aclass s (page_to_virt s p)
    (wrap a2 aclass (page_to_virt s p) ((thread_objects 1 a p Page_field s1)\<lparr>allocators := (allocators s)(al \<mapsto> a2)\<rparr>))"
proof -
  let ?b = "page_to_virt s p" and ?z = "aclass AND ALLOC_ZERO \<noteq> 0"
  define s2 where "s2 = thread_objects 1 a p Page_field s1"
  define s' where "s' = wrap a2 aclass ?b (s2\<lparr>allocators := (allocators s)(al \<mapsto> a2)\<rparr>)"
  note sh = slab_inv_shape[OF inv al]
  have pi: "pgalloc_ok pgs" "p \<notin> slab_pages s" "insert p (slab_pages s) \<inter> free_pages pgs = {}"
    using pages.take_page[OF _ _ p, of "slab_pages s"] inv by (simp_all add: slab_inv_def)
  have fl: "page_flags pgs = page_flags (pg s)" using alloc_page_from_zone[OF p] alloc_from_zone_ok[OF _ _ allocation_zone_less] inv
    by (fastforce simp: slab_inv_def)
  have v: "page_to_virt s1 p = ?b" by (simp add: s1_def page_to_virt_def)
  note n = objects_new[OF sh, of s1 p, folded s2_def, unfolded v]
  have t: "threaded p Page_field ((\<lambda>j. ?b + j * real_obj_size a) ` {1 ..< objs_per_page a}) s1 s2"
    using thread_objects_spec(2)[of a 1 Page_field s1 p] sh by (simp add: s2_def v shape_ok_def)
  have sh2: "same_shape a2 a" by (simp add: a2_def same_shape_def)
  have ao: "alloc_ok s al a" using inv al by (simp add: slab_inv_def)
  have np: "p \<notin> set (page_partial a)" "p \<notin> set (page_full a)" using ao pi(2) by (auto simp: alloc_ok_def)
  have lo: "lists_ok a2" using ao np by (auto simp: alloc_ok_def lists_ok_def a2_def)
  have g: "slab s' p = slab s2 p" "mem s' = (mem s2)(?b \<mapsto> Bytes (inp_obj_size a) ?z)" "pg s' = pgs\<lparr>page_flags := (page_flags pgs)(p := PAGE_SLAB)\<rparr>"
    "nfree (slab s' p) = objs_per_page a - 1" "allocator (slab s' p) = al"
    using t by (simp_all add: s'_def wrap_def a2_def threaded_def s1_def)
  have out: "x \<notin> in_page s p \<Longrightarrow> x \<notin> slots a ?b" for x using slot_in_page(1)[OF sh] by blast
  have ch: "changes_page p al a2 s s'" unfolding changes_page_def
    using t fl n(2) n(4) out by (auto simp: s'_def wrap_def threaded_def s1_def)
  have sp: "slab_pages s' = insert p (slab_pages s)" by (auto simp: slab_pages_def g(3) fl)
  have "listed_ok a2 (slab s' p) p" using sh np by (auto simp: listed_ok_def g(4) a2_def shape_ok_def)
  moreover have "objects_ok a2 (slab s' p) (mem s') ?b" unfolding same_shape_eqs(3)[OF sh2] g(1,2) by (rule n(1)) (simp add: s1_def)
  ultimately have inv': "slab_inv s'"
    by - (rule slab_inv_update[OF inv al sh2 lo ch], use pi sp g(5) in \<open>auto simp: a2_def g(3) pgalloc_ok_def free_pages_def\<close>)
  have nl: "\<forall>y \<in> in_page s p. \<forall>l. (y, l) \<notin> live s" using live_holder[OF inv] pi(2) by blast
  have n4: "?b \<in> slots a ?b" by (rule n(4)) (simp add: s1_def)
  have n3: "x \<in> slots a ?b \<Longrightarrow> x \<noteq> ?b \<Longrightarrow> \<not> is_bytes a (mem s2 x)" for x by (rule n(3)) (simp_all add: s1_def)
  have "live s' = insert (?b, al) (live s)"
    by (rule live_insert[OF inv al sh2 ch]) (use sp g(5) n4 n3 nl slot_in_page(1)[OF sh] in \<open>auto simp: g(2) is_bytes_def\<close>)
  moreover have "managed s' = managed s"
    using alloc_page_ok[OF _ p] inv by (auto simp: managed_def sp g(3) free_pages_def slab_inv_def)
  then have "keeps s s'" using t al by (simp add: keeps_def s'_def wrap_def threaded_def s1_def sh2)
  ultimately have "gives al a aclass s ?b s'" unfolding gives_def
    using inv' slot_nonzero[OF inv al n4] slot_aligned[OF sh _ n4] inv nl slot_in_page(1)[OF sh n4] by (simp add: g(2) slab_inv_def)
  then show ?thesis by (simp add: s'_def s2_def)
qed

lemma aclass_zero: "(ALLOC_KERNEL OR (aclass AND (ALLOC_HIGHPRIO OR ALLOC_ZERO))) AND ALLOC_ZERO = aclass AND ALLOC_ZERO"
  by (rule bit_eqI) (auto simp: bit_simps ALLOC_KERNEL_def ALLOC_HIGHPRIO_def ALLOC_ZERO_def)

lemma slab_alloc_gives:
  assumes inv: "slab_inv s" and al: "allocators s al = Some a"
  shows "\<exists>x s'. slab_alloc al aclass s = Some (x, s') \<and>
    (if x = 0 then s' = s \<and> page_partial a = [] \<and> page_full a = [] \<and>
         alloc_page (ALLOC_KERNEL OR (aclass AND (ALLOC_HIGHPRIO OR ALLOC_ZERO))) (pg s) = None
     else gives al a aclass s x s')"
proof -
  define c where "c = ALLOC_KERNEL OR (aclass AND (ALLOC_HIGHPRIO OR ALLOC_ZERO))"
  have z: "c AND ALLOC_ZERO = aclass AND ALLOC_ZERO" by (simp add: c_def aclass_zero)
  then have gz: "gives al a c s x s' = gives al a aclass s x s'" for x s' by (simp add: gives_def)
  have ao: "shape_ok a" "lists_ok a" "\<And>p. p \<in> set (page_partial a) \<union> set (page_full a) \<Longrightarrow> p \<in> slab_pages s \<and> allocator (slab s p) = al"
    using inv al by (auto simp: slab_inv_def alloc_ok_def)
  have lk: "listed_ok a (slab s p) p" if "p \<in> set (page_partial a) \<union> set (page_full a)" for p
    using slab_inv_page(2)[OF inv _ _ al] ao(3)[OF that] by blast
  show ?thesis
  proof (cases "page_partial a")
    case (Cons p ps)
    let ?a1 = "a\<lparr>page_partial := ps, nr_partial := dec64 (nr_partial a)\<rparr>"
    have "\<exists>x s'. pop_object al c p ?a1 s = Some (x, s') \<and> gives al a c s x s'"
      by (rule pop_object_gives[OF inv al]) (use Cons ao lk[of p] in \<open>auto simp: same_shape_def lists_ok_def listed_ok_def dec64_def sub64_def\<close>)
    then show ?thesis using Cons ao(2) al gz by (auto simp: slab_alloc_def take_slab_page_def lists_ok_def gives_def Let_def c_def[symmetric])
  next
    case Nil
    show ?thesis
    proof (cases "page_full a")
      case (Cons p ps)
      let ?a1 = "a\<lparr>page_full := ps, nr_full := dec64 (nr_full a)\<rparr>"
      have "\<exists>x s'. pop_object al c p ?a1 s = Some (x, s') \<and> gives al a c s x s'"
        by (rule pop_object_gives[OF inv al]) (use Cons Nil ao lk[of p] in \<open>auto simp: same_shape_def lists_ok_def listed_ok_def shape_ok_def dec64_def sub64_def\<close>)
      then show ?thesis using Cons Nil ao(2) al gz by (auto simp: slab_alloc_def take_slab_page_def lists_ok_def gives_def Let_def c_def[symmetric])
    next
      case nil: Nil
      have t: "take_slab_page a = Some (None, a)" using Nil nil ao(2) by (simp add: take_slab_page_def lists_ok_def)
      show ?thesis
      proof (cases "alloc_page c (pg s)")
        case None
        then show ?thesis using al t Nil nil by (simp add: slab_alloc_def Let_def c_def[symmetric])
      next
        case (Some r)
        obtain p pgs where r: "r = (p, pgs)" by (cases r)
        note n = new_page_gives[OF inv al Some[unfolded r], of c]
        have keep: "allocators (thread_objects 1 a p Page_field s1) = allocators s1" for s1
          using thread_objects_spec(2)[of a 1 Page_field s1 p] ao(1) by (simp add: threaded_def shape_ok_def)
        have "slab_alloc al aclass s = Some (page_to_virt s p, wrap (a\<lparr>sa_nfree := sa_nfree a + (objs_per_page a - 1), nr_partial := nr_partial a + 1, page_partial := p # page_partial a\<rparr>) c (page_to_virt s p)
            ((thread_objects 1 a p Page_field (s\<lparr>pg := pgs\<lparr>page_flags := (page_flags pgs)(p := PAGE_SLAB)\<rparr>, slab := (slab s)(p := (slab s p)\<lparr>allocator := al, nfree := objs_per_page a - 1\<rparr>)\<rparr>))
              \<lparr>allocators := (allocators s)(al \<mapsto> a\<lparr>sa_nfree := sa_nfree a + (objs_per_page a - 1), nr_partial := nr_partial a + 1, page_partial := p # page_partial a\<rparr>)\<rparr>))"
          using al t Some r by (simp add: slab_alloc_def Let_def c_def[symmetric] keep[unfolded One_nat_def] page_to_virt_def)
        moreover have "page_to_virt s p \<noteq> 0" using n by (simp add: gives_def)
        ultimately show ?thesis using n gz by simp
      qed
    qed
  qed
qed

section \<open>Freeing\<close>

definition takes :: "vaddr \<Rightarrow> vaddr \<Rightarrow> mm \<Rightarrow> mm \<Rightarrow> bool" where
  "takes al x s s' \<longleftrightarrow> slab_inv s' \<and> keeps s s' \<and> live s' = live s - {(x, al)}"

lemma objects_all_free:
  assumes "shape_ok a" "objects_ok a g m b" "nfree g = objs_per_page a" "y \<in> slots a b"
  shows "\<not> is_bytes a (m y)"
proof -
  obtain objs where o: "free_chain m (pobj g) objs" "distinct objs" "length objs = nfree g" "set objs \<subseteq> slots a b"
    using assms(2) by (auto simp: objects_ok_def)
  then have "set objs = slots a b" using card_slots[OF assms(1), of b] assms(3) distinct_card[OF o(2)] by (intro card_subset_eq) auto
  then show ?thesis using free_chain_links[OF o(1), of y] assms(4) by (auto simp: is_bytes_def)
qed

lemma give_back:
  assumes inv: "slab_inv s" and al: "allocators s al = Some a" and p: "p \<in> slab_pages s" "allocator (slab s p) = al"
    and x: "x \<in> slots a (page_to_virt s p)" "is_bytes a (mem s x)" and a2: "same_shape a2 a" "lists_ok a2"
      "set (page_partial a2) - {p} = set (page_partial a) - {p}" "set (page_full a2) - {p} = set (page_full a) - {p}"
    and s': "s' = s\<lparr>mem := (mem s)(x \<mapsto> Free_link (pobj (slab s p))),
       slab := (slab s)(p := (slab s p)\<lparr>pobj := x, nfree := nfree (slab s p) + 1\<rparr>), allocators := (allocators s)(al \<mapsto> a2), pg := pgs\<rparr>"
    and pgs: "pgs = pg s \<and> listed_ok a2 (slab s' p) p \<or>
       pgs = free_page p (pg s) \<and> p \<notin> set (page_partial a2) \<union> set (page_full a2) \<and> nfree (slab s p) + 1 = objs_per_page a"
  shows "takes al x s s'"
proof -
  note sh = slab_inv_shape[OF inv al] and pk = slab_inv_page[OF inv p al]
  note xp = slot_in_page(1)[OF sh x(1)] and push = objects_push(1)[OF pk(1) x sh]
  have ch: "changes_page p al a2 s s'" using xp pgs by (auto simp: changes_page_def s' free_page_def Let_def)
  have ob: "objects_ok a2 (slab s' p) (mem s') (page_to_virt s p)" unfolding same_shape_eqs(3)[OF a2(1)] using push by (simp add: s')
  have pa: "pgalloc_ok pgs" "slab_pages s' \<inter> free_pages pgs = {}" "p \<in> slab_pages s' \<longleftrightarrow> pgs = pg s"
    "slab_pages s' = (if pgs = pg s then slab_pages s else slab_pages s - {p})"
  proof -
    note i = inv[unfolded slab_inv_def]
    have "page_flags (free_page p (pg s)) = (page_flags (pg s))(p := 0)" by (simp add: free_page_def Let_def)
    then show f: "slab_pages s' = (if pgs = pg s then slab_pages s else slab_pages s - {p})"
      using pgs by (auto simp: slab_pages_def s' PAGE_SLAB_def split: if_splits)
    note g = pages.give_page[of "pg s" "slab_pages s" p]
    show "pgalloc_ok pgs" using pgs i g p(1) by auto
    show "slab_pages s' \<inter> free_pages pgs = {}" unfolding f using pgs i g p(1) by auto
    show "p \<in> slab_pages s' \<longleftrightarrow> pgs = pg s" unfolding f using p(1) by simp
  qed
  have "page_flags (free_page p (pg s)) p \<noteq> page_flags (pg s) p" using p(1) by (simp add: free_page_def Let_def slab_pages_def PAGE_SLAB_def)
  then have ne: "pg s \<noteq> free_page p (pg s)" by auto
  have own: "allocator (slab s' p) = al" by (simp add: s' p(2))
  have inv': "slab_inv s'"
    by (rule slab_inv_update[OF inv al a2(1,2) ch]) (use p a2(3,4) pa pgs ob own ne in \<open>auto simp: s'\<close>)
  moreover have "live s' = live s - {(x, al)}"
  proof -
    have none: "\<not> is_bytes a (mem s' y)" if "y \<in> slots a (page_to_virt s p)" "p \<notin> slab_pages s'" for y
      using objects_all_free[OF sh push, of y] that pgs pa(3) by (auto simp: s')
    have "(y, l) \<in> live s' \<longleftrightarrow> (y, l) \<in> live s - {(x, al)}" for y l
    proof (cases "y \<in> in_page s p")
      case True
      then show ?thesis unfolding live_update[OF inv al a2(1) ch own]
        using page_holders[OF inv p al True, of l] none[of y] pa(3) by (cases "y = x") (auto simp: s' is_bytes_def)
    qed (use xp live_update[OF inv al a2(1) ch own] in auto)
    then show ?thesis by auto
  qed
  moreover have "pg s' = pgs" "p \<notin> free_pages (pg s)" using inv p(1) by (auto simp: s' slab_inv_def)
  then have "managed s' = managed s"
    using pgs p(1) free_page_ok(2)[of "pg s" p] inv ne unfolding managed_def pa(4) by (auto simp: slab_inv_def)
  then have "keeps s s'" using al a2(1) by (simp add: keeps_def s')
  ultimately show ?thesis by (simp add: takes_def)
qed

lemma slab_free_takes:
  assumes inv: "slab_inv s" and x: "(x, al) \<in> live s"
  shows "\<exists>s'. slab_free x s = Some s' \<and> takes al x s s'"
proof -
  obtain p a where p: "p \<in> slab_pages s" "allocator (slab s p) = al" "allocators s al = Some a"
    and sx: "x \<in> slots a (page_to_virt s p)" "is_bytes a (mem s x)" using x by (auto simp: live_def)
  note sh = slab_inv_shape[OF inv p(3)] and pk = slab_inv_page[OF inv p]
  have vp: "virt_to_page s x = p" by (rule in_page_unique[OF slot_in_page(1)[OF sh sx(1)]])
  have lo: "lists_ok a" using inv p(3) by (auto simp: slab_inv_def alloc_ok_def)
  have bound: "nfree (slab s p) < objs_per_page a" by (rule objects_push(2)[OF pk(1) sx sh])
  have two: "2 \<le> objs_per_page a" using sh by (simp add: shape_ok_def)
  note gb = give_back[OF inv p(3) p(1,2) sx]
  let ?n = "nfree (slab s p) + 1" and ?a1 = "a\<lparr>sa_nfree := sa_nfree a + 1\<rparr>"
  have part: "p \<in> set (page_partial a) \<longleftrightarrow> 0 < nfree (slab s p)" "p \<notin> set (page_full a)" using pk(2) bound by (auto simp: listed_ok_def)
  have len: "p \<in> set (page_partial a) \<Longrightarrow> nr_partial a \<noteq> 0" using lo by (auto simp: lists_ok_def)
  consider "?n = 1" | "?n \<noteq> 1" "?n \<noteq> objs_per_page a" | "?n \<noteq> 1" "?n = objs_per_page a" "nr_full a < 1" | "?n \<noteq> 1" "?n = objs_per_page a" "\<not> nr_full a < 1" by blast
  then show ?thesis
  proof cases
    case 1
    show ?thesis
      by (rule exI, rule conjI, use 1 part in \<open>simp add: slab_free_def Let_def vp p\<close>, rule gb[of "?a1\<lparr>nr_empty := dec64 (nr_empty a), nr_partial := nr_partial a + 1, page_partial := p # page_partial a\<rparr>" _ "pg s"])
        (use 1 part two lo in \<open>auto simp: same_shape_def lists_ok_def listed_ok_def p(2)\<close>)
  next
    case 2
    show ?thesis
      by (rule exI, rule conjI, use 2 part in \<open>simp add: slab_free_def Let_def vp p\<close>, rule gb[of ?a1 _ "pg s"])
        (use 2 part two lo bound in \<open>auto simp: same_shape_def lists_ok_def listed_ok_def p(2)\<close>)
  next
    case 3
    show ?thesis
      by (rule exI, rule conjI, use 3 part in \<open>simp add: slab_free_def Let_def vp p unlink_page_def\<close>,
          rule gb[of "?a1\<lparr>page_partial := remove1 p (page_partial a), nr_partial := dec64 (nr_partial a), nr_full := nr_full a + 1, page_full := p # page_full a\<rparr>" _ "pg s"])
        (use 3 part two lo bound len in \<open>auto simp: same_shape_def lists_ok_def listed_ok_def p(2) dec64_def sub64_def length_remove1\<close>)
  next
    case 4
    show ?thesis
      by (rule exI, rule conjI, use 4 part in \<open>simp add: slab_free_def Let_def vp p unlink_page_def\<close>,
          rule gb[of "?a1\<lparr>page_partial := remove1 p (page_partial a), nr_partial := dec64 (nr_partial a), sa_nfree := sub64 (sa_nfree a + 1) (objs_per_page a)\<rparr>" _ "free_page p (pg s)"])
        (use 4 part two lo bound len in \<open>auto simp: same_shape_def lists_ok_def listed_ok_def p(2) dec64_def sub64_def length_remove1\<close>)
  qed
qed

end
