(* ===== verification/Mm_Slab_Props.thy ===== *)
theory Mm_Slab_Props
  imports Mm_Slab_Inv
begin

text \<open>
  Creating allocators, kmalloc, and the properties of \<^verbatim>\<open>mm/slab.cc\<close>.
\<close>

section \<open>Powers of two\<close>

lemma nat_and_pred_pow2: "0 < n \<Longrightarrow> n AND (n - 1) = 0 \<Longrightarrow> \<exists>k. n = 2 ^ k" for n :: nat
proof (induction n rule: less_induct)
  case (less n)
  show ?case
  proof (cases "even n")
    case True
    then obtain m where m: "n = 2 * m" by blast
    then have "0 < m" "n - 1 = 2 * (m - 1) + 1" using less.prems(1) by auto
    then have "m AND (m - 1) = 0" using less.prems(2) by (simp add: m and_nat_unfold[of "2 * m"] split: if_splits)
    then obtain k where "m = 2 ^ k" using less.IH[of m] \<open>0 < m\<close> m by auto
    then have "n = 2 ^ Suc k" by (simp add: m)
    then show ?thesis by blast
  next
    case False
    then obtain m where m: "n = 2 * m + 1" by (blast elim: oddE)
    then have "m = 0" using less.prems(2) by (simp add: and_nat_unfold[of "Suc (2 * m)"] split: if_splits)
    then have "n = 2 ^ 0" by (simp add: m)
    then show ?thesis by blast
  qed
qed

lemma word_and_pred_pow2:
  assumes "(w :: u64) AND (w - 1) = 0" "w \<noteq> 0"
  shows "\<exists>k < 64. w = 2 ^ k"
proof -
  have p: "0 < unat w" using assms(2) by (simp add: unat_gt_0)
  then have w: "unat (w - 1) = unat w - 1" by (simp add: unat_sub_64)
  have "unat w AND (unat w - 1) = unat (w AND (w - 1))" by (simp add: unsigned_and_eq w)
  then obtain k where k: "unat w = 2 ^ k" using nat_and_pred_pow2[OF p] assms(1) by auto
  have "(2 :: nat) ^ k < 2 ^ 64" using unat_lt_64[of w] k by simp
  then have "k < 64" by (rule power_less_imp_less_exp[rotated]) simp
  then show ?thesis using k by (auto simp: word_unat_eq_iff unat_pow2)
qed

section \<open>Creating allocators\<close>

text \<open>
  The allocators are the static one and objects of the static one; the static one lies outside of the pages
  the allocators manage.
\<close>

definition kernel_inv :: "mm \<Rightarrow> bool" where
  "kernel_inv s \<longleftrightarrow> slab_inv s \<and> slab_allocator s \<in> dom (allocators s) \<and> slab_allocator s \<notin> (\<Union>p \<in> managed s. in_page s p) \<and>
     (\<forall>l \<in> dom (allocators s). l = slab_allocator s \<or> (l, slab_allocator s) \<in> live s)"

lemma init_new_allocator_inv:
  assumes inv: "slab_inv s" and new: "\<forall>p \<in> slab_pages s. allocator (slab s p) \<noteq> al"
    and shape: "0 < real" "2 \<le> PAGE_SIZE div real" "sz \<le> real" "0 < sz" "align dvd real" "align dvd PAGE_SIZE"
  shows "slab_inv (init_new_allocator al sz align real s)" "live (init_new_allocator al sz align real s) = live s"
proof -
  let ?s = "init_new_allocator al sz align real s"
  have f: "slab_pages ?s = slab_pages s" "slab ?s = slab s" "pg ?s = pg s" "mem ?s = mem s" "HHDM_OFFSET ?s = HHDM_OFFSET s" "page_to_virt ?s = page_to_virt s"
    "l \<noteq> al \<Longrightarrow> allocators ?s l = allocators s l" for l
    by (simp_all add: init_new_allocator_def slab_pages_def page_to_virt_def fun_eq_iff)
  have "page_ok ?s p" if "p \<in> slab_pages s" for p using inv new that by (auto simp: slab_inv_def page_ok_def f)
  moreover have "alloc_ok ?s l a" if "allocators ?s l = Some a" for l a
  proof (cases "l = al")
    case True
    then show ?thesis using that shape by (auto simp: init_new_allocator_def alloc_ok_def shape_ok_def lists_ok_def)
  next
    case False
    then show ?thesis using that inv f(7)[OF False] by (auto simp: slab_inv_def alloc_ok_def f(1,2))
  qed
  ultimately show "slab_inv ?s" using inv by (simp add: slab_inv_def f(1,3,5))
  have "(\<exists>p a. p \<in> slab_pages s \<and> allocator (slab s p) = l \<and> allocators ?s l = Some a \<and> x \<in> slots a (page_to_virt s p) \<and> is_bytes a (mem s x)) \<longleftrightarrow>
     (\<exists>p a. p \<in> slab_pages s \<and> allocator (slab s p) = l \<and> allocators s l = Some a \<and> x \<in> slots a (page_to_virt s p) \<and> is_bytes a (mem s x))" for x l
    using new f(7)[of l] by (cases "l = al") auto
  then show "live ?s = live s" by (simp add: live_def f(1,2,4,6))
qed

lemma live_in_managed: "slab_inv s \<Longrightarrow> (x, l) \<in> live s \<Longrightarrow> \<exists>p \<in> managed s. x \<in> in_page s p"
  using slot_in_page(1) slab_inv_shape by (fastforce simp: live_def managed_def)

lemma keeps_in_page: "keeps s s' \<Longrightarrow> in_page s' = in_page s"
  by (simp add: keeps_def in_page_def page_to_virt_def fun_eq_iff)

lemma keeps_dom: "keeps s s' \<Longrightarrow> dom (allocators s') = dom (allocators s)"
  by (auto simp: keeps_def dom_def rel_option_iff split: option.splits) (metis option.rel_distinct(1,2) not_None_eq)+

text \<open>Neither allocating nor freeing a client's object disturbs the set of allocators.\<close>

lemma kernel_inv_gives:
  assumes "kernel_inv s" "gives al a aclass s x s'"
  shows "kernel_inv s'" "x \<notin> dom (allocators s)"
proof -
  have g: "slab_inv s'" "keeps s s'" "live s' = insert (x, al) (live s)" "\<forall>l. (x, l) \<notin> live s" using assms(2) by (simp_all add: gives_def)
  have k: "slab_allocator s' = slab_allocator s" "managed s' = managed s" using g(2) by (simp_all add: keeps_def)
  show "kernel_inv s'" using assms(1) g(1,3) unfolding kernel_inv_def keeps_dom[OF g(2)] keeps_in_page[OF g(2)] k by blast
  have "\<exists>p \<in> managed s. x \<in> in_page s p" using live_in_managed[OF g(1), of x al] g(3) unfolding keeps_in_page[OF g(2)] k by blast
  then have "x \<noteq> slab_allocator s" using assms(1) by (auto simp: kernel_inv_def)
  then show "x \<notin> dom (allocators s)" using assms(1) g(4) unfolding kernel_inv_def by blast
qed

lemma kernel_inv_takes:
  assumes "kernel_inv s" "takes al x s s'" "x \<notin> dom (allocators s)"
  shows "kernel_inv s'"
proof -
  have g: "slab_inv s'" "keeps s s'" "live s' = live s - {(x, al)}" using assms(2) by (simp_all add: takes_def)
  have k: "slab_allocator s' = slab_allocator s" "managed s' = managed s" using g(2) by (simp_all add: keeps_def)
  show ?thesis using assms(1,3) g(1,3) unfolding kernel_inv_def keeps_dom[OF g(2)] keeps_in_page[OF g(2)] k by blast
qed

lemma real_size:
  assumes "k < 12" "0 < sz" "sz \<le> (0x800 :: u64)" "8 \<le> (2 :: nat) ^ k" "(2 :: nat) ^ k \<le> 2048"
  defines "r \<equiv> unat (align_up sz (2 ^ k :: u64) :: u64)"
  shows "0 < r" "2 \<le> PAGE_SIZE div r" "unat sz \<le> r" "2 ^ k dvd r" "2 ^ k dvd PAGE_SIZE"
proof -
  have s: "0 < unat sz" "unat sz \<le> 2048" using assms(2,3) by (simp_all add: word_less_nat_alt word_le_nat_alt)
  have r: "r = (unat sz + 2 ^ k - Suc 0) div 2 ^ k * 2 ^ k" unfolding r_def using assms(1,5) s by (intro unat_align_up) simp_all
  show le: "unat sz \<le> r" unfolding r by (rule round_up_ge) simp
  then show "0 < r" using s(1) by simp
  show "2 ^ k dvd r" unfolding r by simp
  have d: "(2::nat) ^ k dvd 2 ^ 11" using assms(1) by (intro le_imp_power_dvd) simp
  then have "r \<le> 2 ^ 11" unfolding r using s by (intro round_up_least) simp_all
  then show "2 \<le> PAGE_SIZE div r" using \<open>0 < r\<close> by (simp add: PAGE_SIZE_def less_eq_div_iff_mult_less_eq)
  show "2 ^ k dvd PAGE_SIZE" using dvd_trans[OF d, of "4096"] by (simp add: PAGE_SIZE_def)
qed

text \<open>A new allocator beside the others.\<close>

definition adds :: "vaddr \<Rightarrow> nat \<Rightarrow> nat \<Rightarrow> mm \<Rightarrow> mm \<Rightarrow> bool" where
  "adds al sz align s s' \<longleftrightarrow> al \<notin> dom (allocators s) \<and> kmalloc_slabs s' = kmalloc_slabs s \<and> (\<exists>a. allocators s' al = Some a \<and> inp_obj_size a = sz \<and> (align = 0 \<or> align dvd inp_obj_align a)) \<and>
     (\<forall>l. l \<noteq> al \<longrightarrow> rel_option same_shape (allocators s' l) (allocators s l))"

lemma init_adds:
  assumes k: "kernel_inv s" and g: "gives (slab_allocator s) a aclass s x s1"
    and shape: "0 < real" "2 \<le> PAGE_SIZE div real" "sz \<le> real" "0 < sz" "align dvd real" "align dvd PAGE_SIZE" "align0 = 0 \<or> align0 dvd align"
    and s2: "s2 = (init_new_allocator x sz align real s1)\<lparr>globalSlabList := gl\<rparr>"
  shows "kernel_inv s2 \<and> adds x sz align0 s s2"
proof -
  note k1 = kernel_inv_gives[OF k g]
  have g': "keeps s s1" "live s1 = insert (x, slab_allocator s) (live s)" using g by (simp_all add: gives_def)
  have i1: "slab_inv s1" using k1(1) by (simp add: kernel_inv_def)
  have "allocator (slab s1 p) \<in> dom (allocators s1)" if "p \<in> slab_pages s1" for p using i1 that unfolding slab_inv_def page_ok_def by blast
  then have "\<forall>p \<in> slab_pages s1. allocator (slab s1 p) \<noteq> x" using k1(2) keeps_dom[OF g'(1)] by blast
  note i = init_new_allocator_inv[OF i1 this shape(1-6)]
  let ?s = "init_new_allocator x sz align real s1"
  have "slab_inv s2 = slab_inv ?s" "live s2 = live ?s" "managed s2 = managed s1" "in_page s2 = in_page s1" "slab_allocator s2 = slab_allocator s"
    "dom (allocators s2) = insert x (dom (allocators s1))" "slab_allocator s1 = slab_allocator s"
    using g'(1) by (auto simp: s2 init_new_allocator_def slab_inv_def page_ok_def alloc_ok_def slab_pages_def live_def managed_def page_to_virt_def in_page_def keeps_def)
  then have "kernel_inv s2" using k1(1) i g'(2) unfolding kernel_inv_def by auto
  moreover have "adds x sz align0 s s2" using k1(2) g'(1) shape(7) by (auto simp: adds_def s2 init_new_allocator_def keeps_def)
  ultimately show ?thesis by simp
qed

lemma slab_alloc_cases:
  assumes "slab_inv s" "allocators s al = Some a"
  obtains "slab_alloc al aclass s = Some (0, s)" "alloc_page (ALLOC_KERNEL OR (aclass AND (ALLOC_HIGHPRIO OR ALLOC_ZERO))) (pg s) = None"
  | x s' where "slab_alloc al aclass s = Some (x, s')" "x \<noteq> 0" "gives al a aclass s x s'"
proof -
  obtain x s' where x: "slab_alloc al aclass s = Some (x, s')" "if x = 0 then s' = s \<and> page_partial a = [] \<and> page_full a = [] \<and>
         alloc_page (ALLOC_KERNEL OR (aclass AND (ALLOC_HIGHPRIO OR ALLOC_ZERO))) (pg s) = None
     else gives al a aclass s x s'" using slab_alloc_gives[OF assms, of aclass] by blast
  show ?thesis
  proof (cases "x = 0")
    case True
    then show ?thesis using x that(1) by simp
  next
    case False
    then show ?thesis using x that(2)[of x s'] by simp
  qed
qed

lemma slab_create_adds:
  assumes k: "kernel_inv s"
  shows "\<exists>al s'. slab_create sz align s = Some (al, s') \<and> kernel_inv s' \<and> (if al = 0 then s' = s else adds al (unat sz) (unat align) s s')"
proof (cases "align AND (align - 1) = 0 \<and> sz \<le> 0x800 \<and> align \<le> 0x800 \<and> sz \<noteq> 0")
  case False
  then have "slab_create sz align s = Some (0, s)" by (auto simp: slab_create_def not_le)
  then show ?thesis using k by simp
next
  case True
  let ?al = "if 8 > align then 8 else align"
  obtain j where j: "?al = 2 ^ j" "j < 12" "8 \<le> (2 :: nat) ^ j" "(2 :: nat) ^ j \<le> 2048" "unat align = 0 \<or> unat align dvd 2 ^ j"
  proof (cases "8 > align")
    case t: True
    have "unat align = 0 \<or> unat align dvd 8"
    proof (cases "align = 0")
      case False
      then obtain i where i: "i < 64" "align = 2 ^ i" using word_and_pred_pow2 True by blast
      then have "(2 :: nat) ^ i < 2 ^ 3" using t by (simp add: word_less_nat_alt unat_pow2)
      then have "i < 3" by (rule power_less_imp_less_exp[rotated]) simp
      then show ?thesis using i le_imp_power_dvd[of i 3 "2::nat"] by (simp add: unat_pow2)
    qed simp
    then show ?thesis using t by (intro that[of 3]) simp_all
  next
    case f: False
    then have "align \<noteq> 0" by auto
    then obtain i where i: "i < 64" "align = 2 ^ i" using word_and_pred_pow2 True by blast
    have u: "8 \<le> (2 :: nat) ^ i" "(2 :: nat) ^ i \<le> 2 ^ 11" using f True i by (simp_all add: word_le_nat_alt unat_pow2 not_less)
    then have "i \<le> 11" using power_le_imp_le_exp[of "2::nat" i 11] by simp
    then show ?thesis using f i u by (intro that[of i]) (simp_all add: unat_pow2)
  qed
  have ua: "unat ?al = 2 ^ j" using j(1,2) by (simp add: unat_pow2)
  obtain a where a: "allocators s (slab_allocator s) = Some a" using k by (auto simp: kernel_inv_def)
  obtain x s1 where x: "slab_alloc (slab_allocator s) ALLOC_KERNEL s = Some (x, s1)" "if x = 0 then s1 = s else gives (slab_allocator s) a ALLOC_KERNEL s x s1"
  proof -
    have i: "slab_inv s" using k by (simp add: kernel_inv_def)
    show ?thesis by (rule slab_alloc_cases[OF i a, of ALLOC_KERNEL]; rule that, assumption, simp)
  qed
  let ?s2 = "(init_new_allocator x (unat sz) (unat ?al) (unat (align_up sz ?al)) s1)\<lparr>globalSlabList := globalSlabList s1 @ [x]\<rparr>"
  have e: "slab_create sz align s = Some (if x = 0 then (0, s1) else (x, ?s2))"
  proof -
    have gl: "globalSlabList (init_new_allocator x m n r s1) = globalSlabList s1" for m n r by (simp add: init_new_allocator_def)
    have "align AND (align - 1) = 0" "\<not> (0x1000 div 2 < sz \<or> 0x1000 div 2 < align)" "sz \<noteq> 0" using True by (simp_all add: not_less)
    then show ?thesis unfolding slab_create_def Let_def x(1) by (cases "x = 0") (simp_all add: gl)
  qed
  have r: "0 < sz" "sz \<le> 0x800" using True by (simp_all add: word_neq_0_conv)
  note rs = real_size[OF j(2) r j(3,4)]
  show ?thesis
  proof (cases "x = 0")
    case False
    then have "kernel_inv ?s2 \<and> adds x (unat sz) (unat align) s ?s2"
      by - (rule init_adds[OF k, where aclass = ALLOC_KERNEL and a = a and x = x],
        use x(2) rs r j in \<open>auto simp: ua[unfolded j(1)] word_less_nat_alt\<close>)
    then show ?thesis using e False by simp
  qed (use e x(2) k in auto)
qed

section \<open>kmalloc\<close>

text \<open>The first \<open>n\<close> size classes exist.\<close>

definition ready :: "mm \<Rightarrow> nat \<Rightarrow> bool" where
  "ready s n \<longleftrightarrow> length (kmalloc_slabs s) = 9 \<and> (\<forall>i < n. \<exists>a. allocators s (kmalloc_slabs s ! i) = Some a \<and>
     inp_obj_size a = unat (kmalloc_sizes ! i) \<and> unat (kmalloc_sizes ! i) dvd inp_obj_align a)"

lemma kernel_inv_kmalloc_slabs [simp]: "kernel_inv (s\<lparr>kmalloc_slabs := l\<rparr>) = kernel_inv s"
  by (simp add: kernel_inv_def slab_inv_def page_ok_def alloc_ok_def slab_pages_def live_def managed_def page_to_virt_def in_page_def)

lemma ready_same_shape:
  assumes "ready s n" "kmalloc_slabs s' = kmalloc_slabs s" "\<forall>l \<in> dom (allocators s). rel_option same_shape (allocators s' l) (allocators s l)"
  shows "ready s' n"
  unfolding ready_def
proof (intro conjI allI impI)
  fix i assume "i < n"
  then obtain a where a: "allocators s (kmalloc_slabs s ! i) = Some a" "inp_obj_size a = unat (kmalloc_sizes ! i)" "unat (kmalloc_sizes ! i) dvd inp_obj_align a"
    using assms(1) by (auto simp: ready_def)
  then have "rel_option same_shape (allocators s' (kmalloc_slabs s ! i)) (Some a)" using assms(3) by (metis domI)
  then show "\<exists>a. allocators s' (kmalloc_slabs s' ! i) = Some a \<and> inp_obj_size a = unat (kmalloc_sizes ! i) \<and> unat (kmalloc_sizes ! i) dvd inp_obj_align a"
    using a assms(2) by (auto simp: rel_option_iff same_shape_def split: option.splits)
qed (use assms in \<open>simp add: ready_def\<close>)

lemma ready_adds:
  assumes r: "ready s i" "i < 9" and a: "adds al (unat (kmalloc_sizes ! i)) (unat (kmalloc_sizes ! i)) s s'"
  shows "ready (s'\<lparr>kmalloc_slabs := (kmalloc_slabs s')[i := al]\<rparr>) (Suc i)"
proof -
  have "\<forall>k \<in> set kmalloc_sizes. k \<noteq> 0" "length kmalloc_sizes = 9" by (simp_all add: kmalloc_sizes_def)
  then have nz: "unat (kmalloc_sizes ! i) \<noteq> 0" using r(2) by (simp add: unat_eq_zero)
  have r': "ready s' i" by (rule ready_same_shape[OF r(1)]) (use a in \<open>auto simp: adds_def\<close>)
  then show ?thesis using a nz r(2) by (auto simp: ready_def adds_def less_Suc_eq nth_list_update)
qed

lemma length_kmalloc_sizes [simp]: "length kmalloc_sizes = 9"
  by (simp add: kmalloc_sizes_def)

lemma create_kmalloc_slabs_ready:
  assumes "kernel_inv s" "ready s i" "i \<le> 9" "ks = drop i kmalloc_sizes"
  shows "\<exists>ok s'. create_kmalloc_slabs i ks s = Some (ok, s') \<and> kernel_inv s' \<and> (ok \<longrightarrow> ready s' 9)"
  using assms
proof (induction i ks s rule: create_kmalloc_slabs.induct)
  case (1 i s)
  then have "i = 9" by (simp add: kmalloc_sizes_def)
  then show ?case using 1 by auto
next
  case (2 i k ks s)
  have i: "i < 9" using "2.prems"(3,4) by (cases "i = 9") (auto simp: kmalloc_sizes_def)
  then have "k # ks = kmalloc_sizes ! i # drop (Suc i) kmalloc_sizes"
    using "2.prems"(4) Cons_nth_drop_Suc[of i kmalloc_sizes] by simp
  then have k: "k = kmalloc_sizes ! i" "ks = drop (Suc i) kmalloc_sizes" by simp_all
  obtain al s1 where c: "slab_create k k s = Some (al, s1)" "kernel_inv s1" "if al = 0 then s1 = s else adds al (unat k) (unat k) s s1"
    using slab_create_adds[OF "2.prems"(1), of k k] by blast
  let ?s2 = "s1\<lparr>kmalloc_slabs := (kmalloc_slabs s1)[i := al]\<rparr>"
  show ?case
  proof (cases "al = 0")
    case True
    then show ?thesis using c(1,2) by auto
  next
    case False
    then have "ready ?s2 (i + 1)" using ready_adds[OF "2.prems"(2) i, of al s1] c(3) k(1) by simp
    then have "\<exists>ok s'. create_kmalloc_slabs (i + 1) ks ?s2 = Some (ok, s') \<and> kernel_inv s' \<and> (ok \<longrightarrow> ready s' 9)"
      using "2.IH"[OF c(1) refl refl False] c(2) k(2) i by simp
    then show ?thesis using c(1) False by simp
  qed
qed

text \<open>Memory management before the slab allocator is set up.\<close>

definition fresh_mm :: "mm \<Rightarrow> bool" where
  "fresh_mm s \<longleftrightarrow> pgalloc_ok (pg s) \<and> slab_pages s = {} \<and> 0 < HHDM_OFFSET s \<and> PAGE_SIZE dvd HHDM_OFFSET s \<and> allocators s = Map.empty \<and>
     kmalloc_slabs s = replicate 9 0 \<and> slab_allocator s \<notin> (\<Union>p \<in> free_pages (pg s). in_page s p)"

lemma init_static:
  assumes "fresh_mm s"
  defines "s1 \<equiv> init_new_allocator (slab_allocator s) (unat sizeof_SlabAllocator) 8 (unat (align_up sizeof_SlabAllocator (8 * 8 :: u64) :: u64)) s"
  shows "kernel_inv s1" "ready s1 0"
proof -
  have sz: "unat sizeof_SlabAllocator = 152" "unat (align_up sizeof_SlabAllocator (8 * 8 :: u64) :: u64) = 192"
    by (simp_all add: sizeof_SlabAllocator_def align_up_def align_mask_def)
  have f: "slab_pages s = {}" "allocators s = Map.empty" using assms(1) by (simp_all add: fresh_mm_def)
  have inv: "slab_inv s" using assms(1) by (simp add: slab_inv_def fresh_mm_def)
  have "slab_inv s1" unfolding s1_def sz by (rule init_new_allocator_inv(1)[OF inv]) (simp_all add: f PAGE_SIZE_def)
  moreover have "managed s1 = free_pages (pg s)" "in_page s1 = in_page s" "slab_allocator s1 = slab_allocator s" "dom (allocators s1) = {slab_allocator s}"
    using f by (simp_all add: s1_def init_new_allocator_def managed_def slab_pages_def) (simp add: in_page_def page_to_virt_def fun_eq_iff)
  ultimately show "kernel_inv s1" using assms(1) by (auto simp: kernel_inv_def fresh_mm_def)
  show "ready s1 0" using assms(1) by (simp add: s1_def ready_def fresh_mm_def init_new_allocator_def)
qed

lemma kmalloc_scan_first:
  "length als = length ks \<Longrightarrow>
     (\<forall>k \<in> set ks. k < sz) \<and> kmalloc_scan ks als sz aclass s = Some (0, s) \<or>
     (\<exists>i < length ks. sz \<le> ks ! i \<and> (\<forall>j < i. ks ! j < sz) \<and> kmalloc_scan ks als sz aclass s = slab_alloc (als ! i) aclass s)"
proof (induction als ks rule: list_induct2)
  case (Cons al als k ks)
  show ?case
  proof (cases "sz \<le> k")
    case True
    then show ?thesis by (intro disjI2 exI[of _ 0]) simp
  next
    case False
    from Cons.IH show ?thesis
    proof (elim disjE exE conjE)
      fix i assume "i < length ks" "sz \<le> ks ! i" "\<forall>j < i. ks ! j < sz" "kmalloc_scan ks als sz aclass s = slab_alloc (als ! i) aclass s"
      then show ?thesis using False by (intro disjI2 exI[of _ "Suc i"]) (auto simp: less_Suc_eq_0_disj not_le)
    qed (use False in \<open>auto simp: not_le\<close>)
  qed
qed simp

section \<open>Room in the page of the static allocator\<close>

definition room :: "mm \<Rightarrow> nat \<Rightarrow> bool" where
  "room s n \<longleftrightarrow> (\<exists>a p. allocators s (slab_allocator s) = Some a \<and> page_partial a = [p] \<and> nr_partial a \<noteq> 0 \<and> nfree (slab s p) = n)"

lemma slab_alloc_room:
  assumes "kernel_inv s" "room s (Suc (Suc n))"
  shows "\<exists>x s' a. slab_alloc (slab_allocator s) aclass s = Some (x, s') \<and> gives (slab_allocator s) a aclass s x s' \<and> room s' (Suc n)"
proof -
  obtain a p where a: "allocators s (slab_allocator s) = Some a" "page_partial a = [p]" "nr_partial a \<noteq> 0" "nfree (slab s p) = Suc (Suc n)"
    using assms(2) by (auto simp: room_def)
  have inv: "slab_inv s" using assms(1) by (simp add: kernel_inv_def)
  from slab_alloc_gives[OF inv a(1), of aclass] a(2) obtain x s' where x: "slab_alloc (slab_allocator s) aclass s = Some (x, s')" "gives (slab_allocator s) a aclass s x s'"
    by (auto split: if_splits)
  have k: "slab_allocator s' = slab_allocator s" using x(2) by (simp add: gives_def keeps_def)
  have "room s' (Suc n)" using x(1) a unfolding room_def k
    by (auto simp: slab_alloc_def take_slab_page_def Let_def pop_object_def wrap_def dec32_def)
  then show ?thesis using x by blast
qed

lemma slab_alloc_new_room:
  assumes "slab_inv s" "allocators s (slab_allocator s) = Some a" "page_partial a = []" "page_full a = []" "nr_partial a = 0" "nr_full a = 0"
    "alloc_page (ALLOC_KERNEL OR (aclass AND (ALLOC_HIGHPRIO OR ALLOC_ZERO))) (pg s) = Some (p, pgs)"
  shows "\<exists>x s'. slab_alloc (slab_allocator s) aclass s = Some (x, s') \<and> gives (slab_allocator s) a aclass s x s' \<and> room s' (objs_per_page a - 1)"
proof -
  from slab_alloc_gives[OF assms(1,2), of aclass] assms(7) obtain x s' where x: "slab_alloc (slab_allocator s) aclass s = Some (x, s')" "gives (slab_allocator s) a aclass s x s'"
    by (auto split: if_splits)
  have k: "slab_allocator s' = slab_allocator s" using x(2) by (simp add: gives_def keeps_def)
  have t: "nfree (slab (thread_objects (Suc 0) a p Page_field s1) p) = nfree (slab s1 p)" for s1
    using thread_objects_spec(2)[of a 1 Page_field s1 p] slab_inv_shape[OF assms(1,2)] by (simp add: threaded_def shape_ok_def)
  have "room s' (objs_per_page a - 1)" using x(1) assms(2-7) unfolding room_def k
    by (auto simp: slab_alloc_def take_slab_page_def Let_def wrap_def t)
  then show ?thesis using x by blast
qed

lemma slab_create_success:
  assumes "slab_alloc (slab_allocator s) ALLOC_KERNEL s = Some (x, s1)" "x \<noteq> 0" "x \<noteq> slab_allocator s1" "room s1 n"
    and v: "align AND (align - 1) = 0" "sz \<le> 0x800" "align \<le> 0x800" "sz \<noteq> 0"
  shows "\<exists>s'. slab_create sz align s = Some (x, s') \<and> room s' n"
proof -
  let ?al = "if 8 > align then 8 else align"
  define s2 where "s2 = init_new_allocator x (unat sz) (unat ?al) (unat (align_up sz ?al :: u64)) s1"
  have "\<not> (0x1000 div 2 < sz \<or> 0x1000 div 2 < align)" using v(2,3) by (simp add: not_less)
  then have "slab_create sz align s = Some (x, s2\<lparr>globalSlabList := globalSlabList s2 @ [x]\<rparr>)"
    unfolding slab_create_def Let_def assms(1) s2_def using v(1,4) assms(2) by (simp del: bind_Some_iff)
  moreover have "room (s2\<lparr>globalSlabList := l\<rparr>) n" for l using assms(3,4) by (auto simp: room_def s2_def init_new_allocator_def)
  ultimately show ?thesis by blast
qed

lemma create_kmalloc_slabs_room:
  assumes "kernel_inv s" "room s n" "length ks < n" "\<forall>k \<in> set ks. k AND (k - 1) = 0 \<and> k \<le> 0x800 \<and> k \<noteq> 0"
  shows "\<exists>s'. create_kmalloc_slabs i ks s = Some (True, s')"
  using assms
proof (induction ks arbitrary: s i n)
  case (Cons k ks)
  obtain m where n: "n = Suc (Suc m)" using Cons.prems(3) by (metis Suc_less_eq2 length_Cons less_imp_Suc_add)
  from slab_alloc_room[OF Cons.prems(1) Cons.prems(2)[unfolded n], of ALLOC_KERNEL] obtain x s1 a where x: "slab_alloc (slab_allocator s) ALLOC_KERNEL s = Some (x, s1)"
    "gives (slab_allocator s) a ALLOC_KERNEL s x s1" "room s1 (Suc m)" by blast
  have nz: "x \<noteq> 0" "x \<noteq> slab_allocator s1"
    using x(2) kernel_inv_gives(2)[OF Cons.prems(1) x(2)] Cons.prems(1) by (auto simp: gives_def keeps_def kernel_inv_def)
  obtain s2 where s2: "slab_create k k s = Some (x, s2)" "room s2 (Suc m)"
    using slab_create_success[OF x(1) nz x(3), of k k] Cons.prems(4) by auto
  have "kernel_inv s2" using slab_create_adds[OF Cons.prems(1), of k k] s2(1) by auto
  moreover have "room (s2\<lparr>kmalloc_slabs := l\<rparr>) (Suc m)" for l using s2(2) by (simp add: room_def)
  ultimately have "\<exists>s'. create_kmalloc_slabs (i + 1) ks (s2\<lparr>kmalloc_slabs := (kmalloc_slabs s2)[i := x]\<rparr>) = Some (True, s')"
    using Cons.IH[of "s2\<lparr>kmalloc_slabs := (kmalloc_slabs s2)[i := x]\<rparr>" "Suc m" "i + 1"] Cons.prems(3,4) n by simp
  then show ?case using s2(1) nz(1) by simp
qed simp

section \<open>Properties\<close>

text \<open>
  (C10) Allocation from a slab never fails in an undefined way. It returns null only when the allocator has
  no page with a free object and the page allocator has no page either, and then changes nothing. Otherwise
  the object is aligned, has the size of the allocator, is zeroed if asked for, is held by nobody, and
  becomes the only object that changes hands; the free lists stay intact.
\<close>

theorem slab_alloc_correct:
  assumes "slab_inv s" "allocators s al = Some a"
  shows "\<exists>x s'. slab_alloc al aclass s = Some (x, s') \<and> slab_inv s' \<and>
    (if x = 0 then s' = s \<and> page_partial a = [] \<and> page_full a = [] \<and>
         alloc_page (ALLOC_KERNEL OR (aclass AND (ALLOC_HIGHPRIO OR ALLOC_ZERO))) (pg s) = None
     else inp_obj_align a dvd x \<and> mem s' x = Some (Bytes (inp_obj_size a) (aclass AND ALLOC_ZERO \<noteq> 0)) \<and>
         (\<forall>l. (x, l) \<notin> live s) \<and> live s' = insert (x, al) (live s))"
proof -
  obtain x s' where x: "slab_alloc al aclass s = Some (x, s')" "if x = 0 then s' = s \<and> page_partial a = [] \<and> page_full a = [] \<and>
         alloc_page (ALLOC_KERNEL OR (aclass AND (ALLOC_HIGHPRIO OR ALLOC_ZERO))) (pg s) = None
     else gives al a aclass s x s'" using slab_alloc_gives[OF assms, of aclass] by blast
  show ?thesis by (rule exI[of _ x], rule exI[of _ s']) (use x assms(1) in \<open>auto simp: gives_def split: if_splits\<close>)
qed

text \<open>Memory management at boot, with two free pages, and with the static allocator set up.\<close>

definition boot_mm :: mm where
  "boot_mm = \<lparr>pg = two_pages, HHDM_OFFSET = 0x100000000000, slab = (\<lambda>_. \<lparr>nfree = 0, pobj = 0, allocator = 0\<rparr>), mem = (\<lambda>_. None), allocators = (\<lambda>_. None),
     slab_allocator = 8, globalSlabList = [], kmalloc_slabs = replicate 9 0\<rparr>"

definition static_mm :: mm where
  "static_mm = init_new_allocator (slab_allocator boot_mm) (unat sizeof_SlabAllocator) 8 (unat (align_up sizeof_SlabAllocator (8 * 8 :: u64) :: u64)) boot_mm"

lemma fresh_boot_mm: "fresh_mm boot_mm"
proof -
  have f: "pg boot_mm = two_pages" by (simp add: boot_mm_def)
  have "slab_pages boot_mm = {}" by (simp add: slab_pages_def boot_mm_def two_pages_def PAGE_SLAB_def)
  then show ?thesis unfolding fresh_mm_def f two_pages_free
    by (simp add: two_pages_ok) (simp add: boot_mm_def in_page_def page_to_virt_def pfn_to_phys_def PAGE_SIZE_def)
qed

lemma static_mm_inv: "kernel_inv static_mm" "slab_inv static_mm"
  using init_static(1)[OF fresh_boot_mm] by (simp_all add: static_mm_def kernel_inv_def)

lemma static_mm_allocator: "\<exists>a. allocators static_mm 8 = Some a \<and> page_partial a = [] \<and> page_full a = [] \<and> nr_partial a = 0 \<and> nr_full a = 0 \<and> objs_per_page a = 21 \<and> inp_obj_size a = 152"
  by (simp add: static_mm_def init_new_allocator_def boot_mm_def sizeof_SlabAllocator_def align_up_def align_mask_def PAGE_SIZE_def)

lemma static_mm_page: "\<exists>pgs. alloc_page ALLOC_KERNEL (pg static_mm) = Some (0x100000, pgs)"
  by (simp add: static_mm_def init_new_allocator_def boot_mm_def alloc_page_def alloc_from_zone.simps allocation_zone_def ALLOC_KERNEL_def ALLOC_LOW4G_def ALLOC_LOW1M_def
      ALLOC_ZERO_def zone_defs two_pages_def)

lemma aclass_kernel: "ALLOC_KERNEL OR (ALLOC_KERNEL AND c) = ALLOC_KERNEL"
  by (simp add: ALLOC_KERNEL_def)

theorem slab_alloc_correct_witness:
  "\<exists>x s'. slab_alloc 8 ALLOC_KERNEL static_mm = Some (x, s') \<and> x \<noteq> 0 \<and> (x, 8) \<in> live s' \<and> slab_inv s'"
proof -
  obtain a where a: "allocators static_mm 8 = Some a" using static_mm_allocator by blast
  obtain pgs where pgs: "alloc_page ALLOC_KERNEL (pg static_mm) = Some (0x100000, pgs)" using static_mm_page by blast
  from slab_alloc_correct[OF static_mm_inv(2) a, of ALLOC_KERNEL] obtain x s' where x: "slab_alloc 8 ALLOC_KERNEL static_mm = Some (x, s')" "slab_inv s'"
    "x \<noteq> 0 \<longrightarrow> live s' = insert (x, 8) (live static_mm)" "x \<noteq> 0" unfolding aclass_kernel pgs by (auto split: if_splits)
  then show ?thesis by blast
qed

text \<open>
  (C11) Freeing an object that is held is defined, keeps the free lists intact, and gives up exactly that
  object; the memory of a page goes back to the page allocator only when none of its objects is held.
\<close>

theorem slab_free_correct:
  assumes "slab_inv s" "(x, al) \<in> live s"
  shows "\<exists>s'. slab_free x s = Some s' \<and> slab_inv s' \<and> live s' = live s - {(x, al)} \<and> managed s' = managed s"
  using slab_free_takes[OF assms] by (auto simp: takes_def keeps_def)

theorem slab_free_correct_witness:
  "\<exists>x s s'. slab_alloc 8 ALLOC_KERNEL static_mm = Some (x, s) \<and> slab_free x s = Some s' \<and> (x, 8) \<notin> live s' \<and> slab_inv s'"
proof -
  obtain a where a: "allocators static_mm 8 = Some a" using static_mm_allocator by blast
  obtain pgs where pgs: "alloc_page ALLOC_KERNEL (pg static_mm) = Some (0x100000, pgs)" using static_mm_page by blast
  from slab_alloc_gives[OF static_mm_inv(2) a, of ALLOC_KERNEL] obtain x s where x: "slab_alloc 8 ALLOC_KERNEL static_mm = Some (x, s)" "gives 8 a ALLOC_KERNEL static_mm x s"
    unfolding aclass_kernel pgs by (auto split: if_splits)
  then have "slab_inv s" "(x, 8) \<in> live s" by (simp_all add: gives_def)
  from slab_free_correct[OF this] x(1) show ?thesis by blast
qed

section \<open>Clients\<close>

text \<open>
  A client of the allocators: it allocates, and frees one of the objects it has got and not yet freed. What it holds is
  computed from the results of the calls alone: the address and the object size of the allocator.
\<close>

datatype client_op = Client_alloc vaddr u32 | Client_free nat

fun client_step :: "client_op \<Rightarrow> mm \<times> (vaddr \<times> nat) list \<Rightarrow> (mm \<times> (vaddr \<times> nat) list) option" where
  "client_step (Client_alloc al aclass) (s, held) = do {
     a \<leftarrow> allocators s al;
     (x, s) \<leftarrow> slab_alloc al aclass s;
     Some (s, if x = 0 then held else (x, inp_obj_size a) # held)
   }"
| "client_step (Client_free i) (s, held) = (if i < length held then do {
     s \<leftarrow> slab_free (fst (held ! i)) s;
     Some (s, take i held @ drop (Suc i) held)
   } else Some (s, held))"

fun client_run :: "client_op list \<Rightarrow> mm \<times> (vaddr \<times> nat) list \<Rightarrow> (mm \<times> (vaddr \<times> nat) list) option" where
  "client_run [] c = Some c"
| "client_run (x # xs) c = do { c \<leftarrow> client_step x c; client_run xs c }"

definition holds :: "mm \<Rightarrow> (vaddr \<times> nat) list \<Rightarrow> bool" where
  "holds s held \<longleftrightarrow> slab_inv s \<and> distinct (map fst held) \<and>
     (\<forall>x n. (x, n) \<in> set held \<longrightarrow> (\<exists>l a. (x, l) \<in> live s \<and> allocators s l = Some a \<and> inp_obj_size a = n))"

lemma live_disjoint:
  assumes "slab_inv s" "(x, l) \<in> live s" "(y, k) \<in> live s" "allocators s l = Some a" "allocators s k = Some b" "x \<noteq> y"
  shows "{x ..< x + inp_obj_size a} \<inter> {y ..< y + inp_obj_size b} = {}"
proof -
  obtain p where p: "p \<in> slab_pages s" "allocator (slab s p) = l" "x \<in> slots a (page_to_virt s p)" using assms(2,4) by (auto simp: live_def)
  obtain q where q: "q \<in> slab_pages s" "allocator (slab s q) = k" "y \<in> slots b (page_to_virt s q)" using assms(3,5) by (auto simp: live_def)
  note sh = slab_inv_shape[OF assms(1,4)] slab_inv_shape[OF assms(1,5)]
  have le: "inp_obj_size a \<le> real_obj_size a" "inp_obj_size b \<le> real_obj_size b" using sh by (simp_all add: shape_ok_def)
  show ?thesis
  proof (cases "p = q")
    case True
    then have ab: "b = a" using p(2) q(2) assms(4,5) by simp
    obtain i where i: "x = page_to_virt s p + i * real_obj_size a" using p(3) by (auto simp: slots_def)
    obtain j where j: "y = page_to_virt s p + j * real_obj_size a" using q(3) True ab by (auto simp: slots_def)
    have step: "u * real_obj_size a + real_obj_size a \<le> v * real_obj_size a" if "u < v" for u v
      using mult_le_mono1[of "u + 1" v "real_obj_size a"] that by simp
    have "i < j \<or> j < i" using i j assms(6) by (metis linorder_neqE_nat)
    then show ?thesis using step[of i j] step[of j i] le ab i j by (elim disjE) auto
  next
    case False
    have "page_to_virt s p \<le> x" "x + inp_obj_size a \<le> page_to_virt s p + PAGE_SIZE" "page_to_virt s q \<le> y" "y + inp_obj_size b \<le> page_to_virt s q + PAGE_SIZE"
      using slot_in_page[OF sh(1) p(3)] slot_in_page[OF sh(2) q(3)] le by (simp_all add: in_page_def)
    then have "{x ..< x + inp_obj_size a} \<subseteq> in_page s p" "{y ..< y + inp_obj_size b} \<subseteq> in_page s q" by (auto simp: in_page_def)
    then show ?thesis using in_page_disjoint[OF False, of s] by blast
  qed
qed

lemma keeps_size: "keeps s s' \<Longrightarrow> allocators s l = Some a \<Longrightarrow> \<exists>a'. allocators s' l = Some a' \<and> inp_obj_size a' = inp_obj_size a"
  unfolding keeps_def by (metis option.rel_cases option.distinct(1) option.inject same_shape_def)

lemma holds_keeps:
  assumes "holds s held" "slab_inv s'" "keeps s s'" "\<And>x n l. (x, n) \<in> set held' \<Longrightarrow> (x, l) \<in> live s \<Longrightarrow> (x, l) \<in> live s'"
    "set held' \<subseteq> set held" "distinct (map fst held')"
  shows "holds s' held'"
  unfolding holds_def
proof (intro conjI assms allI impI)
  fix x n assume x: "(x, n) \<in> set held'"
  then obtain l a where "(x, l) \<in> live s" "allocators s l = Some a" "inp_obj_size a = n" using assms(1,5) unfolding holds_def by blast
  then show "\<exists>l a. (x, l) \<in> live s' \<and> allocators s' l = Some a \<and> inp_obj_size a = n" using assms(4)[OF x] keeps_size[OF assms(3)] by blast
qed

lemma client_alloc_holds:
  assumes "holds s held" "allocators s al = Some a"
  shows "\<exists>s' held'. client_step (Client_alloc al aclass) (s, held) = Some (s', held') \<and> holds s' held' \<and> keeps s s'"
proof -
  have inv: "slab_inv s" using assms(1) by (simp add: holds_def)
  obtain x s' where x: "slab_alloc al aclass s = Some (x, s')" "x = 0 \<and> s' = s \<or> gives al a aclass s x s'"
    using slab_alloc_gives[OF inv assms(2), of aclass] by (auto split: if_splits)
  show ?thesis
  proof (cases "x = 0 \<and> s' = s")
    case True
    then show ?thesis using x(1) assms by (auto simp: keeps_def)
  next
    case False
    then have g: "slab_inv s'" "keeps s s'" "x \<noteq> 0" "\<forall>l. (x, l) \<notin> live s" "live s' = insert (x, al) (live s)" using x(2) unfolding gives_def by blast+
    have "holds s' held" by (rule holds_keeps[OF assms(1) g(1,2)]) (use g(5) assms(1) in \<open>auto simp: holds_def\<close>)
    moreover have "x \<notin> fst ` set held" using assms(1) g(4) unfolding holds_def by force
    moreover obtain a' where "allocators s' al = Some a'" "inp_obj_size a' = inp_obj_size a" using keeps_size[OF g(2) assms(2)] by blast
    moreover have "(x, al) \<in> live s'" using g(5) by simp
    ultimately have "holds s' ((x, inp_obj_size a) # held)" unfolding holds_def by auto
    then show ?thesis using x(1) assms(2) g(2,3) by auto
  qed
qed

lemma client_free_holds:
  assumes "holds s held"
  shows "\<exists>s' held'. client_step (Client_free i) (s, held) = Some (s', held') \<and> holds s' held' \<and> keeps s s'"
proof (cases "i < length held")
  case True
  let ?r = "take i held @ drop (Suc i) held"
  obtain x n where xn: "held ! i = (x, n)" by fastforce
  then have split: "held = take i held @ (x, n) # drop (Suc i) held" using id_take_nth_drop[OF True] by simp
  have "(x, n) \<in> set held" using xn True nth_mem by metis
  then obtain l where l: "(x, l) \<in> live s" using assms unfolding holds_def by blast
  obtain s' where s': "slab_free x s = Some s'" "takes l x s s'" using slab_free_takes[of s x l] assms l by (auto simp: holds_def)
  have d: "distinct (map fst (take i held @ (x, n) # drop (Suc i) held))" using assms split by (simp add: holds_def)
  have "holds s' ?r"
  proof (rule holds_keeps[OF assms])
    show "(y, k) \<in> live s'" if "(y, m) \<in> set ?r" "(y, k) \<in> live s" for y m k
    proof -
      have "y \<in> fst ` set ?r" using that(1) by (metis fst_conv image_eqI)
      then have "y \<noteq> x" using d by auto
      then show ?thesis using that(2) s'(2) by (simp add: takes_def)
    qed
  qed (use s'(2) d set_take_subset[of i held] set_drop_subset[of "Suc i" held] in \<open>auto simp: takes_def\<close>)
  then show ?thesis using s' True xn by (auto simp: takes_def)
qed (use assms in \<open>simp add: keeps_def\<close>)

lemma client_run_holds:
  "holds s held \<Longrightarrow> \<forall>al c. Client_alloc al c \<in> set ops \<longrightarrow> allocators s al \<noteq> None \<Longrightarrow> \<exists>s' held'. client_run ops (s, held) = Some (s', held') \<and> holds s' held'"
proof (induction ops arbitrary: s held)
  case (Cons x ops)
  have "\<exists>s1 held1. client_step x (s, held) = Some (s1, held1) \<and> holds s1 held1 \<and> keeps s s1"
  proof (cases x)
    case (Client_alloc al c)
    then obtain a where "allocators s al = Some a" using Cons.prems(2) by auto
    then show ?thesis using client_alloc_holds[OF Cons.prems(1), of al a c] Client_alloc by simp
  next
    case (Client_free i)
    then show ?thesis using client_free_holds[OF Cons.prems(1), of i] by simp
  qed
  then obtain s1 held1 where 1: "client_step x (s, held) = Some (s1, held1)" "holds s1 held1" "keeps s s1" by blast
  have "\<forall>al c. Client_alloc al c \<in> set ops \<longrightarrow> allocators s1 al \<noteq> None" using Cons.prems(2) keeps_size[OF 1(3)] by fastforce
  then show ?case using Cons.IH[OF 1(2)] 1(1) by simp
qed simp

text \<open>
  (C12) Whatever a client allocates and frees, in any order and from any of the existing allocators: every call is defined, and no two of
  the objects it holds, as far as the results of the calls tell, overlap.
\<close>

theorem slab_objects_disjoint:
  assumes "slab_inv s" "\<forall>al c. Client_alloc al c \<in> set ops \<longrightarrow> allocators s al \<noteq> None"
  shows "\<exists>s' held. client_run ops (s, []) = Some (s', held) \<and>
    (\<forall>i < length held. \<forall>j < length held. i \<noteq> j \<longrightarrow>
       {fst (held ! i) ..< fst (held ! i) + snd (held ! i)} \<inter> {fst (held ! j) ..< fst (held ! j) + snd (held ! j)} = {})"
proof -
  have "holds s []" using assms(1) by (simp add: holds_def)
  then obtain s' held where r: "client_run ops (s, []) = Some (s', held)" "holds s' held" using client_run_holds assms(2) by blast
  have "{fst (held ! i) ..< fst (held ! i) + snd (held ! i)} \<inter> {fst (held ! j) ..< fst (held ! j) + snd (held ! j)} = {}"
    if ij: "i < length held" "j < length held" "i \<noteq> j" for i j
  proof -
    have m: "(fst (held ! i), snd (held ! i)) \<in> set held" "(fst (held ! j), snd (held ! j)) \<in> set held" using ij by simp_all
    have "map fst held ! i \<noteq> map fst held ! j" using r(2) ij nth_eq_iff_index_eq[of "map fst held" i j] by (simp add: holds_def)
    then have ne: "fst (held ! i) \<noteq> fst (held ! j)" using ij by simp
    obtain l a where i: "(fst (held ! i), l) \<in> live s'" "allocators s' l = Some a" "inp_obj_size a = snd (held ! i)" using r(2) m(1) unfolding holds_def by blast
    obtain k b where j: "(fst (held ! j), k) \<in> live s'" "allocators s' k = Some b" "inp_obj_size b = snd (held ! j)" using r(2) m(2) unfolding holds_def by blast
    have "slab_inv s'" using r(2) by (simp add: holds_def)
    from live_disjoint[OF this i(1) j(1) i(2) j(2) ne] show ?thesis unfolding i(3) j(3) .
  qed
  then show ?thesis using r(1) by blast
qed

lemma static_mm_room:
  "\<exists>x s a. slab_alloc 8 ALLOC_KERNEL static_mm = Some (x, s) \<and> gives 8 a ALLOC_KERNEL static_mm x s \<and> room s 20"
proof -
  obtain a where a: "allocators static_mm 8 = Some a" "page_partial a = []" "page_full a = []" "nr_partial a = 0" "nr_full a = 0" "objs_per_page a = 21"
    using static_mm_allocator by blast
  have e: "slab_allocator static_mm = 8" by (simp add: static_mm_def init_new_allocator_def boot_mm_def)
  obtain pgs where pgs: "alloc_page ALLOC_KERNEL (pg static_mm) = Some (0x100000, pgs)" using static_mm_page by blast
  from slab_alloc_new_room[OF static_mm_inv(2), of a ALLOC_KERNEL "0x100000" pgs, unfolded e aclass_kernel] a pgs show ?thesis by auto
qed

theorem slab_objects_disjoint_witness:
  "\<exists>s x y. client_run [Client_alloc 8 ALLOC_KERNEL, Client_alloc 8 ALLOC_KERNEL] (static_mm, []) = Some (s, [(y, 152), (x, 152)]) \<and>
     {y ..< y + 152} \<inter> {x ..< x + 152} = {}"
proof -
  let ?ops = "[Client_alloc 8 ALLOC_KERNEL, Client_alloc 8 ALLOC_KERNEL]"
  obtain a where a: "allocators static_mm 8 = Some a" "inp_obj_size a = 152" using static_mm_allocator by blast
  have e: "slab_allocator static_mm = 8" by (simp add: static_mm_def init_new_allocator_def boot_mm_def)
  obtain x s a1 where x: "slab_alloc 8 ALLOC_KERNEL static_mm = Some (x, s)" "gives 8 a1 ALLOC_KERNEL static_mm x s" "room s 20" using static_mm_room by blast
  have s: "kernel_inv s" "slab_allocator s = 8" "keeps static_mm s" using kernel_inv_gives(1)[OF static_mm_inv(1) x(2)] x(2) e by (simp_all add: gives_def keeps_def)
  obtain b where b: "allocators s 8 = Some b" "inp_obj_size b = 152" using keeps_size[OF s(3) a(1)] a(2) by auto
  have "room s (Suc (Suc 18))" using x(3) by simp
  from slab_alloc_room[OF s(1) this, of ALLOC_KERNEL] obtain y s' a2 where y: "slab_alloc 8 ALLOC_KERNEL s = Some (y, s')" "gives 8 a2 ALLOC_KERNEL s y s'"
    unfolding s(2) by blast
  have nz: "x \<noteq> 0" "y \<noteq> 0" using x(2) y(2) by (simp_all add: gives_def)
  then have run: "client_run ?ops (static_mm, []) = Some (s', [(y, 152), (x, 152)])" using a b x(1) y(1) by simp
  have "\<forall>al c. Client_alloc al c \<in> set ?ops \<longrightarrow> allocators static_mm al \<noteq> None" using a(1) by simp
  from slab_objects_disjoint[OF static_mm_inv(2) this] have d: "\<forall>i < length [(y, 152 :: nat), (x, 152)]. \<forall>j < length [(y, 152 :: nat), (x, 152)]. i \<noteq> j \<longrightarrow>
      {fst ([(y, 152 :: nat), (x, 152)] ! i) ..< fst ([(y, 152 :: nat), (x, 152)] ! i) + snd ([(y, 152 :: nat), (x, 152)] ! i)} \<inter>
      {fst ([(y, 152 :: nat), (x, 152)] ! j) ..< fst ([(y, 152 :: nat), (x, 152)] ! j) + snd ([(y, 152 :: nat), (x, 152)] ! j)} = {}"
    unfolding run option.inject prod.inject by blast
  have "{y ..< y + 152} \<inter> {x ..< x + 152} = {}" using d[rule_format, of 0 1] by simp
  then show ?thesis using run by blast
qed

text \<open>
  Setting up kmalloc is defined whatever the state of the page allocator. It either panics, or every
  size class exists, with objects of its size and alignment, and the memory management state is consistent.
\<close>

theorem kmalloc_init_ready:
  assumes "fresh_mm s"
  shows "\<exists>ok s'. kmalloc_init s = Some (ok, s') \<and> kernel_inv s' \<and> (ok \<longrightarrow> ready s' 9)"
  unfolding kmalloc_init_def by (rule create_kmalloc_slabs_ready[OF init_static[OF assms]]) simp_all

lemma boot_success: "\<exists>s'. kmalloc_init boot_mm = Some (True, s')"
proof -
  have e: "slab_allocator static_mm = 8" by (simp add: static_mm_def init_new_allocator_def boot_mm_def)
  obtain x s1 a where x: "slab_alloc (slab_allocator static_mm) ALLOC_KERNEL static_mm = Some (x, s1)" "gives (slab_allocator static_mm) a ALLOC_KERNEL static_mm x s1" "room s1 20"
    using static_mm_room unfolding e by blast
  have nz: "x \<noteq> 0" "x \<noteq> slab_allocator s1"
    using x(2) kernel_inv_gives(2)[OF static_mm_inv(1) x(2)] static_mm_inv(1) by (auto simp: gives_def keeps_def kernel_inv_def)
  obtain s2 where s2: "slab_create 8 8 static_mm = Some (x, s2)" "room s2 20" using slab_create_success[OF x(1) nz x(3), of 8 8] by auto
  have "kernel_inv s2" using slab_create_adds[OF static_mm_inv(1), of 8 8] s2(1) by auto
  then have "\<exists>s'. create_kmalloc_slabs 1 (tl kmalloc_sizes) (s2\<lparr>kmalloc_slabs := (kmalloc_slabs s2)[0 := x]\<rparr>) = Some (True, s')"
    using s2(2) by (intro create_kmalloc_slabs_room[of _ 20]) (simp_all add: room_def kmalloc_sizes_def)
  then show ?thesis using s2(1) nz(1) unfolding kmalloc_init_def static_mm_def[symmetric] by (simp add: kmalloc_sizes_def)
qed

theorem kmalloc_init_ready_witness:
  "\<exists>s'. kmalloc_init boot_mm = Some (True, s') \<and> kernel_inv s' \<and> ready s' 9"
  using kmalloc_init_ready[OF fresh_boot_mm] boot_success by auto

lemma kmalloc_sizes_nth: "i < 9 \<Longrightarrow> kmalloc_sizes ! i = 2 ^ (i + 3)"
proof -
  assume i: "i < 9"
  have "kmalloc_sizes = map (\<lambda>i. 2 ^ (i + 3)) [0 ..< 9]" by (simp add: kmalloc_sizes_def upt_rec)
  then show ?thesis using nth_map_upt[of i 9 0 "\<lambda>i. 2 ^ (i + 3) :: u64"] i by (simp only: diff_zero add_0)
qed

lemma size_class_fits:
  assumes "i < 9" "sz \<le> kmalloc_sizes ! i" "\<forall>j < i. kmalloc_sizes ! j < sz"
  shows "unat sz \<le> unat (kmalloc_sizes ! i)" "unat (kmalloc_sizes ! i) = 8 \<or> unat (kmalloc_sizes ! i) < 2 * unat sz" "\<not> 2048 < sz"
proof -
  have u: "unat (kmalloc_sizes ! j) = 2 ^ (j + 3)" if "j < 9" for j using that by (simp add: kmalloc_sizes_nth unat_pow2 del: power_Suc power_add)
  show le: "unat sz \<le> unat (kmalloc_sizes ! i)" using assms(2) by (simp add: word_le_nat_alt)
  show "unat (kmalloc_sizes ! i) = 8 \<or> unat (kmalloc_sizes ! i) < 2 * unat sz"
  proof (cases i)
    case 0
    then show ?thesis using u[of 0] by simp
  next
    case (Suc j)
    then have "unat (kmalloc_sizes ! j) < unat sz" using assms(3) by (simp add: word_less_nat_alt)
    moreover have "(2 :: nat) ^ (i + 3) = 2 * 2 ^ (j + 3)" by (simp add: Suc power_add)
    ultimately show ?thesis using u[of j] u[OF assms(1)] Suc assms(1) by linarith
  qed
  have "(2 :: nat) ^ (i + 3) \<le> 2 ^ 11" using assms(1) by (intro power_increasing) simp_all
  then show "\<not> 2048 < sz" using le u[OF assms(1)] by (simp add: word_less_nat_alt)
qed

text \<open>
  (C28) kmalloc returns null, changing nothing, for sizes above 2048 bytes. For smaller sizes it returns null
  only when memory is exhausted, and otherwise an object nobody holds that has at least the size asked for, is aligned to its
  size, and is of the smallest size class, 8 bytes, or less than twice as large as asked for.
\<close>

theorem kmalloc_correct:
  assumes k: "kernel_inv s" "ready s 9"
  shows "\<exists>x s'. kmalloc sz aclass s = Some (x, s') \<and> kernel_inv s' \<and> ready s' 9 \<and> (x = 0 \<longrightarrow> s' = s) \<and> (2048 < sz \<longrightarrow> x = 0) \<and>
    (x = 0 \<longrightarrow> 2048 < sz \<or> alloc_page (ALLOC_KERNEL OR (aclass AND (ALLOC_HIGHPRIO OR ALLOC_ZERO))) (pg s) = None) \<and>
    (x \<noteq> 0 \<longrightarrow> (\<exists>n al. mem s' x = Some (Bytes n (aclass AND ALLOC_ZERO \<noteq> 0)) \<and> unat sz \<le> n \<and> (n = 8 \<or> n < 2 * unat sz) \<and> n dvd x \<and>
       (\<forall>l. (x, l) \<notin> live s) \<and> live s' = insert (x, al) (live s)))"
proof -
  have len: "length (kmalloc_slabs s) = length kmalloc_sizes" using k(2) by (simp add: ready_def)
  consider "kmalloc sz aclass s = Some (0, s)" "2048 < sz"
    | i where "i < 9" "sz \<le> kmalloc_sizes ! i" "\<forall>j < i. kmalloc_sizes ! j < sz" "kmalloc sz aclass s = slab_alloc (kmalloc_slabs s ! i) aclass s"
    using kmalloc_scan_first[OF len, of sz aclass s] by (auto simp: kmalloc_def kmalloc_sizes_def[THEN arg_cong, of set])
  then show ?thesis
  proof cases
    case 1
    then show ?thesis using k by simp
  next
    case (2 i)
    obtain a where a: "allocators s (kmalloc_slabs s ! i) = Some a" "inp_obj_size a = unat (kmalloc_sizes ! i)" "unat (kmalloc_sizes ! i) dvd inp_obj_align a"
      using k(2) 2(1) by (auto simp: ready_def)
    note fit = size_class_fits[OF 2(1-3)]
    have inv: "slab_inv s" using k(1) by (simp add: kernel_inv_def)
    show ?thesis
    proof (cases rule: slab_alloc_cases[OF inv a(1), of aclass])
      case 1
      then show ?thesis using 2(4) k by simp
    next
      case (2 x s')
      have "ready s' 9" by (rule ready_same_shape[OF k(2)]) (use 2(3) in \<open>simp_all add: gives_def keeps_def\<close>)
      moreover have "kernel_inv s'" by (rule kernel_inv_gives(1)[OF k(1) 2(3)])
      moreover have "unat (kmalloc_sizes ! i) dvd x" using a(3) 2(3) by (auto simp: gives_def)
      ultimately show ?thesis using \<open>kmalloc sz aclass s = _\<close> 2 a(2) fit
        by (intro exI[of _ x] exI[of _ s']) (auto simp: gives_def)
    qed
  qed
qed

theorem kmalloc_correct_witness:
  "\<exists>s x s'. kmalloc_init boot_mm = Some (True, s) \<and> kmalloc 100 ALLOC_KERNEL s = Some (x, s') \<and> kernel_inv s'"
proof -
  obtain s where s: "kmalloc_init boot_mm = Some (True, s)" using boot_success by blast
  have "\<exists>ok s'. kmalloc_init boot_mm = Some (ok, s') \<and> kernel_inv s' \<and> (ok \<longrightarrow> ready s' 9)"
    unfolding kmalloc_init_def by (rule create_kmalloc_slabs_ready[OF init_static[OF fresh_boot_mm]]) simp_all
  then have "kernel_inv s" "ready s 9" using s by auto
  from kmalloc_correct[OF this, of 100 ALLOC_KERNEL] s show ?thesis by blast
qed

end
