(* ===== verification/Mm_Vmap.thy ===== *)
theory Mm_Vmap
  imports Dsl_VMA
begin

text \<open>
  The choice of an address range in the kernel's address space (\<^verbatim>\<open>mm/vmap.cc\<close>), a client of the tree of ranges: a
  mapping is surrounded by two guard pages that belong to no mapping.
\<close>

definition GUARD_SIZE :: u64 where "GUARD_SIZE = 4096"

definition find_free_with_guard_pages :: "vma_tree \<Rightarrow> u64 \<Rightarrow> u64 \<Rightarrow> u64 \<Rightarrow> u64 option option" where
  "find_free_with_guard_pages s sz low high = (
     let hole_size = sz + GUARD_SIZE + GUARD_SIZE in
     if hole_size < sz then Some None
     else
       let low = (if low > GUARD_SIZE then low - GUARD_SIZE else 0);
           high = (if high < VMA_TREE_MAX - GUARD_SIZE then high + GUARD_SIZE else VMA_TREE_MAX) in do {
         r \<leftarrow> VMATree_find_free_bottomup s \<lparr>rq_size = hole_size, rq_align = 4096, rq_min = low, rq_max = high\<rparr>;
         Some (map_option (\<lambda>addr. addr + GUARD_SIZE) r)
       })"

section \<open>Properties\<close>

text \<open>
  (C29) The range that is chosen for a mapping is aligned to pages and lies between the requested bounds, and together with a
  guard page on either side it is free of all other mappings; the search always returns.
\<close>

theorem vmap_guarded:
  assumes "vma_holds s zs"
  shows "\<exists>r. find_free_with_guard_pages s sz low high = Some r \<and> (\<forall>a. r = Some a \<longrightarrow>
    4096 dvd unat a \<and> low \<le> a \<and> unat a + unat sz \<le> unat high + 1 \<and>
    (\<forall>z \<in> set zs. unat a + unat sz + 4096 \<le> unat (r_first z) \<or> unat (r_last z) + 4096 < unat a))"
proof (cases "sz + GUARD_SIZE + GUARD_SIZE < sz")
  case True
  then show ?thesis by (simp add: find_free_with_guard_pages_def)
next
  case False
  let ?hs = "sz + GUARD_SIZE + GUARD_SIZE"
  let ?lo = "if low > GUARD_SIZE then low - GUARD_SIZE else 0" and ?hi = "if high < VMA_TREE_MAX - GUARD_SIZE then high + GUARD_SIZE else VMA_TREE_MAX"
  let ?rq = "\<lparr>rq_size = ?hs, rq_align = 4096, rq_min = ?lo, rq_max = ?hi\<rparr>"
  have g: "unat GUARD_SIZE = 4096" by (simp add: GUARD_SIZE_def)
  have e: "?hs = sz + 8192" by (simp add: GUARD_SIZE_def)
  have "\<not> unat (sz + 8192) < unat sz" using False unfolding e word_less_nat_alt .
  then have hs: "unat ?hs = unat sz + 8192" using unat_lt_64[of sz] unat_add_64[of sz 8192] unfolding e by (simp split: if_splits)
  have al: "rq_align ?rq = 2 ^ 12" "rq_size ?rq \<noteq> 0" using hs by (auto simp: unat_eq_0[symmetric] simp del: unat_eq_0)
  obtain r where r: "VMATree_find_free_bottomup s ?rq = Some r" using vma_space.hole_total[OF assms _ al] by auto
  have lo: "unat ?lo = unat low - 4096" by (simp add: g word_less_nat_alt unat_sub word_le_nat_alt)
  have hi: "unat ?hi \<le> unat high + 4096"
  proof (cases "high < VMA_TREE_MAX - GUARD_SIZE")
    case True
    then show ?thesis using unat_add_64[of high GUARD_SIZE] g by (simp add: le_trans[OF diff_le_self])
  next
    case False
    then have "unat (VMA_TREE_MAX - GUARD_SIZE) \<le> unat high" by (simp add: word_less_nat_alt)
    moreover have "unat (VMA_TREE_MAX - GUARD_SIZE) = unat VMA_TREE_MAX - 4096" using unat_sub_64[of VMA_TREE_MAX GUARD_SIZE] unat_max_64 g by simp
    ultimately show ?thesis using False by simp
  qed
  have hit: "4096 dvd unat (b + GUARD_SIZE) \<and> low \<le> b + GUARD_SIZE \<and> unat (b + GUARD_SIZE) + unat sz \<le> unat high + 1 \<and>
    (\<forall>z \<in> set zs. unat (b + GUARD_SIZE) + unat sz + 4096 \<le> unat (r_first z) \<or> unat (r_last z) + 4096 < unat (b + GUARD_SIZE))" if "r = Some b" for b
  proof -
    have f: "free_hole zs ?rq b" using vma_space.hole[OF assms _ al, of b] r that by simp
    have b: "4096 dvd unat b" "unat low - 4096 \<le> unat b" "unat b + (unat sz + 8192) \<le> unat ?hi + 1"
      "\<forall>z \<in> set zs. unat b + (unat sz + 8192) \<le> unat (r_first z) \<or> unat (r_last z) < unat b"
      using f lo hs unfolding free_hole_def by (simp_all add: word_le_nat_alt word_less_nat_alt)
    have "unat b + 4096 < 18446744073709551616" using b(3) unat_lt_64[of ?hi] by linarith
    then have u: "unat (b + GUARD_SIZE) = unat b + 4096" using g unat_add_64[of b GUARD_SIZE] by simp
    show ?thesis unfolding u word_le_nat_alt using b hi by (auto simp: dvd_add)
  qed
  have "find_free_with_guard_pages s sz low high = Some (map_option (\<lambda>addr. addr + GUARD_SIZE) r)"
    using False r by (simp add: find_free_with_guard_pages_def Let_def del: bind_Some_iff)
  then show ?thesis using hit by (cases r) auto
qed

theorem vmap_guarded_witness:
  "\<exists>r. find_free_with_guard_pages sample_vma 0x1000 0x1000 0xffff = Some r \<and> (\<forall>a. r = Some a \<longrightarrow> 0x5fff < unat a)"
proof -
  obtain r where r: "find_free_with_guard_pages sample_vma 0x1000 0x1000 0xffff = Some r"
    "\<forall>a. r = Some a \<longrightarrow> (\<forall>z \<in> set sample_ranges. unat a + unat (0x1000 :: u64) + 4096 \<le> unat (r_first z) \<or> unat (r_last z) + 4096 < unat a) \<and> 4096 dvd unat a \<and> 0x1000 \<le> a"
    using vmap_guarded[OF sample_vma_holds, of "0x1000" "0x1000" "0xffff"] by blast
  then show ?thesis by (auto simp: word_le_nat_alt)
qed

end
