(* ===== verification/Drivers_Fbcon.thy ===== *)
theory Drivers_Fbcon
  imports Util_String Util_Vsnprintf Mm_Slab
begin

text \<open>
  Kernel messages (\<^verbatim>\<open>kernel/printk.cc\<close>) and the framebuffer console (\<^verbatim>\<open>drivers/fbcon/fbcon.cc\<close>). The back buffer and
  the framebuffer are ranges of the byte memory of \<^verbatim>\<open>util/string.cc\<close>; a store outside of mapped memory is
  undefined (\<^const>\<open>None\<close>), as is a shift by 32 bits or more. Coordinates and byte offsets are computed with 32-bit
  words as in the source. The glyph table is an argument.
\<close>

section \<open>Colours and formats\<close>

definition FONT_WIDTH :: nat where "FONT_WIDTH = 8"

definition FONT_HEIGHT :: nat where "FONT_HEIGHT = 16"

definition SYMBOL_WIDTH :: nat where "SYMBOL_WIDTH = 9"

definition LINE_HEIGHT :: nat where "LINE_HEIGHT = 17"

record fbcon_format =
  bpp :: u8
  red_offset :: u8
  green_offset :: u8
  blue_offset :: u8
  red_bits :: u8
  green_bits :: u8
  blue_bits :: u8

record fbcon =
  fmt :: fbcon_format
  fb_width :: u32
  fb_height :: u32
  fb_pitch :: u32
  fb_nbytes :: u64
  fbmem :: nat
  backbuf :: nat
  fb_flags :: u32
  cx :: u32
  cy :: u32
  c_background :: u32
  c_info :: u32
  c_notice :: u32
  c_warn :: u32
  c_err :: u32
  c_msgtime :: u32

definition shl32 :: "u32 \<Rightarrow> nat \<Rightarrow> u32 option" where
  "shl32 x n = (if n < 32 then Some (push_bit n x) else None)"

definition channel :: "u32 \<Rightarrow> u8 \<Rightarrow> u32 option" where
  "channel x bits = (if bits > 8 then shl32 x (unat bits - 8) else if bits < 8 then Some (drop_bit (8 - unat bits) x) else Some x)"

definition clamp255 :: "u32 \<Rightarrow> u32" where "clamp255 x = (if x > 255 then 255 else x)"

definition get_color :: "fbcon_format \<Rightarrow> u32 \<Rightarrow> u32 \<Rightarrow> u32 \<Rightarrow> u32 option" where
  "get_color f r g b = do {
     r \<leftarrow> channel (clamp255 r) (red_bits f);
     g \<leftarrow> channel (clamp255 g) (green_bits f);
     b \<leftarrow> channel (clamp255 b) (blue_bits f);
     r \<leftarrow> shl32 r (unat (red_offset f));
     g \<leftarrow> shl32 g (unat (green_offset f));
     b \<leftarrow> shl32 b (unat (blue_offset f));
     Some (r OR g OR b)
   }"

definition FBC_OWN_STRUCT :: u32 where "FBC_OWN_STRUCT = 1"

definition FBC_OWN_BACKBUFFER :: u32 where "FBC_OWN_BACKBUFFER = 2"

definition validate_format :: "u32 \<Rightarrow> u32 \<Rightarrow> u32 \<Rightarrow> fbcon_format \<Rightarrow> bool option" where
  "validate_format w h pitch f = (
     if bpp f \<notin> {8, 16, 24, 32} then Some False
     else let bytes_per_pixel = (if bpp f = 8 then 1 else if bpp f = 16 then 2 else if bpp f = 24 then 3 else 4 :: u32) in
     if w < 20 \<or> h < 20 then Some False
     else let tmp = ucast (w * bytes_per_pixel) :: u64 in
     if ucast pitch < tmp then Some False
     else if (bpp f = 16 \<or> bpp f = 32) \<and> pitch AND (bytes_per_pixel - 1) \<noteq> 0 then Some False
     else let tmp = ucast (h * pitch) :: u64 in
     if tmp > 0xffffffff then Some False
     else do {
       black \<leftarrow> get_color f 0 0 0;
       grey \<leftarrow> get_color f 128 128 128;
       Some (black \<noteq> grey)
     })"

section \<open>Pixels\<close>

definition fbcon_flush :: "fbcon \<Rightarrow> bytes \<Rightarrow> bytes option" where
  "fbcon_flush fb m = map_option fst (memcpy m (fbmem fb) (backbuf fb) (unat (fb_nbytes fb)))"

definition get_row :: "fbcon \<Rightarrow> u32 \<Rightarrow> nat" where
  "get_row fb row = backbuf fb + unat (row * fb_pitch fb)"

definition get_pixel :: "fbcon \<Rightarrow> u32 \<Rightarrow> u32 \<Rightarrow> nat" where
  "get_pixel fb row column = get_row fb row + unat (ucast (bpp (fmt fb) div 8) * column)"

definition putpixel8 :: "bytes \<Rightarrow> nat \<Rightarrow> u32 \<Rightarrow> (bytes \<times> nat) option" where
  "putpixel8 m p x = do { m \<leftarrow> store m p (ucast x); Some (m, p + 1) }"

definition putpixel16 :: "bytes \<Rightarrow> nat \<Rightarrow> u32 \<Rightarrow> (bytes \<times> nat) option" where
  "putpixel16 m p x = do { m \<leftarrow> store m p (ucast x); m \<leftarrow> store m (p + 1) (ucast (drop_bit 8 x)); Some (m, p + 2) }"

definition putpixel24 :: "bytes \<Rightarrow> nat \<Rightarrow> u32 \<Rightarrow> (bytes \<times> nat) option" where
  "putpixel24 m p x = do { m \<leftarrow> store m p (ucast x); m \<leftarrow> store m (p + 1) (ucast (drop_bit 8 x));
     m \<leftarrow> store m (p + 2) (ucast (drop_bit 16 x)); Some (m, p + 3) }"

definition putpixel32 :: "bytes \<Rightarrow> nat \<Rightarrow> u32 \<Rightarrow> (bytes \<times> nat) option" where
  "putpixel32 m p x = do { m \<leftarrow> store m p (ucast x); m \<leftarrow> store m (p + 1) (ucast (drop_bit 8 x));
     m \<leftarrow> store m (p + 2) (ucast (drop_bit 16 x)); m \<leftarrow> store m (p + 3) (ucast (drop_bit 24 x)); Some (m, p + 4) }"

definition putpixel :: "bytes \<Rightarrow> nat \<Rightarrow> u32 \<Rightarrow> u8 \<Rightarrow> (bytes \<times> nat) option" where
  "putpixel m p x b = (if b = 8 then putpixel8 m p x else if b = 16 then putpixel16 m p x
     else if b = 24 then putpixel24 m p x else if b = 32 then putpixel32 m p x else Some (m, p))"

text \<open>The loops that put \<open>n\<close> pixels of one colour, and that clear \<open>n\<close> rows.\<close>

fun put_run :: "bytes \<Rightarrow> nat \<Rightarrow> u32 \<Rightarrow> u8 \<Rightarrow> nat \<Rightarrow> (bytes \<times> nat) option" where
  "put_run m p c b 0 = Some (m, p)"
| "put_run m p c b (Suc n) = do { (m, p) \<leftarrow> putpixel m p c b; put_run m p c b n }"

fun clear_rows :: "fbcon \<Rightarrow> bytes \<Rightarrow> u32 \<Rightarrow> nat \<Rightarrow> bytes option" where
  "clear_rows fb m i 0 = Some m"
| "clear_rows fb m i (Suc n) = do {
     (m, _) \<leftarrow> put_run m (get_row fb i) (c_background fb) (bpp (fmt fb)) (unat (fb_width fb));
     clear_rows fb m (i + 1) n
   }"

definition fbcon_scroll :: "fbcon \<Rightarrow> bytes \<Rightarrow> u32 \<Rightarrow> (fbcon \<times> bytes) option" where
  "fbcon_scroll fb m scroll = (let nbytes = fb_nbytes fb - ucast (scroll * fb_pitch fb) in do {
     (m, _) \<leftarrow> memmove m (get_row fb 0) (get_row fb scroll) (unat nbytes);
     let fb = fb\<lparr>cy := cy fb - scroll\<rparr>;
     m \<leftarrow> clear_rows fb m (fb_height fb - scroll) (unat (fb_height fb) - unat (fb_height fb - scroll));
     Some (fb, m)
   })"

fun glyph_run :: "bytes \<Rightarrow> nat \<Rightarrow> u8 \<Rightarrow> u8 \<Rightarrow> u32 \<Rightarrow> u32 \<Rightarrow> u8 \<Rightarrow> nat \<Rightarrow> (bytes \<times> nat) option" where
  "glyph_run m p data msk fg bg b 0 = Some (m, p)"
| "glyph_run m p data msk fg bg b (Suc n) = do {
     (m, p) \<leftarrow> putpixel m p (if data AND msk \<noteq> 0 then fg else bg) b;
     glyph_run m p data (drop_bit 1 msk) fg bg b n
   }"

fun blit_rows :: "(nat \<Rightarrow> u8) \<Rightarrow> fbcon \<Rightarrow> bytes \<Rightarrow> u8 \<Rightarrow> u32 \<Rightarrow> u32 \<Rightarrow> u32 \<Rightarrow> u32 \<Rightarrow> nat \<Rightarrow> nat \<Rightarrow> bytes option" where
  "blit_rows font fb m c x y fg bg i 0 = Some m"
| "blit_rows font fb m c x y fg bg i (Suc n) = do {
     let p = get_pixel fb (y + of_nat i) x;
     (m, p) \<leftarrow> glyph_run m p (font (FONT_HEIGHT * unat c + i)) 0x80 fg bg (bpp (fmt fb)) FONT_WIDTH;
     (m, p) \<leftarrow> put_run m p bg (bpp (fmt fb)) (SYMBOL_WIDTH - FONT_WIDTH);
     blit_rows font fb m c x y fg bg (Suc i) n
   }"

fun blank_rows :: "fbcon \<Rightarrow> bytes \<Rightarrow> u32 \<Rightarrow> u32 \<Rightarrow> u32 \<Rightarrow> nat \<Rightarrow> nat \<Rightarrow> bytes option" where
  "blank_rows fb m x y bg i 0 = Some m"
| "blank_rows fb m x y bg i (Suc n) = do {
     (m, _) \<leftarrow> put_run m (get_pixel fb (y + of_nat i) x) bg (bpp (fmt fb)) SYMBOL_WIDTH;
     blank_rows fb m x y bg (Suc i) n
   }"

definition fbcon_blit_character :: "(nat \<Rightarrow> u8) \<Rightarrow> fbcon \<Rightarrow> bytes \<Rightarrow> u8 \<Rightarrow> u32 \<Rightarrow> u32 \<Rightarrow> u32 \<Rightarrow> u32 \<Rightarrow> bytes option" where
  "fbcon_blit_character font fb m c x y fg bg = do {
     m \<leftarrow> blit_rows font fb m c x y fg bg 0 FONT_HEIGHT;
     blank_rows fb m x y bg FONT_HEIGHT (LINE_HEIGHT - FONT_HEIGHT)
   }"

text \<open>The start of the next line, scrolling if it does not fit.\<close>

definition next_line :: "fbcon \<Rightarrow> bytes \<Rightarrow> (fbcon \<times> bytes) option" where
  "next_line fb m = (let fb = fb\<lparr>cx := 0, cy := cy fb + of_nat LINE_HEIGHT\<rparr> in
     if cy fb + of_nat LINE_HEIGHT > fb_height fb then fbcon_scroll fb m (cy fb + of_nat LINE_HEIGHT - fb_height fb)
     else Some (fb, m))"

definition fbcon_putc :: "(nat \<Rightarrow> u8) \<Rightarrow> fbcon \<Rightarrow> bytes \<Rightarrow> char \<Rightarrow> u32 \<Rightarrow> u32 \<Rightarrow> (fbcon \<times> bytes) option" where
  "fbcon_putc font fb m c fg bg = (
     if c = CHR 0x0A then next_line fb m
     else do {
       m \<leftarrow> fbcon_blit_character font fb m (of_char c) (cx fb) (cy fb) fg bg;
       let fb = fb\<lparr>cx := cx fb + of_nat SYMBOL_WIDTH\<rparr>;
       if cx fb + of_nat SYMBOL_WIDTH > fb_width fb then next_line fb m else Some (fb, m)
     })"

fun fbcon_print :: "(nat \<Rightarrow> u8) \<Rightarrow> fbcon \<Rightarrow> bytes \<Rightarrow> string \<Rightarrow> u32 \<Rightarrow> u32 \<Rightarrow> (fbcon \<times> bytes) option" where
  "fbcon_print font fb m [] fg bg = Some (fb, m)"
| "fbcon_print font fb m (c # cs) fg bg = do { (fb, m) \<leftarrow> fbcon_putc font fb m c fg bg; fbcon_print font fb m cs fg bg }"

definition fbcon_emit_message :: "(nat \<Rightarrow> u8) \<Rightarrow> fbcon \<Rightarrow> bytes \<Rightarrow> int \<Rightarrow> u64 \<Rightarrow> string \<Rightarrow> (fbcon \<times> bytes) option" where
  "fbcon_emit_message font fb m level msg_time msg = do {
     buf \<leftarrow> vsnprintf 24 ''[%5llu.%06llu] '' [VInt (msg_time div 1000000), VInt (msg_time mod 1000000)];
     let level = (if level < 0 then 0 else if level > 4 then 4 else level);
     let fg = [c_info fb, c_info fb, c_notice fb, c_warn fb, c_err fb] ! nat level;
     let bg = c_background fb;
     (fb, m) \<leftarrow> fbcon_print font fb m (takeWhile (\<lambda>c. c \<noteq> CHR 0x00) buf) (c_msgtime fb) bg;
     (fb, m) \<leftarrow> fbcon_print font fb m msg fg bg;
     m \<leftarrow> fbcon_flush fb m;
     Some (fb, m)
   }"

section \<open>Registration\<close>

record fb_world =
  fw_mm :: mm
  fw_mem :: bytes
  fw_stale :: "nat \<Rightarrow> u8"
  fw_fbcons :: "nat \<Rightarrow> fbcon option"
  console_list :: "nat list"
  last_registered_fbcon :: nat

definition console_register :: "nat \<Rightarrow> fb_world \<Rightarrow> fb_world" where
  "console_register con s = s\<lparr>console_list := con # console_list s\<rparr>"

definition release_fbcon :: "nat \<Rightarrow> fbcon \<Rightarrow> mm \<Rightarrow> mm option" where
  "release_fbcon a fb s = do {
     s \<leftarrow> (if fb_flags fb AND FBC_OWN_BACKBUFFER \<noteq> 0 then kfree (backbuf fb) s else Some s);
     if fb_flags fb AND FBC_OWN_STRUCT \<noteq> 0 then kfree a s else Some s
   }"

definition sizeof_fbcon :: u64 where "sizeof_fbcon = 112"

definition set_colors :: "fbcon_format \<Rightarrow> fbcon \<Rightarrow> fbcon option" where
  "set_colors f fb = do {
     background \<leftarrow> get_color f 35 38 39;
     info \<leftarrow> get_color f 200 200 200;
     notice \<leftarrow> get_color f 255 255 255;
     warn \<leftarrow> get_color f 253 188 75;
     err \<leftarrow> get_color f 237 21 21;
     msgtime \<leftarrow> get_color f 17 209 22;
     Some (fb\<lparr>c_background := background, c_info := info, c_notice := notice, c_warn := warn, c_err := err, c_msgtime := msgtime\<rparr>)
   }"

text \<open>
  The bytes of a block from \<open>kmalloc\<close> are accessible from then on; they hold what the memory held before.
\<close>

definition fresh_bytes :: "nat \<Rightarrow> nat \<Rightarrow> (nat \<Rightarrow> u8) \<Rightarrow> bytes \<Rightarrow> bytes" where
  "fresh_bytes a n stale m = (\<lambda>x. if a \<le> x \<and> x < a + n then Some (stale x) else m x)"

definition fbcon_add_framebuffer :: "nat \<Rightarrow> u32 \<Rightarrow> u32 \<Rightarrow> u32 \<Rightarrow> fbcon_format \<Rightarrow> nat \<Rightarrow> nat \<Rightarrow> fb_world \<Rightarrow> (nat \<times> fb_world) option" where
  "fbcon_add_framebuffer a w h pitch f fbm bb s = do {
     ok \<leftarrow> validate_format w h pitch f;
     if \<not> ok then Some (0, s)
     else do {
       (a, flags, mms) \<leftarrow> (if a \<noteq> 0 then Some (a, 0, fw_mm s)
         else do { (x, mms) \<leftarrow> kmalloc sizeof_fbcon ALLOC_KERNEL (fw_mm s); Some (x, FBC_OWN_STRUCT, mms) });
       let s = s\<lparr>fw_mm := mms\<rparr>;
       if a = 0 then Some (0, s)
       else do {
         let fb = \<lparr>fmt = f, fb_width = w, fb_height = h, fb_pitch = pitch, fb_nbytes = ucast (h * pitch), fbmem = fbm, backbuf = bb, fb_flags = flags,
            cx = 0, cy = 0, c_background = 0, c_info = 0, c_notice = 0, c_warn = 0, c_err = 0, c_msgtime = 0\<rparr>;
         (fb, mms, m) \<leftarrow> (if bb \<noteq> 0 then Some (fb, mms, fw_mem s)
           else do { (x, mms) \<leftarrow> kmalloc (fb_nbytes fb) ALLOC_KERNEL mms;
             if x = 0 then Some (fb\<lparr>backbuf := 0\<rparr>, mms, fw_mem s)
             else Some (fb\<lparr>backbuf := x, fb_flags := flags OR FBC_OWN_BACKBUFFER\<rparr>, mms, fresh_bytes x (unat (fb_nbytes fb)) (fw_stale s) (fw_mem s)) });
         if backbuf fb = 0 then do { mms \<leftarrow> release_fbcon a fb mms; Some (0, s\<lparr>fw_mm := mms\<rparr>) }
         else do {
           fb \<leftarrow> set_colors f fb;
           m \<leftarrow> clear_rows fb m 0 (unat (fb_height fb));
           m \<leftarrow> fbcon_flush fb m;
           let s = s\<lparr>fw_mm := mms, fw_mem := m, fw_fbcons := (fw_fbcons s)(a \<mapsto> fb)\<rparr>;
           Some (a, (console_register a s)\<lparr>last_registered_fbcon := a\<rparr>)
         }
       }
     }
   }"

definition fbcon_find_one :: "fb_world \<Rightarrow> nat" where "fbcon_find_one s = last_registered_fbcon s"

definition fbcon_get_color :: "fbcon \<Rightarrow> u32 \<Rightarrow> u32 \<Rightarrow> u32 \<Rightarrow> u32 option" where
  "fbcon_get_color fb r g b = get_color (fmt fb) r g b"

definition fbcon_get_pixel :: "fbcon \<Rightarrow> u32 \<Rightarrow> u32 \<Rightarrow> nat" where
  "fbcon_get_pixel fb x y = get_pixel fb y x"

definition fbcon_put_pixel :: "fbcon \<Rightarrow> nat \<Rightarrow> u32 \<Rightarrow> bytes \<Rightarrow> bytes option" where
  "fbcon_put_pixel fb p color m = map_option fst (putpixel m p color (bpp (fmt fb)))"

section \<open>printk\<close>

definition char_int :: "char \<Rightarrow> int" where "char_int c = sint (of_char c :: 8 word)"

text \<open>The log level at the start of a message, and the rest of the message.\<close>

definition printk_level :: "string \<Rightarrow> int \<times> string" where
  "printk_level buf = (
     let (level, p) = (case buf of
         c0 # c1 # c2 # rest \<Rightarrow> if c0 = CHR 0x01 \<and> c1 \<noteq> CHR 0x00 \<and> c2 = CHR 0x02 then (char_int c1 - 48, rest) else (0, buf)
       | _ \<Rightarrow> (0, buf))
     in (if level < 0 \<or> level > 4 then 0 else level, p))"

text \<open>Every console gets the message; \<open>emit_message\<close> is the console's handler.\<close>

fun printk_emit :: "(nat \<Rightarrow> int \<Rightarrow> u64 \<Rightarrow> string \<Rightarrow> 's \<Rightarrow> 's option) \<Rightarrow> nat list \<Rightarrow> int \<Rightarrow> u64 \<Rightarrow> string \<Rightarrow> 's \<Rightarrow> 's option" where
  "printk_emit emit_message [] level t msg s = Some s"
| "printk_emit emit_message (con # cons) level t msg s = do { s \<leftarrow> emit_message con level t msg s; printk_emit emit_message cons level t msg s }"

definition printk :: "(nat \<Rightarrow> int \<Rightarrow> u64 \<Rightarrow> string \<Rightarrow> 's \<Rightarrow> 's option) \<Rightarrow> nat list \<Rightarrow> u64 \<Rightarrow> string \<Rightarrow> va_list \<Rightarrow> 's \<Rightarrow> 's option" where
  "printk emit_message consoles now f args s = do {
     buf \<leftarrow> vsnprintf 768 f args;
     let (level, p) = printk_level buf;
     printk_emit emit_message consoles level now (takeWhile (\<lambda>c. c \<noteq> CHR 0x00) p) s
   }"

definition emit_fbcon :: "(nat \<Rightarrow> u8) \<Rightarrow> nat \<Rightarrow> int \<Rightarrow> u64 \<Rightarrow> string \<Rightarrow> fb_world \<Rightarrow> fb_world option" where
  "emit_fbcon font con level t msg s = do {
     fb \<leftarrow> fw_fbcons s con;
     (fb, m) \<leftarrow> fbcon_emit_message font fb (fw_mem s) level t msg;
     Some (s\<lparr>fw_mem := m, fw_fbcons := (fw_fbcons s)(con \<mapsto> fb)\<rparr>)
   }"

section \<open>Runs of pixels\<close>

definition Bpp :: "u8 \<Rightarrow> nat" where "Bpp b = unat b div 8"

definition depth_ok :: "u8 \<Rightarrow> bool" where "depth_ok b \<longleftrightarrow> b \<in> {8, 16, 24, 32}"

definition pixel_bytes :: "u8 \<Rightarrow> u32 \<Rightarrow> u8 list" where
  "pixel_bytes b x = take (Bpp b) [ucast x, ucast (drop_bit 8 x), ucast (drop_bit 16 x), ucast (drop_bit 24 x)]"

lemma depth_cases: "depth_ok b \<Longrightarrow> (b = 8 \<Longrightarrow> P) \<Longrightarrow> (b = 16 \<Longrightarrow> P) \<Longrightarrow> (b = 24 \<Longrightarrow> P) \<Longrightarrow> (b = 32 \<Longrightarrow> P) \<Longrightarrow> P"
  by (auto simp: depth_ok_def)

lemma length_pixel_bytes [simp]: "depth_ok b \<Longrightarrow> length (pixel_bytes b x) = Bpp b"
  by (erule depth_cases) (simp_all add: pixel_bytes_def Bpp_def)

lemma Bpp_pos: "depth_ok b \<Longrightarrow> 0 < Bpp b \<and> Bpp b \<le> 4"
  by (erule depth_cases) (simp_all add: Bpp_def)

lemma Bpp_simps: "Bpp 8 = 1" "Bpp 16 = 2" "Bpp 24 = 3" "Bpp 32 = 4"
  by (simp_all add: Bpp_def)

lemma mapped_at: "mapped m p n \<Longrightarrow> i < n \<Longrightarrow> m (p + i) \<noteq> None"
  by (simp add: mapped_def)

lemma mapped_bytes:
  "mapped m p 1 \<Longrightarrow> m p \<noteq> None" "mapped m p 2 \<Longrightarrow> m p \<noteq> None \<and> m (p + 1) \<noteq> None"
  "mapped m p 3 \<Longrightarrow> m p \<noteq> None \<and> m (p + 1) \<noteq> None \<and> m (p + 2) \<noteq> None"
  "mapped m p 4 \<Longrightarrow> m p \<noteq> None \<and> m (p + 1) \<noteq> None \<and> m (p + 2) \<noteq> None \<and> m (p + 3) \<noteq> None"
  using mapped_at[of m p _ 0] mapped_at[of m p _ 1] mapped_at[of m p _ 2] mapped_at[of m p _ 3] by simp_all

lemma putpixel_eq:
  assumes "depth_ok b" "mapped m p (Bpp b)"
  shows "putpixel m p x b = Some (write_at m p (pixel_bytes b x), p + Bpp b)"
  using assms(1)
proof (rule depth_cases)
  assume b: "b = 8"
  then show ?thesis using mapped_bytes(1)[of m p] assms(2)
    by (simp add: putpixel_def putpixel8_def pixel_bytes_def write_at_Cons Bpp_simps)
next
  assume b: "b = 16"
  then show ?thesis using mapped_bytes(2)[of m p] assms(2)
    by (simp add: putpixel_def putpixel16_def pixel_bytes_def write_at_Cons Bpp_simps)
next
  assume b: "b = 24"
  then show ?thesis using mapped_bytes(3)[of m p] assms(2)
    by (simp add: putpixel_def putpixel24_def pixel_bytes_def write_at_Cons Bpp_simps)
next
  assume b: "b = 32"
  then show ?thesis using mapped_bytes(4)[of m p] assms(2)
    by (simp add: putpixel_def putpixel32_def pixel_bytes_def write_at_Cons Bpp_simps numeral_3_eq_3)
qed

definition row_bytes :: "u8 \<Rightarrow> u32 list \<Rightarrow> u8 list" where
  "row_bytes b cs = concat (map (pixel_bytes b) cs)"

lemma length_row_bytes [simp]: "depth_ok b \<Longrightarrow> length (row_bytes b cs) = length cs * Bpp b"
  by (induction cs) (simp_all add: row_bytes_def)

lemma row_bytes_simps [simp]: "row_bytes b [] = []" "row_bytes b (c # cs) = pixel_bytes b c @ row_bytes b cs" "row_bytes b (cs @ ds) = row_bytes b cs @ row_bytes b ds"
  by (simp_all add: row_bytes_def)

lemma put_run_eq:
  "depth_ok b \<Longrightarrow> mapped m p (n * Bpp b) \<Longrightarrow> put_run m p c b n = Some (write_at m p (row_bytes b (replicate n c)), p + n * Bpp b)"
proof (induction n arbitrary: m p)
  case (Suc n)
  have "mapped m p (Bpp b)" "mapped m (p + Bpp b) (n * Bpp b)" using Suc.prems(2) by (simp_all add: mapped_add)
  then show ?case using Suc.IH[OF Suc.prems(1), of "write_at m p (pixel_bytes b c)" "p + Bpp b"] Suc.prems(1)
    by (simp add: putpixel_eq mapped_write write_at_append)
qed simp

fun glyph_colors :: "u8 \<Rightarrow> u8 \<Rightarrow> u32 \<Rightarrow> u32 \<Rightarrow> nat \<Rightarrow> u32 list" where
  "glyph_colors data msk fg bg 0 = []"
| "glyph_colors data msk fg bg (Suc n) = (if data AND msk \<noteq> 0 then fg else bg) # glyph_colors data (drop_bit 1 msk) fg bg n"

lemma length_glyph_colors [simp]: "length (glyph_colors data msk fg bg n) = n"
  by (induction n arbitrary: msk) simp_all

lemma glyph_run_eq:
  "depth_ok b \<Longrightarrow> mapped m p (n * Bpp b) \<Longrightarrow>
     glyph_run m p data msk fg bg b n = Some (write_at m p (row_bytes b (glyph_colors data msk fg bg n)), p + n * Bpp b)"
proof (induction n arbitrary: m p msk)
  case (Suc n)
  have "mapped m p (Bpp b)" "mapped m (p + Bpp b) (n * Bpp b)" using Suc.prems(2) by (simp_all add: mapped_add)
  then show ?case using Suc.IH[OF Suc.prems(1)] Suc.prems(1)
    by (simp add: putpixel_eq mapped_write write_at_append)
qed simp

section \<open>Geometry of the back buffer\<close>

definition fb_ok :: "fbcon \<Rightarrow> bool" where
  "fb_ok fb \<longleftrightarrow> depth_ok (bpp (fmt fb)) \<and> 20 \<le> unat (fb_width fb) \<and> 20 \<le> unat (fb_height fb) \<and>
     unat (fb_width fb) * Bpp (bpp (fmt fb)) \<le> unat (fb_pitch fb) \<and> unat (fb_height fb) * unat (fb_pitch fb) < 2 ^ 32 \<and>
     unat (fb_nbytes fb) = unat (fb_height fb) * unat (fb_pitch fb)"

definition buffers_ok :: "fbcon \<Rightarrow> bytes \<Rightarrow> bool" where
  "buffers_ok fb m \<longleftrightarrow> mapped m (backbuf fb) (unat (fb_nbytes fb)) \<and> mapped m (fbmem fb) (unat (fb_nbytes fb)) \<and>
     (fbmem fb + unat (fb_nbytes fb) \<le> backbuf fb \<or> backbuf fb + unat (fb_nbytes fb) \<le> fbmem fb)"

definition cursor_ok :: "fbcon \<Rightarrow> bool" where
  "cursor_ok fb \<longleftrightarrow> unat (cx fb) + SYMBOL_WIDTH \<le> unat (fb_width fb) \<and> unat (cy fb) + LINE_HEIGHT \<le> unat (fb_height fb)"

lemma unat_mult_32: "unat x * unat y < 2 ^ 32 \<Longrightarrow> unat (x * y :: u32) = unat x * unat y"
  by (simp add: unat_word_ariths)

lemma unat_add_32: "unat x + unat y < 2 ^ 32 \<Longrightarrow> unat (x + y :: u32) = unat x + unat y"
  by (simp add: unat_word_ariths)

lemma unat_of_nat_32: "n < 2 ^ 32 \<Longrightarrow> unat (of_nat n :: u32) = n"
  by (simp add: unsigned_of_nat take_bit_eq_mod)

lemma get_row_eq: "fb_ok fb \<Longrightarrow> unat row \<le> unat (fb_height fb) \<Longrightarrow> get_row fb row = backbuf fb + unat row * unat (fb_pitch fb)"
proof -
  assume a: "fb_ok fb" "unat row \<le> unat (fb_height fb)"
  have "unat row * unat (fb_pitch fb) \<le> unat (fb_height fb) * unat (fb_pitch fb)" by (rule mult_le_mono1[OF a(2)])
  also have "\<dots> < 2 ^ 32" using a(1) by (simp add: fb_ok_def)
  finally have "unat row * unat (fb_pitch fb) < 2 ^ 32" .
  then show ?thesis by (simp add: get_row_def unat_mult_32)
qed

lemma get_pixel_eq:
  assumes "fb_ok fb" "unat row < unat (fb_height fb)" "unat col \<le> unat (fb_width fb)"
  shows "get_pixel fb row col = backbuf fb + unat row * unat (fb_pitch fb) + unat col * Bpp (bpp (fmt fb))"
proof -
  let ?b = "bpp (fmt fb)"
  have d: "depth_ok ?b" using assms(1) by (simp add: fb_ok_def)
  have u: "unat (ucast (?b div 8) :: u32) = Bpp ?b" using d by (rule depth_cases) (simp_all add: Bpp_def)
  have "unat col * Bpp ?b \<le> unat (fb_width fb) * Bpp ?b" by (rule mult_le_mono1[OF assms(3)])
  also have "\<dots> \<le> unat (fb_pitch fb)" using assms(1) by (simp add: fb_ok_def)
  finally have "unat col * Bpp ?b \<le> unat (fb_pitch fb)" .
  moreover have "unat (fb_pitch fb) < 2 ^ 32" using unsigned_less[of "fb_pitch fb"] by simp
  ultimately have "unat (ucast (?b div 8) * col :: u32) = unat col * Bpp ?b" by (subst unat_mult_32) (simp_all add: u mult.commute)
  then show ?thesis using get_row_eq[OF assms(1), of row] assms(2) by (simp add: get_pixel_def)
qed

text \<open>A run of pixels inside a row lies inside the buffer.\<close>

lemma run_inside:
  assumes "fb_ok fb" "unat row < unat (fb_height fb)" "unat col + n \<le> unat (fb_width fb)"
  shows "get_pixel fb row col + n * Bpp (bpp (fmt fb)) \<le> backbuf fb + (unat row + 1) * unat (fb_pitch fb)"
    "get_pixel fb row col + n * Bpp (bpp (fmt fb)) \<le> backbuf fb + unat (fb_nbytes fb)" "backbuf fb \<le> get_pixel fb row col"
proof -
  have "(unat col + n) * Bpp (bpp (fmt fb)) \<le> unat (fb_width fb) * Bpp (bpp (fmt fb))" by (rule mult_le_mono1[OF assms(3)])
  also have "\<dots> \<le> unat (fb_pitch fb)" using assms(1) by (simp add: fb_ok_def)
  finally show r: "get_pixel fb row col + n * Bpp (bpp (fmt fb)) \<le> backbuf fb + (unat row + 1) * unat (fb_pitch fb)"
    using get_pixel_eq[OF assms(1,2), of col] assms(3) by (simp add: add_mult_distrib)
  have "(unat row + 1) * unat (fb_pitch fb) \<le> unat (fb_height fb) * unat (fb_pitch fb)" using assms(2) by (intro mult_le_mono1) simp
  then show "get_pixel fb row col + n * Bpp (bpp (fmt fb)) \<le> backbuf fb + unat (fb_nbytes fb)" using r assms(1) by (simp add: fb_ok_def)
  show "backbuf fb \<le> get_pixel fb row col" using get_pixel_eq[OF assms(1,2), of col] assms(3) by simp
qed

lemma mapped_sub: "mapped m a n \<Longrightarrow> a \<le> b \<Longrightarrow> b + k \<le> a + n \<Longrightarrow> mapped m b k"
  unfolding mapped_def[of m b k] using mapped_at[of m a n "b - a + _"] by auto

section \<open>Drawing rows\<close>

text \<open>
  The specification of the drawing loops: row \<open>j\<close> of the picture goes to row \<open>y + j\<close> of the buffer, from column \<open>x\<close> on.
\<close>

fun draw_rows :: "fbcon \<Rightarrow> u32 \<Rightarrow> u32 \<Rightarrow> (nat \<Rightarrow> u32 list) \<Rightarrow> nat \<Rightarrow> nat \<Rightarrow> bytes \<Rightarrow> bytes" where
  "draw_rows fb x y rows i 0 m = m"
| "draw_rows fb x y rows i (Suc n) m =
     draw_rows fb x y rows (Suc i) n (write_at m (get_pixel fb (y + of_nat i) x) (row_bytes (bpp (fmt fb)) (rows i)))"

text \<open>A picture of \<open>k\<close> columns whose rows \<open>i\<close> to \<open>i + n - 1\<close> fit into the buffer.\<close>

definition fits :: "fbcon \<Rightarrow> u32 \<Rightarrow> u32 \<Rightarrow> (nat \<Rightarrow> u32 list) \<Rightarrow> nat \<Rightarrow> nat \<Rightarrow> nat \<Rightarrow> bool" where
  "fits fb x y rows k i n \<longleftrightarrow> fb_ok fb \<and> unat x + k \<le> unat (fb_width fb) \<and> unat y + (i + n) \<le> unat (fb_height fb) \<and>
     (\<forall>j. i \<le> j \<and> j < i + n \<longrightarrow> length (rows j) = k)"

lemma fits_Suc:
  assumes "fits fb x y rows k i (Suc n)"
  shows "fits fb x y rows k (Suc i) n" "length (rows i) = k" "unat (y + of_nat i :: u32) = unat y + i" "unat (y + of_nat i :: u32) < unat (fb_height fb)"
proof -
  show "fits fb x y rows k (Suc i) n" "length (rows i) = k" using assms by (auto simp: fits_def)
  have "unat y + i < unat (fb_height fb)" using assms by (simp add: fits_def)
  moreover have "unat (fb_height fb) < 2 ^ 32" using unsigned_less[of "fb_height fb"] by simp
  ultimately show "unat (y + of_nat i :: u32) = unat y + i" "unat (y + of_nat i :: u32) < unat (fb_height fb)"
    by (simp_all add: unat_add_32 unat_of_nat_32)
qed

lemma row_inside:
  assumes "fits fb x y rows k i (Suc n)"
  shows "backbuf fb + (unat y + i) * unat (fb_pitch fb) \<le> get_pixel fb (y + of_nat i) x"
    "get_pixel fb (y + of_nat i) x + length (row_bytes (bpp (fmt fb)) (rows i)) \<le> backbuf fb + (unat y + i + 1) * unat (fb_pitch fb)"
    "get_pixel fb (y + of_nat i) x + k * Bpp (bpp (fmt fb)) \<le> backbuf fb + unat (fb_nbytes fb)" "backbuf fb \<le> get_pixel fb (y + of_nat i) x"
proof -
  note f = fits_Suc[OF assms]
  have ok: "fb_ok fb" "unat x + k \<le> unat (fb_width fb)" "depth_ok (bpp (fmt fb))" using assms by (simp_all add: fits_def fb_ok_def)
  note r = run_inside[OF ok(1) f(4), of x k]
  show "backbuf fb + (unat y + i) * unat (fb_pitch fb) \<le> get_pixel fb (y + of_nat i) x"
    using get_pixel_eq[OF ok(1) f(4), of x] ok(2) f(3) by simp
  show "get_pixel fb (y + of_nat i) x + length (row_bytes (bpp (fmt fb)) (rows i)) \<le> backbuf fb + (unat y + i + 1) * unat (fb_pitch fb)"
    using r(1) ok(2,3) f(2,3) by simp
  show "get_pixel fb (y + of_nat i) x + k * Bpp (bpp (fmt fb)) \<le> backbuf fb + unat (fb_nbytes fb)" "backbuf fb \<le> get_pixel fb (y + of_nat i) x"
    using r(2,3) ok(2) by simp_all
qed

lemma draw_rows_mapped: "mapped m a l \<Longrightarrow> mapped (draw_rows fb x y rows i n m) a l"
  by (induction n arbitrary: i m) (simp_all add: mapped_write)

lemma write_at_outside: "z < a \<or> a + length bs \<le> z \<Longrightarrow> write_at m a bs z = m z"
  by (auto simp: write_at_def)

lemma draw_rows_outside:
  assumes "fits fb x y rows k i n"
    and "z < backbuf fb + (unat y + i) * unat (fb_pitch fb) \<or> backbuf fb + (unat y + (i + n)) * unat (fb_pitch fb) \<le> z"
  shows "draw_rows fb x y rows i n m z = m z"
  using assms
proof (induction n arbitrary: i m)
  case (Suc n)
  let ?p = "unat (fb_pitch fb)"
  note r = row_inside[OF Suc.prems(1)] and f = fits_Suc[OF Suc.prems(1)]
  define A B C where "A = (unat y + i) * ?p" and "B = (unat y + Suc i) * ?p" and "C = (unat y + (Suc i + n)) * ?p"
  have le: "A \<le> B" "B \<le> C" unfolding A_def B_def C_def by (intro mult_le_mono1, simp)+
  have z: "z < backbuf fb + A \<or> backbuf fb + C \<le> z" using Suc.prems(2) by (simp add: A_def C_def)
  have "z < backbuf fb + B \<or> backbuf fb + C \<le> z" using z le by linarith
  moreover have "z < get_pixel fb (y + of_nat i) x \<or> get_pixel fb (y + of_nat i) x + length (row_bytes (bpp (fmt fb)) (rows i)) \<le> z"
  proof -
    have "backbuf fb + A \<le> get_pixel fb (y + of_nat i) x" "get_pixel fb (y + of_nat i) x + length (row_bytes (bpp (fmt fb)) (rows i)) \<le> backbuf fb + B"
      using r(1,2) by (simp_all add: A_def B_def)
    then show ?thesis using z le by linarith
  qed
  ultimately have "z < backbuf fb + (unat y + Suc i) * ?p \<or> backbuf fb + (unat y + (Suc i + n)) * ?p \<le> z"
    "z < get_pixel fb (y + of_nat i) x \<or> get_pixel fb (y + of_nat i) x + length (row_bytes (bpp (fmt fb)) (rows i)) \<le> z"
    by (simp_all add: B_def C_def)
  then show ?case using Suc.IH[OF f(1)] by (simp add: write_at_outside)
qed simp

lemma draw_rows_content:
  assumes "fits fb x y rows k i n" "i \<le> j" "j < i + n"
  shows "bytes_at (draw_rows fb x y rows i n m) (get_pixel fb (y + of_nat j) x) (row_bytes (bpp (fmt fb)) (rows j))"
  using assms
proof (induction n arbitrary: i m)
  case (Suc n)
  let ?m = "write_at m (get_pixel fb (y + of_nat i) x) (row_bytes (bpp (fmt fb)) (rows i))"
  note r = row_inside[OF Suc.prems(1)] and f = fits_Suc[OF Suc.prems(1)]
  show ?case
  proof (cases "j = i")
    case True
    have "draw_rows fb x y rows (Suc i) n ?m z = ?m z" if "z < get_pixel fb (y + of_nat i) x + length (row_bytes (bpp (fmt fb)) (rows i))" for z
      by (rule draw_rows_outside[OF f(1)]) (use that r(2) in simp)
    then show ?thesis using bytes_at_written[of m "get_pixel fb (y + of_nat i) x"] True
      by (simp add: bytes_at_cong[of _ _ "draw_rows fb x y rows (Suc i) n ?m" ?m])
  next
    case False
    then show ?thesis using Suc.IH[OF f(1), of ?m] Suc.prems(2,3) by simp
  qed
qed simp

lemma draw_rows_append: "draw_rows fb x y rows i (n + k) m = draw_rows fb x y rows (i + n) k (draw_rows fb x y rows i n m)"
  by (induction n arbitrary: i m) simp_all

lemma draw_rows_cong: "(\<And>j. i \<le> j \<Longrightarrow> j < i + n \<Longrightarrow> rows j = rows' j) \<Longrightarrow> draw_rows fb x y rows i n m = draw_rows fb x y rows' i n m"
  by (induction n arbitrary: i m) simp_all

section \<open>The drawing operations\<close>

text \<open>The geometry does not depend on the cursor.\<close>

lemma geometry_cursor [simp]:
  "get_row (fb\<lparr>cx := u\<rparr>) = get_row fb" "get_row (fb\<lparr>cy := v\<rparr>) = get_row fb" "get_pixel (fb\<lparr>cx := u\<rparr>) = get_pixel fb" "get_pixel (fb\<lparr>cy := v\<rparr>) = get_pixel fb"
  "fb_ok (fb\<lparr>cx := u\<rparr>) = fb_ok fb" "fb_ok (fb\<lparr>cy := v\<rparr>) = fb_ok fb"
  "buffers_ok (fb\<lparr>cx := u\<rparr>) = buffers_ok fb" "buffers_ok (fb\<lparr>cy := v\<rparr>) = buffers_ok fb"
  "fits (fb\<lparr>cx := u\<rparr>) = fits fb" "fits (fb\<lparr>cy := v\<rparr>) = fits fb"
  by (simp_all add: get_row_def get_pixel_def fb_ok_def buffers_ok_def fits_def fun_eq_iff)

lemma draw_rows_cursor [simp]:
  "draw_rows (fb\<lparr>cx := u\<rparr>) x y rows i n m = draw_rows fb x y rows i n m" "draw_rows (fb\<lparr>cy := v\<rparr>) x y rows i n m = draw_rows fb x y rows i n m"
  by (induction n arbitrary: i m) simp_all

definition back_mapped :: "fbcon \<Rightarrow> bytes \<Rightarrow> bool" where
  "back_mapped fb m \<longleftrightarrow> mapped m (backbuf fb) (unat (fb_nbytes fb))"

lemma back_mapped_cursor [simp]: "back_mapped (fb\<lparr>cx := u\<rparr>) = back_mapped fb" "back_mapped (fb\<lparr>cy := v\<rparr>) = back_mapped fb"
  by (simp_all add: back_mapped_def fun_eq_iff)

lemma row_mapped:
  assumes "fits fb x y rows k i (Suc n)" "back_mapped fb m"
  shows "mapped m (get_pixel fb (y + of_nat i) x) (k * Bpp (bpp (fmt fb)))"
  using mapped_sub[OF assms(2)[unfolded back_mapped_def]] row_inside(3,4)[OF assms(1)] by blast

lemma fits_depth: "fits fb x y rows k i n \<Longrightarrow> depth_ok (bpp (fmt fb))"
  by (simp add: fits_def fb_ok_def)

lemma back_mapped_write: "back_mapped fb m \<Longrightarrow> back_mapped fb (write_at m a bs)"
  by (simp add: back_mapped_def mapped_write)

lemma next_row: "y + of_nat i + 1 = y + of_nat (Suc i)" for y :: u32
  by simp

lemma clear_rows_eq:
  "fits fb 0 y (\<lambda>_. replicate (unat (fb_width fb)) (c_background fb)) (unat (fb_width fb)) i n \<Longrightarrow> back_mapped fb m \<Longrightarrow>
     clear_rows fb m (y + of_nat i) n = Some (draw_rows fb 0 y (\<lambda>_. replicate (unat (fb_width fb)) (c_background fb)) i n m)"
proof (induction n arbitrary: i m)
  case (Suc n)
  have g: "get_row fb r = get_pixel fb r 0" for r by (simp add: get_pixel_def)
  have "put_run m (get_row fb (y + of_nat i)) (c_background fb) (bpp (fmt fb)) (unat (fb_width fb)) =
      Some (write_at m (get_pixel fb (y + of_nat i) 0) (row_bytes (bpp (fmt fb)) (replicate (unat (fb_width fb)) (c_background fb))), get_pixel fb (y + of_nat i) 0 + unat (fb_width fb) * Bpp (bpp (fmt fb)))"
    unfolding g by (rule put_run_eq[OF fits_depth[OF Suc.prems(1)] row_mapped[OF Suc.prems]])
  then show ?case using Suc.IH[OF fits_Suc(1)[OF Suc.prems(1)] back_mapped_write[OF Suc.prems(2)]]
    by (simp only: clear_rows.simps draw_rows.simps next_row) simp
qed simp

definition glyph_pixels :: "(nat \<Rightarrow> u8) \<Rightarrow> u8 \<Rightarrow> u32 \<Rightarrow> u32 \<Rightarrow> nat \<Rightarrow> u32 list" where
  "glyph_pixels font c fg bg i =
     (if i < FONT_HEIGHT then glyph_colors (font (FONT_HEIGHT * unat c + i)) 0x80 fg bg FONT_WIDTH @ [bg] else replicate SYMBOL_WIDTH bg)"

lemmas font_defs = FONT_WIDTH_def FONT_HEIGHT_def SYMBOL_WIDTH_def LINE_HEIGHT_def

lemma length_glyph_pixels [simp]: "length (glyph_pixels font c fg bg i) = SYMBOL_WIDTH"
  by (simp add: glyph_pixels_def font_defs)

lemma blit_rows_eq:
  "fits fb x y (glyph_pixels font c fg bg) SYMBOL_WIDTH i n \<Longrightarrow> i + n \<le> FONT_HEIGHT \<Longrightarrow> back_mapped fb m \<Longrightarrow>
     blit_rows font fb m c x y fg bg i n = Some (draw_rows fb x y (glyph_pixels font c fg bg) i n m)"
proof (induction n arbitrary: i m)
  case (Suc n)
  let ?b = "bpp (fmt fb)" and ?p = "get_pixel fb (y + of_nat i) x" and ?g = "glyph_colors (font (FONT_HEIGHT * unat c + i)) 0x80 fg bg FONT_WIDTH"
  have d: "depth_ok ?b" by (rule fits_depth[OF Suc.prems(1)])
  have "SYMBOL_WIDTH * Bpp ?b = FONT_WIDTH * Bpp ?b + 1 * Bpp ?b" by (simp add: font_defs)
  then have m: "mapped m ?p (FONT_WIDTH * Bpp ?b)" "mapped m (?p + FONT_WIDTH * Bpp ?b) (1 * Bpp ?b)"
    using row_mapped[OF Suc.prems(1,3)] by (simp_all only: mapped_add)
  have w: "SYMBOL_WIDTH - FONT_WIDTH = 1" "glyph_pixels font c fg bg i = ?g @ [bg]" using Suc.prems(2) by (simp_all add: font_defs glyph_pixels_def)
  have e: "write_at (write_at m ?p (row_bytes ?b ?g)) (?p + FONT_WIDTH * Bpp ?b) (row_bytes ?b (replicate 1 bg)) = write_at m ?p (row_bytes ?b (glyph_pixels font c fg bg i))"
    unfolding w(2) using d by (simp add: write_at_append)
  note run = glyph_run_eq[OF d m(1)] put_run_eq[OF d mapped_write[OF m(2)]]
  show ?case using Suc.IH[OF fits_Suc(1)[OF Suc.prems(1)] _ back_mapped_write[OF Suc.prems(3)]] Suc.prems(2)
    by (simp add: run w(1) e Let_def del: row_bytes_simps One_nat_def)
qed simp

lemma blank_rows_eq:
  "fits fb x y (glyph_pixels font c fg bg) SYMBOL_WIDTH i n \<Longrightarrow> FONT_HEIGHT \<le> i \<Longrightarrow> back_mapped fb m \<Longrightarrow>
     blank_rows fb m x y bg i n = Some (draw_rows fb x y (glyph_pixels font c fg bg) i n m)"
proof (induction n arbitrary: i m)
  case (Suc n)
  have "glyph_pixels font c fg bg i = replicate SYMBOL_WIDTH bg" using Suc.prems(2) by (simp add: glyph_pixels_def)
  then show ?case using Suc.IH[OF fits_Suc(1)[OF Suc.prems(1)] _ back_mapped_write[OF Suc.prems(3)]] Suc.prems(2)
    by (simp add: put_run_eq[OF fits_depth[OF Suc.prems(1)] row_mapped[OF Suc.prems(1,3)]])
qed simp

lemma blit_eq:
  assumes "fb_ok fb" "back_mapped fb m" "unat x + SYMBOL_WIDTH \<le> unat (fb_width fb)" "unat y + LINE_HEIGHT \<le> unat (fb_height fb)"
  shows "fbcon_blit_character font fb m c x y fg bg = Some (draw_rows fb x y (glyph_pixels font c fg bg) 0 LINE_HEIGHT m)"
    "fits fb x y (glyph_pixels font c fg bg) SYMBOL_WIDTH 0 LINE_HEIGHT"
proof -
  show f: "fits fb x y (glyph_pixels font c fg bg) SYMBOL_WIDTH 0 LINE_HEIGHT" using assms by (simp add: fits_def)
  let ?r = "glyph_pixels font c fg bg"
  have 1: "blit_rows font fb m c x y fg bg 0 FONT_HEIGHT = Some (draw_rows fb x y ?r 0 FONT_HEIGHT m)"
    by (rule blit_rows_eq) (use f assms(2) in \<open>auto simp: fits_def font_defs\<close>)
  have "back_mapped fb (draw_rows fb x y ?r 0 FONT_HEIGHT m)" using assms(2) by (simp add: back_mapped_def draw_rows_mapped)
  then have 2: "blank_rows fb (draw_rows fb x y ?r 0 FONT_HEIGHT m) x y bg FONT_HEIGHT (LINE_HEIGHT - FONT_HEIGHT) =
      Some (draw_rows fb x y ?r FONT_HEIGHT (LINE_HEIGHT - FONT_HEIGHT) (draw_rows fb x y ?r 0 FONT_HEIGHT m))"
    by - (rule blank_rows_eq, use f in \<open>auto simp: fits_def font_defs\<close>)
  have "draw_rows fb x y ?r 0 LINE_HEIGHT m = draw_rows fb x y ?r FONT_HEIGHT (LINE_HEIGHT - FONT_HEIGHT) (draw_rows fb x y ?r 0 FONT_HEIGHT m)"
    using draw_rows_append[of fb x y ?r 0 FONT_HEIGHT "LINE_HEIGHT - FONT_HEIGHT" m] by (simp add: font_defs)
  then show "fbcon_blit_character font fb m c x y fg bg = Some (draw_rows fb x y ?r 0 LINE_HEIGHT m)"
    using 1 2 by (simp add: fbcon_blit_character_def)
qed

lemma mapped_bytes_at: "mapped m a n \<Longrightarrow> \<exists>bs. length bs = n \<and> bytes_at m a bs"
  by (intro exI[of _ "map (\<lambda>i. the (m (a + i))) [0 ..< n]"]) (auto simp: mapped_def bytes_at_def)

text \<open>Scrolling: the rows from \<open>n\<close> on move to the top, the last \<open>n\<close> rows are cleared.\<close>

definition blank :: "fbcon \<Rightarrow> nat \<Rightarrow> u32 list" where
  "blank fb = (\<lambda>_. replicate (unat (fb_width fb)) (c_background fb))"

lemma scroll_eq:
  assumes "fb_ok fb" "back_mapped fb m" "unat n \<le> unat (fb_height fb)"
    and bs: "bytes_at m (backbuf fb + unat n * unat (fb_pitch fb)) bs" "length bs = unat (fb_nbytes fb) - unat n * unat (fb_pitch fb)"
  shows "fbcon_scroll fb m n = Some (fb\<lparr>cy := cy fb - n\<rparr>, draw_rows fb 0 (fb_height fb - n) (blank fb) 0 (unat n) (write_at m (backbuf fb) bs))"
    "fits fb 0 (fb_height fb - n) (blank fb) (unat (fb_width fb)) 0 (unat n)"
proof -
  let ?p = "unat (fb_pitch fb)" and ?fb = "fb\<lparr>cy := cy fb - n\<rparr>"
  have le: "unat n * ?p \<le> unat (fb_nbytes fb)" "unat (fb_nbytes fb) < 2 ^ 32" using assms(1) mult_le_mono1[OF assms(3), of ?p] by (simp_all add: fb_ok_def)
  then have u: "unat (n * fb_pitch fb) = unat n * ?p" by (simp add: unat_mult_32)
  have nb: "unat (fb_nbytes fb - ucast (n * fb_pitch fb)) = length bs"
  proof -
    have "unat n * ?p mod 18446744073709551616 = unat n * ?p" using le unat_lt_64[of "fb_nbytes fb"] by (intro mod_less) linarith
    then show ?thesis using le(1) u bs(2) by (simp add: unat_sub_64 unsigned_ucast_eq take_bit_eq_mod)
  qed
  have rows: "get_row fb 0 = backbuf fb" "get_row fb n = backbuf fb + unat n * ?p" by (simp_all add: get_row_def u)
  have mv: "memmove m (backbuf fb) (backbuf fb + unat n * ?p) (length bs) = Some (write_at m (backbuf fb) bs, backbuf fb)"
    using memmove_up_eq[OF _ bs(1), of "backbuf fb"] mapped_sub[OF assms(2)[unfolded back_mapped_def], of "backbuf fb" "length bs"] bs(2)
    by (simp add: memmove_def)
  have h: "unat (fb_height fb - n) = unat (fb_height fb) - unat n" using assms(3) by (simp add: unat_sub word_le_nat_alt)
  show f: "fits fb 0 (fb_height fb - n) (blank fb) (unat (fb_width fb)) 0 (unat n)" using assms(1,3) h by (simp add: fits_def blank_def)
  have "clear_rows ?fb (write_at m (backbuf fb) bs) (fb_height fb - n) (unat n) = Some (draw_rows fb 0 (fb_height fb - n) (blank fb) 0 (unat n) (write_at m (backbuf fb) bs))"
    using clear_rows_eq[of ?fb "fb_height fb - n" 0 "unat n" "write_at m (backbuf fb) bs"] f back_mapped_write[OF assms(2)] by (simp add: blank_def)
  then show "fbcon_scroll fb m n = Some (?fb, draw_rows fb 0 (fb_height fb - n) (blank fb) 0 (unat n) (write_at m (backbuf fb) bs))"
    using mv assms(3) by (simp add: fbcon_scroll_def Let_def nb rows h)
qed

lemma draw_rows_elsewhere:
  "\<forall>j. i \<le> j \<and> j < i + n \<longrightarrow> z < get_pixel fb (y + of_nat j) x \<or> get_pixel fb (y + of_nat j) x + length (row_bytes (bpp (fmt fb)) (rows j)) \<le> z \<Longrightarrow>
     draw_rows fb x y rows i n m z = m z"
  by (induction n arbitrary: i m) (simp_all add: write_at_outside)

section \<open>Printing\<close>

text \<open>
  What printing may change: the cursor, which stays where a character fits, and the back buffer.
\<close>

definition advances :: "fbcon \<Rightarrow> bytes \<Rightarrow> fbcon \<Rightarrow> bytes \<Rightarrow> bool" where
  "advances fb m fb' m' \<longleftrightarrow> (\<exists>u v. fb' = fb\<lparr>cx := u, cy := v\<rparr>) \<and> cursor_ok fb' \<and> (\<forall>a l. mapped m a l \<longrightarrow> mapped m' a l) \<and>
     (\<forall>z. z < backbuf fb \<or> backbuf fb + unat (fb_nbytes fb) \<le> z \<longrightarrow> m' z = m z)"

lemma advancesI:
  "fb' = fb\<lparr>cx := u, cy := v\<rparr> \<Longrightarrow> cursor_ok fb' \<Longrightarrow> (\<And>a l. mapped m a l \<Longrightarrow> mapped m' a l) \<Longrightarrow>
     (\<And>z. z < backbuf fb \<or> backbuf fb + unat (fb_nbytes fb) \<le> z \<Longrightarrow> m' z = m z) \<Longrightarrow> advances fb m fb' m'"
  unfolding advances_def by blast

lemma advances_trans: "advances fb m fb1 m1 \<Longrightarrow> advances fb1 m1 fb2 m2 \<Longrightarrow> advances fb m fb2 m2"
  unfolding advances_def by (elim conjE exE) (simp, metis)

lemma advances_keeps:
  assumes "advances fb m fb' m'"
  shows "fb_ok fb' = fb_ok fb" "back_mapped fb m \<Longrightarrow> back_mapped fb' m'" "buffers_ok fb m \<Longrightarrow> buffers_ok fb' m'" "cursor_ok fb'"
    "c_background fb' = c_background fb" "c_msgtime fb' = c_msgtime fb"
  using assms by (auto simp: advances_def back_mapped_def buffers_ok_def)

lemma draw_rows_in_buffer:
  assumes "fits fb x y rows k i n" "z < backbuf fb \<or> backbuf fb + unat (fb_nbytes fb) \<le> z"
  shows "draw_rows fb x y rows i n m z = m z"
proof (rule draw_rows_outside[OF assms(1)])
  have "(unat y + (i + n)) * unat (fb_pitch fb) \<le> unat (fb_nbytes fb)" using assms(1) mult_le_mono1[of "unat y + (i + n)" "unat (fb_height fb)" "unat (fb_pitch fb)"]
    by (simp add: fits_def fb_ok_def)
  then show "z < backbuf fb + (unat y + i) * unat (fb_pitch fb) \<or> backbuf fb + (unat y + (i + n)) * unat (fb_pitch fb) \<le> z" using assms(2) by linarith
qed

lemma height_bound: "fb_ok fb \<Longrightarrow> unat (fb_height fb) < 2 ^ 30" "fb_ok fb \<Longrightarrow> unat (fb_width fb) < 2 ^ 30"
proof -
  assume ok: "fb_ok fb"
  let ?h = "unat (fb_height fb)" and ?w = "unat (fb_width fb)" and ?p = "unat (fb_pitch fb)"
  have f: "20 \<le> ?h" "20 \<le> ?w" "?w * Bpp (bpp (fmt fb)) \<le> ?p" "?h * ?p < 2 ^ 32" "0 < Bpp (bpp (fmt fb))" using ok Bpp_pos by (simp_all add: fb_ok_def)
  have "?w * 1 \<le> ?w * Bpp (bpp (fmt fb))" using f(5) by (intro mult_le_mono2) simp
  then have w: "?w \<le> ?p" using f(3) by linarith
  have "?h * 20 \<le> ?h * ?p" "20 * ?p \<le> ?h * ?p" using f(1,2) w by (intro mult_le_mono2 mult_le_mono1, linarith)+
  moreover have "?h * ?p < 4294967296" using f(4) by simp
  ultimately have "?h < 1073741824" "?w < 1073741824" using w by linarith+
  then show "?h < 2 ^ 30" "?w < 2 ^ 30" by simp_all
qed

lemma scroll_advances:
  assumes "fb_ok fb" "back_mapped fb m" "unat n \<le> unat (fb_height fb)" "cursor_ok (fb\<lparr>cy := cy fb - n\<rparr>)"
  shows "\<exists>fb' m'. fbcon_scroll fb m n = Some (fb', m') \<and> advances fb m fb' m'"
proof -
  let ?l = "unat (fb_nbytes fb) - unat n * unat (fb_pitch fb)" and ?a = "backbuf fb + unat n * unat (fb_pitch fb)"
  have le: "unat n * unat (fb_pitch fb) \<le> unat (fb_nbytes fb)" using assms(1) mult_le_mono1[OF assms(3), of "unat (fb_pitch fb)"] by (simp add: fb_ok_def)
  have "mapped m ?a ?l" by (rule mapped_sub[OF assms(2)[unfolded back_mapped_def]]) (use le in simp_all)
  then obtain bs where bs: "length bs = ?l" "bytes_at m ?a bs" using mapped_bytes_at by blast
  note e = scroll_eq[OF assms(1-3) bs(2,1)]
  let ?m = "draw_rows fb 0 (fb_height fb - n) (blank fb) 0 (unat n) (write_at m (backbuf fb) bs)"
  have "?m z = m z" if "z < backbuf fb \<or> backbuf fb + unat (fb_nbytes fb) \<le> z" for z
    using draw_rows_in_buffer[OF e(2) that] that bs(1) by (subst write_at_outside[symmetric, of z "backbuf fb" bs]) auto
  then have "advances fb m (fb\<lparr>cy := cy fb - n\<rparr>) ?m"
    by (intro advancesI[where u = "cx fb" and v = "cy fb - n"] assms(4)) (simp_all add: draw_rows_mapped mapped_write)
  then show ?thesis using e(1) by blast
qed

lemma next_line_advances:
  assumes ok: "fb_ok fb" and m: "back_mapped fb m" and c: "unat (cy fb) + LINE_HEIGHT \<le> unat (fb_height fb)"
  shows "\<exists>fb' m'. next_line fb m = Some (fb', m') \<and> advances fb m fb' m'"
proof -
  let ?fb = "fb\<lparr>cx := 0, cy := cy fb + of_nat LINE_HEIGHT\<rparr>" and ?h = "unat (fb_height fb)"
  have b: "?h < 2 ^ 30" "20 \<le> ?h" "20 \<le> unat (fb_width fb)" using height_bound(1)[OF ok] ok by (simp_all add: fb_ok_def)
  have l: "unat (of_nat LINE_HEIGHT :: u32) = 17" by (simp add: LINE_HEIGHT_def)
  have y1: "unat (cy fb + of_nat LINE_HEIGHT) = unat (cy fb) + 17" using b c l by (subst unat_add_32) (simp_all add: LINE_HEIGHT_def)
  have y2: "unat (cy fb + of_nat LINE_HEIGHT + of_nat LINE_HEIGHT) = unat (cy fb) + 34" using b c l y1 by (subst unat_add_32) (simp_all add: LINE_HEIGHT_def)
  show ?thesis
  proof (cases "cy fb + of_nat LINE_HEIGHT + of_nat LINE_HEIGHT > fb_height fb")
    case True
    let ?n = "cy fb + of_nat LINE_HEIGHT + of_nat LINE_HEIGHT - fb_height fb"
    have gt: "?h < unat (cy fb) + 34" using True y2 by (simp add: word_less_nat_alt)
    have n: "unat ?n = unat (cy fb) + 34 - ?h" using True y2 by (simp add: unat_sub word_le_nat_alt word_less_nat_alt)
    then have le: "?n \<le> cy fb + of_nat LINE_HEIGHT" using y1 b c gt by (simp add: word_le_nat_alt LINE_HEIGHT_def)
    have y3: "unat (cy fb + of_nat LINE_HEIGHT - ?n) = ?h - 17" unfolding unat_sub[OF le] n y1 using gt c by (simp add: LINE_HEIGHT_def)
    have "cursor_ok (?fb\<lparr>cy := cy ?fb - ?n\<rparr>)" using y3 b by (simp add: cursor_ok_def font_defs)
    moreover have "unat ?n \<le> ?h" using n c b by (simp add: LINE_HEIGHT_def)
    ultimately obtain fb' m' where s: "fbcon_scroll ?fb m ?n = Some (fb', m')" "advances ?fb m fb' m'"
      using scroll_advances[of ?fb m ?n] ok m by auto
    have "advances fb m fb' m'" using s(2) by (auto simp: advances_def)
    then show ?thesis using True s(1) by (simp add: next_line_def Let_def)
  next
    case False
    have "unat (cy fb) + 34 \<le> ?h" using False y2 by (simp add: word_less_nat_alt not_less)
    then have "advances fb m ?fb m" 
      using y1 b by (intro advancesI[where u = 0 and v = "cy fb + of_nat LINE_HEIGHT"]) (simp_all add: cursor_ok_def font_defs)
    then show ?thesis using False by (simp add: next_line_def Let_def)
  qed
qed

lemma putc_advances:
  assumes ok: "fb_ok fb" and m: "back_mapped fb m" and c: "cursor_ok fb"
  shows "\<exists>fb' m'. fbcon_putc font fb m ch fg bg = Some (fb', m') \<and> advances fb m fb' m'"
proof (cases "ch = CHR 0x0A")
  case True
  then show ?thesis using next_line_advances[OF ok m] c by (simp add: fbcon_putc_def cursor_ok_def)
next
  case False
  have cu: "unat (cx fb) + SYMBOL_WIDTH \<le> unat (fb_width fb)" "unat (cy fb) + LINE_HEIGHT \<le> unat (fb_height fb)" using c by (simp_all add: cursor_ok_def)
  note e = blit_eq[OF ok m cu, of font "of_char ch" fg bg]
  let ?m = "draw_rows fb (cx fb) (cy fb) (glyph_pixels font (of_char ch) fg bg) 0 LINE_HEIGHT m" and ?fb = "fb\<lparr>cx := cx fb + of_nat SYMBOL_WIDTH\<rparr>"
  have out: "\<forall>z. z < backbuf fb \<or> backbuf fb + unat (fb_nbytes fb) \<le> z \<longrightarrow> ?m z = m z" using draw_rows_in_buffer[OF e(2)] by blast
  have bm: "back_mapped fb ?m" using m by (simp add: back_mapped_def draw_rows_mapped)
  have x1: "unat (cx fb + of_nat SYMBOL_WIDTH) = unat (cx fb) + 9" using cu(1) height_bound(2)[OF ok] by (subst unat_add_32) (simp_all add: SYMBOL_WIDTH_def)
  have x2: "unat (cx fb + of_nat SYMBOL_WIDTH + of_nat SYMBOL_WIDTH) = unat (cx fb) + 18"
    using cu(1) height_bound(2)[OF ok] x1 by (subst unat_add_32) (simp_all add: SYMBOL_WIDTH_def)
  show ?thesis
  proof (cases "cx fb + of_nat SYMBOL_WIDTH + of_nat SYMBOL_WIDTH > fb_width fb")
    case t: True
    obtain fb' m' where n: "next_line ?fb ?m = Some (fb', m')" "advances ?fb ?m fb' m'" using next_line_advances[of ?fb ?m] ok bm cu(2) by auto
    have "advances fb m fb' m'" using n(2) out by (auto simp: advances_def draw_rows_mapped)
    then show ?thesis using False e(1) t n(1) by (simp add: fbcon_putc_def Let_def)
  next
    case f: False
    have "cursor_ok ?fb" using f x1 x2 cu(2) by (simp add: cursor_ok_def word_less_nat_alt not_less font_defs)
    then have "advances fb m ?fb ?m" 
      using out by (intro advancesI[where u = "cx fb + of_nat SYMBOL_WIDTH" and v = "cy fb"]) (auto simp: draw_rows_mapped)
    then show ?thesis using False e(1) f by (simp add: fbcon_putc_def Let_def)
  qed
qed

lemma print_advances:
  "fb_ok fb \<Longrightarrow> back_mapped fb m \<Longrightarrow> cursor_ok fb \<Longrightarrow> \<exists>fb' m'. fbcon_print font fb m msg fg bg = Some (fb', m') \<and> advances fb m fb' m'"
proof (induction msg arbitrary: fb m)
  case Nil
  have "advances fb m fb m" using Nil by (intro advancesI[where u = "cx fb" and v = "cy fb"]) simp_all
  then show ?case by simp
next
  case (Cons c msg)
  obtain fb1 m1 where 1: "fbcon_putc font fb m c fg bg = Some (fb1, m1)" "advances fb m fb1 m1" using putc_advances[OF Cons.prems] by blast
  obtain fb2 m2 where 2: "fbcon_print font fb1 m1 msg fg bg = Some (fb2, m2)" "advances fb1 m1 fb2 m2"
    using Cons.IH[of fb1 m1] advances_keeps[OF 1(2)] Cons.prems by auto
  then show ?case using 1 advances_trans[OF 1(2) 2(2)] by simp
qed

end
