(* ===== verification/Drivers_Fbcon_Props.thy ===== *)
theory Drivers_Fbcon_Props
  imports Drivers_Fbcon
begin

text \<open>
  The properties of the framebuffer console: characters and scrolling are drawn exactly, a message never
  writes outside of the two buffers, registration establishes what the drawing relies on, and the check of
  the format misses sizes that do not fit into 32 bits.
\<close>

section \<open>Messages\<close>

lemma time_text: "\<exists>t. render ''[%5llu.%06llu] '' [VInt a, VInt b] = Some t"
  by (simp add: render_steps numeral_3_eq_3)

lemma emit_buffer: "\<exists>buf. vsnprintf 24 ''[%5llu.%06llu] '' [VInt a, VInt b] = Some buf"
  using time_text[of a b] by (auto simp: vsnprintf_def vsnprintf_loop_render)

lemma flush_eq:
  assumes "buffers_ok fb m"
  shows "\<exists>m'. fbcon_flush fb m = Some m' \<and> buffers_ok fb m' \<and> (\<forall>i < unat (fb_nbytes fb). m' (fbmem fb + i) = m (backbuf fb + i)) \<and>
    (\<forall>z. z < fbmem fb \<or> fbmem fb + unat (fb_nbytes fb) \<le> z \<longrightarrow> m' z = m z)"
proof -
  let ?n = "unat (fb_nbytes fb)"
  obtain bs where bs: "length bs = ?n" "bytes_at m (backbuf fb) bs" using assms mapped_bytes_at unfolding buffers_ok_def by blast
  have "memcpy m (fbmem fb) (backbuf fb) ?n = Some (write_at m (fbmem fb) bs, fbmem fb)"
    using mempcpy_eq[OF bs(2), of "fbmem fb"] assms bs(1) by (auto simp: buffers_ok_def memcpy_def)
  moreover have "buffers_ok fb (write_at m (fbmem fb) bs)" using assms by (simp add: buffers_ok_def mapped_write)
  moreover have "write_at m (fbmem fb) bs (fbmem fb + i) = m (backbuf fb + i)" if "i < ?n" for i
    using that bs by (simp add: write_at_def bytes_at_def)
  ultimately show ?thesis using bs(1) by (simp add: fbcon_flush_def write_at_outside)
qed


lemma emit_message:
  assumes "fb_ok fb" "buffers_ok fb m" "cursor_ok fb"
  shows "\<exists>fb' m1 m'. fbcon_emit_message font fb m level t msg = Some (fb', m') \<and> advances fb m fb' m1 \<and> fbcon_flush fb' m1 = Some m'"
proof -
  have bm: "back_mapped fb m" using assms(2) by (simp add: buffers_ok_def back_mapped_def)
  obtain buf where b: "vsnprintf 24 ''[%5llu.%06llu] '' [VInt (t div 1000000), VInt (t mod 1000000)] = Some buf" using emit_buffer by blast
  obtain f1 m1 where 1: "fbcon_print font fb m (takeWhile (\<lambda>c. c \<noteq> CHR 0x00) buf) (c_msgtime fb) (c_background fb) = Some (f1, m1)" "advances fb m f1 m1"
    using print_advances[OF assms(1) bm assms(3)] by blast
  note k = advances_keeps[OF 1(2)]
  let ?fg = "[c_info fb, c_info fb, c_notice fb, c_warn fb, c_err fb] ! nat (if level < 0 then 0 else if level > 4 then 4 else level)"
  obtain f2 m2 where 2: "fbcon_print font f1 m1 msg ?fg (c_background fb) = Some (f2, m2)" "advances f1 m1 f2 m2"
    using print_advances[of f1 m1] k bm assms(1) by blast
  obtain m3 where 3: "fbcon_flush f2 m2 = Some m3" using flush_eq[of f2 m2] advances_keeps(3)[OF 2(2)] k(3) assms(2) by blast
  then have "fbcon_emit_message font fb m level t msg = Some (f2, m3)"
    using b 1(1) 2(1) by (simp add: fbcon_emit_message_def Let_def del: bind_Some_iff)
  then show ?thesis using 3 advances_trans[OF 1(2) 2(2)] by blast
qed

section \<open>Registration\<close>

lemma channel_defined: "(channel x b = None) = (channel y b = None)"
  by (simp add: channel_def shl32_def)

lemma get_color_defined: "get_color f r g b = Some v \<Longrightarrow> \<exists>u. get_color f r' g' b' = Some u"
  using channel_defined[of "clamp255 r" "red_bits f" "clamp255 r'"] channel_defined[of "clamp255 g" "green_bits f" "clamp255 g'"]
    channel_defined[of "clamp255 b" "blue_bits f" "clamp255 b'"]
  by (auto simp: get_color_def shl32_def split: if_splits)

lemma set_colors_defined:
  assumes "get_color f r g b = Some v"
  shows "\<exists>b i n w e t. set_colors f fb =
    Some (fb\<lparr>c_background := b, c_info := i, c_notice := n, c_warn := w, c_err := e, c_msgtime := t\<rparr>)"
proof -
  note d = get_color_defined[OF assms]
  obtain b i n w e t where "get_color f 35 38 39 = Some b" "get_color f 200 200 200 = Some i" "get_color f 255 255 255 = Some n"
    "get_color f 253 188 75 = Some w" "get_color f 237 21 21 = Some e" "get_color f 17 209 22 = Some t" using d by metis
  then show ?thesis by (simp add: set_colors_def del: bind_Some_iff) blast
qed

lemma unat_ucast_32_64: "unat (ucast x :: u64) = unat x" for x :: u32
proof -
  have "unat x < 2 ^ 32" using unsigned_less[of x] by simp
  then show ?thesis by (simp add: unsigned_ucast_eq take_bit_eq_mod)
qed

lemma validate_format_cases:
  assumes "validate_format w h pitch f = Some True"
  shows "depth_ok (bpp f)" "20 \<le> unat w" "20 \<le> unat h" "\<exists>v. get_color f 0 0 0 = Some v" "w * of_nat (Bpp (bpp f)) \<le> pitch"
proof -
  show d: "depth_ok (bpp f)" using assms by (auto simp: validate_format_def depth_ok_def split: if_splits)
  show "20 \<le> unat w" "20 \<le> unat h" "\<exists>v. get_color f 0 0 0 = Some v"
    using assms by (auto simp: validate_format_def Let_def word_less_nat_alt not_less split: if_splits)
  show "w * of_nat (Bpp (bpp f)) \<le> pitch"
    using d assms by (elim depth_cases) (auto simp: validate_format_def Let_def Bpp_def word_less_nat_alt word_le_nat_alt not_less unat_ucast_32_64 split: if_splits)
qed

lemma new_fb_ok:
  assumes "validate_format w h pitch f = Some True" "unat h * unat pitch < 2 ^ 32" "unat w * Bpp (bpp f) < 2 ^ 32"
    and g: "fmt fb = f" "fb_width fb = w" "fb_height fb = h" "fb_pitch fb = pitch" "fb_nbytes fb = ucast (h * pitch)"
  shows "fb_ok fb" "unat (fb_nbytes fb) = unat h * unat pitch"
proof -
  note v = validate_format_cases[OF assms(1)]
  show nb: "unat (fb_nbytes fb) = unat h * unat pitch" using assms(2) by (simp add: g unat_ucast_32_64 unat_mult_32)
  have "unat (of_nat (Bpp (bpp f)) :: u32) = Bpp (bpp f)" using Bpp_pos[OF v(1)] by (simp add: unat_of_nat_32)
  then have "unat (w * of_nat (Bpp (bpp f))) = unat w * Bpp (bpp f)" using assms(3) unat_mult_32[of w "of_nat (Bpp (bpp f))"] by simp
  then have "unat w * Bpp (bpp f) \<le> unat pitch" using v(5) by (simp add: word_le_nat_alt)
  then show "fb_ok fb" unfolding fb_ok_def nb using v assms(2) by (simp add: g)
qed

lemma clear_screen:
  assumes "fb_ok fb" "buffers_ok fb m"
  shows "\<exists>m1 m'. clear_rows fb m 0 (unat (fb_height fb)) = Some m1 \<and> fbcon_flush fb m1 = Some m' \<and> buffers_ok fb m' \<and>
    (\<forall>i < unat (fb_height fb). bytes_at m' (get_row fb (of_nat i)) (row_bytes (bpp (fmt fb)) (replicate (unat (fb_width fb)) (c_background fb)))) \<and>
    (\<forall>i < unat (fb_nbytes fb). m' (fbmem fb + i) = m' (backbuf fb + i))"
proof -
  let ?n = "unat (fb_nbytes fb)" and ?m = "draw_rows fb 0 0 (blank fb) 0 (unat (fb_height fb)) m"
  have ft: "fits fb 0 0 (blank fb) (unat (fb_width fb)) 0 (unat (fb_height fb))" using assms(1) by (simp add: fits_def blank_def)
  have d: "clear_rows fb m 0 (unat (fb_height fb)) = Some ?m"
    using clear_rows_eq[of fb 0 0 "unat (fb_height fb)" m] ft assms(2) by (simp add: blank_def buffers_ok_def back_mapped_def)
  have "buffers_ok fb ?m" using assms(2) by (simp add: buffers_ok_def draw_rows_mapped)
  from flush_eq[OF this] obtain m' where fl: "fbcon_flush fb ?m = Some m'" "buffers_ok fb m'" "\<forall>i < ?n. m' (fbmem fb + i) = ?m (backbuf fb + i)"
    "\<forall>z. z < fbmem fb \<or> fbmem fb + ?n \<le> z \<longrightarrow> m' z = ?m z" by blast
  have same: "m' z = ?m z" if "backbuf fb \<le> z" "z < backbuf fb + ?n" for z using fl(4) assms(2) that by (auto simp: buffers_ok_def)
  have "bytes_at m' (get_row fb (of_nat i)) (row_bytes (bpp (fmt fb)) (replicate (unat (fb_width fb)) (c_background fb)))" if i: "i < unat (fb_height fb)" for i
  proof -
    let ?bs = "row_bytes (bpp (fmt fb)) (replicate (unat (fb_width fb)) (c_background fb))"
    have at: "bytes_at ?m (get_row fb (of_nat i)) ?bs" using draw_rows_content[OF ft, of i] i by (simp add: blank_def get_pixel_def)
    have u: "unat (of_nat i :: u32) = i" using i height_bound(1)[OF assms(1)] by (intro unat_of_nat_32) simp
    have "backbuf fb \<le> get_row fb (of_nat i)" "get_row fb (of_nat i) + length ?bs \<le> backbuf fb + ?n"
      using run_inside(2,3)[OF assms(1), of "of_nat i" 0 "unat (fb_width fb)"] i u fits_depth[OF ft] by (simp_all add: get_pixel_def)
    then show ?thesis using at same by (auto simp: bytes_at_def)
  qed
  then show ?thesis using d fl same by (intro exI[of _ ?m] exI[of _ m']) auto
qed

section \<open>Properties\<close>

text \<open>
  (C13) A message on a console whose two buffers are mapped and apart is always written: the handler is
  defined for every text, level and time, the cursor stays where a character fits, no byte outside of the
  two buffers changes, and in the end the framebuffer shows the back buffer.
\<close>

theorem fbcon_emit_safe:
  assumes "fb_ok fb" and "buffers_ok fb m" and "cursor_ok fb"
  shows "\<exists>fb' m'. fbcon_emit_message font fb m level t msg = Some (fb', m') \<and> fb_ok fb' \<and> buffers_ok fb' m' \<and> cursor_ok fb' \<and>
    (\<forall>i < unat (fb_nbytes fb). m' (fbmem fb + i) = m' (backbuf fb + i)) \<and>
    (\<forall>z. (z < backbuf fb \<or> backbuf fb + unat (fb_nbytes fb) \<le> z) \<and> (z < fbmem fb \<or> fbmem fb + unat (fb_nbytes fb) \<le> z) \<longrightarrow> m' z = m z)"
proof -
  obtain fb' m1 m' where e: "fbcon_emit_message font fb m level t msg = Some (fb', m')" "advances fb m fb' m1" "fbcon_flush fb' m1 = Some m'"
    using emit_message[OF assms] by blast
  have g: "fbmem fb' = fbmem fb" "backbuf fb' = backbuf fb" "fb_nbytes fb' = fb_nbytes fb" using e(2) by (auto simp: advances_def)
  note k = advances_keeps[OF e(2)]
  have f: "buffers_ok fb' m'" "\<forall>i < unat (fb_nbytes fb). m' (fbmem fb + i) = m1 (backbuf fb + i)"
    "\<forall>z. z < fbmem fb \<or> fbmem fb + unat (fb_nbytes fb) \<le> z \<longrightarrow> m' z = m1 z"
    using flush_eq[OF k(3)[OF assms(2)]] e(3) by (auto simp: g)
  have "m' (backbuf fb + i) = m1 (backbuf fb + i)" if "i < unat (fb_nbytes fb)" for i
    using f(3) assms(2) that by (auto simp: buffers_ok_def)
  moreover have "m1 z = m z" if "z < backbuf fb \<or> backbuf fb + unat (fb_nbytes fb) \<le> z" for z using e(2) that by (auto simp: advances_def)
  ultimately show ?thesis using e(1) k assms f by (intro exI[of _ fb'] exI[of _ m']) (simp, metis)
qed

definition sample_fb :: fbcon where
  "sample_fb = \<lparr>fmt = \<lparr>bpp = 8, red_offset = 5, green_offset = 2, blue_offset = 0, red_bits = 3, green_bits = 3, blue_bits = 2\<rparr>,
     fb_width = 20, fb_height = 20, fb_pitch = 20, fb_nbytes = 400, fbmem = 1000, backbuf = 2000, fb_flags = 0, cx = 0, cy = 0,
     c_background = 0, c_info = 1, c_notice = 2, c_warn = 3, c_err = 4, c_msgtime = 5\<rparr>"

lemma sample_fb: "fb_ok sample_fb" "buffers_ok sample_fb (\<lambda>_. Some 0)" "cursor_ok sample_fb" "back_mapped sample_fb (\<lambda>_. Some 0)"
  by (simp_all add: sample_fb_def fb_ok_def depth_ok_def Bpp_def buffers_ok_def cursor_ok_def back_mapped_def mapped_def font_defs)

theorem fbcon_emit_safe_witness:
  "\<exists>fb' m'. fbcon_emit_message (\<lambda>_. 255) sample_fb (\<lambda>_. Some 0) 2 1500000 ''boot'' = Some (fb', m') \<and> cursor_ok fb' \<and> m' 999 = Some 0 \<and> m' 3000 = Some 0"
proof -
  have "fbmem sample_fb = 1000" "backbuf sample_fb = 2000" "unat (fb_nbytes sample_fb) = 400" by (simp_all add: sample_fb_def)
  then show ?thesis using fbcon_emit_safe[OF sample_fb(1-3), of "\<lambda>_. 255" 2 1500000 "''boot''"] by fastforce
qed

text \<open>
  (C26) A character is drawn exactly: each of its 17 rows holds the pixels of the glyph followed by one pixel
  of background, the last row is background, and every other byte is as before.
\<close>

theorem fbcon_blit_exact:
  assumes "fb_ok fb" and "back_mapped fb m" and "unat x + SYMBOL_WIDTH \<le> unat (fb_width fb)" and "unat y + LINE_HEIGHT \<le> unat (fb_height fb)"
  shows "\<exists>m'. fbcon_blit_character font fb m c x y fg bg = Some m' \<and>
    (\<forall>j < LINE_HEIGHT. bytes_at m' (get_pixel fb (y + of_nat j) x) (row_bytes (bpp (fmt fb)) (glyph_pixels font c fg bg j))) \<and>
    (\<forall>z. (\<forall>j < LINE_HEIGHT. z < get_pixel fb (y + of_nat j) x \<or> get_pixel fb (y + of_nat j) x + SYMBOL_WIDTH * Bpp (bpp (fmt fb)) \<le> z) \<longrightarrow> m' z = m z)"
proof (intro exI conjI allI impI)
  note e = blit_eq[OF assms, of font c fg bg]
  show "fbcon_blit_character font fb m c x y fg bg = Some (draw_rows fb x y (glyph_pixels font c fg bg) 0 LINE_HEIGHT m)" by (rule e(1))
  show "bytes_at (draw_rows fb x y (glyph_pixels font c fg bg) 0 LINE_HEIGHT m) (get_pixel fb (y + of_nat j) x) (row_bytes (bpp (fmt fb)) (glyph_pixels font c fg bg j))"
    if "j < LINE_HEIGHT" for j using draw_rows_content[OF e(2), of j] that by simp
  show "draw_rows fb x y (glyph_pixels font c fg bg) 0 LINE_HEIGHT m z = m z"
    if "\<forall>j < LINE_HEIGHT. z < get_pixel fb (y + of_nat j) x \<or> get_pixel fb (y + of_nat j) x + SYMBOL_WIDTH * Bpp (bpp (fmt fb)) \<le> z" for z
    using that fits_depth[OF e(2)] by (intro draw_rows_elsewhere) simp
qed

lemma eight_columns: "FONT_WIDTH = Suc (Suc (Suc (Suc (Suc (Suc (Suc (Suc 0)))))))"
  by (simp add: FONT_WIDTH_def)

theorem fbcon_blit_exact_witness:
  "\<exists>m'. fbcon_blit_character (\<lambda>_. 0x18) sample_fb (\<lambda>_. Some 0) 65 2 1 7 0 = Some m' \<and> bytes_at m' 2022 [0, 0, 0, 7, 7, 0, 0, 0, 0]"
proof -
  have "glyph_colors 0x18 0x80 7 0 FONT_WIDTH = [0, 0, 0, 7, 7, 0, 0, 0]" unfolding eight_columns glyph_colors.simps by simp
  then have "row_bytes 8 (glyph_pixels (\<lambda>_. 0x18) 65 7 0 0) = [0, 0, 0, 7, 7, 0, 0, 0, 0]" by (simp add: glyph_pixels_def FONT_HEIGHT_def pixel_bytes_def Bpp_def)
  moreover have "get_pixel sample_fb (1 + of_nat 0) 2 = 2022" "bpp (fmt sample_fb) = 8" by (simp_all add: sample_fb_def get_pixel_def get_row_def)
  moreover have "unat (2 :: u32) + SYMBOL_WIDTH \<le> unat (fb_width sample_fb)" "unat (1 :: u32) + LINE_HEIGHT \<le> unat (fb_height sample_fb)" "0 < LINE_HEIGHT"
    by (simp_all add: sample_fb_def font_defs)
  ultimately show ?thesis using fbcon_blit_exact[OF sample_fb(1,4), of 2 1 "\<lambda>_. 0x18" 65 7 0] by metis
qed

text \<open>
  (C25) Scrolling by \<open>n\<close> rows moves every row \<open>n\<close> rows up, byte for byte although source and destination
  overlap, fills the last \<open>n\<close> rows with background, moves the cursor along, and changes nothing else.
\<close>

theorem fbcon_scroll_exact:
  assumes "fb_ok fb" and "back_mapped fb m" and "unat n \<le> unat (fb_height fb)"
  shows "\<exists>m'. fbcon_scroll fb m n = Some (fb\<lparr>cy := cy fb - n\<rparr>, m') \<and>
    (\<forall>r k. r + unat n < unat (fb_height fb) \<and> k < unat (fb_pitch fb) \<longrightarrow>
       m' (backbuf fb + (r * unat (fb_pitch fb) + k)) = m (backbuf fb + ((r + unat n) * unat (fb_pitch fb) + k))) \<and>
    (\<forall>j < unat n. bytes_at m' (get_row fb (fb_height fb - n + of_nat j)) (row_bytes (bpp (fmt fb)) (replicate (unat (fb_width fb)) (c_background fb)))) \<and>
    (\<forall>z. z < backbuf fb \<or> backbuf fb + unat (fb_nbytes fb) \<le> z \<longrightarrow> m' z = m z)"
proof -
  let ?h = "unat (fb_height fb)" and ?p = "unat (fb_pitch fb)"
  let ?l = "unat (fb_nbytes fb) - unat n * ?p" and ?a = "backbuf fb + unat n * ?p"
  have le: "unat n * ?p \<le> unat (fb_nbytes fb)" "unat (fb_nbytes fb) = ?h * ?p" using assms(1) mult_le_mono1[OF assms(3), of ?p] by (simp_all add: fb_ok_def)
  have "mapped m ?a ?l" by (rule mapped_sub[OF assms(2)[unfolded back_mapped_def]]) (use le in simp_all)
  then obtain bs where bs: "length bs = ?l" "bytes_at m ?a bs" using mapped_bytes_at by blast
  note e = scroll_eq[OF assms bs(2,1)]
  let ?m = "draw_rows fb 0 (fb_height fb - n) (blank fb) 0 (unat n) (write_at m (backbuf fb) bs)"
  have h: "unat (fb_height fb - n) = ?h - unat n" using assms(3) by (simp add: unat_sub word_le_nat_alt)
  have "?m (backbuf fb + (r * ?p + k)) = m (backbuf fb + ((r + unat n) * ?p + k))" if rk: "r + unat n < ?h" "k < ?p" for r k
  proof -
    have "(r + 1) * ?p \<le> (?h - unat n) * ?p" using rk(1) by (intro mult_le_mono1) simp
    then have b: "r * ?p + k < (?h - unat n) * ?p" using rk(2) by (simp add: add_mult_distrib)
    then have "?m (backbuf fb + (r * ?p + k)) = write_at m (backbuf fb) bs (backbuf fb + (r * ?p + k))" using draw_rows_outside[OF e(2)] h by simp
    also have "\<dots> = m (?a + (r * ?p + k))" using b bs le(2) by (simp add: write_at_def bytes_at_def diff_mult_distrib)
    also have "?a + (r * ?p + k) = backbuf fb + ((r + unat n) * ?p + k)" by (simp add: add_mult_distrib)
    finally show ?thesis .
  qed
  moreover have "bytes_at ?m (get_row fb (fb_height fb - n + of_nat j)) (row_bytes (bpp (fmt fb)) (replicate (unat (fb_width fb)) (c_background fb)))" if "j < unat n" for j
    using draw_rows_content[OF e(2), of j] that by (simp add: blank_def get_pixel_def)
  moreover have "?m z = m z" if "z < backbuf fb \<or> backbuf fb + unat (fb_nbytes fb) \<le> z" for z
    using draw_rows_in_buffer[OF e(2) that] that bs(1) by (subst write_at_outside[symmetric, of z "backbuf fb" bs]) auto
  ultimately show ?thesis using e(1) by blast
qed

definition striped :: bytes where "striped = (\<lambda>z. Some (of_nat ((z - 2000) div 20)))"

lemma row_bytes_black: "row_bytes 8 (replicate k 0) = replicate k 0"
  by (induction k) (simp_all add: pixel_bytes_def Bpp_def)

theorem fbcon_scroll_exact_witness:
  "\<exists>m'. fbcon_scroll sample_fb striped 17 = Some (sample_fb\<lparr>cy := - 17\<rparr>, m') \<and> m' 2045 = Some 19 \<and> bytes_at m' 2060 (replicate 20 0)"
proof -
  have g: "fb_height sample_fb = 20" "fb_pitch sample_fb = 20" "backbuf sample_fb = 2000" "cy sample_fb = 0" "fb_nbytes sample_fb = 400"
    "get_row sample_fb (20 - 17 + of_nat 0) = 2060" "row_bytes (bpp (fmt sample_fb)) (replicate (unat (fb_width sample_fb)) (c_background sample_fb)) = replicate 20 0"
    by (simp_all add: sample_fb_def get_row_def row_bytes_black)
  have "back_mapped sample_fb striped" by (simp add: back_mapped_def mapped_def striped_def)
  then obtain m' where m': "fbcon_scroll sample_fb striped 17 = Some (sample_fb\<lparr>cy := - 17\<rparr>, m')"
    "\<forall>r k. r + 17 < 20 \<and> k < 20 \<longrightarrow> m' (2000 + (r * 20 + k)) = striped (2000 + ((r + 17) * 20 + k))" "bytes_at m' 2060 (replicate 20 0)"
    using fbcon_scroll_exact[OF sample_fb(1), of striped 17] g by fastforce
  have "m' (2000 + (2 * 20 + 5)) = striped (2000 + ((2 + 17) * 20 + 5))" by (rule m'(2)[rule_format]) simp
  then show ?thesis using m' by (simp add: striped_def)
qed

text \<open>
  A framebuffer whose size fits into 32 bits and whose format is accepted is registered: it satisfies
  what drawing relies on, every pixel of the back buffer has the background colour, the framebuffer shows
  the same, and the console is the first of the list and the last registered one.
\<close>

theorem fbcon_add_ready:
  assumes "validate_format w h pitch f = Some True" and "unat h * unat pitch < 2 ^ 32" and "unat w * Bpp (bpp f) < 2 ^ 32"
    and "a \<noteq> 0" and "bb \<noteq> 0" and "mapped (fw_mem s) bb (unat h * unat pitch)" and "mapped (fw_mem s) fbm (unat h * unat pitch)"
    and "fbm + unat h * unat pitch \<le> bb \<or> bb + unat h * unat pitch \<le> fbm"
  shows "\<exists>s' fb. fbcon_add_framebuffer a w h pitch f fbm bb s = Some (a, s') \<and> fw_fbcons s' a = Some fb \<and>
    fmt fb = f \<and> backbuf fb = bb \<and> fbmem fb = fbm \<and> fb_ok fb \<and> buffers_ok fb (fw_mem s') \<and> cursor_ok fb \<and>
    (\<forall>i < unat h. bytes_at (fw_mem s') (get_row fb (of_nat i)) (row_bytes (bpp f) (replicate (unat w) (c_background fb)))) \<and>
    (\<forall>i < unat h * unat pitch. fw_mem s' (fbm + i) = fw_mem s' (bb + i)) \<and>
    console_list s' = a # console_list s \<and> fbcon_find_one s' = a"
proof -
  note v = validate_format_cases[OF assms(1)]
  let ?fb0 = "\<lparr>fmt = f, fb_width = w, fb_height = h, fb_pitch = pitch, fb_nbytes = ucast (h * pitch), fbmem = fbm, backbuf = bb, fb_flags = 0,
            cx = 0, cy = 0, c_background = 0, c_info = 0, c_notice = 0, c_warn = 0, c_err = 0, c_msgtime = 0\<rparr>"
  obtain b i n wa e t where c: "set_colors f ?fb0 = Some (?fb0\<lparr>c_background := b, c_info := i, c_notice := n, c_warn := wa, c_err := e, c_msgtime := t\<rparr>)"
    using set_colors_defined v(4) by blast
  define fb where "fb = ?fb0\<lparr>c_background := b, c_info := i, c_notice := n, c_warn := wa, c_err := e, c_msgtime := t\<rparr>"
  have g: "fmt fb = f" "fb_width fb = w" "fb_height fb = h" "fb_pitch fb = pitch" "fb_nbytes fb = ucast (h * pitch)" "fbmem fb = fbm" "backbuf fb = bb" "cx fb = 0" "cy fb = 0"
    by (simp_all add: fb_def)
  note ok = new_fb_ok[OF assms(1-3) g(1-5)]
  have cur: "cursor_ok fb" using v by (simp add: cursor_ok_def g font_defs)
  have "buffers_ok fb (fw_mem s)" unfolding buffers_ok_def ok(2) g(6,7) using assms by simp
  from clear_screen[OF ok(1) this] obtain m1 m' where m': "clear_rows fb (fw_mem s) 0 (unat h) = Some m1" "fbcon_flush fb m1 = Some m'" "buffers_ok fb m'"
    "\<forall>i < unat h. bytes_at m' (get_row fb (of_nat i)) (row_bytes (bpp f) (replicate (unat w) (c_background fb)))"
    "\<forall>i < unat h * unat pitch. m' (fbm + i) = m' (bb + i)" unfolding g(1-3,6,7) ok(2) by blast
  let ?s = "s\<lparr>fw_mem := m', fw_fbcons := (fw_fbcons s)(a \<mapsto> fb), console_list := a # console_list s, last_registered_fbcon := a\<rparr>"
  have "fbcon_add_framebuffer a w h pitch f fbm bb s = Some (a, ?s)"
    using assms(1,4,5) c[folded fb_def] m'(1,2) by (simp add: fbcon_add_framebuffer_def console_register_def Let_def g del: bind_Some_iff)
  then show ?thesis using m' ok cur g by (intro exI[of _ ?s] exI[of _ fb]) (simp add: fbcon_find_one_def)
qed

definition sample_format :: fbcon_format where
  "sample_format = \<lparr>bpp = 8, red_offset = 5, green_offset = 2, blue_offset = 0, red_bits = 3, green_bits = 3, blue_bits = 2\<rparr>"

definition sample_world :: "mm \<Rightarrow> fb_world" where
  "sample_world s = \<lparr>fw_mm = s, fw_mem = (\<lambda>_. Some 0), fw_stale = (\<lambda>_. 0), fw_fbcons = (\<lambda>_. None), console_list = [], last_registered_fbcon = 0\<rparr>"

lemma sample_valid: "validate_format 20 20 20 sample_format = Some True" "validate_format 20 20 0x10000 sample_format = Some True"
  by (simp_all add: validate_format_def sample_format_def get_color_def channel_def shl32_def clamp255_def Let_def push_bit_eq_mult drop_bit_eq_div)

theorem fbcon_add_ready_witness:
  "\<exists>s' fb. fbcon_add_framebuffer 1 20 20 20 sample_format 1000 2000 (sample_world undefined) = Some (1, s') \<and>
     fw_fbcons s' 1 = Some fb \<and> fb_ok fb \<and> cursor_ok fb \<and> fbcon_find_one s' = 1"
  using fbcon_add_ready[OF sample_valid(1), of 1 2000 "sample_world undefined" 1000] by (auto simp: sample_world_def sample_format_def mapped_def Bpp_def)

text \<open>
  The height of a framebuffer is never too large for the format check: the product with the pitch is
  taken in 32 bits before it is compared with the largest 32-bit number, so every height from 20 on is
  judged alike, and the recorded size is the true size reduced modulo \<open>2 ^ 32\<close>.
\<close>

theorem validate_format_wraps:
  assumes "20 \<le> h" and "20 \<le> h'"
  shows "validate_format w h pitch f = validate_format w h' pitch f \<and>
    unat (ucast (h * pitch) :: u64) = unat h * unat pitch mod 2 ^ 32"
proof -
  have "\<not> (ucast x :: u64) > 0xffffffff" for x :: u32
  proof -
    have "unat x < 2 ^ 32" using unsigned_less[of x] by simp
    then show ?thesis by (simp add: word_less_nat_alt unat_ucast_32_64)
  qed
  then show ?thesis using assms by (simp add: validate_format_def Let_def not_less[symmetric] unat_ucast_32_64 unat_word_ariths)
qed

theorem validate_format_wraps_witness:
  "validate_format 20 0x10000 0x10000 sample_format = Some True \<and> unat (ucast (0x10000 * 0x10000 :: u32) :: u64) = 0"
  using validate_format_wraps[of "0x10000" 20 20 "0x10000" sample_format] sample_valid(2) by simp

end
