(* ===== verification/Acpi_Subtable.thy ===== *)
theory Acpi_Subtable
  imports Util_String
begin

text \<open>
  The walk over the entries of an ACPI table (\<^verbatim>\<open>acpi/parse_subtable.cc\<close>), as used for the interrupt controllers and
  processors of a system. The table is a range of the byte memory; the callback is an argument that may
  change a state of its own and asks to go on or to stop. A walk that does not end is \<^const>\<open>None\<close>, as is a read from
  unmapped memory.
\<close>

section \<open>Operations\<close>

datatype uacpi_iteration_decision =
  UACPI_ITERATION_DECISION_CONTINUE | UACPI_ITERATION_DECISION_BREAK | UACPI_ITERATION_DECISION_NEXT_PEER

definition read32 :: "bytes \<Rightarrow> nat \<Rightarrow> nat option" where
  "read32 m a = do {
     b0 \<leftarrow> m a; b1 \<leftarrow> m (a + 1); b2 \<leftarrow> m (a + 2); b3 \<leftarrow> m (a + 3);
     Some (unat b0 + 256 * unat b1 + 65536 * unat b2 + 16777216 * unat b3)
   }"

definition sdt_length :: "bytes \<Rightarrow> nat \<Rightarrow> nat option" where "sdt_length m header = read32 m (header + 4)"

definition entry_length :: "bytes \<Rightarrow> nat \<Rightarrow> nat option" where "entry_length m entry = map_option unat (m (entry + 1))"

partial_function (option) subtable_loop :: "bytes \<Rightarrow> (nat \<Rightarrow> 's \<Rightarrow> 's \<times> uacpi_iteration_decision) \<Rightarrow> nat \<Rightarrow> nat \<Rightarrow> 's \<Rightarrow> ('s \<times> uacpi_iteration_decision) option" where
  "subtable_loop m callback at fin s = (
     if at < fin then
       let (s, decision) = callback at s in
       if decision = UACPI_ITERATION_DECISION_BREAK then Some (s, decision)
       else do {
         n \<leftarrow> entry_length m at;
         subtable_loop m callback (at + n) fin s
       }
     else Some (s, UACPI_ITERATION_DECISION_CONTINUE))"

definition acpi_parse_subtable :: "bytes \<Rightarrow> nat \<Rightarrow> nat \<Rightarrow> (nat \<Rightarrow> 's \<Rightarrow> 's \<times> uacpi_iteration_decision) \<Rightarrow> 's \<Rightarrow> ('s \<times> uacpi_iteration_decision) option" where
  "acpi_parse_subtable m header header_len callback s = do {
     n \<leftarrow> sdt_length m header;
     subtable_loop m callback (header + header_len) (header + n) s
   }"

section \<open>Entries\<close>

text \<open>The entries of a table up to the first one without a length, and whether there is such a one.\<close>

function entries :: "bytes \<Rightarrow> nat \<Rightarrow> nat \<Rightarrow> nat list" where
  "entries m at fin = (if at < fin then at # (case entry_length m at of
       Some n \<Rightarrow> if n = 0 then [] else entries m (at + n) fin
     | None \<Rightarrow> []) else [])"
  by pat_completeness auto
termination
  by (relation "measure (\<lambda>(m, at, fin). fin - at)") auto

function entries_ok :: "bytes \<Rightarrow> nat \<Rightarrow> nat \<Rightarrow> bool" where
  "entries_ok m at fin = (at < fin \<longrightarrow> (case entry_length m at of
       Some n \<Rightarrow> n \<noteq> 0 \<and> (if n = 0 then True else entries_ok m (at + n) fin)
     | None \<Rightarrow> False))"
  by pat_completeness auto
termination
  by (relation "measure (\<lambda>(m, at, fin). fin - at)") auto

declare entries.simps [simp del] entries_ok.simps [simp del]

fun visit :: "(nat \<Rightarrow> 's \<Rightarrow> 's \<times> uacpi_iteration_decision) \<Rightarrow> nat list \<Rightarrow> 's \<Rightarrow> 's \<times> uacpi_iteration_decision" where
  "visit callback [] s = (s, UACPI_ITERATION_DECISION_CONTINUE)"
| "visit callback (e # es) s = (case callback e s of (s, d) \<Rightarrow> if d = UACPI_ITERATION_DECISION_BREAK then (s, d) else visit callback es s)"

lemma subtable_loop_visit: "entries_ok m at fin \<Longrightarrow> subtable_loop m callback at fin s = Some (visit callback (entries m at fin) s)"
proof (induction m at fin arbitrary: s rule: entries.induct)
  case (1 m at fin)
  show ?case
  proof (cases "at < fin")
    case True
    then obtain n where n: "entry_length m at = Some n" "n \<noteq> 0" "entries_ok m (at + n) fin"
      using "1.prems" by (subst (asm) entries_ok.simps) (auto split: option.splits)
    then show ?thesis using True "1.IH"[OF True n(1,2,3)]
      by (subst subtable_loop.simps, subst entries.simps) (auto simp: case_prod_unfold Let_def)
  next
    case False
    then show ?thesis by (subst subtable_loop.simps, subst entries.simps) simp
  qed
qed

lemma subtable_loop_stuck:
  assumes "entry_length m at = Some 0" "at < fin" "\<And>s. snd (callback at s) \<noteq> UACPI_ITERATION_DECISION_BREAK"
  shows "subtable_loop m callback at fin s \<noteq> Some r"
proof
  assume "subtable_loop m callback at fin s = Some r"
  then have "entry_length m at = Some 0 \<longrightarrow> at < fin \<longrightarrow> (\<forall>s. snd (callback at s) \<noteq> UACPI_ITERATION_DECISION_BREAK) \<longrightarrow> False"
    by (induction rule: subtable_loop.raw_induct[rotated 1, consumes 1])
      (auto simp: case_prod_unfold Let_def split: if_splits)
  then show False using assms by blast
qed

lemma subtable_loop_defined:
  assumes "\<And>e s. snd (callback e s) \<noteq> UACPI_ITERATION_DECISION_BREAK"
  shows "subtable_loop m callback at fin s = Some r \<Longrightarrow> entries_ok m at fin"
proof (induction m at fin arbitrary: s rule: entries_ok.induct)
  case (1 m at fin)
  show ?case
  proof (cases "at < fin")
    case True
    obtain s' d where s': "callback at s = (s', d)" "d \<noteq> UACPI_ITERATION_DECISION_BREAK" using assms[of at s] by (cases "callback at s") auto
    obtain n where n: "entry_length m at = Some n" "subtable_loop m callback (at + n) fin s' = Some r"
      using "1.prems" True s' by (subst (asm) subtable_loop.simps) auto
    have "n \<noteq> 0" using subtable_loop_stuck[of m at fin callback s r] n(1) True assms "1.prems" by auto
    then show ?thesis using "1.IH"[OF True n(1) \<open>n \<noteq> 0\<close> n(2)] n(1) True by (subst entries_ok.simps) simp
  qed (subst entries_ok.simps, simp)
qed

section \<open>Properties\<close>

text \<open>
  (C35) The walk over a table whose entries all have a length ends after visiting the entries in order, up to the first
  one at which the callback stops it; and for a callback that never stops, it ends only then: an entry of length zero
  keeps it in place forever.
\<close>

theorem acpi_subtable_walk:
  assumes "sdt_length m header = Some n"
  shows "(entries_ok m (header + header_len) (header + n) \<longrightarrow>
      acpi_parse_subtable m header header_len callback s = Some (visit callback (entries m (header + header_len) (header + n)) s)) \<and>
    ((\<forall>e t. snd (callback e t) \<noteq> UACPI_ITERATION_DECISION_BREAK) \<longrightarrow>
      ((\<exists>r. acpi_parse_subtable m header header_len callback s = Some r) \<longleftrightarrow> entries_ok m (header + header_len) (header + n)))"
  using assms subtable_loop_visit[of m "header + header_len" "header + n" callback s] subtable_loop_defined[of callback m "header + header_len" "header + n" s]
  by (auto simp: acpi_parse_subtable_def)

definition sample_table :: bytes where
  "sample_table = (\<lambda>a. if a = 4 then Some 16 else if a < 8 then Some 0 else if a = 9 then Some 2 else if a = 11 then Some 6 else if a < 16 then Some 1 else None)"

lemma sample_table: "sdt_length sample_table 0 = Some 16" "entry_length sample_table 8 = Some 2" "entry_length sample_table 10 = Some 6"
  by (simp_all add: sample_table_def sdt_length_def read32_def entry_length_def)

theorem acpi_subtable_walk_witness:
  "acpi_parse_subtable sample_table 0 8 (\<lambda>e es. (es @ [e], UACPI_ITERATION_DECISION_CONTINUE)) [] = Some ([8, 10], UACPI_ITERATION_DECISION_CONTINUE)"
proof -
  have "entries sample_table 8 16 = [8, 10]" "entries_ok sample_table 8 16"
    by (simp_all add: entries.simps[of _ _ 16] entries_ok.simps[of _ _ 16] sample_table)
  then show ?thesis using acpi_subtable_walk[OF sample_table(1), of 8 "\<lambda>e es. (es @ [e], UACPI_ITERATION_DECISION_CONTINUE)" "[]"] by simp
qed

end
