(* ===== verification/Spec2Isabelle.thy ===== *)
theory Spec2Isabelle
  imports Dsl_Align Dsl_List Dsl_HList Dsl_Tree Dsl_AVL Dsl_VMA Util_String Util_Vsnprintf Kernel_Sched Kernel_Mutex_Props Kernel_RWMutex
    Kernel_Rcu_Levels Kernel_Ktimer Kernel_Dpc Kernel_Cpuset Kernel_Cmdline Mm_Early_Alloc Mm_Slab_Props Mm_Vmap Drivers_Fbcon_Props Acpi_Subtable
begin

text \<open>
  Verification of the davix kernel, a multiprocessor kernel for x86 in C++. All paths below are relative to \<^verbatim>\<open>src/\<close>.

  \<^bold>\<open>The program.\<close> \<^verbatim>\<open>include/dsl\<close> and \<^verbatim>\<open>dsl\<close> are a template library of intrusive containers: two linked lists, an AVL tree and an
  AVL tree of address ranges that knows the free gap in front of each range. \<^verbatim>\<open>util\<close> has the string functions and
  formatted output. \<^verbatim>\<open>mm\<close> allocates memory: while booting from a list of blocks, later by pages, on top of these by objects
  of one size (slabs, kmalloc), and it assigns kernel addresses to mappings with the tree of ranges. \<^verbatim>\<open>kernel\<close> schedules
  tasks; the mutex sleeps and wakes through the tickets of the scheduler, the reader-writer mutex is made of two
  mutexes; deferred procedure calls (DPCs) run the timers and the callbacks of RCU; messages go
  through vsnprintf to the consoles, one of which, \<^verbatim>\<open>drivers/fbcon\<close>, draws on a framebuffer.

  \<^bold>\<open>Conventions.\<close> Undefined behaviour (a null or dangling pointer, unmapped memory, signed overflow), a panic and a loop that does
  not end are all the value \<^const>\<open>None\<close> of the option monad, so that a statement that an operation is \<^const>\<open>Some\<close> result says that
  it ends and is defined. Loops are structural recursion, a \<^verbatim>\<open>function\<close> with a termination proof, or a
  \<^verbatim>\<open>partial_function (option)\<close> where they may run forever; no definition takes fuel. Machine integers are words of their width
  where they can wrap around; where natural numbers stand for them, the opening text of the theory says so. Pointer structures live
  on explicit heaps, maps from addresses to records, and \<^verbatim>\<open>container_of\<close> is the identity on addresses. What comes
  from outside is an argument: the clock, the callbacks, the glyphs of the font, the number of processors.

  \<^bold>\<open>Theories.\<close>
  \<^item> \<^verbatim>\<open>Davix_Prelude\<close>: types, the option monad and arithmetic of 64-bit words, used everywhere.
  \<^item> \<^verbatim>\<open>Dsl_Align\<close>: \<^verbatim>\<open>minmax.h\<close>, \<^verbatim>\<open>align.h\<close>, \<^verbatim>\<open>interval.h\<close>. Rounding gives the nearest multiple, or wraps to zero at the
    end of the address space.
  \<^item> \<^verbatim>\<open>Dsl_List\<close>: \<^verbatim>\<open>list.h\<close>. The ring of pointers refines a sequence; locales \<open>linked_queue\<close> and \<open>linked_stack\<close> give
    what DPCs and other clients rely on.
  \<^item> \<^verbatim>\<open>Dsl_HList\<close>: \<^verbatim>\<open>hlist.h\<close>. Each operation acts on the sequence of entries and on no other list.
  \<^item> \<^verbatim>\<open>Dsl_Tree\<close>: trees with parent pointers, as paths and subtrees; rotation and rebalancing are proved once, in the locales
    \<open>tree_rotation\<close>, \<open>tree_fixup\<close> and \<open>augmentation\<close>, for both trees.
  \<^item> \<^verbatim>\<open>Dsl_AVL\<close>: \<^verbatim>\<open>avltree.h\<close>, \<^verbatim>\<open>avlfixup.cc\<close>. Insertion and removal change exactly the node, insertion keeps the balance; a tree is a
    stable priority queue (\<open>ordered_queue\<close>). Removal of a node with two children may lose the balance, which is shown on a
    concrete tree.
  \<^item> \<^verbatim>\<open>Dsl_VMA_Tree\<close>, \<^verbatim>\<open>Dsl_VMA_Remove\<close>, \<^verbatim>\<open>Dsl_VMA_Find\<close>, \<^verbatim>\<open>Dsl_VMA\<close>: \<^verbatim>\<open>vmatree.h\<close>, \<^verbatim>\<open>vmamodify.cc\<close>, \<^verbatim>\<open>vmafind.cc\<close>. Every modification keeps
    the tree ordered and balanced and all gaps exact; the searches for a hole end and find the lowest and the highest
    one; the locale \<open>range_space\<close> is the contract of a set of disjoint ranges, interpreted on the tree.
  \<^item> \<^verbatim>\<open>Util_String\<close>, \<^verbatim>\<open>Util_Vsnprintf\<close>: \<^verbatim>\<open>string.cc\<close>, \<^verbatim>\<open>vsnprintf.cc\<close>. Exact effects on byte memory; output is the
    rendered text cut to the buffer, and numbers can be read back.
  \<^item> \<^verbatim>\<open>Kernel_Sched\<close>: \<^verbatim>\<open>sched/main.cc\<close>. While a task is runnable the queues stay consistent, a task of the highest priority runs, and equal ones take
    turns; the switch to the idle task reads outside an array; the lock-free race between waking and leaving the processor enqueues a task exactly once.
  \<^item> \<^verbatim>\<open>Kernel_Mutex\<close>, \<^verbatim>\<open>Kernel_Mutex_Inv\<close>, \<^verbatim>\<open>Kernel_Mutex_Props\<close>: \<^verbatim>\<open>mutex.cc\<close> as a step relation, its invariant, and mutual exclusion, progress,
    no lost wakeup and the error results.
  \<^item> \<^verbatim>\<open>Kernel_RWMutex\<close>: \<^verbatim>\<open>rwmutex.cc\<close> as a step relation. Writers exclude all others, and no interleaving deadlocks.
  \<^item> \<^verbatim>\<open>Kernel_Rcu\<close>, \<^verbatim>\<open>Kernel_Rcu_Props\<close>: \<^verbatim>\<open>rcu.cc\<close>, an operation being one step. No callback before the end of its grace period; a second
    callback replaces the first, and a processor that becomes idle can stop the generations.
  \<^item> \<^verbatim>\<open>Kernel_Rcu_Levels\<close>: the same operations with one step for each level of the tree, as the code locks it. A processor left alone does what the
    whole operation does; overlapping operations can lose an active processor, and a callback is then called too early.
  \<^item> \<^verbatim>\<open>Kernel_Ktimer\<close>, \<^verbatim>\<open>Kernel_Dpc\<close>, \<^verbatim>\<open>Kernel_Cpuset\<close>, \<^verbatim>\<open>Kernel_Cmdline\<close>: \<^verbatim>\<open>ktimer.cc\<close>, \<^verbatim>\<open>dpc.cc\<close>, \<^verbatim>\<open>cpuset.cc\<close> and the command line
    of \<^verbatim>\<open>main.cc\<close>. Timers fire in order, none too early, and none is missed as long as DPCs are dispatched between two interrupts; a second
    interrupt before that links the timer DPC twice and makes the dispatch undefined. DPCs run once and in order; iteration over processors visits the
    members; a parameter is found where it is.
  \<^item> \<^verbatim>\<open>Mm_Early_Alloc\<close>, \<^verbatim>\<open>Mm_Page_Alloc\<close>, \<^verbatim>\<open>Mm_Slab\<close>, \<^verbatim>\<open>Mm_Slab_Inv\<close>, \<^verbatim>\<open>Mm_Slab_Props\<close>, \<^verbatim>\<open>Mm_Vmap\<close>: the files of the same
    names in \<^verbatim>\<open>mm\<close>. Allocations come from free memory, meet size, alignment and address limits and do not overlap; the page allocator
    is a \<open>page_source\<close>; mappings have guard pages.
  \<^item> \<^verbatim>\<open>Drivers_Fbcon\<close>, \<^verbatim>\<open>Drivers_Fbcon_Props\<close>: \<^verbatim>\<open>printk.cc\<close> and \<^verbatim>\<open>fbcon.cc\<close>. Characters and scrolling are drawn exactly, and no message
    writes outside of the buffers.
  \<^item> \<^verbatim>\<open>Acpi_Subtable\<close>: \<^verbatim>\<open>parse_subtable.cc\<close>. The walk visits the entries in order, and ends unless one has length zero.

  \<^bold>\<open>Idealisations.\<close> Memory is sequentially consistent. A section under a spinlock, or with interrupts off on data of one processor,
  is one step; so is an operation of RCU, except in \<^verbatim>\<open>Kernel_Rcu_Levels\<close>, and \<^verbatim>\<open>rcu_call\<close> everywhere. The memory of the slab allocator consists of objects, not
  bytes; \<^verbatim>\<open>schedule\<close> only records that it calls \<^verbatim>\<open>rcu_quiesce\<close>. The steps of the mutex are single accesses, those of the reader-writer
  mutex single accesses or calls of a mutex that is locked or not and may be released by another task than its owner. Interrupts come between operations of the timer queue. The effect of callbacks of RCU, timers and DPCs is
  not modelled, only that and in which order they are called. The ticket of a sleeping task is a natural number: it is incremented
  once per sleep, and 64 bits are taken not to wrap around. At most \<open>2^64 - 1\<close> tasks use a reader-writer mutex. The heights
  of the trees are integers, since a tree that overflows them does not fit into memory.

  \<^bold>\<open>Not modelled.\<close> \<^verbatim>\<open>acpi/uacpi\<close> is an unmodified copy of a library, of which only the layouts of two headers are used; \<^verbatim>\<open>acpi/osl.cc\<close> are
  its accesses to the hardware. \<^verbatim>\<open>arch/x86\<close> is, apart from the zones and page constants, assembly, descriptor tables, interrupt
  controllers, page tables and start of processors, whose meaning is that of the hardware; for the same reason the part of
  \<^verbatim>\<open>vmap.cc\<close> that writes page tables, \<^verbatim>\<open>smp.cc\<close> and \<^verbatim>\<open>panic.cc\<close> are left out. \<^verbatim>\<open>start_kernel\<close> of \<^verbatim>\<open>main.cc\<close> only calls the
  subsystems in turn. \<^verbatim>\<open>condwait.cc\<close> waits for an arbitrary condition on shared memory, and \<^verbatim>\<open>sched/timeout.cc\<close> is included in the model of
  the mutex as the wakeup of a sleeping task. \<^verbatim>\<open>refcount.h\<close> and \<^verbatim>\<open>atomic.h\<close> are wrappers of atomic operations, and nothing calls \<^verbatim>\<open>refstr.cc\<close> yet. \<^verbatim>\<open>fs_types.h\<close>, \<^verbatim>\<open>path.h\<close>
  and the type utilities of \<^verbatim>\<open>dsl\<close> have no behaviour; \<^verbatim>\<open>ktest\<close> are tests.
\<close>

end
